(* ===== verification/Prelude.thy ===== *)
theory Prelude
  imports Main "HOL-Library.Word"
begin

text \<open>
  Shared vocabulary of the development: the byte and size types of the wire code, the
  named collections the component proofs extend, and generic facts on lists, options,
  words and characters that several components use.

  Conventions of every theory: \<open>std::string\<close> and \<open>std::string_view\<close> used as byte
  buffers are \<open>bytes\<close>, used as text they are \<open>string\<close>; \<open>size_t\<close> values that only
  count elements of an existing container are \<open>nat\<close>; fixed-width integers whose
  wrap-around or masking matters are words; \<open>int64_t\<close> time stamps and identifiers
  are \<open>int\<close>.
\<close>

unbundle bit_operations_syntax

section \<open>Types of the wire code\<close>

type_synonym byte = "8 word"
type_synonym bytes = "byte list"
type_synonym u16 = "16 word"
type_synonym u32 = "32 word"
type_synonym u64 = "64 word"

text \<open>The bytes of a text literal of the source.\<close>

definition byte_string :: "string \<Rightarrow> bytes" where
  "byte_string s = map of_char s"

section \<open>Named collections\<close>

named_theorems wire_defs \<open>definitions of the byte-level codecs\<close>
named_theorems wire_simps \<open>rewrite rules of the byte-level codecs\<close>
named_theorems guard_defs \<open>definitions of the guard's decision functions\<close>
named_theorems calendar_defs \<open>definitions of the calendar arithmetic\<close>

section \<open>Lists\<close>

lemma drop_append_le: "n \<le> length xs \<Longrightarrow> drop n (xs @ ys) = drop n xs @ ys"
  by simp

lemma take_append_le: "n \<le> length xs \<Longrightarrow> take n (xs @ ys) = take n xs"
  by simp

lemma nth_append_lt: "n < length xs \<Longrightarrow> (xs @ ys) ! n = xs ! n"
  by (simp add: nth_append)

lemma list_length4E:
  assumes "length xs = 4"
  obtains a b c d where "xs = [a, b, c, d]"
  using assms by (auto simp: length_Suc_conv eval_nat_numeral)

lemma list_length2E:
  assumes "length xs = 2"
  obtains a b where "xs = [a, b]"
  using assms by (auto simp: length_Suc_conv eval_nat_numeral)

lemma list_length12E:
  assumes "length xs = 12"
  obtains a b c d e f g h i j k l where "xs = [a, b, c, d, e, f, g, h, i, j, k, l]"
  using assms by (auto simp: length_Suc_conv eval_nat_numeral)

lemma foldl_fixpoint: "(\<And>x. x \<in> set xs \<Longrightarrow> f s x = s) \<Longrightarrow> foldl f s xs = s"
  by (induction xs) auto

section \<open>Words\<close>

text \<open>Masking with \<open>0xFF\<close>, as every byte extraction of the sources does.\<close>

lemma and_0xFF [wire_simps]: "w AND 255 = take_bit 8 (w :: 'a::len word)"
  by (simp add: take_bit_eq_mask mask_eq_exp_minus_1)

lemma bit_byte_out [simp]: "\<not> bit (b :: byte) (8 + n)"
  using bit_imp_le_length [of b "8 + n"] by auto

lemma word_one_le: "1 \<le> w \<longleftrightarrow> w \<noteq> (0 :: 'a::len word)"
  by (simp add: linorder_not_less [symmetric])

lemma unat_byte_lt: "unat (b :: byte) < 256"
  using unsigned_less [of b] by simp

lemma unat_ucast_byte_u16: "unat (ucast (b :: byte) :: u16) = unat b"
  using unat_byte_lt [of b] by (simp add: unsigned_ucast_eq take_bit_nat_eq_self)

lemma unat_u16_lt: "unat (w :: u16) < 65536"
  using unsigned_less [of w] by simp

lemma unat_u32_lt: "unat (w :: u32) < 4294967296"
  using unsigned_less [of w] by simp

lemma unat_of_nat_u32: "n < 4294967296 \<Longrightarrow> unat (of_nat n :: u32) = n"
  by (simp add: unat_of_nat take_bit_nat_eq_self)

section \<open>Truncating division\<close>

text \<open>
  C++ integer division truncates towards zero. \<open>tdiv\<close> and \<open>tmod\<close> are its quotient
  and remainder over \<open>int\<close>; a zero divisor does not occur in the code that uses them.
\<close>

definition tdiv :: "int \<Rightarrow> int \<Rightarrow> int" where
  "tdiv a b = sgn a * sgn b * (\<bar>a\<bar> div \<bar>b\<bar>)"

definition tmod :: "int \<Rightarrow> int \<Rightarrow> int" where
  "tmod a b = a - tdiv a b * b"

lemma tdiv_nonneg: "0 \<le> a \<Longrightarrow> 0 < b \<Longrightarrow> tdiv a b = a div b"
  by (cases "a = 0") (simp_all add: tdiv_def)

lemma tmod_nonneg: "0 \<le> a \<Longrightarrow> 0 < b \<Longrightarrow> tmod a b = a mod b"
  by (simp add: tmod_def tdiv_nonneg minus_div_mult_eq_mod)

section \<open>Narrowing to a C++ \<open>int\<close>\<close>

text \<open>The value of a \<open>static_cast<int>\<close>: the low 32 bits, read as a signed number.\<close>

definition to_int32 :: "int \<Rightarrow> int" where
  "to_int32 x = signed_take_bit 31 x"

lemma to_int32_id: "- 2147483648 \<le> x \<Longrightarrow> x \<le> 2147483647 \<Longrightarrow> to_int32 x = x"
  by (simp add: to_int32_def signed_take_bit_int_eq_self_iff)

end
