(* ===== verification/Stream_Parser.thy ===== *)
theory Stream_Parser
  imports Prelude
begin

text \<open>
  The interface of the two incremental frame parsers of the tunnel
  (\<open>services/tunnel/src/protocol/frames.cc\<close> and
  \<open>services/tunnel/src/link/protocol/frames.cc\<close>): a step function that looks at the
  front of a byte buffer and asks for more bytes, emits one frame with its size, or
  refuses, and the loop that applies it at growing offsets of a buffer. What both
  parsers owe their callers (how the input is cut into reads does not matter, encoded
  frames come back) is proved here once, from the laws of the step function.
\<close>

datatype ('f, 'e) parse_step = NeedMore | Emit 'f nat | Refuse 'e

locale incremental_parser =
  fixes step :: "bytes \<Rightarrow> ('f, 'e) parse_step"
    and run :: "bytes \<Rightarrow> nat \<Rightarrow> 'f list \<Rightarrow> nat \<times> 'f list \<times> 'e option"
  assumes emit_size: "step b = Emit f n \<Longrightarrow> 0 < n \<and> n \<le> length b"
    and emit_stable: "step b = Emit f n \<Longrightarrow> step (b @ c) = Emit f n"
    and refuse_stable: "step b = Refuse e \<Longrightarrow> step (b @ c) = Refuse e"
    and run_more: "step (drop off b) = NeedMore \<Longrightarrow> run b off fs = (off, fs, None)"
    and run_refuse: "step (drop off b) = Refuse e \<Longrightarrow> run b off fs = (off, fs, Some e)"
    and run_emit: "step (drop off b) = Emit f n \<Longrightarrow> run b off fs = run b (off + n) (fs @ [f])"
begin

lemma emit_offset:
  assumes "step (drop off b) = Emit f n"
  shows "0 < n" "off + n \<le> length b" "off < length b"
  using emit_size [OF assms] by auto

lemma run_offset_le:
  "off \<le> length b \<Longrightarrow> run b off fs = (off', gs, e) \<Longrightarrow> off \<le> off' \<and> off' \<le> length b"
proof (induction "length b - off" arbitrary: off fs rule: less_induct)
  case less
  show ?case
  proof (cases "step (drop off b)")
    case (Emit f n)
    note pos = emit_offset [OF Emit]
    have "run b (off + n) (fs @ [f]) = (off', gs, e)"
      using less.prems Emit by (simp add: run_emit)
    then have "off + n \<le> off' \<and> off' \<le> length b"
      using less.hyps [of "off + n"] pos by simp
    then show ?thesis by simp
  qed (use less.prems in \<open>auto simp: run_more run_refuse\<close>)
qed

lemma run_frames_prefix: "\<exists>new. fst (snd (run b off fs)) = fs @ new"
proof (induction "length b - off" arbitrary: off fs rule: less_induct)
  case less
  show ?case
  proof (cases "step (drop off b)")
    case (Emit f n)
    note pos = emit_offset [OF Emit]
    obtain new where "fst (snd (run b (off + n) (fs @ [f]))) = (fs @ [f]) @ new"
      using less.hyps [of "off + n"] pos by fastforce
    then show ?thesis using Emit by (simp add: run_emit)
  qed (auto simp: run_more run_refuse)
qed

text \<open>Stopping for lack of bytes and resuming on a longer buffer is the same as running on it.\<close>

lemma run_resume:
  assumes "off \<le> length b" "run b off fs = (off', gs, None)"
  shows "run (b @ c) off fs = run (b @ c) off' gs"
  using assms
proof (induction "length b - off" arbitrary: off fs rule: less_induct)
  case less
  show ?case
  proof (cases "step (drop off b)")
    case (Emit f n)
    note pos = emit_offset [OF Emit]
    have "step (drop off (b @ c)) = Emit f n"
      using less.prems(1) Emit by (simp add: emit_stable)
    then have "run (b @ c) off fs = run (b @ c) (off + n) (fs @ [f])"
      by (rule run_emit)
    also have "\<dots> = run (b @ c) off' gs"
      using less.prems Emit pos by (intro less.hyps) (auto simp: run_emit)
    finally show ?thesis .
  qed (use less.prems in \<open>auto simp: run_more run_refuse\<close>)
qed

lemma run_refused:
  assumes "off \<le> length b" "run b off fs = (off', gs, Some e)"
  shows "run (b @ c) off fs = (off', gs, Some e)"
  using assms
proof (induction "length b - off" arbitrary: off fs rule: less_induct)
  case less
  show ?case
  proof (cases "step (drop off b)")
    case (Emit f n)
    note pos = emit_offset [OF Emit]
    have "step (drop off (b @ c)) = Emit f n"
      using less.prems(1) Emit by (simp add: emit_stable)
    then have "run (b @ c) off fs = run (b @ c) (off + n) (fs @ [f])"
      by (rule run_emit)
    also have "\<dots> = (off', gs, Some e)"
      using less.prems Emit pos by (intro less.hyps) (auto simp: run_emit)
    finally show ?thesis .
  next
    case (Refuse e')
    then have "step (drop off (b @ c)) = Refuse e'"
      using less.prems(1) by (simp add: refuse_stable)
    then show ?thesis using less.prems Refuse by (simp add: run_refuse)
  qed (use less.prems in \<open>auto simp: run_more\<close>)
qed

text \<open>Erasing the consumed front of the buffer only shifts the offsets.\<close>

lemma run_erase:
  assumes "run (drop k b) off fs = (off', gs, e)"
  shows "run b (k + off) fs = (k + off', gs, e)"
  using assms
proof (induction "length b - off" arbitrary: off fs rule: less_induct)
  case less
  have shift: "drop off (drop k b) = drop (k + off) b"
    by (simp add: add.commute)
  show ?case
  proof (cases "step (drop off (drop k b))")
    case (Emit f n)
    note pos = emit_offset [OF Emit]
    have "run b (k + off) fs = run b (k + (off + n)) (fs @ [f])"
      using Emit unfolding shift by (simp add: run_emit add.assoc)
    also have "\<dots> = (k + off', gs, e)"
      using less.prems Emit pos by (intro less.hyps) (auto simp: run_emit)
    finally show ?thesis .
  qed (use less.prems in \<open>auto simp: run_more run_refuse shift add.commute\<close>)
qed

text \<open>Two reads against one: the second run starts from the erased buffer of the first.\<close>

theorem run_two_reads:
  assumes "run a 0 fs = (o1, gs, None)" "run (drop o1 a @ c) 0 gs = (o2, hs, e)"
  shows "run (a @ c) 0 fs = (o1 + o2, hs, e)"
proof -
  have le: "o1 \<le> length a"
    using run_offset_le [of 0 a fs] assms(1) by simp
  have "run (a @ c) 0 fs = run (a @ c) o1 gs"
    using run_resume [of 0 a fs] assms(1) by simp
  moreover have "run (drop o1 (a @ c)) 0 gs = (o2, hs, e)"
    using assms(2) le by simp
  then have "run (a @ c) (o1 + 0) gs = (o1 + o2, hs, e)"
    by (rule run_erase)
  ultimately show ?thesis by simp
qed

text \<open>Nothing is left to parse in the buffer that a run without refusal leaves behind.\<close>

lemma run_exhausted:
  assumes "off \<le> length b" "run b off fs = (off', gs, None)"
  shows "step (drop off' b) = NeedMore"
  using assms
proof (induction "length b - off" arbitrary: off fs rule: less_induct)
  case less
  show ?case
  proof (cases "step (drop off b)")
    case (Emit f n)
    note pos = emit_offset [OF Emit]
    then show ?thesis
      using less.prems Emit less.hyps [of "off + n"] by (simp add: run_emit)
  qed (use less.prems in \<open>auto simp: run_more run_refuse\<close>)
qed

end

text \<open>
  A codec whose encoder produces, for every valid frame, bytes from which the step
  function emits exactly that frame, whatever follows.
\<close>

locale framed_codec = incremental_parser step run
  for step :: "bytes \<Rightarrow> ('f, 'e) parse_step"
    and run :: "bytes \<Rightarrow> nat \<Rightarrow> 'f list \<Rightarrow> nat \<times> 'f list \<times> 'e option" +
  fixes encode :: "'f \<Rightarrow> bytes"
    and valid :: "'f \<Rightarrow> bool"
  assumes step_encode: "valid f \<Longrightarrow> step (encode f @ c) = Emit f (length (encode f))"
begin

lemma run_encoded:
  assumes "\<forall>f \<in> set fs. valid f"
  shows "run (pre @ concat (map encode fs) @ rest) (length pre) gs
       = run (pre @ concat (map encode fs) @ rest) (length pre + length (concat (map encode fs))) (gs @ fs)"
  using assms
proof (induction fs arbitrary: pre gs)
  case Nil
  then show ?case by simp
next
  case (Cons f fs)
  let ?b = "pre @ concat (map encode (f # fs)) @ rest"
  have "step (drop (length pre) ?b) = Emit f (length (encode f))"
    using Cons.prems by (simp add: step_encode)
  then have "run ?b (length pre) gs = run ?b (length pre + length (encode f)) (gs @ [f])"
    by (rule run_emit)
  also have "\<dots> = run ((pre @ encode f) @ concat (map encode fs) @ rest)
                    (length (pre @ encode f)) (gs @ [f])"
    by simp
  also have "\<dots> = run ((pre @ encode f) @ concat (map encode fs) @ rest)
                    (length (pre @ encode f) + length (concat (map encode fs))) ((gs @ [f]) @ fs)"
    using Cons.prems by (intro Cons.IH) simp
  finally show ?case by (simp add: add.assoc)
qed

theorem run_all_encoded:
  assumes "\<forall>f \<in> set fs. valid f" "step [] = NeedMore"
  shows "run (concat (map encode fs)) 0 gs = (length (concat (map encode fs)), gs @ fs, None)"
  using run_encoded [of fs "[]" "[]" gs] assms by (simp add: run_more)

end


text \<open>
  A codec is canonical when, conversely, every frame the step function emits is valid
  and was cut from exactly the bytes of its own encoding.
\<close>

locale canonical_codec = framed_codec step run encode valid
  for step :: "bytes \<Rightarrow> ('f, 'e) parse_step"
    and run :: "bytes \<Rightarrow> nat \<Rightarrow> 'f list \<Rightarrow> nat \<times> 'f list \<times> 'e option"
    and encode :: "'f \<Rightarrow> bytes" and valid :: "'f \<Rightarrow> bool" +
  assumes step_sound: "step b = Emit f n \<Longrightarrow> valid f \<and> take n b = encode f"
begin

lemma run_exact:
  assumes "off \<le> length b" "run b off fs = (off', gs, e)"
  shows "\<exists>new. gs = fs @ new \<and> (\<forall>f \<in> set new. valid f) \<and>
           drop off b = concat (map encode new) @ drop off' b"
  using assms
proof (induction "length b - off" arbitrary: off fs rule: less_induct)
  case less
  show ?case
  proof (cases "step (drop off b)")
    case (Emit f n)
    note pos = emit_offset [OF Emit]
    have "length b - (off + n) < length b - off"
      using pos by linarith
    then obtain new where new: "gs = (fs @ [f]) @ new" "\<forall>f \<in> set new. valid f"
      "drop (off + n) b = concat (map encode new) @ drop off' b"
      using less.hyps [of "off + n" "fs @ [f]"] less.prems Emit pos by (auto simp: run_emit)
    have "drop off b = encode f @ drop (off + n) b"
      using step_sound [OF Emit] append_take_drop_id [of n "drop off b"]
      by (simp add: add.commute)
    then show ?thesis
      using new step_sound [OF Emit] by (intro exI [of _ "f # new"]) simp
  qed (use less.prems in \<open>auto simp: run_more run_refuse\<close>)
qed

end

end
