(* ===== verification/Tunnel_Frames.thy ===== *)
theory Tunnel_Frames
  imports Stream_Parser
begin

text \<open>
  The relay wire protocol, \<open>services/tunnel/src/protocol/frames.hxx\<close> and
  \<open>frames.cc\<close>: the twelve-byte little-endian frame header, the encoder, the
  incremental \<open>FrameParser\<close> and the authentication helpers. SHA-256 comes from
  trantor and the random device from the C++ runtime: both are arguments of the
  definitions that use them.
\<close>

section \<open>Data\<close>

datatype frame_type =
    Auth | AuthOk | AuthFail | Open | Data | Close | Ping | Pong | Push | Challenge

datatype close_reason = Normal | Busy | IdleTimeout | Backpressure | Error

definition kMagic :: u16 where "kMagic = 0xA755"
definition kVersion :: byte where "kVersion = 1"
definition kHeaderSize :: nat where "kHeaderSize = 12"
definition kMaxPayload :: nat where "kMaxPayload = 256 * 1024"
definition kDataFrameCap :: nat where "kDataFrameCap = 64 * 1024"
definition kChallengeSize :: nat where "kChallengeSize = 32"
definition kMinFrameType :: byte where "kMinFrameType = 1"
definition kMaxFrameType :: byte where "kMaxFrameType = 10"

text \<open>The enumerators' values, and the cast back that follows the range check.\<close>

fun frame_type_code :: "frame_type \<Rightarrow> byte" where
  "frame_type_code Auth = 1"
| "frame_type_code AuthOk = 2"
| "frame_type_code AuthFail = 3"
| "frame_type_code Open = 4"
| "frame_type_code Data = 5"
| "frame_type_code Close = 6"
| "frame_type_code Ping = 7"
| "frame_type_code Pong = 8"
| "frame_type_code Push = 9"
| "frame_type_code Challenge = 10"

definition frame_type_of :: "byte \<Rightarrow> frame_type" where
  "frame_type_of b =
     (if b = 1 then Auth else if b = 2 then AuthOk else if b = 3 then AuthFail
      else if b = 4 then Open else if b = 5 then Data else if b = 6 then Close
      else if b = 7 then Ping else if b = 8 then Pong else if b = 9 then Push
      else Challenge)"

fun close_reason_code :: "close_reason \<Rightarrow> byte" where
  "close_reason_code Normal = 0"
| "close_reason_code Busy = 1"
| "close_reason_code IdleTimeout = 2"
| "close_reason_code Backpressure = 3"
| "close_reason_code Error = 4"

record frame =
  ftype :: frame_type
  streamId :: u32
  payload :: bytes

record frame_parser =
  buffer :: bytes
  frames :: "frame list"
  failed :: bool

section \<open>Little-endian integers\<close>

definition appendU16 :: "bytes \<Rightarrow> u16 \<Rightarrow> bytes" where
  "appendU16 out v = out @ [ucast (v AND 0xFF), ucast (drop_bit 8 v AND 0xFF)]"

definition appendU32 :: "bytes \<Rightarrow> u32 \<Rightarrow> bytes" where
  "appendU32 out v = out @ [ucast (v AND 0xFF), ucast (drop_bit 8 v AND 0xFF),
     ucast (drop_bit 16 v AND 0xFF), ucast (drop_bit 24 v AND 0xFF)]"

text \<open>
  The bytes are promoted to a 32-bit \<open>int\<close> before they are shifted; a shift into the
  sign bit is modular in C++20, so the 32-bit word is the right carrier.
\<close>

definition readU16 :: "bytes \<Rightarrow> u16" where
  "readU16 d = ucast (d ! 0) OR ucast (push_bit 8 (ucast (d ! 1) :: u32))"

definition readU32 :: "bytes \<Rightarrow> u32" where
  "readU32 d = ucast (d ! 0) OR push_bit 8 (ucast (d ! 1)) OR push_bit 16 (ucast (d ! 2))
     OR push_bit 24 (ucast (d ! 3))"

section \<open>Encoder\<close>

definition encodeFrame :: "frame \<Rightarrow> bytes" where
  "encodeFrame f =
     (let out = appendU16 [] kMagic;
          out = out @ [kVersion];
          out = out @ [frame_type_code (ftype f)];
          out = appendU32 out (streamId f);
          out = appendU32 out (of_nat (length (payload f)))
      in out @ payload f)"

definition encodeEmptyFrame :: "frame_type \<Rightarrow> u32 \<Rightarrow> bytes" where
  "encodeEmptyFrame t s = encodeFrame \<lparr>ftype = t, streamId = s, payload = []\<rparr>"

section \<open>Incremental parser\<close>

text \<open>
  \<open>frame_at h\<close> is one turn of the loop of \<open>FrameParser::parse\<close> with \<open>h\<close> the buffer from
  \<open>offset\<close> on: the loop condition, the header checks, and the frame it pushes with
  the size the offset grows by. \<open>parse_loop\<close> is the loop.
\<close>

definition frame_at :: "bytes \<Rightarrow> (frame, unit) parse_step" where
  "frame_at h =
     (if length h < kHeaderSize then NeedMore
      else if readU16 h \<noteq> kMagic \<or> h ! 2 \<noteq> kVersion then Refuse ()
      else
        let type = h ! 3;
            sid = readU32 (drop 4 h);
            payloadSize = unat (readU32 (drop 8 h))
        in if type < kMinFrameType \<or> type > kMaxFrameType \<or> payloadSize > kMaxPayload
           then Refuse ()
           else let frameSize = kHeaderSize + payloadSize
             in if length h < frameSize then NeedMore
                else Emit \<lparr>ftype = frame_type_of type, streamId = sid,
                           payload = take payloadSize (drop kHeaderSize h)\<rparr> frameSize)"

lemma frame_at_size: "frame_at b = Emit f n \<Longrightarrow> 0 < n \<and> n \<le> length b"
  by (auto simp: frame_at_def Let_def kHeaderSize_def split: if_splits)

function parse_loop :: "bytes \<Rightarrow> nat \<Rightarrow> frame list \<Rightarrow> nat \<times> frame list \<times> unit option" where
  "parse_loop buf offset fs =
     (case frame_at (drop offset buf) of
        NeedMore \<Rightarrow> (offset, fs, None)
      | Refuse e \<Rightarrow> (offset, fs, Some e)
      | Emit f n \<Rightarrow> parse_loop buf (offset + n) (fs @ [f]))"
  by pat_completeness auto
termination
  by (relation "measure (\<lambda>(buf, offset, fs). length buf - offset)")
     (auto dest!: frame_at_size)

declare parse_loop.simps [simp del]

definition parse :: "frame_parser \<Rightarrow> frame_parser" where
  "parse p =
     (let (offset, fs, bad) = parse_loop (buffer p) 0 (frames p)
      in p\<lparr>frames := fs, failed := failed p \<or> bad \<noteq> None, buffer := drop offset (buffer p)\<rparr>)"

definition feed :: "frame_parser \<Rightarrow> bytes \<Rightarrow> frame_parser" where
  "feed p data = (if failed p then p else parse (p\<lparr>buffer := buffer p @ data\<rparr>))"

definition hasFrame :: "frame_parser \<Rightarrow> bool" where
  "hasFrame p \<longleftrightarrow> frames p \<noteq> []"

text \<open>\<open>popFrame\<close> on an empty queue is undefined behaviour in the code and \<open>None\<close> here.\<close>

fun popFrame :: "frame_parser \<Rightarrow> (frame \<times> frame_parser) option" where
  "popFrame p = (case frames p of [] \<Rightarrow> None | f # fs \<Rightarrow> Some (f, p\<lparr>frames := fs\<rparr>))"

definition initial_parser :: frame_parser where
  "initial_parser = \<lparr>buffer = [], frames = [], failed = False\<rparr>"

section \<open>Authentication\<close>

definition hmacSha256 :: "(bytes \<Rightarrow> bytes) \<Rightarrow> bytes \<Rightarrow> bytes \<Rightarrow> bytes" where
  "hmacSha256 sha256 key message =
     (let block = (if length key > 64 then sha256 key else key);
          block = block @ replicate (64 - length block) 0;
          inner = map (\<lambda>b. b XOR 0x36) block;
          outer = map (\<lambda>b. b XOR 0x5C) block;
          innerHash = sha256 (inner @ message)
      in sha256 (outer @ innerHash))"

definition kAuthMessage :: bytes where
  "kAuthMessage = byte_string ''argus-tunnel-auth-v1''"

definition kRelayAuthMessage :: bytes where
  "kRelayAuthMessage = byte_string ''argus-tunnel-relay-auth-v1''"

definition authMac :: "(bytes \<Rightarrow> bytes) \<Rightarrow> bytes \<Rightarrow> bytes \<Rightarrow> bytes" where
  "authMac sha256 secret challenge = hmacSha256 sha256 secret (challenge @ kAuthMessage)"

definition relayAuthMac :: "(bytes \<Rightarrow> bytes) \<Rightarrow> bytes \<Rightarrow> bytes \<Rightarrow> bytes" where
  "relayAuthMac sha256 secret challenge = hmacSha256 sha256 secret (challenge @ kRelayAuthMessage)"

text \<open>
  \<open>randomChallenge\<close> appends the four bytes of each value the random device gives until
  the string is long enough. \<open>device n\<close> is the device's \<open>n\<close>-th value.
\<close>

function challenge_loop :: "(nat \<Rightarrow> u32) \<Rightarrow> nat \<Rightarrow> bytes \<Rightarrow> bytes" where
  "challenge_loop device n out =
     (if length out < kChallengeSize
      then challenge_loop device (Suc n) (appendU32 out (device n)) else out)"
  by pat_completeness auto
termination
  by (relation "measure (\<lambda>(device, n, out). kChallengeSize - length out)")
     (auto simp: appendU32_def)

declare challenge_loop.simps [simp del]

definition randomChallenge :: "(nat \<Rightarrow> u32) \<Rightarrow> bytes" where
  "randomChallenge device = take kChallengeSize (challenge_loop device 0 [])"

definition constantTimeEquals :: "bytes \<Rightarrow> bytes \<Rightarrow> bool" where
  "constantTimeEquals left right =
     (if length left \<noteq> length right then False
      else foldl (\<lambda>diff (l, r). diff OR (l XOR r)) 0 (zip left right) = 0)"

lemmas [wire_defs] = appendU16_def appendU32_def readU16_def readU32_def
  kMagic_def kVersion_def kHeaderSize_def kMaxPayload_def kMinFrameType_def kMaxFrameType_def

section \<open>Lemmas\<close>

lemma readU16_appendU16: "readU16 (appendU16 [] v @ r) = v"
  unfolding readU16_def appendU16_def
  by (rule bit_word_eqI) (auto simp: bit_simps wire_simps)

lemma readU32_appendU32: "readU32 (appendU32 [] v @ r) = v"
proof (rule bit_word_eqI)
  fix n assume n: "n < LENGTH(32)"
  show "bit (readU32 (appendU32 [] v @ r)) n \<longleftrightarrow> bit v n"
    using n unfolding readU32_def appendU32_def
    by (cases "n < 8"; cases "n < 16"; cases "n < 24"; auto simp: bit_simps wire_simps)
qed

lemma readU16_append: "2 \<le> length d \<Longrightarrow> readU16 (d @ r) = readU16 d"
  by (cases d) (auto simp: readU16_def nth_append)

lemma readU32_append: "4 \<le> length d \<Longrightarrow> readU32 (d @ r) = readU32 d"
  by (cases d) (auto simp: readU32_def nth_append)

lemma frame_type_of_code [simp]: "frame_type_of (frame_type_code t) = t"
  by (cases t) (simp_all add: frame_type_of_def)

lemma frame_type_code_range: "kMinFrameType \<le> frame_type_code t \<and> frame_type_code t \<le> kMaxFrameType"
  by (cases t) (simp_all add: kMinFrameType_def kMaxFrameType_def)

lemma encodeFrame_layout:
  "encodeFrame f = appendU16 [] kMagic @ [kVersion, frame_type_code (ftype f)]
     @ appendU32 [] (streamId f) @ appendU32 [] (of_nat (length (payload f))) @ payload f"
  by (simp add: encodeFrame_def appendU32_def Let_def)

lemma length_encodeFrame: "length (encodeFrame f) = kHeaderSize + length (payload f)"
  by (simp add: encodeFrame_layout appendU16_def appendU32_def kHeaderSize_def)

definition valid_frame :: "frame \<Rightarrow> bool" where
  "valid_frame f \<longleftrightarrow> length (payload f) \<le> kMaxPayload"

lemma encodeFrame_fields:
  shows "readU16 (encodeFrame f @ c) = kMagic"
    and "(encodeFrame f @ c) ! 2 = kVersion"
    and "(encodeFrame f @ c) ! 3 = frame_type_code (ftype f)"
    and "readU32 (drop 4 (encodeFrame f @ c)) = streamId f"
    and "readU32 (drop 8 (encodeFrame f @ c)) = of_nat (length (payload f))"
    and "drop kHeaderSize (encodeFrame f @ c) = payload f @ c"
proof -
  show "readU16 (encodeFrame f @ c) = kMagic"
    by (simp add: encodeFrame_layout readU16_appendU16)
  show "(encodeFrame f @ c) ! 2 = kVersion" "(encodeFrame f @ c) ! 3 = frame_type_code (ftype f)"
    by (simp_all add: encodeFrame_layout appendU16_def)
  have "drop 4 (encodeFrame f @ c)
      = appendU32 [] (streamId f) @ appendU32 [] (of_nat (length (payload f))) @ payload f @ c"
    by (simp add: encodeFrame_layout appendU16_def)
  then show "readU32 (drop 4 (encodeFrame f @ c)) = streamId f"
    by (simp add: readU32_appendU32)
  have "drop 8 (encodeFrame f @ c) = appendU32 [] (of_nat (length (payload f))) @ payload f @ c"
    by (simp add: encodeFrame_layout appendU16_def appendU32_def)
  then show "readU32 (drop 8 (encodeFrame f @ c)) = of_nat (length (payload f))"
    by (simp add: readU32_appendU32)
  show "drop kHeaderSize (encodeFrame f @ c) = payload f @ c"
    by (simp add: encodeFrame_layout appendU16_def appendU32_def kHeaderSize_def)
qed

lemma frame_at_encodeFrame:
  assumes "valid_frame f"
  shows "frame_at (encodeFrame f @ c) = Emit f (length (encodeFrame f))"
proof -
  have size: "unat (of_nat (length (payload f)) :: u32) = length (payload f)"
    using assms by (intro unat_of_nat_u32) (simp add: valid_frame_def kMaxPayload_def)
  show ?thesis
    using assms frame_type_code_range [of "ftype f"]
    by (simp add: frame_at_def encodeFrame_fields size length_encodeFrame valid_frame_def
          linorder_not_less Let_def del: drop_append)
qed

lemma frame_at_stable:
  assumes "frame_at b = s" "s \<noteq> NeedMore"
  shows "frame_at (b @ c) = s"
proof -
  have len: "kHeaderSize \<le> length b"
    using assms by (auto simp: frame_at_def split: if_splits)
  then have "readU16 (b @ c) = readU16 b" "(b @ c) ! 2 = b ! 2" "(b @ c) ! 3 = b ! 3"
    "readU32 (drop 4 (b @ c)) = readU32 (drop 4 b)" "readU32 (drop 8 (b @ c)) = readU32 (drop 8 b)"
    by (auto simp: kHeaderSize_def readU16_append readU32_append nth_append)
  then show ?thesis
    using assms len by (auto simp: frame_at_def Let_def kHeaderSize_def split: if_splits)
qed

interpretation tf: framed_codec frame_at parse_loop encodeFrame valid_frame
proof unfold_locales
  fix b f n
  show "frame_at b = Emit f n \<Longrightarrow> 0 < n \<and> n \<le> length b" by (rule frame_at_size)
next
  fix b f n c
  show "frame_at b = Emit f n \<Longrightarrow> frame_at (b @ c) = Emit f n" by (rule frame_at_stable) auto
next
  fix b e c
  show "frame_at b = Refuse e \<Longrightarrow> frame_at (b @ c) = Refuse e" by (rule frame_at_stable) auto
next
  fix f c
  show "valid_frame f \<Longrightarrow> frame_at (encodeFrame f @ c) = Emit f (length (encodeFrame f))"
    by (rule frame_at_encodeFrame)
qed (simp_all add: parse_loop.simps)


lemma parse_loop_Nil [simp]: "frame_at b = NeedMore \<Longrightarrow> parse_loop b 0 fs = (0, fs, None)"
  by (rule tf.run_more) simp

text \<open>
  What a caller can see of a parser: its queue, whether it failed, and, while it has
  not, the bytes it still holds. \<open>settled\<close> is the state between two reads.
\<close>

definition observable :: "frame_parser \<Rightarrow> frame list \<times> bool \<times> bytes option" where
  "observable p = (frames p, failed p, if failed p then None else Some (buffer p))"

definition settled :: "frame_parser \<Rightarrow> bool" where
  "settled p \<longleftrightarrow> failed p \<or> frame_at (buffer p) = NeedMore"

lemma frame_at_Nil [simp]: "frame_at [] = NeedMore"
  by (simp add: frame_at_def kHeaderSize_def)

lemma settled_initial [simp]: "settled initial_parser"
  by (simp add: settled_def initial_parser_def)

lemma feed_settled: "settled (feed p a)"
proof (cases "failed p")
  case True
  then show ?thesis by (simp add: feed_def settled_def)
next
  case False
  obtain off gs bad where run: "parse_loop (buffer p @ a) 0 (frames p) = (off, gs, bad)"
    by (cases "parse_loop (buffer p @ a) 0 (frames p)") auto
  show ?thesis
    using False run tf.run_exhausted [of 0 "buffer p @ a" "frames p" off gs]
    by (cases bad) (auto simp: feed_def parse_def settled_def)
qed

lemma feed_feed:
  assumes "settled p"
  shows "observable (feed (feed p a) b) = observable (feed p (a @ b))"
proof (cases "failed p")
  case True
  then show ?thesis by (simp add: feed_def)
next
  case False
  obtain o1 gs bad where run1: "parse_loop (buffer p @ a) 0 (frames p) = (o1, gs, bad)"
    by (cases "parse_loop (buffer p @ a) 0 (frames p)") auto
  show ?thesis
  proof (cases bad)
    case None
    obtain o2 hs e where run2: "parse_loop (drop o1 (buffer p @ a) @ b) 0 gs = (o2, hs, e)"
      by (cases "parse_loop (drop o1 (buffer p @ a) @ b) 0 gs") auto
    have "o1 \<le> length (buffer p @ a)"
      using tf.run_offset_le [OF _ run1] by simp
    then have rest: "drop (o1 + o2) (buffer p @ a @ b) = drop o2 (drop o1 (buffer p @ a) @ b)"
      by (simp only: append_assoc [symmetric] drop_append_le [symmetric] drop_drop add.commute)
    have "parse_loop (buffer p @ a @ b) 0 (frames p) = (o1 + o2, hs, e)"
      using tf.run_two_reads [OF run1 [unfolded None] run2] by simp
    then show ?thesis
      using False None run1 run2 rest by (simp add: feed_def parse_def observable_def)
  next
    case (Some e)
    then have "parse_loop (buffer p @ a @ b) 0 (frames p) = (o1, gs, bad)"
      using tf.run_refused [of 0 "buffer p @ a" "frames p" o1 gs e b] run1 by simp
    then show ?thesis
      using False Some run1 by (simp add: feed_def parse_def observable_def)
  qed
qed

lemma feed_Nil: "settled p \<Longrightarrow> observable (feed p []) = observable p"
  by (auto simp: settled_def feed_def parse_def observable_def)

lemma foldl_feed:
  "settled p \<Longrightarrow> observable (foldl feed p chunks) = observable (feed p (concat chunks))"
proof (induction chunks arbitrary: p)
  case Nil
  then show ?case by (simp add: feed_Nil)
next
  case (Cons c cs)
  then show ?case by (simp add: feed_settled feed_feed)
qed

lemma frame_at_NeedMore_bound:
  assumes "frame_at h = NeedMore"
  shows "length h < kHeaderSize + kMaxPayload"
proof (cases "length h < kHeaderSize")
  case False
  then have "length h < kHeaderSize + unat (readU32 (drop 8 h))"
    "unat (readU32 (drop 8 h)) \<le> kMaxPayload"
    using assms unfolding frame_at_def Let_def by (simp_all split: if_split_asm)
  then show ?thesis by linarith
qed linarith

lemma settled_bound:
  "settled p \<Longrightarrow> \<not> failed p \<Longrightarrow> length (buffer p) < kHeaderSize + kMaxPayload"
  by (simp add: settled_def frame_at_NeedMore_bound)

lemma word_xor_eq_0: "x XOR y = 0 \<longleftrightarrow> x = (y :: 'a::len word)"
  by (auto simp: bit_eq_iff bit_simps)

lemma constantTime_fold:
  "length left = length right \<Longrightarrow>
   (foldl (\<lambda>diff (l, r). diff OR (l XOR r)) d (zip left right) = 0) = (d = (0 :: byte) \<and> left = right)"
  by (induction left right arbitrary: d rule: list_induct2) (simp_all add: or_eq_0_iff word_xor_eq_0)

section \<open>Properties\<close>

text \<open>
  C18. Frames survive the wire: feeding a fresh parser the encodings of any frames whose
  payloads are at most \<open>kMaxPayload\<close> bytes queues exactly those frames, in order,
  with nothing left in the buffer and no failure.
\<close>
theorem tunnel_frames_roundtrip:
  assumes "\<forall>f \<in> set fs. valid_frame f"
  shows "feed initial_parser (concat (map encodeFrame fs))
       = \<lparr>buffer = [], frames = fs, failed = False\<rparr>"
  using tf.run_all_encoded [OF assms, of "[]"]
  by (simp add: feed_def parse_def initial_parser_def)

theorem tunnel_frames_roundtrip_witness:
  "feed initial_parser
     (concat (map encodeFrame [\<lparr>ftype = Ping, streamId = 0, payload = []\<rparr>,
        \<lparr>ftype = Data, streamId = 7, payload = [1, 2, 255]\<rparr>]))
   = \<lparr>buffer = [], frames = [\<lparr>ftype = Ping, streamId = 0, payload = []\<rparr>,
        \<lparr>ftype = Data, streamId = 7, payload = [1, 2, 255]\<rparr>], failed = False\<rparr>"
  by (rule tunnel_frames_roundtrip) (simp add: valid_frame_def kMaxPayload_def)

text \<open>
  C19. How the stream is cut into reads does not matter: feeding the chunks one by one
  leaves the same queue, the same failure flag and (while not failed) the same
  buffered bytes as feeding their concatenation at once, for every input.
\<close>
theorem tunnel_chunking:
  "observable (foldl feed initial_parser chunks) = observable (feed initial_parser (concat chunks))"
  by (simp add: foldl_feed)

text \<open>
  C20. The parser's buffer is bounded: after any sequence of reads, a parser that has not
  failed holds less than one maximal frame (header and \<open>kMaxPayload\<close> bytes).
\<close>
theorem tunnel_buffer_bounded:
  assumes "\<not> failed (foldl feed initial_parser chunks)"
  shows "length (buffer (foldl feed initial_parser chunks)) < 12 + 256 * 1024"
proof -
  have "settled (foldl feed initial_parser chunks)"
    by (cases chunks rule: rev_cases) (auto simp: feed_settled)
  from settled_bound [OF this assms] show ?thesis
    by (simp add: kHeaderSize_def kMaxPayload_def)
qed

theorem tunnel_buffer_bounded_witness:
  "length (buffer (foldl feed initial_parser [[0x55, 0xA7], [1]])) < 12 + 256 * 1024"
  by (rule tunnel_buffer_bounded)
     (simp add: feed_def parse_def initial_parser_def parse_loop.simps frame_at_def kHeaderSize_def)

text \<open>
  The comparison of authentication codes is exact: \<open>constantTimeEquals\<close>, which
  folds the differences of all bytes, holds just when the two strings are equal.
\<close>
theorem constantTimeEquals_iff: "constantTimeEquals left right \<longleftrightarrow> left = right"
  by (auto simp: constantTimeEquals_def constantTime_fold)

end
