(* ===== verification/Link_Frames.thy ===== *)
theory Link_Frames
  imports Stream_Parser
begin

text \<open>
  The second-generation link protocol,
  \<open>services/tunnel/src/link/protocol/frames.hxx\<close> and \<open>frames.cc\<close>: frame types with
  their names, per-type payload rules, typed encoders and decoders, and the
  \<open>FrameParser\<close> that refuses a stream with the first \<open>WireError\<close> it meets.
\<close>

section \<open>Data\<close>

datatype link_type =
    LHello | LOpen | LData | LClose | LPing | LPong | LPush | LGoAway | LCredit
  | LPushSealed | LPushResult

datatype link_close = LNormal | LBusy | LIdleTimeout | LBackpressure | LError

datatype goaway_reason = NodeDrain | NodeShutdown | ProtocolError

datatype wire_error =
    BadMagic | BadVersion | UnknownFrameType | PayloadTooLarge | DataFrameTooLarge
  | StreamIdRequired | StreamIdForbidden | MalformedHello | UnsupportedVersion
  | MalformedOpen | CloseReasonRequired | UnknownCloseReason | MalformedPing
  | MalformedPong | MalformedGoAway | MalformedCredit | HelloRequired | DuplicateHello
  | UnexpectedOpen | OverCredit

definition kKnown :: u32 where "kKnown = 0x00000001 OR 0x00000002 OR 0x00000004"
definition link_kMagic :: u16 where "link_kMagic = 0xA755"
definition kWireVersion :: byte where "kWireVersion = 2"
definition link_kHeaderSize :: nat where "link_kHeaderSize = 12"
definition link_kMaxPayload :: nat where "link_kMaxPayload = 256 * 1024"
definition kDataFrameMax :: nat where "kDataFrameMax = 64 * 1024"
definition kInitialStreamCredit :: u32 where "kInitialStreamCredit = 256 * 1024"
definition kCreditGrantThreshold :: u32 where "kCreditGrantThreshold = 64 * 1024"

fun link_type_code :: "link_type \<Rightarrow> byte" where
  "link_type_code LHello = 1"
| "link_type_code LOpen = 2"
| "link_type_code LData = 3"
| "link_type_code LClose = 4"
| "link_type_code LPing = 5"
| "link_type_code LPong = 6"
| "link_type_code LPush = 7"
| "link_type_code LGoAway = 8"
| "link_type_code LCredit = 9"
| "link_type_code LPushSealed = 10"
| "link_type_code LPushResult = 11"

definition link_type_of :: "byte \<Rightarrow> link_type" where
  "link_type_of b =
     (if b = 1 then LHello else if b = 2 then LOpen else if b = 3 then LData
      else if b = 4 then LClose else if b = 5 then LPing else if b = 6 then LPong
      else if b = 7 then LPush else if b = 8 then LGoAway else if b = 9 then LCredit
      else if b = 10 then LPushSealed else LPushResult)"

fun link_close_code :: "link_close \<Rightarrow> byte" where
  "link_close_code LNormal = 0"
| "link_close_code LBusy = 1"
| "link_close_code LIdleTimeout = 2"
| "link_close_code LBackpressure = 3"
| "link_close_code LError = 4"

fun goaway_code :: "goaway_reason \<Rightarrow> byte" where
  "goaway_code NodeDrain = 0"
| "goaway_code NodeShutdown = 1"
| "goaway_code ProtocolError = 2"

record link_frame =
  ltype :: link_type
  lstream :: u32
  lpayload :: bytes

record hello_payload =
  version :: u16
  reserved :: u16
  capabilities :: u32

text \<open>
  An enumeration with a fixed underlying type holds any value of that type, so a decoded
  reason is the raw byte of the enumeration, in range or not.
\<close>

record goaway_payload =
  reason :: byte
  seconds :: u16

section \<open>Names\<close>

definition kFrameTypes :: "(string \<times> link_type) list" where
  "kFrameTypes = [(''hello'', LHello), (''open'', LOpen), (''data'', LData), (''close'', LClose),
     (''ping'', LPing), (''pong'', LPong), (''push'', LPush), (''goaway'', LGoAway),
     (''credit'', LCredit), (''push_sealed'', LPushSealed), (''push_result'', LPushResult)]"

definition kCloseReasons :: "(string \<times> link_close) list" where
  "kCloseReasons = [(''normal'', LNormal), (''busy'', LBusy), (''idle_timeout'', LIdleTimeout),
     (''backpressure'', LBackpressure), (''error'', LError)]"

definition kGoAwayReasons :: "(string \<times> goaway_reason) list" where
  "kGoAwayReasons = [(''node_drain'', NodeDrain), (''node_shutdown'', NodeShutdown),
     (''protocol_error'', ProtocolError)]"

definition kWireErrors :: "(string \<times> wire_error) list" where
  "kWireErrors = [(''bad_magic'', BadMagic), (''bad_version'', BadVersion),
     (''unknown_frame_type'', UnknownFrameType), (''payload_too_large'', PayloadTooLarge),
     (''data_frame_too_large'', DataFrameTooLarge), (''stream_id_required'', StreamIdRequired),
     (''stream_id_forbidden'', StreamIdForbidden), (''malformed_hello'', MalformedHello),
     (''unsupported_version'', UnsupportedVersion), (''malformed_open'', MalformedOpen),
     (''close_reason_required'', CloseReasonRequired), (''unknown_close_reason'', UnknownCloseReason),
     (''malformed_ping'', MalformedPing), (''malformed_pong'', MalformedPong),
     (''malformed_goaway'', MalformedGoAway), (''malformed_credit'', MalformedCredit),
     (''hello_required'', HelloRequired), (''duplicate_hello'', DuplicateHello),
     (''unexpected_open'', UnexpectedOpen), (''over_credit'', OverCredit)]"

fun nameOf :: "(string \<times> 'a) list \<Rightarrow> 'a \<Rightarrow> string" where
  "nameOf [] v = ''unknown''"
| "nameOf ((n, x) # t) v = (if x = v then n else nameOf t v)"

fun fromName :: "(string \<times> 'a) list \<Rightarrow> string \<Rightarrow> 'a option" where
  "fromName [] name = None"
| "fromName ((n, x) # t) name = (if n = name then Some x else fromName t name)"

definition frameTypeToString :: "link_type \<Rightarrow> string" where
  "frameTypeToString t = nameOf kFrameTypes t"

definition frameTypeFromString :: "string \<Rightarrow> link_type option" where
  "frameTypeFromString n = fromName kFrameTypes n"

definition closeReasonToString :: "link_close \<Rightarrow> string" where
  "closeReasonToString r = nameOf kCloseReasons r"

definition closeReasonFromString :: "string \<Rightarrow> link_close option" where
  "closeReasonFromString n = fromName kCloseReasons n"

definition goAwayReasonToString :: "goaway_reason \<Rightarrow> string" where
  "goAwayReasonToString r = nameOf kGoAwayReasons r"

definition goAwayReasonFromString :: "string \<Rightarrow> goaway_reason option" where
  "goAwayReasonFromString n = fromName kGoAwayReasons n"

definition wireErrorToString :: "wire_error \<Rightarrow> string" where
  "wireErrorToString e = nameOf kWireErrors e"

definition wireErrorFromString :: "string \<Rightarrow> wire_error option" where
  "wireErrorFromString n = fromName kWireErrors n"

section \<open>Little-endian integers\<close>

definition link_appendU16 :: "bytes \<Rightarrow> u16 \<Rightarrow> bytes" where
  "link_appendU16 out v =
     (let raw = ucast v :: u32
      in out @ [ucast (raw AND 0xFF), ucast (drop_bit 8 raw AND 0xFF)])"

definition link_appendU32 :: "bytes \<Rightarrow> u32 \<Rightarrow> bytes" where
  "link_appendU32 out v = out @ [ucast (v AND 0xFF), ucast (drop_bit 8 v AND 0xFF),
     ucast (drop_bit 16 v AND 0xFF), ucast (drop_bit 24 v AND 0xFF)]"

definition link_readU16 :: "bytes \<Rightarrow> u16" where
  "link_readU16 d =
     (let low = ucast (d ! 0) :: u32; high = ucast (d ! 1) :: u32
      in ucast (low OR push_bit 8 high))"

definition link_readU32 :: "bytes \<Rightarrow> u32" where
  "link_readU32 d =
     (let first = ucast (d ! 0); second = ucast (d ! 1); third = ucast (d ! 2); fourth = ucast (d ! 3)
      in first OR push_bit 8 second OR push_bit 16 third OR push_bit 24 fourth)"

section \<open>Frame rules\<close>

fun isControlFrame :: "link_type \<Rightarrow> bool" where
  "isControlFrame LHello = True"
| "isControlFrame LPing = True"
| "isControlFrame LPong = True"
| "isControlFrame LPush = True"
| "isControlFrame LGoAway = True"
| "isControlFrame LPushSealed = True"
| "isControlFrame LPushResult = True"
| "isControlFrame LOpen = False"
| "isControlFrame LData = False"
| "isControlFrame LClose = False"
| "isControlFrame LCredit = False"

fun lengthRefusal :: "link_type \<Rightarrow> nat \<Rightarrow> wire_error option" where
  "lengthRefusal LHello n = (if n = 8 then None else Some MalformedHello)"
| "lengthRefusal LOpen n = (if n = 0 then None else Some MalformedOpen)"
| "lengthRefusal LClose n = (if n = 1 then None else Some CloseReasonRequired)"
| "lengthRefusal LPing n = (if n = 8 then None else Some MalformedPing)"
| "lengthRefusal LPong n = (if n = 8 then None else Some MalformedPong)"
| "lengthRefusal LGoAway n = (if n = 4 then None else Some MalformedGoAway)"
| "lengthRefusal LCredit n = (if n = 4 then None else Some MalformedCredit)"
| "lengthRefusal LData n = None"
| "lengthRefusal LPush n = None"
| "lengthRefusal LPushSealed n = None"
| "lengthRefusal LPushResult n = None"

section \<open>Encoders\<close>

definition link_encodeFrame :: "link_frame \<Rightarrow> bytes" where
  "link_encodeFrame f =
     (let out = link_appendU16 [] link_kMagic;
          out = out @ [kWireVersion];
          out = out @ [link_type_code (ltype f)];
          out = link_appendU32 out (lstream f);
          out = link_appendU32 out (of_nat (length (lpayload f)))
      in out @ lpayload f)"

definition encodeHello :: "u32 \<Rightarrow> bytes" where
  "encodeHello caps =
     (let payload = link_appendU16 [] (ucast kWireVersion);
          payload = link_appendU16 payload 0;
          payload = link_appendU32 payload (caps AND kKnown)
      in link_encodeFrame \<lparr>ltype = LHello, lstream = 0, lpayload = payload\<rparr>)"

definition encodeOpen :: "u32 \<Rightarrow> bytes" where
  "encodeOpen s = link_encodeFrame \<lparr>ltype = LOpen, lstream = s, lpayload = []\<rparr>"

definition encodeData :: "u32 \<Rightarrow> bytes \<Rightarrow> bytes" where
  "encodeData s bs = link_encodeFrame \<lparr>ltype = LData, lstream = s, lpayload = bs\<rparr>"

definition encodeClose :: "u32 \<Rightarrow> link_close \<Rightarrow> bytes" where
  "encodeClose s r = link_encodeFrame \<lparr>ltype = LClose, lstream = s, lpayload = [link_close_code r]\<rparr>"

definition encodePush :: "bytes \<Rightarrow> bytes" where
  "encodePush intent = link_encodeFrame \<lparr>ltype = LPush, lstream = 0, lpayload = intent\<rparr>"

definition nonce_bytes :: "u64 \<Rightarrow> bytes" where
  "nonce_bytes nonce = map (\<lambda>index. ucast (drop_bit (index * 8) nonce AND 0xFF)) [0..<8]"

definition encodePing :: "u64 \<Rightarrow> bytes" where
  "encodePing nonce = link_encodeFrame \<lparr>ltype = LPing, lstream = 0, lpayload = nonce_bytes nonce\<rparr>"

definition encodePong :: "u64 \<Rightarrow> bytes" where
  "encodePong nonce = (encodePing nonce)[3 := link_type_code LPong]"

definition encodeGoAway :: "goaway_reason \<Rightarrow> u16 \<Rightarrow> bytes" where
  "encodeGoAway r secs =
     (let payload = link_appendU16 [] (ucast (goaway_code r));
          payload = link_appendU16 payload secs
      in link_encodeFrame \<lparr>ltype = LGoAway, lstream = 0, lpayload = payload\<rparr>)"

definition encodeCredit :: "u32 \<Rightarrow> u32 \<Rightarrow> bytes" where
  "encodeCredit s n =
     link_encodeFrame \<lparr>ltype = LCredit, lstream = s, lpayload = link_appendU32 [] n\<rparr>"

section \<open>Decoders\<close>

definition decodeHello :: "link_frame \<Rightarrow> hello_payload" where
  "decodeHello f =
     (let data = lpayload f
      in \<lparr>version = link_readU16 data, reserved = link_readU16 (drop 2 data),
          capabilities = link_readU32 (drop 4 data)\<rparr>)"

text \<open>
  \<open>GoAwayReason\<close> has the underlying type \<open>uint8_t\<close>: the cast of the 16-bit field keeps
  its low byte only.
\<close>

definition decodeGoAway :: "link_frame \<Rightarrow> goaway_payload" where
  "decodeGoAway f =
     (let data = lpayload f
      in \<lparr>reason = ucast (link_readU16 data), seconds = link_readU16 (drop 2 data)\<rparr>)"

definition decodeNonce :: "link_frame \<Rightarrow> u64" where
  "decodeNonce f =
     foldl (\<lambda>nonce index. push_bit 8 nonce OR ucast (lpayload f ! index)) 0 (rev [0..<8])"

definition decodeCredit :: "link_frame \<Rightarrow> u32" where
  "decodeCredit f = link_readU32 (lpayload f)"

definition decodeCloseReason :: "link_frame \<Rightarrow> byte" where
  "decodeCloseReason f = lpayload f ! 0"

section \<open>Incremental parser\<close>

record link_parser =
  lbuffer :: bytes
  lframes :: "link_frame list"
  lfailed :: bool
  lerror :: wire_error

text \<open>
  The checks of one turn of the loop: on the header alone, then, once the whole frame is
  there, on its payload.
\<close>

definition header_refusal :: "bytes \<Rightarrow> wire_error option" where
  "header_refusal h =
     (if link_readU16 h \<noteq> link_kMagic then Some BadMagic
      else if h ! 2 \<noteq> kWireVersion then Some BadVersion
      else if h ! 3 < link_type_code LHello \<or> h ! 3 > link_type_code LPushResult
      then Some UnknownFrameType
      else
        let type = link_type_of (h ! 3);
            sid = link_readU32 (drop 4 h);
            payloadSize = unat (link_readU32 (drop 8 h))
        in if payloadSize > link_kMaxPayload then Some PayloadTooLarge
           else if isControlFrame type \<and> sid \<noteq> 0 then Some StreamIdForbidden
           else if \<not> isControlFrame type \<and> sid = 0 then Some StreamIdRequired
           else if type = LData \<and> payloadSize > kDataFrameMax then Some DataFrameTooLarge
           else lengthRefusal type payloadSize)"

definition payload_refusal :: "link_frame \<Rightarrow> wire_error option" where
  "payload_refusal f =
     (case ltype f of
        LHello \<Rightarrow>
          (if version (decodeHello f) \<noteq> ucast kWireVersion then Some UnsupportedVersion
           else if reserved (decodeHello f) \<noteq> 0 then Some MalformedHello else None)
      | LClose \<Rightarrow>
          (if decodeCloseReason f > link_close_code LError then Some UnknownCloseReason else None)
      | LCredit \<Rightarrow> (if decodeCredit f = 0 then Some MalformedCredit else None)
      | LGoAway \<Rightarrow>
          (if (ucast (reason (decodeGoAway f)) :: u16) > ucast (goaway_code ProtocolError)
           then Some MalformedGoAway else None)
      | _ \<Rightarrow> None)"

definition link_frame_at :: "bytes \<Rightarrow> (link_frame, wire_error) parse_step" where
  "link_frame_at h =
     (if length h < link_kHeaderSize then NeedMore
      else case header_refusal h of
        Some e \<Rightarrow> Refuse e
      | None \<Rightarrow>
          let payloadSize = unat (link_readU32 (drop 8 h));
              frameSize = link_kHeaderSize + payloadSize
          in if length h < frameSize then NeedMore
             else
               let f = \<lparr>ltype = link_type_of (h ! 3), lstream = link_readU32 (drop 4 h),
                        lpayload = take payloadSize (drop link_kHeaderSize h)\<rparr>
               in case payload_refusal f of Some e \<Rightarrow> Refuse e | None \<Rightarrow> Emit f frameSize)"

lemma link_frame_at_size: "link_frame_at b = Emit f n \<Longrightarrow> 0 < n \<and> n \<le> length b"
  by (auto simp: link_frame_at_def Let_def link_kHeaderSize_def split: if_splits option.splits)

function link_parse_loop ::
  "bytes \<Rightarrow> nat \<Rightarrow> link_frame list \<Rightarrow> nat \<times> link_frame list \<times> wire_error option" where
  "link_parse_loop buf offset fs =
     (case link_frame_at (drop offset buf) of
        NeedMore \<Rightarrow> (offset, fs, None)
      | Refuse e \<Rightarrow> (offset, fs, Some e)
      | Emit f n \<Rightarrow> link_parse_loop buf (offset + n) (fs @ [f]))"
  by pat_completeness auto
termination
  by (relation "measure (\<lambda>(buf, offset, fs). length buf - offset)")
     (auto dest!: link_frame_at_size)

declare link_parse_loop.simps [simp del]

definition link_refuse :: "link_parser \<Rightarrow> wire_error \<Rightarrow> link_parser" where
  "link_refuse p e = p\<lparr>lfailed := True, lerror := e, lbuffer := [], lframes := []\<rparr>"

definition link_parse :: "link_parser \<Rightarrow> link_parser" where
  "link_parse p =
     (let (offset, fs, bad) = link_parse_loop (lbuffer p) 0 (lframes p)
      in case bad of
           Some e \<Rightarrow> link_refuse p e
         | None \<Rightarrow> p\<lparr>lframes := fs, lbuffer := drop offset (lbuffer p)\<rparr>)"

definition link_feed :: "link_parser \<Rightarrow> bytes \<Rightarrow> link_parser" where
  "link_feed p data =
     (if lfailed p \<or> data = [] then p else link_parse (p\<lparr>lbuffer := lbuffer p @ data\<rparr>))"

fun link_popFrame :: "link_parser \<Rightarrow> (link_frame \<times> link_parser) option" where
  "link_popFrame p = (case lframes p of [] \<Rightarrow> None | f # fs \<Rightarrow> Some (f, p\<lparr>lframes := fs\<rparr>))"

definition link_initial_parser :: link_parser where
  "link_initial_parser = \<lparr>lbuffer = [], lframes = [], lfailed = False, lerror = BadMagic\<rparr>"

lemmas [wire_defs] = link_appendU16_def link_appendU32_def link_readU16_def link_readU32_def
  link_kMagic_def kWireVersion_def link_kHeaderSize_def link_kMaxPayload_def kDataFrameMax_def


section \<open>Lemmas\<close>

lemma link_readU16_appendU16: "link_readU16 (link_appendU16 [] v @ r) = v"
  unfolding link_readU16_def link_appendU16_def Let_def
  by (rule bit_word_eqI) (auto simp: bit_simps wire_simps)

lemma link_readU32_appendU32: "link_readU32 (link_appendU32 [] v @ r) = v"
proof (rule bit_word_eqI)
  fix n assume n: "n < LENGTH(32)"
  show "bit (link_readU32 (link_appendU32 [] v @ r)) n \<longleftrightarrow> bit v n"
    using n unfolding link_readU32_def link_appendU32_def Let_def
    by (cases "n < 8"; cases "n < 16"; cases "n < 24"; auto simp: bit_simps wire_simps)
qed

lemma link_appendU16_readU16: "link_appendU16 [] (link_readU16 [a, b]) = [a, b]"
  unfolding link_readU16_def link_appendU16_def Let_def
  by (simp add: wire_simps, intro conjI; rule bit_word_eqI)
     (auto simp: bit_simps dest: bit_imp_le_length)

lemma link_appendU32_readU32: "link_appendU32 [] (link_readU32 [a, b, c, d]) = [a, b, c, d]"
  unfolding link_readU32_def link_appendU32_def Let_def
  by (simp add: wire_simps, intro conjI; rule bit_word_eqI)
     (auto simp: bit_simps dest: bit_imp_le_length)

lemma link_readU16_append: "2 \<le> length d \<Longrightarrow> link_readU16 (d @ r) = link_readU16 d"
  by (cases d) (auto simp: link_readU16_def nth_append)

lemma link_readU32_append: "4 \<le> length d \<Longrightarrow> link_readU32 (d @ r) = link_readU32 d"
  by (cases d) (auto simp: link_readU32_def nth_append)

lemma link_append_out:
  "link_appendU16 out v = out @ link_appendU16 [] v"
  "link_appendU32 out w = out @ link_appendU32 [] w"
  by (simp_all add: link_appendU16_def link_appendU32_def Let_def)

lemma length_link_append [simp]:
  "length (link_appendU16 out v) = length out + 2"
  "length (link_appendU32 out w) = length out + 4"
  by (simp_all add: link_appendU16_def link_appendU32_def Let_def)

lemma link_type_of_code [simp]: "link_type_of (link_type_code t) = t"
  by (cases t) (simp_all add: link_type_of_def)

lemma link_type_code_of:
  assumes "1 \<le> b" "b \<le> 11"
  shows "link_type_code (link_type_of b) = b"
  using assms by (auto simp: link_type_of_def word_le_nat_alt word_unat_eq_iff) arith

lemma link_type_code_range: "1 \<le> link_type_code t \<and> link_type_code t \<le> 11"
  by (cases t) simp_all

lemma link_encodeFrame_layout:
  "link_encodeFrame f = link_appendU16 [] link_kMagic @ [kWireVersion, link_type_code (ltype f)]
     @ link_appendU32 [] (lstream f) @ link_appendU32 [] (of_nat (length (lpayload f))) @ lpayload f"
  by (simp add: link_encodeFrame_def link_appendU32_def Let_def)

lemma length_link_encodeFrame: "length (link_encodeFrame f) = link_kHeaderSize + length (lpayload f)"
  by (simp add: link_encodeFrame_layout link_kHeaderSize_def)

text \<open>The frames a peer may send: what the header and the payload rules accept.\<close>

definition link_valid :: "link_frame \<Rightarrow> bool" where
  "link_valid f \<longleftrightarrow>
     length (lpayload f) \<le> link_kMaxPayload \<and>
     isControlFrame (ltype f) = (lstream f = 0) \<and>
     (if ltype f = LData then length (lpayload f) \<le> kDataFrameMax else True) \<and>
     lengthRefusal (ltype f) (length (lpayload f)) = None \<and>
     payload_refusal f = None"

lemma link_encodeFrame_fields:
  shows "link_readU16 (link_encodeFrame f @ c) = link_kMagic"
    and "(link_encodeFrame f @ c) ! 2 = kWireVersion"
    and "(link_encodeFrame f @ c) ! 3 = link_type_code (ltype f)"
    and "link_readU32 (drop 4 (link_encodeFrame f @ c)) = lstream f"
    and "link_readU32 (drop 8 (link_encodeFrame f @ c)) = of_nat (length (lpayload f))"
    and "drop link_kHeaderSize (link_encodeFrame f @ c) = lpayload f @ c"
proof -
  show "link_readU16 (link_encodeFrame f @ c) = link_kMagic"
    by (simp add: link_encodeFrame_layout link_readU16_appendU16)
  show "(link_encodeFrame f @ c) ! 2 = kWireVersion"
    "(link_encodeFrame f @ c) ! 3 = link_type_code (ltype f)"
    by (simp_all add: link_encodeFrame_layout nth_append)
  have "drop 4 (link_encodeFrame f @ c)
      = link_appendU32 [] (lstream f) @ link_appendU32 [] (of_nat (length (lpayload f)))
        @ lpayload f @ c"
    by (simp add: link_encodeFrame_layout)
  then show "link_readU32 (drop 4 (link_encodeFrame f @ c)) = lstream f"
    by (simp add: link_readU32_appendU32)
  have "drop 8 (link_encodeFrame f @ c)
      = link_appendU32 [] (of_nat (length (lpayload f))) @ lpayload f @ c"
    by (simp add: link_encodeFrame_layout)
  then show "link_readU32 (drop 8 (link_encodeFrame f @ c)) = of_nat (length (lpayload f))"
    by (simp add: link_readU32_appendU32)
  show "drop link_kHeaderSize (link_encodeFrame f @ c) = lpayload f @ c"
    by (simp add: link_encodeFrame_layout link_kHeaderSize_def)
qed

lemma link_frame_at_encodeFrame:
  assumes "link_valid f"
  shows "link_frame_at (link_encodeFrame f @ c) = Emit f (length (link_encodeFrame f))"
proof -
  have size: "unat (of_nat (length (lpayload f)) :: u32) = length (lpayload f)"
    using assms by (intro unat_of_nat_u32) (simp add: link_valid_def link_kMaxPayload_def)
  have "header_refusal (link_encodeFrame f @ c) = None"
    using assms link_type_code_range [of "ltype f"]
    by (auto simp: header_refusal_def link_encodeFrame_fields size link_valid_def
          linorder_not_less Let_def simp del: drop_append split: if_splits)
  moreover have "\<lparr>ltype = ltype f, lstream = lstream f,
      lpayload = take (length (lpayload f)) (lpayload f @ c)\<rparr> = f"
    by simp
  ultimately show ?thesis
    using assms
    by (simp only: link_frame_at_def link_encodeFrame_fields size length_append
          length_link_encodeFrame link_valid_def Let_def link_type_of_code option.case) simp
qed

lemma header_stable:
  assumes "link_kHeaderSize \<le> length b"
  shows "link_readU16 (b @ c) = link_readU16 b" "(b @ c) ! 2 = b ! 2" "(b @ c) ! 3 = b ! 3"
    "link_readU32 (drop 4 (b @ c)) = link_readU32 (drop 4 b)"
    "link_readU32 (drop 8 (b @ c)) = link_readU32 (drop 8 b)"
    "header_refusal (b @ c) = header_refusal b"
proof -
  show fields: "link_readU16 (b @ c) = link_readU16 b" "(b @ c) ! 2 = b ! 2" "(b @ c) ! 3 = b ! 3"
    "link_readU32 (drop 4 (b @ c)) = link_readU32 (drop 4 b)"
    "link_readU32 (drop 8 (b @ c)) = link_readU32 (drop 8 b)"
    using assms
    by (auto simp: link_kHeaderSize_def link_readU16_append link_readU32_append nth_append)
  show "header_refusal (b @ c) = header_refusal b"
    unfolding header_refusal_def fields by simp
qed

lemma link_frame_at_stable:
  assumes "link_frame_at b = s" "s \<noteq> NeedMore"
  shows "link_frame_at (b @ c) = s"
proof -
  have len: "link_kHeaderSize \<le> length b"
    using assms by (auto simp: link_frame_at_def split: if_splits)
  note [simp] = header_stable [OF len]
  show ?thesis
  proof (cases "header_refusal b")
    case (Some e)
    then show ?thesis using assms len by (simp add: link_frame_at_def del: drop_append)
  next
    case None
    have full: "link_kHeaderSize + unat (link_readU32 (drop 8 b)) \<le> length b"
      using assms len None by (auto simp: link_frame_at_def Let_def split: if_splits)
    then have "take (unat (link_readU32 (drop 8 b))) (drop link_kHeaderSize (b @ c))
             = take (unat (link_readU32 (drop 8 b))) (drop link_kHeaderSize b)"
      by simp
    then show ?thesis
      using assms len None full by (simp add: link_frame_at_def Let_def del: drop_append take_append)
  qed
qed

interpretation lf: framed_codec link_frame_at link_parse_loop link_encodeFrame link_valid
proof unfold_locales
  fix b f n
  show "link_frame_at b = Emit f n \<Longrightarrow> 0 < n \<and> n \<le> length b" by (rule link_frame_at_size)
next
  fix b f n c
  show "link_frame_at b = Emit f n \<Longrightarrow> link_frame_at (b @ c) = Emit f n"
    by (rule link_frame_at_stable) auto
next
  fix b e c
  show "link_frame_at b = Refuse e \<Longrightarrow> link_frame_at (b @ c) = Refuse e"
    by (rule link_frame_at_stable) auto
next
  fix f c
  show "link_valid f \<Longrightarrow> link_frame_at (link_encodeFrame f @ c) = Emit f (length (link_encodeFrame f))"
    by (rule link_frame_at_encodeFrame)
qed (simp_all add: link_parse_loop.simps)

lemma link_frame_at_Nil [simp]: "link_frame_at [] = NeedMore"
  by (simp add: link_frame_at_def link_kHeaderSize_def)


lemma link_parse_loop_Nil [simp]:
  "link_frame_at b = NeedMore \<Longrightarrow> link_parse_loop b 0 fs = (0, fs, None)"
  by (rule lf.run_more) simp

definition link_settled :: "link_parser \<Rightarrow> bool" where
  "link_settled p \<longleftrightarrow> lfailed p \<or> link_frame_at (lbuffer p) = NeedMore"

lemma link_settled_initial [simp]: "link_settled link_initial_parser"
  by (simp add: link_settled_def link_initial_parser_def)

lemma link_feed_settled:
  assumes "link_settled p"
  shows "link_settled (link_feed p a)"
proof (cases "lfailed p \<or> a = []")
  case True
  then show ?thesis using assms by (auto simp: link_feed_def)
next
  case False
  obtain off gs bad where run: "link_parse_loop (lbuffer p @ a) 0 (lframes p) = (off, gs, bad)"
    by (cases "link_parse_loop (lbuffer p @ a) 0 (lframes p)") auto
  show ?thesis
    using False run lf.run_exhausted [of 0 "lbuffer p @ a" "lframes p" off gs]
    by (cases bad) (auto simp: link_feed_def link_parse_def link_refuse_def link_settled_def)
qed

lemma link_feed_feed:
  assumes "link_settled p"
  shows "link_feed (link_feed p a) b = link_feed p (a @ b)"
proof (cases "lfailed p \<or> a = [] \<or> b = []")
  case True
  then show ?thesis using assms by (auto simp: link_feed_def)
next
  case False
  obtain o1 gs bad where run1: "link_parse_loop (lbuffer p @ a) 0 (lframes p) = (o1, gs, bad)"
    by (cases "link_parse_loop (lbuffer p @ a) 0 (lframes p)") auto
  show ?thesis
  proof (cases bad)
    case None
    obtain o2 hs e where run2: "link_parse_loop (drop o1 (lbuffer p @ a) @ b) 0 gs = (o2, hs, e)"
      by (cases "link_parse_loop (drop o1 (lbuffer p @ a) @ b) 0 gs") auto
    have "o1 \<le> length (lbuffer p @ a)"
      using lf.run_offset_le [OF _ run1] by simp
    then have rest: "drop (o1 + o2) (lbuffer p @ a @ b) = drop o2 (drop o1 (lbuffer p @ a) @ b)"
      by (simp only: append_assoc [symmetric] drop_append_le [symmetric] drop_drop add.commute)
    have "link_parse_loop (lbuffer p @ a @ b) 0 (lframes p) = (o1 + o2, hs, e)"
      using lf.run_two_reads [OF run1 [unfolded None] run2] by simp
    then show ?thesis
      using False None run1 run2 rest
      by (cases e) (simp_all add: link_feed_def link_parse_def link_refuse_def)
  next
    case (Some e)
    then have "link_parse_loop (lbuffer p @ a @ b) 0 (lframes p) = (o1, gs, bad)"
      using lf.run_refused [of 0 "lbuffer p @ a" "lframes p" o1 gs e b] run1 by simp
    then show ?thesis
      using False Some run1 by (simp add: link_feed_def link_parse_def link_refuse_def)
  qed
qed

lemma foldl_link_feed:
  "link_settled p \<Longrightarrow> foldl link_feed p chunks = link_feed p (concat chunks)"
proof (induction chunks arbitrary: p)
  case Nil
  then show ?case by (simp add: link_feed_def)
next
  case (Cons c cs)
  then show ?case by (simp add: link_feed_settled link_feed_feed)
qed

lemma link_readU16_take: "2 \<le> n \<Longrightarrow> 2 \<le> length b \<Longrightarrow> link_readU16 (take n b) = link_readU16 b"
  by (simp add: link_readU16_def)

lemma link_header_decompose:
  assumes "link_kHeaderSize \<le> length h"
  shows "take link_kHeaderSize h
       = link_appendU16 [] (link_readU16 h) @ [h ! 2, h ! 3]
         @ link_appendU32 [] (link_readU32 (drop 4 h)) @ link_appendU32 [] (link_readU32 (drop 8 h))"
proof -
  have "length (take 12 h) = 12"
    using assms by (simp add: link_kHeaderSize_def)
  then obtain a0 a1 a2 a3 a4 a5 a6 a7 a8 a9 a10 a11
    where t: "take 12 h = [a0, a1, a2, a3, a4, a5, a6, a7, a8, a9, a10, a11]"
    by (rule list_length12E)
  obtain r where h: "h = [a0, a1, a2, a3, a4, a5, a6, a7, a8, a9, a10, a11] @ r"
    using t append_take_drop_id [of 12 h] by metis
  have "link_readU16 h = link_readU16 [a0, a1]"
    "link_readU32 (drop 4 h) = link_readU32 [a4, a5, a6, a7]"
    "link_readU32 (drop 8 h) = link_readU32 [a8, a9, a10, a11]"
    by (simp_all add: h link_readU16_def link_readU32_def)
  then show ?thesis
    by (simp add: link_kHeaderSize_def t h link_appendU16_readU16 link_appendU32_readU32)
qed

lemma header_refusal_None:
  assumes "header_refusal h = None"
  shows "link_readU16 h = link_kMagic" "h ! 2 = kWireVersion" "1 \<le> h ! 3" "h ! 3 \<le> 11"
    "unat (link_readU32 (drop 8 h)) \<le> link_kMaxPayload"
    "isControlFrame (link_type_of (h ! 3)) = (link_readU32 (drop 4 h) = 0)"
    "if link_type_of (h ! 3) = LData then unat (link_readU32 (drop 8 h)) \<le> kDataFrameMax else True"
    "lengthRefusal (link_type_of (h ! 3)) (unat (link_readU32 (drop 8 h))) = None"
  using assms by (auto simp: header_refusal_def Let_def linorder_not_less word_one_le split: if_splits)

text \<open>
  A frame the parser emits is one the rules accept, and its bytes are the encoder's:
  the wire format is canonical.
\<close>

lemma link_frame_at_sound:
  assumes "link_frame_at h = Emit f n"
  shows "link_valid f \<and> take n h = link_encodeFrame f"
proof -
  let ?n = "unat (link_readU32 (drop 8 h))"
  have len: "link_kHeaderSize \<le> length h" and ok: "header_refusal h = None"
    using assms by (auto simp: link_frame_at_def split: if_splits option.splits)
  then have full: "link_kHeaderSize + ?n \<le> length h" and n: "n = link_kHeaderSize + ?n"
    and f: "f = \<lparr>ltype = link_type_of (h ! 3), lstream = link_readU32 (drop 4 h),
                lpayload = take ?n (drop link_kHeaderSize h)\<rparr>"
    and pay: "payload_refusal f = None"
    using assms by (auto simp: link_frame_at_def Let_def split: if_splits option.splits)
  have plen: "length (lpayload f) = ?n" using f full by simp
  have "take n h = take link_kHeaderSize h @ lpayload f"
    using f n by (simp add: take_add)
  also have "\<dots> = link_encodeFrame f"
    using f plen link_header_decompose [OF len] link_type_code_of header_refusal_None [OF ok]
    by (simp add: link_encodeFrame_layout)
  finally show ?thesis
    using f plen pay header_refusal_None [OF ok] by (simp add: link_valid_def)
qed


interpretation lf: canonical_codec link_frame_at link_parse_loop link_encodeFrame link_valid
  by unfold_locales (rule link_frame_at_sound)

lemma link_feed_initial_exact:
  assumes "\<not> lfailed (link_feed link_initial_parser input)"
  shows "concat (map link_encodeFrame (lframes (link_feed link_initial_parser input)))
           @ lbuffer (link_feed link_initial_parser input) = input
       \<and> (\<forall>f \<in> set (lframes (link_feed link_initial_parser input)). link_valid f)"
proof (cases "input = []")
  case True
  then show ?thesis by (simp add: link_feed_def link_initial_parser_def)
next
  case False
  obtain off gs bad where run: "link_parse_loop input 0 [] = (off, gs, bad)"
    by (cases "link_parse_loop input 0 []") auto
  then have "bad = None"
    using assms False
    by (cases bad) (auto simp: link_feed_def link_parse_def link_initial_parser_def link_refuse_def)
  moreover obtain new where "gs = new" "\<forall>f \<in> set new. link_valid f"
    "input = concat (map link_encodeFrame new) @ drop off input"
    using lf.run_exact [OF _ run] by auto
  ultimately show ?thesis
    using run False by (simp add: link_feed_def link_parse_def link_initial_parser_def)
qed

lemma link_emit:
  assumes "link_valid f"
  shows "link_frame_at (link_encodeFrame f) = Emit f (length (link_encodeFrame f))"
  using link_frame_at_encodeFrame [OF assms, of "[]"] by simp

lemmas link_read_fields = link_readU16_appendU16 [of _ "[]", simplified]
  link_readU32_appendU32 [of _ "[]", simplified] link_readU16_appendU16 link_readU32_appendU32

lemma length_nonce_bytes [simp]: "length (nonce_bytes n) = 8"
  by (simp add: nonce_bytes_def)

lemma nonce_bytes_nth: "k < 8 \<Longrightarrow> nonce_bytes nonce ! k = ucast (drop_bit (k * 8) nonce AND 0xFF)"
  by (simp add: nonce_bytes_def)

lemma nonce_step:
  "push_bit 8 (drop_bit (8 * Suc k) nonce) OR ucast (ucast (drop_bit (k * 8) nonce AND 0xFF) :: byte)
   = drop_bit (8 * k) (nonce :: u64)"
proof (rule bit_word_eqI)
  fix n assume n: "n < LENGTH(64)"
  show "bit (push_bit 8 (drop_bit (8 * Suc k) nonce)
          OR ucast (ucast (drop_bit (k * 8) nonce AND 0xFF) :: byte)) n
      = bit (drop_bit (8 * k) nonce) n"
    using n by (cases "n < 8") (auto simp: bit_simps wire_simps algebra_simps)
qed

lemma decodeNonce_nonce_bytes:
  assumes "lpayload f = nonce_bytes nonce"
  shows "decodeNonce f = nonce"
proof -
  have "foldl (\<lambda>a i. push_bit 8 a OR ucast (nonce_bytes nonce ! i)) 0 (rev [k..<8])
      = drop_bit (8 * k) nonce" if "k \<le> 8" for k
    using that
  proof (induction k rule: inc_induct)
    case base
    show ?case by (rule bit_word_eqI) (auto simp: bit_simps dest: bit_imp_le_length)
  next
    case (step k)
    then have "[k..<8] = k # [Suc k..<8]" by (simp add: upt_conv_Cons)
    then show ?case
      using step by (simp add: nonce_bytes_nth nonce_step del: mult_Suc_right)
  qed
  from this [of 0] show ?thesis using assms by (simp add: decodeNonce_def)
qed

lemma link_valid_hello:
  "link_valid \<lparr>ltype = LHello, lstream = 0,
     lpayload = link_appendU16 [] 2 @ link_appendU16 [] 0 @ link_appendU32 [] caps\<rparr>"
  by (simp add: link_valid_def link_kMaxPayload_def payload_refusal_def decodeHello_def
        kWireVersion_def link_read_fields)


lemma link_valid_nonce:
  "t = LPing \<or> t = LPong \<Longrightarrow>
   link_valid \<lparr>ltype = t, lstream = 0, lpayload = nonce_bytes nonce\<rparr>"
  by (auto simp: link_valid_def link_kMaxPayload_def payload_refusal_def)

lemma link_valid_close:
  "s \<noteq> 0 \<Longrightarrow> link_valid \<lparr>ltype = LClose, lstream = s, lpayload = [link_close_code r]\<rparr>"
  by (cases r) (simp_all add: link_valid_def link_kMaxPayload_def payload_refusal_def
        decodeCloseReason_def)

lemma link_valid_credit:
  "s \<noteq> 0 \<Longrightarrow> n \<noteq> 0 \<Longrightarrow> link_valid \<lparr>ltype = LCredit, lstream = s, lpayload = link_appendU32 [] n\<rparr>"
  by (simp add: link_valid_def link_kMaxPayload_def payload_refusal_def decodeCredit_def
        link_read_fields)

lemma ucast_low_byte: "ucast (ucast (b :: byte) :: u16) = b"
  by (rule bit_word_eqI) (auto simp: bit_simps)

lemma link_valid_goaway:
  "link_valid \<lparr>ltype = LGoAway, lstream = 0, lpayload = link_appendU16 [] v @ link_appendU16 [] secs\<rparr>
   \<longleftrightarrow> (ucast v :: byte) \<le> 2"
proof -
  have "(ucast (ucast v :: byte) :: u16) > 2 \<longleftrightarrow> (ucast v :: byte) > 2"
    by (simp add: word_less_nat_alt unat_ucast_byte_u16)
  then show ?thesis
    by (auto simp: link_valid_def link_kMaxPayload_def payload_refusal_def decodeGoAway_def
          link_read_fields linorder_not_less)
qed

lemma encodePong_eq:
  "encodePong nonce = link_encodeFrame \<lparr>ltype = LPong, lstream = 0, lpayload = nonce_bytes nonce\<rparr>"
  by (simp add: encodePong_def encodePing_def link_encodeFrame_layout link_appendU16_def Let_def)

lemma link_feed_encoded:
  assumes "\<forall>f \<in> set fs. link_valid f"
  shows "link_feed link_initial_parser (concat (map link_encodeFrame fs))
       = link_initial_parser\<lparr>lframes := fs\<rparr>"
proof (cases fs)
  case (Cons f gs)
  then have "concat (map link_encodeFrame fs) \<noteq> []"
    by (simp add: link_encodeFrame_layout)
  then show ?thesis
    using lf.run_all_encoded [OF assms, of "[]"]
    by (simp add: link_feed_def link_parse_def link_initial_parser_def del: concat_eq_Nil_conv)
qed (simp add: link_feed_def link_initial_parser_def)

section \<open>Properties\<close>

text \<open>
  C11. Every sequence of frames the link rules allow comes back from its encoding, however
  the reads cut it: a fresh parser that is fed, one read after the other, any chunks that
  together are the concatenated encodings queues exactly these frames in their order, keeps
  no bytes and does not fail.
\<close>
theorem link_frames_roundtrip:
  assumes "\<forall>f \<in> set fs. link_valid f" "concat reads = concat (map link_encodeFrame fs)"
  shows "foldl link_feed link_initial_parser reads = link_initial_parser\<lparr>lframes := fs\<rparr>"
  using link_feed_encoded [OF assms(1)] by (simp add: foldl_link_feed assms(2))

theorem link_frames_roundtrip_witness:
  "\<exists>bytes. bytes = concat (map link_encodeFrame [\<lparr>ltype = LOpen, lstream = 3, lpayload = []\<rparr>,
        \<lparr>ltype = LData, lstream = 3, lpayload = [9, 8]\<rparr>]) \<and>
     foldl link_feed link_initial_parser [take 7 bytes, take 9 (drop 7 bytes), drop 16 bytes]
     = link_initial_parser\<lparr>lframes := [\<lparr>ltype = LOpen, lstream = 3, lpayload = []\<rparr>,
        \<lparr>ltype = LData, lstream = 3, lpayload = [9, 8]\<rparr>]\<rparr>"
  (is "\<exists>bytes. bytes = ?all \<and> _")
proof (intro exI [of _ ?all] conjI refl)
  have "concat [take 7 bs, take 9 (drop 7 bs), drop 16 bs] = bs" for bs :: bytes
    using append_take_drop_id [of 9 "drop 7 bs"] by simp
  then show "foldl link_feed link_initial_parser [take 7 ?all, take 9 (drop 7 ?all), drop 16 ?all]
     = link_initial_parser\<lparr>lframes := [\<lparr>ltype = LOpen, lstream = 3, lpayload = []\<rparr>,
        \<lparr>ltype = LData, lstream = 3, lpayload = [9, 8]\<rparr>]\<rparr>"
    by (rule link_frames_roundtrip [rotated])
       (simp add: link_valid_def payload_refusal_def link_kMaxPayload_def kDataFrameMax_def)
qed

text \<open>
  C13. The parser neither loses nor invents bytes: whatever is fed to a fresh parser, if
  it does not fail, then the encodings of the queued frames followed by the bytes still
  buffered are the input itself, and every queued frame satisfies the link rules.
\<close>
theorem link_parser_exact:
  assumes "\<not> lfailed (link_feed link_initial_parser input)"
  shows "concat (map link_encodeFrame (lframes (link_feed link_initial_parser input)))
           @ lbuffer (link_feed link_initial_parser input) = input
       \<and> (\<forall>f \<in> set (lframes (link_feed link_initial_parser input)). link_valid f)"
  using assms by (rule link_feed_initial_exact)

theorem link_parser_exact_witness:
  "concat (map link_encodeFrame (lframes (link_feed link_initial_parser [0x55, 0xA7])))
     @ lbuffer (link_feed link_initial_parser [0x55, 0xA7]) = [0x55, 0xA7]"
proof -
  have "\<not> lfailed (link_feed link_initial_parser [0x55, 0xA7])"
    by (simp add: link_feed_def link_parse_def link_initial_parser_def link_frame_at_def
          link_kHeaderSize_def)
  from link_parser_exact [OF this] show ?thesis by simp
qed

text \<open>
  C15. Reads may split the stream anywhere: feeding chunks one after the other leaves the
  parser in exactly the state that feeding their concatenation does, refusals included.
\<close>
theorem link_chunking:
  "foldl link_feed link_initial_parser chunks = link_feed link_initial_parser (concat chunks)"
  by (simp add: foldl_link_feed)

text \<open>
  C22. The typed messages of an open stream survive the wire: HELLO yields version 2 and the
  known capabilities, PING and PONG the nonce, CLOSE the reason, CREDIT the amount, GOAWAY
  the reason and the delay, each from the frame the parser emits.
\<close>
theorem link_messages_roundtrip:
  assumes "s \<noteq> 0" "n \<noteq> 0"
  shows "(\<exists>f. link_frame_at (encodeHello caps) = Emit f 20 \<and> ltype f = LHello \<and>
           decodeHello f = \<lparr>version = 2, reserved = 0, capabilities = caps AND kKnown\<rparr>) \<and>
    (\<exists>f. link_frame_at (encodePing nonce) = Emit f 20 \<and> ltype f = LPing \<and> decodeNonce f = nonce) \<and>
    (\<exists>f. link_frame_at (encodePong nonce) = Emit f 20 \<and> ltype f = LPong \<and> decodeNonce f = nonce) \<and>
    (\<exists>f. link_frame_at (encodeClose s r) = Emit f 13 \<and> ltype f = LClose \<and> lstream f = s \<and>
           decodeCloseReason f = link_close_code r) \<and>
    (\<exists>f. link_frame_at (encodeCredit s n) = Emit f 16 \<and> ltype f = LCredit \<and> lstream f = s \<and>
           decodeCredit f = n) \<and>
    (\<exists>f. link_frame_at (encodeGoAway g secs) = Emit f 16 \<and> ltype f = LGoAway \<and>
           decodeGoAway f = \<lparr>reason = goaway_code g, seconds = secs\<rparr>)"
proof (intro conjI)
  show "\<exists>f. link_frame_at (encodeHello caps) = Emit f 20 \<and> ltype f = LHello \<and>
           decodeHello f = \<lparr>version = 2, reserved = 0, capabilities = caps AND kKnown\<rparr>"
    using link_emit [OF link_valid_hello, of "caps AND kKnown"]
    by (auto simp: encodeHello_def Let_def kWireVersion_def length_link_encodeFrame
          link_kHeaderSize_def decodeHello_def link_read_fields
          link_append_out(1) [of "link_appendU16 [] _"] link_append_out(2) [of "link_appendU16 [] _ @ _"])
  show "\<exists>f. link_frame_at (encodePing nonce) = Emit f 20 \<and> ltype f = LPing \<and> decodeNonce f = nonce"
    "\<exists>f. link_frame_at (encodePong nonce) = Emit f 20 \<and> ltype f = LPong \<and> decodeNonce f = nonce"
    using link_emit [OF link_valid_nonce [of LPing nonce]] link_emit [OF link_valid_nonce [of LPong nonce]]
    by (auto simp: encodePing_def encodePong_eq length_link_encodeFrame link_kHeaderSize_def
          decodeNonce_nonce_bytes)
  show "\<exists>f. link_frame_at (encodeClose s r) = Emit f 13 \<and> ltype f = LClose \<and> lstream f = s \<and>
           decodeCloseReason f = link_close_code r"
    using link_emit [OF link_valid_close [OF assms(1), of r]]
    by (auto simp: encodeClose_def length_link_encodeFrame link_kHeaderSize_def decodeCloseReason_def)
  show "\<exists>f. link_frame_at (encodeCredit s n) = Emit f 16 \<and> ltype f = LCredit \<and> lstream f = s \<and>
           decodeCredit f = n"
    using link_emit [OF link_valid_credit [OF assms]]
    by (auto simp: encodeCredit_def length_link_encodeFrame link_kHeaderSize_def decodeCredit_def
          link_read_fields)
  have "(ucast (ucast (goaway_code g) :: u16) :: byte) \<le> 2"
    by (cases g) (simp_all add: ucast_low_byte)
  then show "\<exists>f. link_frame_at (encodeGoAway g secs) = Emit f 16 \<and> ltype f = LGoAway \<and>
           decodeGoAway f = \<lparr>reason = goaway_code g, seconds = secs\<rparr>"
    using link_emit [OF link_valid_goaway [THEN iffD2], of "ucast (goaway_code g)" secs]
    by (auto simp: encodeGoAway_def Let_def length_link_encodeFrame link_kHeaderSize_def
          decodeGoAway_def link_read_fields ucast_low_byte link_append_out(1) [of "link_appendU16 [] _"])
qed

theorem link_messages_roundtrip_witness:
  "\<exists>f. link_frame_at (encodeCredit 5 65536) = Emit f 16 \<and> ltype f = LCredit \<and> lstream f = 5 \<and>
     decodeCredit f = 65536"
  using link_messages_roundtrip [of 5 65536] by simp

text \<open>
  C29. The range check of a GOAWAY frame looks at the low byte of its 16-bit reason only: a
  frame that carries the reason \<open>0x0100\<close>, which no \<open>GoAwayReason\<close> has, is accepted and
  read as \<open>NodeDrain\<close>.
\<close>
theorem goaway_high_byte_ignored:
  "\<exists>f. link_frame_at (link_encodeFrame \<lparr>ltype = LGoAway, lstream = 0,
         lpayload = link_appendU16 [] 0x0100 @ link_appendU16 [] 30\<rparr>) = Emit f 16 \<and>
       link_readU16 (lpayload f) = 0x0100 \<and> reason (decodeGoAway f) = goaway_code NodeDrain"
proof -
  have "link_valid \<lparr>ltype = LGoAway, lstream = 0,
      lpayload = link_appendU16 [] 0x0100 @ link_appendU16 [] 30\<rparr>"
    by (subst link_valid_goaway) simp
  from link_emit [OF this] show ?thesis
    by (simp add: length_link_encodeFrame link_kHeaderSize_def link_read_fields decodeGoAway_def)
qed

text \<open>
  Every frame type, close reason, GOAWAY reason and wire error has a name of its own:
  the name tables are inverted by the lookup functions.
\<close>
theorem link_names_roundtrip:
  "frameTypeFromString (frameTypeToString t) = Some t \<and>
   closeReasonFromString (closeReasonToString c) = Some c \<and>
   goAwayReasonFromString (goAwayReasonToString g) = Some g \<and>
   wireErrorFromString (wireErrorToString e) = Some e"
proof (intro conjI)
  show "frameTypeFromString (frameTypeToString t) = Some t"
    by (cases t) (simp_all add: frameTypeFromString_def frameTypeToString_def kFrameTypes_def)
  show "closeReasonFromString (closeReasonToString c) = Some c"
    by (cases c) (simp_all add: closeReasonFromString_def closeReasonToString_def kCloseReasons_def)
  show "goAwayReasonFromString (goAwayReasonToString g) = Some g"
    by (cases g) (simp_all add: goAwayReasonFromString_def goAwayReasonToString_def kGoAwayReasons_def)
  show "wireErrorFromString (wireErrorToString e) = Some e"
    by (cases e) (simp_all add: wireErrorFromString_def wireErrorToString_def kWireErrors_def)
qed

end
