(* ===== verification/Credit_Window.thy ===== *)
theory Credit_Window
  imports Link_Frames
begin

text \<open>
  Per-stream flow control of the link, \<open>services/tunnel/src/link/protocol/credit-window.cc\<close>,
  and the way \<open>services/tunnel/src/link/client/link-client.cc\<close> drives a window at each end of a
  stream: the sender spends its window on DATA frames and regains it from CREDIT frames, the
  receiver spends its copy on arrival and returns what its application consumed in grants.
  \<open>size_t\<close> arguments are 64-bit words, so the 64-bit sums wrap as in the code.
\<close>

section \<open>The window\<close>

record credit_window =
  limited :: bool
  window :: u32
  remaining :: u32
  consumed :: u32
  grantThreshold :: u32

definition CreditWindow :: "bool \<Rightarrow> u32 \<Rightarrow> u32 \<Rightarrow> credit_window" where
  "CreditWindow lim win threshold =
     \<lparr>limited = lim, window = win, remaining = win, consumed = 0,
      grantThreshold = (if threshold = 0 then kCreditGrantThreshold else threshold)\<rparr>"

definition covers :: "credit_window \<Rightarrow> u64 \<Rightarrow> bool" where
  "covers w bs = (if \<not> limited w then True else bs \<le> ucast (remaining w))"

definition recordUsed :: "credit_window \<Rightarrow> u64 \<Rightarrow> credit_window" where
  "recordUsed w bs =
     (if \<not> limited w then w
      else let used = ucast (min bs (ucast (remaining w)))
        in w\<lparr>remaining := remaining w - used\<rparr>)"

definition grant :: "credit_window \<Rightarrow> u32 \<Rightarrow> credit_window" where
  "grant w bs =
     (if \<not> limited w then w
      else let total = (ucast (remaining w) + ucast bs :: u64)
        in w\<lparr>remaining := ucast (min total (ucast (window w)))\<rparr>)"

definition markConsumed :: "credit_window \<Rightarrow> u64 \<Rightarrow> credit_window" where
  "markConsumed w bs =
     (if \<not> limited w then w
      else let total = ucast (consumed w) + bs
        in w\<lparr>consumed := ucast (min total (ucast (window w)))\<rparr>)"

definition takePendingGrant :: "credit_window \<Rightarrow> u32 \<times> credit_window" where
  "takePendingGrant w =
     (if \<not> limited w \<or> consumed w < grantThreshold w then (0, w)
      else let granted = consumed w
        in (granted, grant (w\<lparr>consumed := 0\<rparr>) granted))"

text \<open>
  \<open>LinkClient::grantConsumedCredit\<close>: the window after the consumption, and the CREDIT frame to
  send, if any.
\<close>

definition grantConsumedCredit :: "credit_window \<Rightarrow> u32 \<Rightarrow> u64 \<Rightarrow> credit_window \<times> bytes option" where
  "grantConsumedCredit w sid consumedBytes =
     (let (granted, w') = takePendingGrant (markConsumed w consumedBytes)
      in (w', if granted > 0 then Some (encodeCredit sid granted) else None))"

section \<open>Lemmas\<close>

lemma unat_ucast_32_64 [simp]: "unat (ucast (w :: u32) :: u64) = unat w"
  using unat_u32_lt [of w] by (simp add: unsigned_ucast_eq take_bit_nat_eq_self)

lemma unat_ucast_64_32: "unat (w :: u64) < 2 ^ 32 \<Longrightarrow> unat (ucast w :: u32) = unat w"
  by (simp add: unsigned_ucast_eq take_bit_nat_eq_self)

lemma unat_min: "unat (min a b) = min (unat a) (unat (b :: 'a::len word))"
  by (simp add: min_def word_le_nat_alt)

lemma unat_sum64:
  "unat (a :: u32) + unat (b :: u64) < 2 ^ 64 \<Longrightarrow> unat (ucast a + b :: u64) = unat a + unat b"
  by (simp add: unat_word_ariths)

lemma covers_iff: "covers w bs \<longleftrightarrow> \<not> limited w \<or> unat bs \<le> unat (remaining w)"
  by (simp add: covers_def word_le_nat_alt)

lemma unat_capped:
  assumes "unat (t :: u64) = k"
  shows "unat (ucast (min t (ucast (v :: u32))) :: u32) = min k (unat v)"
proof -
  have "unat (min t (ucast v)) = min k (unat v)"
    using assms by (simp add: unat_min)
  moreover from this have "unat (min t (ucast v)) < 2 ^ 32"
    using unat_u32_lt [of v] by simp
  ultimately show ?thesis by (simp add: unat_ucast_64_32)
qed

lemma recordUsed_remaining:
  assumes "limited w"
  shows "unat (remaining (recordUsed w bs)) = unat (remaining w) - min (unat bs) (unat (remaining w))"
proof -
  have "unat (ucast (min bs (ucast (remaining w))) :: u32) = min (unat bs) (unat (remaining w))"
    by (rule unat_capped) simp
  then show ?thesis
    using assms by (simp add: recordUsed_def Let_def unat_sub word_le_nat_alt)
qed

lemma grant_remaining:
  assumes "limited w"
  shows "unat (remaining (grant w bs)) = min (unat (remaining w) + unat bs) (unat (window w))"
proof -
  have "unat (ucast (remaining w) + ucast bs :: u64) = unat (remaining w) + unat bs"
    using unat_u32_lt [of bs] unat_u32_lt [of "remaining w"] by (simp add: unat_sum64)
  from unat_capped [OF this] show ?thesis
    using assms by (simp add: grant_def Let_def)
qed

lemma markConsumed_consumed:
  assumes "limited w" "unat (consumed w) + unat bs < 2 ^ 64"
  shows "unat (consumed (markConsumed w bs)) = min (unat (consumed w) + unat bs) (unat (window w))"
  using unat_capped [OF unat_sum64 [OF assms(2)]] assms(1) by (simp add: markConsumed_def Let_def)

lemma window_frame [simp]:
  "limited (recordUsed w bs) = limited w" "window (recordUsed w bs) = window w"
  "consumed (recordUsed w bs) = consumed w" "grantThreshold (recordUsed w bs) = grantThreshold w"
  "limited (grant w g) = limited w" "window (grant w g) = window w"
  "consumed (grant w g) = consumed w" "grantThreshold (grant w g) = grantThreshold w"
  "limited (markConsumed w bs) = limited w" "window (markConsumed w bs) = window w"
  "remaining (markConsumed w bs) = remaining w" "grantThreshold (markConsumed w bs) = grantThreshold w"
  by (simp_all add: recordUsed_def grant_def markConsumed_def Let_def)

text \<open>The window never promises or records more than its size.\<close>

definition window_ok :: "credit_window \<Rightarrow> bool" where
  "window_ok w \<longleftrightarrow> remaining w \<le> window w \<and> consumed w \<le> window w \<and> grantThreshold w \<noteq> 0"

lemma window_ok_initial: "window_ok (CreditWindow lim win t)"
  by (simp add: window_ok_def CreditWindow_def kCreditGrantThreshold_def)

lemma window_ok_recordUsed: "window_ok w \<Longrightarrow> window_ok (recordUsed w bs)"
  using recordUsed_remaining [of w bs]
  by (cases "limited w") (auto simp: window_ok_def word_le_nat_alt recordUsed_def)

lemma window_ok_grant: "window_ok w \<Longrightarrow> window_ok (grant w g)"
  using grant_remaining [of w g]
  by (cases "limited w") (auto simp: window_ok_def word_le_nat_alt grant_def)

lemma ucast_min_le: "(ucast (min t (ucast v) :: u64) :: u32) \<le> v"
  by (simp add: word_le_nat_alt unat_capped [OF refl])

lemma window_ok_markConsumed: "window_ok w \<Longrightarrow> window_ok (markConsumed w bs)"
  by (cases "limited w") (auto simp: window_ok_def markConsumed_def Let_def ucast_min_le)

lemma window_ok_takePendingGrant: "window_ok w \<Longrightarrow> window_ok (snd (takePendingGrant w))"
  using window_ok_grant [of "w\<lparr>consumed := 0\<rparr>" "consumed w"]
  by (auto simp: takePendingGrant_def Let_def window_ok_def)


section \<open>A stream with a window at each end\<close>

text \<open>
  Both directions of a stream are alike: DATA frames travel one way and CREDIT frames the
  other, each in order. \<open>undelivered\<close> counts the bytes the receiver holds for its
  application (the pending buffer of \<open>handleData\<close>).
\<close>

record flow =
  sendWindow :: credit_window
  receiveWindow :: credit_window
  dataInFlight :: "u64 list"
  creditInFlight :: "u32 list"
  undelivered :: nat

definition flow_start :: flow where
  "flow_start =
     \<lparr>sendWindow = CreditWindow True kInitialStreamCredit kCreditGrantThreshold,
      receiveWindow = CreditWindow True kInitialStreamCredit kCreditGrantThreshold,
      dataInFlight = [], creditInFlight = [], undelivered = 0\<rparr>"

inductive flow_step :: "flow \<Rightarrow> flow \<Rightarrow> bool" where
  send_data: "covers (sendWindow s) n \<Longrightarrow>
     flow_step s (s\<lparr>sendWindow := recordUsed (sendWindow s) n, dataInFlight := dataInFlight s @ [n]\<rparr>)"
| receive_data: "dataInFlight s = n # ns \<Longrightarrow> covers (receiveWindow s) n \<Longrightarrow>
     flow_step s (s\<lparr>receiveWindow := recordUsed (receiveWindow s) n, dataInFlight := ns,
                    undelivered := undelivered s + unat n\<rparr>)"
| deliver: "unat n \<le> undelivered s \<Longrightarrow>
     takePendingGrant (markConsumed (receiveWindow s) n) = (g, w) \<Longrightarrow>
     flow_step s (s\<lparr>receiveWindow := w, undelivered := undelivered s - unat n,
                    creditInFlight := (if g > 0 then creditInFlight s @ [g] else creditInFlight s)\<rparr>)"
| receive_credit: "creditInFlight s = g # gs \<Longrightarrow>
     flow_step s (s\<lparr>sendWindow := grant (sendWindow s) g, creditInFlight := gs\<rparr>)"

inductive flow_reachable :: "flow \<Rightarrow> bool" where
  flow_init: "flow_reachable flow_start"
| flow_next: "flow_reachable s \<Longrightarrow> flow_step s t \<Longrightarrow> flow_reachable t"

inductive_cases flow_stepE: "flow_step s t"

definition in_flight :: "flow \<Rightarrow> nat" where
  "in_flight s = sum_list (map unat (dataInFlight s)) + sum_list (map unat (creditInFlight s))"

text \<open>
  What the two windows know of each other: the receiver's window is the sender's plus what
  is on the way, and it is short of the full window by what the application holds and what
  is consumed but not yet granted.
\<close>

definition flow_inv :: "flow \<Rightarrow> bool" where
  "flow_inv s \<longleftrightarrow>
     limited (sendWindow s) \<and> limited (receiveWindow s) \<and>
     window (sendWindow s) = kInitialStreamCredit \<and> window (receiveWindow s) = kInitialStreamCredit \<and>
     grantThreshold (receiveWindow s) = kCreditGrantThreshold \<and>
     unat (remaining (sendWindow s)) + in_flight s = unat (remaining (receiveWindow s)) \<and>
     unat (remaining (receiveWindow s)) + undelivered s + unat (consumed (receiveWindow s)) = 262144 \<and>
     unat (consumed (receiveWindow s)) < 65536"

lemma flow_inv_start: "flow_inv flow_start"
  by (simp add: flow_inv_def flow_start_def CreditWindow_def kInitialStreamCredit_def
        kCreditGrantThreshold_def in_flight_def)

lemma deliver_window:
  assumes "limited w" "window w = kInitialStreamCredit" "grantThreshold w = kCreditGrantThreshold"
    and "unat (remaining w) + unat (consumed w) + unat n \<le> 262144"
    and "takePendingGrant (markConsumed w n) = (g, w')"
  shows "limited w' \<and> window w' = kInitialStreamCredit \<and> grantThreshold w' = kCreditGrantThreshold \<and>
    unat (remaining w') = unat (remaining w) + unat g \<and>
    unat g + unat (consumed w') = unat (consumed w) + unat n \<and> unat (consumed w') < 65536"
proof -
  let ?m = "markConsumed w n"
  have cons: "unat (consumed ?m) = unat (consumed w) + unat n"
    using assms markConsumed_consumed [of w n] by (simp add: kInitialStreamCredit_def)
  have rem: "unat (remaining (grant (?m\<lparr>consumed := 0\<rparr>) (consumed ?m)))
      = unat (remaining w) + unat (consumed ?m)"
    using assms cons grant_remaining [of "?m\<lparr>consumed := 0\<rparr>" "consumed ?m"]
    by (simp add: kInitialStreamCredit_def)
  show ?thesis
    using assms cons rem
    by (auto simp: takePendingGrant_def Let_def word_less_nat_alt kCreditGrantThreshold_def
          split: if_splits)
qed

lemma flow_step_inv: "flow_step s t \<Longrightarrow> flow_inv s \<Longrightarrow> flow_inv t"
proof (induction rule: flow_step.induct)
  case (send_data s n)
  then show ?case
    using recordUsed_remaining [of "sendWindow s" n]
    by (auto simp: flow_inv_def in_flight_def covers_iff)
next
  case (receive_data s n ns)
  then show ?case
    using recordUsed_remaining [of "receiveWindow s" n]
    by (auto simp: flow_inv_def in_flight_def covers_iff)
next
  case (deliver n s g w)
  then show ?case
    using deliver_window [OF _ _ _ _ deliver(2)]
    by (auto simp: flow_inv_def in_flight_def word_gt_0)
next
  case (receive_credit s g gs)
  then show ?case
    using grant_remaining [of "sendWindow s" g]
    by (auto simp: flow_inv_def in_flight_def kInitialStreamCredit_def)
qed

lemma flow_reachable_inv: "flow_reachable s \<Longrightarrow> flow_inv s"
  by (induction rule: flow_reachable.induct) (auto intro: flow_inv_start flow_step_inv)

section \<open>Properties\<close>

text \<open>
  A window never overdraws and never overfills: whatever calls it gets, its remaining
  credit and its recorded consumption stay within the window, starting from the constructor.
\<close>
theorem credit_window_bounds:
  "window_ok (CreditWindow lim win t) \<and>
   (window_ok w \<longrightarrow> window_ok (recordUsed w bs) \<and> window_ok (grant w g) \<and>
      window_ok (markConsumed w bs) \<and> window_ok (snd (takePendingGrant w)))"
  by (simp add: window_ok_initial window_ok_recordUsed window_ok_grant window_ok_markConsumed
        window_ok_takePendingGrant)

theorem credit_window_bounds_witness:
  "window_ok (recordUsed (CreditWindow True 100 10) 250)"
  using credit_window_bounds [of True 100 10 "CreditWindow True 100 10" 250] by blast

text \<open>
  C12. A sender that respects its own window is never refused: in every reachable state of a
  stream, the receiver's window covers the DATA frame that arrives next, so \<open>OverCredit\<close>
  is never raised against it.
\<close>
theorem no_over_credit:
  assumes "flow_reachable s" "dataInFlight s = n # ns"
  shows "covers (receiveWindow s) n"
  using flow_reachable_inv [OF assms(1)] assms(2)
  by (simp add: flow_inv_def in_flight_def covers_iff)

lemma flow_one_sent:
  "flow_reachable (flow_start\<lparr>sendWindow := recordUsed (sendWindow flow_start) 1000,
                              dataInFlight := [1000]\<rparr>)"
proof -
  have "covers (sendWindow flow_start) 1000"
    by (simp add: flow_start_def CreditWindow_def covers_iff kInitialStreamCredit_def)
  from flow_next [OF flow_init send_data [OF this]] show ?thesis
    by (simp add: flow_start_def)
qed

theorem no_over_credit_witness:
  "covers (receiveWindow (flow_start\<lparr>sendWindow := recordUsed (sendWindow flow_start) 1000,
                              dataInFlight := [1000]\<rparr>)) 1000"
  by (rule no_over_credit [OF flow_one_sent, of _ "[]"]) simp

text \<open>
  C14. The stream cannot stall for lost credit: in every reachable state in which nothing is on
  the way and the application has taken everything, the sender may send a full DATA frame.
\<close>
theorem no_credit_deadlock:
  assumes "flow_reachable s" "dataInFlight s = []" "creditInFlight s = []" "undelivered s = 0"
  shows "covers (sendWindow s) (of_nat kDataFrameMax)"
  using flow_reachable_inv [OF assms(1)] assms(2-4)
  by (simp add: flow_inv_def in_flight_def covers_iff kDataFrameMax_def)

theorem no_credit_deadlock_witness: "covers (sendWindow flow_start) (of_nat kDataFrameMax)"
  by (rule no_credit_deadlock [OF flow_init]) (simp_all add: flow_start_def)

end
