(* ===== verification/Client_Hello.thy ===== *)
theory Client_Hello
  imports Prelude
begin

text \<open>
  Routing a TLS connection by its server name,
  \<open>services/tunnel/src/link/protocol/client-hello.cc\<close>: the bounds-checked \<open>Reader\<close>, the
  ClientHello parser, the device-name grammar and the alert record. A read past the end of
  the input is undefined behaviour in the code; here it is \<open>None\<close>, so that the parser's
  type shows it and its absence is a theorem.
\<close>

section \<open>Data\<close>

datatype hello_status = HelloNeedMore | HelloParsed | HelloMalformed

record client_hello_result =
  status :: hello_status
  serverName :: bytes

record device_name =
  service :: bytes
  homeId :: bytes

definition kHandshakeRecord :: u32 where "kHandshakeRecord = 0x16"
definition kClientHelloMessage :: u32 where "kClientHelloMessage = 0x01"
definition kServerNameExtension :: u32 where "kServerNameExtension = 0x0000"
definition kHostNameType :: u32 where "kHostNameType = 0x00"
definition kRecordHeader :: nat where "kRecordHeader = 5"
definition kHandshakeHeader :: nat where "kHandshakeHeader = 4"
definition kVersionAndRandom :: nat where "kVersionAndRandom = 34"
definition kExtensionHeader :: nat where "kExtensionHeader = 4"
definition kServerNameEntryHeader :: nat where "kServerNameEntryHeader = 3"
definition kHomeIdLength :: nat where "kHomeIdLength = 32"
definition kMaxLabelLength :: nat where "kMaxLabelLength = 63"
definition kMinServiceLength :: nat where "kMinServiceLength = 3"
definition kMaxServiceLength :: nat where "kMaxServiceLength = 12"
definition kServiceSeparator :: bytes where "kServiceSeparator = byte_string ''--''"

lemmas hello_consts = kHandshakeRecord_def kClientHelloMessage_def kServerNameExtension_def
  kHostNameType_def kRecordHeader_def kHandshakeHeader_def kVersionAndRandom_def
  kExtensionHeader_def kServerNameEntryHeader_def

section \<open>Reader\<close>

text \<open>A \<open>Reader\<close> is represented by the bytes from its cursor on.\<close>

definition has :: "bytes \<Rightarrow> nat \<Rightarrow> bool" where
  "has r count \<longleftrightarrow> length r \<ge> count"

fun read_byte :: "bytes \<Rightarrow> (u32 \<times> bytes) option" where
  "read_byte [] = None"
| "read_byte (b # r) = Some (ucast b, r)"

definition twoBytes :: "bytes \<Rightarrow> (u32 \<times> bytes) option" where
  "twoBytes r =
     (case read_byte r of None \<Rightarrow> None
      | Some (high, r') \<Rightarrow>
          (case read_byte r' of None \<Rightarrow> None
           | Some (low, r'') \<Rightarrow> Some (push_bit 8 high OR low, r'')))"

definition threeBytes :: "bytes \<Rightarrow> (u32 \<times> bytes) option" where
  "threeBytes r =
     (case twoBytes r of None \<Rightarrow> None
      | Some (high, r') \<Rightarrow>
          (case read_byte r' of None \<Rightarrow> None
           | Some (low, r'') \<Rightarrow> Some (push_bit 8 high OR low, r'')))"

definition take_view :: "bytes \<Rightarrow> nat \<Rightarrow> bytes \<times> bytes" where
  "take_view r count = (take count r, drop count r)"

definition skip :: "bytes \<Rightarrow> nat \<Rightarrow> bytes option" where
  "skip r count = (if has r count then Some (drop count r) else None)"

section \<open>ClientHello\<close>

definition malformedHello :: client_hello_result where
  "malformedHello = \<lparr>status = HelloMalformed, serverName = []\<rparr>"

definition needMoreHello :: client_hello_result where
  "needMoreHello = \<lparr>status = HelloNeedMore, serverName = []\<rparr>"

text \<open>
  \<open>hostNameIn\<close> returns \<open>std::nullopt\<close> for a malformed list: the inner option. The outer one is
  the out-of-range read.
\<close>

lemma read_byte_length: "read_byte r = Some (v, r') \<Longrightarrow> length r = Suc (length r')"
  by (cases r) auto

lemma twoBytes_length: "twoBytes r = Some (v, r') \<Longrightarrow> length r = Suc (Suc (length r'))"
  by (auto simp: twoBytes_def dest!: read_byte_length split: option.splits)

function hostNameLoop :: "bytes \<Rightarrow> bytes \<Rightarrow> bytes option option" where
  "hostNameLoop lst hostName =
     (if \<not> has lst kServerNameEntryHeader then Some (Some hostName)
      else case read_byte lst of None \<Rightarrow> None
        | Some (type, r) \<Rightarrow>
            (case twoBytes r of None \<Rightarrow> None
             | Some (len, r') \<Rightarrow>
                 if \<not> has r' (unat len) then Some None
                 else let (name, rest) = take_view r' (unat len)
                   in hostNameLoop rest
                        (if type = kHostNameType \<and> hostName = [] then name else hostName)))"
  by pat_completeness auto
termination
  by (relation "measure (\<lambda>(lst, hostName). length lst)")
     (auto simp: take_view_def dest!: read_byte_length twoBytes_length)

declare hostNameLoop.simps [simp del]

definition hostNameIn :: "bytes \<Rightarrow> bytes option option" where
  "hostNameIn extension =
     (if \<not> has extension 2 then Some None
      else case twoBytes extension of None \<Rightarrow> None
        | Some (listLength, r) \<Rightarrow>
            if \<not> has r (unat listLength) then Some None
            else hostNameLoop (fst (take_view r (unat listLength))) [])"

function extensionLoop :: "bytes \<Rightarrow> bytes \<Rightarrow> client_hello_result option" where
  "extensionLoop exts name =
     (if \<not> has exts kExtensionHeader then Some \<lparr>status = HelloParsed, serverName = name\<rparr>
      else case twoBytes exts of None \<Rightarrow> None
        | Some (type, r) \<Rightarrow>
            (case twoBytes r of None \<Rightarrow> None
             | Some (len, r') \<Rightarrow>
                 if \<not> has r' (unat len) then Some malformedHello
                 else let (data, rest) = take_view r' (unat len)
                   in if type \<noteq> kServerNameExtension then extensionLoop rest name
                      else case hostNameIn data of None \<Rightarrow> None
                        | Some None \<Rightarrow> Some malformedHello
                        | Some (Some found) \<Rightarrow>
                            extensionLoop rest (if name = [] then found else name)))"
  by pat_completeness auto
termination
  by (relation "measure (\<lambda>(exts, name). length exts)")
     (auto simp: take_view_def dest!: twoBytes_length)

declare extensionLoop.simps [simp del]

text \<open>
  The session identifier, the cipher suites and the compression methods, each a length and
  that many bytes: the chain of \<open>||\<close> in the code. The inner \<open>None\<close> is the malformed branch.
\<close>

definition skip_byte_vector :: "bytes \<Rightarrow> bytes option option" where
  "skip_byte_vector r =
     (if \<not> has r 1 then Some None
      else case read_byte r of None \<Rightarrow> None | Some (n, r') \<Rightarrow> Some (skip r' (unat n)))"

definition skip_short_vector :: "bytes \<Rightarrow> bytes option option" where
  "skip_short_vector r =
     (if \<not> has r 2 then Some None
      else case twoBytes r of None \<Rightarrow> None | Some (n, r') \<Rightarrow> Some (skip r' (unat n)))"

definition skip_hello_prefix :: "bytes \<Rightarrow> bytes option option" where
  "skip_hello_prefix hello =
     (case skip hello kVersionAndRandom of None \<Rightarrow> Some None
      | Some r1 \<Rightarrow>
          (case skip_byte_vector r1 of None \<Rightarrow> None | Some None \<Rightarrow> Some None
           | Some (Some r2) \<Rightarrow>
               (case skip_short_vector r2 of None \<Rightarrow> None | Some None \<Rightarrow> Some None
                | Some (Some r3) \<Rightarrow> skip_byte_vector r3)))"

definition parse_hello_body :: "bytes \<Rightarrow> client_hello_result option" where
  "parse_hello_body hello =
     (case skip_hello_prefix hello of None \<Rightarrow> None
      | Some None \<Rightarrow> Some malformedHello
      | Some (Some r) \<Rightarrow>
          if length r = 0 then Some \<lparr>status = HelloParsed, serverName = []\<rparr>
          else if \<not> has r 2 then Some malformedHello
          else case twoBytes r of None \<Rightarrow> None
            | Some (extensionsLength, r') \<Rightarrow>
                if \<not> has r' (unat extensionsLength) then Some malformedHello
                else extensionLoop (fst (take_view r' (unat extensionsLength))) [])"

definition parse_handshake :: "bytes \<Rightarrow> client_hello_result option" where
  "parse_handshake handshake =
     (case read_byte handshake of None \<Rightarrow> None
      | Some (message, r) \<Rightarrow>
          if message \<noteq> kClientHelloMessage then Some malformedHello
          else case threeBytes r of None \<Rightarrow> None
            | Some (messageLength, r') \<Rightarrow>
                if \<not> has r' (unat messageLength) then Some malformedHello
                else parse_hello_body (fst (take_view r' (unat messageLength))))"

definition parseClientHello :: "bytes \<Rightarrow> client_hello_result option" where
  "parseClientHello bs =
     (if length bs < kRecordHeader then Some needMoreHello
      else case read_byte bs of None \<Rightarrow> None
        | Some (record_type, r) \<Rightarrow>
            if record_type \<noteq> kHandshakeRecord then Some malformedHello
            else case twoBytes (case skip r 2 of None \<Rightarrow> r | Some r' \<Rightarrow> r') of None \<Rightarrow> None
              | Some (recordLength, r'') \<Rightarrow>
                  if unat recordLength < kHandshakeHeader then Some malformedHello
                  else if \<not> has r'' (unat recordLength) then Some needMoreHello
                  else parse_handshake (fst (take_view r'' (unat recordLength))))"

section \<open>Device names\<close>

definition lowered :: "byte \<Rightarrow> byte" where
  "lowered c = (if c \<ge> of_char CHR ''A'' \<and> c \<le> of_char CHR ''Z''
                then c - of_char CHR ''A'' + of_char CHR ''a'' else c)"

definition sameIgnoringCase :: "bytes \<Rightarrow> bytes \<Rightarrow> bool" where
  "sameIgnoringCase lhs rhs \<longleftrightarrow>
     length lhs = length rhs \<and> list_all2 (\<lambda>l r. lowered l = lowered r) lhs rhs"

definition is_digit :: "byte \<Rightarrow> bool" where
  "is_digit c \<longleftrightarrow> c \<ge> of_char CHR ''0'' \<and> c \<le> of_char CHR ''9''"

definition isHomeId :: "bytes \<Rightarrow> bool" where
  "isHomeId text \<longleftrightarrow> length text = kHomeIdLength \<and>
     list_all (\<lambda>c. is_digit c \<or> (c \<ge> of_char CHR ''a'' \<and> c \<le> of_char CHR ''f'')) text"

definition isService :: "bytes \<Rightarrow> bool" where
  "isService text \<longleftrightarrow> length text \<ge> kMinServiceLength \<and> length text \<le> kMaxServiceLength \<and>
     hd text \<ge> of_char CHR ''a'' \<and> hd text \<le> of_char CHR ''z'' \<and>
     list_all (\<lambda>c. is_digit c \<or> (c \<ge> of_char CHR ''a'' \<and> c \<le> of_char CHR ''z'')) text"

text \<open>\<open>std::string::rfind\<close>: the last position at which the needle occurs.\<close>

definition rfind :: "'a list \<Rightarrow> 'a list \<Rightarrow> nat option" where
  "rfind needle s =
     (case filter (\<lambda>i. take (length needle) (drop i s) = needle) [0..<length s + 1 - length needle] of
        [] \<Rightarrow> None
      | i # is \<Rightarrow> Some (last (i # is)))"

definition parseDeviceName :: "bytes \<Rightarrow> bytes \<Rightarrow> device_name option" where
  "parseDeviceName server suffix =
     (if length server \<le> length suffix then None
      else let labelLength = length server - length suffix
        in if labelLength > kMaxLabelLength then None
           else if \<not> sameIgnoringCase (drop labelLength server) suffix then None
           else let label = map lowered (take labelLength server);
                    separator = rfind kServiceSeparator label;
                    home = (case separator of None \<Rightarrow> label
                            | Some i \<Rightarrow> drop (i + length kServiceSeparator) label);
                    svc = (case separator of None \<Rightarrow> [] | Some i \<Rightarrow> take i label)
             in if \<not> isHomeId home \<or> (separator \<noteq> None \<and> \<not> isService svc) then None
                else Some \<lparr>service = svc, homeId = home\<rparr>)"

definition tlsAlertRecord :: "byte \<Rightarrow> bytes" where
  "tlsAlertRecord description = [0x15, 0x03, 0x03, 0x00, 0x02, 0x02] @ [description]"


section \<open>Lemmas\<close>

subsection \<open>No read past the end\<close>

lemma read_byte_has: "has r (Suc n) \<Longrightarrow> \<exists>v r'. read_byte r = Some (v, r') \<and> has r' n"
  by (cases r) (auto simp: has_def)

lemma twoBytes_has: "has r (Suc (Suc n)) \<Longrightarrow> \<exists>v r'. twoBytes r = Some (v, r') \<and> has r' n"
  by (auto simp: twoBytes_def dest!: read_byte_has split: option.splits)

lemma threeBytes_has: "has r (Suc (Suc (Suc n))) \<Longrightarrow> \<exists>v r'. threeBytes r = Some (v, r') \<and> has r' n"
  using twoBytes_has [of r "Suc n"]
  by (auto simp: threeBytes_def dest!: read_byte_has split: option.splits)

lemmas reader_total = read_byte_has twoBytes_has threeBytes_has

lemma hostNameLoop_total: "\<exists>res. hostNameLoop lst name = Some res"
proof (induction lst name rule: hostNameLoop.induct)
  case (1 lst name)
  show ?case
  proof (cases "has lst kServerNameEntryHeader")
    case True
    then obtain t r where r: "read_byte lst = Some (t, r)" "has r (Suc (Suc 0))"
      using read_byte_has [of lst "Suc (Suc 0)"]
      by (auto simp: kServerNameEntryHeader_def eval_nat_numeral)
    then obtain n r' where "twoBytes r = Some (n, r')"
      using twoBytes_has [of r 0] by auto
    with True r 1 show ?thesis
      by (auto simp: hostNameLoop.simps [of lst name] take_view_def)
  qed (simp add: hostNameLoop.simps)
qed

lemma hostNameIn_total: "\<exists>res. hostNameIn ext = Some res"
  using twoBytes_has [of ext 0] hostNameLoop_total
  by (auto simp: hostNameIn_def numeral_2_eq_2 split: option.splits)

lemma extensionLoop_total: "\<exists>res. extensionLoop exts name = Some res"
proof (induction exts name rule: extensionLoop.induct)
  case (1 exts name)
  show ?case
  proof (cases "has exts kExtensionHeader")
    case True
    then obtain t r where r: "twoBytes exts = Some (t, r)" "has r (Suc (Suc 0))"
      using twoBytes_has [of exts "Suc (Suc 0)"]
      by (auto simp: kExtensionHeader_def eval_nat_numeral)
    then obtain n r' where r': "twoBytes r = Some (n, r')"
      using twoBytes_has [of r 0] by auto
    obtain found where "hostNameIn (take (unat n) r') = Some found"
      using hostNameIn_total by blast
    with True r r' 1 show ?thesis
      by (cases found) (auto simp: extensionLoop.simps [of exts name] take_view_def)
  qed (simp add: extensionLoop.simps)
qed

lemma skip_vectors_total:
  "\<exists>res. skip_byte_vector r = Some res" "\<exists>res. skip_short_vector r = Some res"
  using read_byte_has [of r 0] twoBytes_has [of r 0]
  by (auto simp: skip_byte_vector_def skip_short_vector_def numeral_2_eq_2 split: option.splits)

lemma skip_hello_prefix_total: "\<exists>res. skip_hello_prefix r = Some res"
  unfolding skip_hello_prefix_def using skip_vectors_total
  by (auto split: option.splits) (metis option.discI)+

lemma parse_hello_body_total: "\<exists>res. parse_hello_body r = Some res"
proof -
  obtain res where "skip_hello_prefix r = Some res"
    using skip_hello_prefix_total by blast
  moreover have "\<exists>v r'. twoBytes q = Some (v, r')" if "has q 2" for q
    using twoBytes_has [of q 0] that by (auto simp: numeral_2_eq_2)
  ultimately show ?thesis
    using extensionLoop_total by (cases res) (fastforce simp: parse_hello_body_def)+
qed

lemma parse_handshake_total: "has h kHandshakeHeader \<Longrightarrow> \<exists>res. parse_handshake h = Some res"
  using read_byte_has [of h "Suc (Suc (Suc 0))"] parse_hello_body_total
  by (fastforce simp: parse_handshake_def kHandshakeHeader_def eval_nat_numeral
        dest!: threeBytes_has)

subsection \<open>The record header\<close>

definition record_length :: "bytes \<Rightarrow> nat" where
  "record_length bs = unat (push_bit 8 (ucast (bs ! 3)) OR ucast (bs ! 4) :: u32)"

lemma pow_2_16: "(2 :: nat) ^ 16 = 65536"
  by simp

lemma record_length_lt: "record_length bs < 65536"
proof -
  let ?w = "push_bit 8 (ucast (bs ! 3)) OR ucast (bs ! 4) :: u32"
  have "?w = take_bit 16 ?w"
  proof (rule bit_word_eqI)
    fix k
    have "\<not> bit (bs ! 3) (k - 8)" "\<not> bit (bs ! 4) k" if "16 \<le> k"
      using that bit_imp_le_length [of "bs ! 3" "k - 8"] bit_imp_le_length [of "bs ! 4" k] by auto
    then show "bit ?w k = bit (take_bit 16 ?w) k"
      by (cases "k < 16") (simp_all only: bit_take_bit_iff bit_or_iff bit_push_bit_iff bit_ucast_iff simp_thms not_less)
  qed
  from arg_cong [OF this, of unat] have "unat ?w = take_bit 16 (unat ?w)"
    by (simp only: unsigned_take_bit_eq)
  then show ?thesis
    unfolding record_length_def using take_bit_nat_less_exp [of 16 "unat ?w"]
    by (metis (no_types) pow_2_16)
qed

lemma parseClientHello_record:
  assumes "kRecordHeader \<le> length bs"
  shows "parseClientHello bs =
     (if bs ! 0 \<noteq> 0x16 then Some malformedHello
      else if record_length bs < kHandshakeHeader then Some malformedHello
      else if length bs < kRecordHeader + record_length bs then Some needMoreHello
      else parse_handshake (take (record_length bs) (drop kRecordHeader bs)))"
proof -
  obtain a b c d e r where bs: "bs = a # b # c # d # e # r"
    using assms
    by (cases bs; cases "tl bs"; cases "tl (tl bs)"; cases "tl (tl (tl bs))";
        cases "tl (tl (tl (tl bs)))") (auto simp: kRecordHeader_def)
  have "(ucast a = (0x16 :: u32)) = (a = 0x16)"
    by (simp add: word_unat_eq_iff unsigned_ucast_eq take_bit_nat_eq_self
          order.strict_trans [OF unat_byte_lt])
  then show ?thesis
    by (simp add: bs parseClientHello_def skip_def has_def twoBytes_def take_view_def
          record_length_def kRecordHeader_def kHandshakeRecord_def)
qed


lemma parseClientHello_short: "length bs < kRecordHeader \<Longrightarrow> parseClientHello bs = Some needMoreHello"
  by (simp add: parseClientHello_def)

lemma parseClientHello_result: "\<exists>res. parseClientHello bs = Some res"
proof (cases "kRecordHeader \<le> length bs")
  case True
  then show ?thesis
    using parse_handshake_total [of "take (record_length bs) (drop kRecordHeader bs)"]
    by (auto simp: parseClientHello_record has_def)
qed (simp add: parseClientHello_short)

lemma record_length_bytes: "record_length bs = 256 * unat (bs ! 3) + unat (bs ! 4)"
proof -
  let ?a = "ucast (bs ! 3) :: u32" and ?b = "ucast (bs ! 4) :: u32"
  have "push_bit 8 ?a OR ?b = push_bit 8 ?a + ?b"
  proof (rule disjunctive_add [symmetric])
    show "\<not> bit (push_bit 8 ?a) k \<or> \<not> bit ?b k" for k
      by (cases "k < 8") (auto simp: bit_simps dest: bit_imp_le_length)
  qed
  also have "unat (push_bit 8 ?a + ?b) = 256 * unat (bs ! 3) + unat (bs ! 4)"
    using unat_byte_lt [of "bs ! 3"] unat_byte_lt [of "bs ! 4"]
    by (simp add: push_bit_eq_mult unat_word_ariths unsigned_ucast_eq take_bit_nat_eq_self)
  finally show ?thesis by (simp add: record_length_def)
qed

lemma record_length_append: "kRecordHeader \<le> length bs \<Longrightarrow> record_length (bs @ c) = record_length bs"
  by (simp add: record_length_def nth_append kRecordHeader_def)

lemma parseClientHello_append:
  assumes "parseClientHello bs = Some res" "res \<noteq> needMoreHello"
  shows "parseClientHello (bs @ c) = Some res"
proof -
  have len: "kRecordHeader \<le> length bs"
    using assms parseClientHello_short [of bs] by (cases "kRecordHeader \<le> length bs") auto
  then have "(bs @ c) ! 0 = bs ! 0"
    by (cases bs) (auto simp: kRecordHeader_def)
  with len assms show ?thesis
    by (auto simp: parseClientHello_record record_length_append split: if_splits)
qed

lemma extensionLoop_status: "extensionLoop exts name = Some res \<Longrightarrow> status res \<noteq> HelloNeedMore"
proof (induction exts name rule: extensionLoop.induct)
  case (1 exts name)
  show ?case
    using 1 unfolding extensionLoop.simps [of exts name]
    by (auto simp: malformedHello_def take_view_def split: if_splits option.splits) blast+
qed

lemma parse_handshake_status:
  assumes "parse_handshake h = Some res"
  shows "status res \<noteq> HelloNeedMore"
  using assms extensionLoop_status
  by (fastforce simp: parse_handshake_def parse_hello_body_def malformedHello_def
        split: if_splits option.splits)


subsection \<open>A reference encoder of ClientHello\<close>

text \<open>
  What RFC 8446 and RFC 6066 prescribe for the bytes: big-endian lengths, the server-name
  extension with one host name, and the record around the handshake message.
\<close>

definition be16 :: "nat \<Rightarrow> bytes" where
  "be16 n = (let w = of_nat n :: u16 in [ucast (drop_bit 8 w), ucast w])"

definition be24 :: "nat \<Rightarrow> bytes" where
  "be24 n = (let w = of_nat n :: u32 in [ucast (drop_bit 16 w), ucast (drop_bit 8 w), ucast w])"

definition other_extensions :: "(nat \<times> bytes) list \<Rightarrow> bytes" where
  "other_extensions exts = concat (map (\<lambda>(t, d). be16 t @ be16 (length d) @ d) exts)"

definition sni_extension :: "bytes \<Rightarrow> bytes" where
  "sni_extension name =
     be16 0 @ be16 (length name + 5) @ be16 (length name + 3) @ [0] @ be16 (length name) @ name"

definition hello_body :: "bytes \<Rightarrow> bytes \<Rightarrow> bytes \<Rightarrow> bytes \<Rightarrow> bytes \<Rightarrow> bytes" where
  "hello_body versionAndRandom session suites comps exts =
     versionAndRandom @ [of_nat (length session)] @ session @ be16 (length suites) @ suites
       @ [of_nat (length comps)] @ comps @ be16 (length exts) @ exts"

definition hello_record :: "bytes \<Rightarrow> bytes" where
  "hello_record body =
     [0x16, 0x03, 0x01] @ be16 (length body + 4) @ [0x01] @ be24 (length body) @ body"

lemma twoBytes_be16: "twoBytes (be16 n @ r) = Some (ucast (of_nat n :: u16), r)"
proof -
  have "push_bit 8 (ucast (ucast (drop_bit 8 w) :: byte)) OR ucast (ucast w :: byte) = (ucast w :: u32)"
    for w :: u16
  proof (rule bit_word_eqI)
    fix k assume "k < LENGTH(32)"
    then show "bit (push_bit 8 (ucast (ucast (drop_bit 8 w) :: byte)) OR ucast (ucast w :: byte) :: u32) k
      = bit (ucast w :: u32) k"
      by (cases "k < 8"; cases "k < 16") (auto simp: bit_simps dest: bit_imp_le_length)
  qed
  then show ?thesis by (simp add: be16_def Let_def twoBytes_def)
qed

lemma unat_be16: "n < 65536 \<Longrightarrow> unat (ucast (of_nat n :: u16) :: u32) = n"
  by (simp add: unsigned_ucast_eq unat_of_nat take_bit_nat_eq_self)

lemma threeBytes_be24: "n < 2 ^ 24 \<Longrightarrow> \<exists>v. threeBytes (be24 n @ r) = Some (v, r) \<and> unat v = n"
proof -
  assume n: "n < 2 ^ 24"
  define w where "w = (of_nat n :: u32)"
  have w: "unat w = n" using n by (simp add: w_def unat_of_nat take_bit_nat_eq_self)
  have high: "\<not> bit w k" if "24 \<le> k" for k
  proof -
    have "n < 2 ^ k"
      using n power_increasing [OF that, of "2 :: nat"] by simp
    then have "\<not> bit n k" by (simp add: bit_iff_odd)
    then show ?thesis by (simp add: w_def bit_simps)
  qed
  have "push_bit 8 (push_bit 8 (ucast (ucast (drop_bit 16 w) :: byte)) OR ucast (ucast (drop_bit 8 w) :: byte))
      OR ucast (ucast w :: byte) = w"
  proof (rule bit_word_eqI)
    fix k assume "k < LENGTH(32)"
    then show "bit (push_bit 8 (push_bit 8 (ucast (ucast (drop_bit 16 w) :: byte))
        OR ucast (ucast (drop_bit 8 w) :: byte)) OR ucast (ucast w :: byte) :: u32) k = bit w k"
      using high [of k] by (cases "k < 8"; cases "k < 16"; cases "k < 24") (auto simp: bit_simps)
  qed
  then show ?thesis
    by (simp add: be24_def Let_def threeBytes_def twoBytes_def w_def [symmetric] w)
qed

lemma length_be [simp]: "length (be16 n) = 2" "length (be24 n) = 3"
  by (simp_all add: be16_def be24_def Let_def)


lemma extensionLoop_step:
  assumes "t < 65536" "length d < 65536"
  shows "extensionLoop (be16 t @ be16 (length d) @ d @ r) name =
     (if t \<noteq> 0 then extensionLoop r name
      else case hostNameIn d of None \<Rightarrow> None | Some None \<Rightarrow> Some malformedHello
        | Some (Some found) \<Rightarrow> extensionLoop r (if name = [] then found else name))"
proof -
  have "(ucast (of_nat t :: u16) \<noteq> kServerNameExtension) = (t \<noteq> 0)"
    using assms(1) unat_be16 [of t] by (auto simp: kServerNameExtension_def word_unat_eq_iff)
  then show ?thesis
    by (subst extensionLoop.simps)
       (simp add: has_def kExtensionHeader_def twoBytes_be16 unat_be16 assms take_view_def)
qed

lemma extensionLoop_other:
  assumes "\<forall>(t, d) \<in> set exts. 0 < t \<and> t < 65536 \<and> length d < 65536"
  shows "extensionLoop (other_extensions exts @ r) name = extensionLoop r name"
  using assms
  by (induction exts) (auto simp: other_extensions_def extensionLoop_step)

lemma hostNameIn_sni:
  assumes "length name < 65500"
  shows "hostNameIn (be16 (length name + 3) @ [0] @ be16 (length name) @ name) = Some (Some name)"
proof -
  have "hostNameLoop ([0] @ be16 (length name) @ name) [] = hostNameLoop [] name"
    using assms
    by (subst hostNameLoop.simps)
       (simp add: has_def kServerNameEntryHeader_def twoBytes_be16 unat_be16 take_view_def
          kHostNameType_def)
  moreover have "hostNameLoop [] name = Some (Some name)"
    by (simp add: hostNameLoop.simps has_def kServerNameEntryHeader_def)
  moreover have "unat (ucast (of_nat (length name + 3) :: u16) :: u32) = length name + 3"
    using assms by (intro unat_be16) simp
  ultimately show ?thesis
    by (simp add: hostNameIn_def has_def twoBytes_be16 take_view_def del: of_nat_add)
qed

lemma skip_byte_vector_enc:
  assumes "length v < 256"
  shows "skip_byte_vector ([of_nat (length v)] @ v @ r) = Some (Some r)"
proof -
  have "unat (ucast (of_nat (length v) :: byte) :: u32) = length v"
    using assms by (simp add: unsigned_ucast_eq unat_of_nat take_bit_nat_eq_self)
  then show ?thesis by (simp add: skip_byte_vector_def skip_def has_def)
qed

lemma skip_short_vector_enc:
  "length v < 65536 \<Longrightarrow> skip_short_vector (be16 (length v) @ v @ r) = Some (Some r)"
  by (simp add: skip_short_vector_def skip_def has_def twoBytes_be16 unat_be16)

lemma parse_hello_body_enc:
  assumes "length vr = 34" "length session < 256" "length suites < 65536" "length comps < 256"
    "length exts < 65536"
  shows "parse_hello_body (hello_body vr session suites comps exts) = extensionLoop exts []"
proof -
  have "skip_hello_prefix (hello_body vr session suites comps exts)
      = Some (Some (be16 (length exts) @ exts))"
    using assms skip_byte_vector_enc [of session] skip_byte_vector_enc [of comps]
    by (simp add: skip_hello_prefix_def hello_body_def skip_def has_def kVersionAndRandom_def
          skip_short_vector_enc)
  then show ?thesis
    using assms by (simp add: parse_hello_body_def has_def twoBytes_be16 unat_be16 take_view_def)
qed

lemma parseClientHello_enc:
  assumes "length body + 4 < 65536"
  shows "parseClientHello (hello_record body @ rest) = parse_hello_body body"
proof -
  let ?bs = "hello_record body @ rest"
  obtain v where v: "threeBytes (be24 (length body) @ body) = Some (v, body)" "unat v = length body"
    using threeBytes_be24 [of "length body" body] assms by auto
  have "twoBytes (drop 3 ?bs) = Some (ucast (of_nat (length body + 4) :: u16), drop 5 ?bs)"
    by (simp add: hello_record_def twoBytes_be16 del: of_nat_add)
  moreover have "twoBytes (drop 3 ?bs)
      = Some (push_bit 8 (ucast (?bs ! 3)) OR ucast (?bs ! 4), drop 5 ?bs)"
    by (simp add: hello_record_def twoBytes_def be16_def Let_def)
  ultimately have len: "record_length ?bs = length body + 4"
    using assms unat_be16 [of "length body + 4"] by (simp add: record_length_def del: of_nat_add)
  have drop5: "drop 5 ?bs = [0x01] @ be24 (length body) @ body @ rest"
    by (simp add: hello_record_def be16_def Let_def)
  have handshake: "take (length body + 4) (drop 5 ?bs) = 0x01 # be24 (length body) @ body"
    unfolding drop5 by (simp add: take_append eval_nat_numeral)
  have "length ?bs = length body + 9 + length rest" "?bs ! 0 = 0x16"
    by (simp_all add: hello_record_def)
  then have "parseClientHello ?bs = parse_handshake (take (length body + 4) (drop 5 ?bs))"
    using len by (simp add: parseClientHello_record kRecordHeader_def kHandshakeHeader_def)
  with v handshake show ?thesis
    unfolding handshake
    by (simp add: parse_handshake_def kClientHelloMessage_def has_def take_view_def)
qed


subsection \<open>Device names\<close>

lemma rfind_hits:
  assumes "filter (\<lambda>i. take (length needle) (drop i s) = needle) [0..<length s + 1 - length needle] = hits"
    and "hits \<noteq> []"
  shows "rfind needle s = Some (last hits)"
  unfolding rfind_def assms(1) using assms(2) by (cases hits) simp_all

lemma rfind_Some:
  assumes "rfind needle s = Some i"
  shows "take (length needle) (drop i s) = needle" "i < length s + 1 - length needle"
proof -
  let ?P = "\<lambda>i. take (length needle) (drop i s) = needle"
  let ?hits = "filter ?P [0..<length s + 1 - length needle]"
  have "?hits \<noteq> []" and i: "i = last ?hits"
    using assms by (auto simp: rfind_def split: list.splits if_splits)
  then have "i \<in> set ?hits"
    using last_in_set by blast
  then show "?P i" "i < length s + 1 - length needle"
    by auto
qed

lemma rfind_pair_None: "c \<notin> set s \<Longrightarrow> rfind [c, c] s = None"
proof (rule ccontr)
  assume c: "c \<notin> set s" and "rfind [c, c] s \<noteq> None"
  then obtain i where "take (length [c, c]) (drop i s) = [c, c]"
    using rfind_Some(1) by blast
  then have "c \<in> set (take (length [c, c]) (drop i s))"
    by simp
  then show False
    using c by (meson in_set_dropD in_set_takeD)
qed

lemma last_filter_upt:
  assumes "P i" "i < n" "\<And>j. i < j \<Longrightarrow> j < n \<Longrightarrow> \<not> P j"
  shows "filter P [0..<n] = filter P [0..<i] @ [i]"
proof -
  have "[0..<n] = [0..<i] @ i # [Suc i..<n]"
    using assms(2) upt_add_eq_append [of 0 i "n - i"] by (simp add: upt_conv_Cons)
  then show ?thesis
    using assms by (auto simp: filter_empty_conv)
qed

lemma rfind_pair_last:
  assumes "c \<notin> set post"
  shows "rfind [c, c] (pre @ [c, c] @ post) = Some (length pre)"
proof -
  let ?s = "pre @ [c, c] @ post"
  let ?P = "\<lambda>i. take (length [c, c]) (drop i ?s) = [c, c]"
  have no: "\<not> ?P j" if "length pre < j" "j < length ?s + 1 - length [c, c]" for j
  proof
    assume "?P j"
    then have "take (length [c, c]) (drop j ?s) ! 1 = c"
      by simp
    then have "drop j ?s ! 1 = c"
      by (subst (asm) nth_take) simp_all
    moreover have "\<exists>k. j = length pre + Suc k"
      using less_imp_Suc_add [OF that(1)] by simp
    then obtain k where "j = length pre + Suc k" ..
    ultimately have "post ! k = c" "k < length post"
      using that(2) by (auto simp: nth_append)
    then show False
      using assms nth_mem by blast
  qed
  have "filter ?P [0..<length ?s + 1 - length [c, c]] = filter ?P [0..<length pre] @ [length pre]"
    by (rule last_filter_upt) (use no in auto)
  then have "rfind [c, c] ?s = Some (last (filter ?P [0..<length pre] @ [length pre]))"
    by (rule rfind_hits) simp
  then show ?thesis
    by (simp only: last_snoc)
qed

lemma lowered_ge: "of_char CHR ''A'' = (65 :: byte)" "of_char CHR ''Z'' = (90 :: byte)"
  "of_char CHR ''a'' = (97 :: byte)" "of_char CHR ''z'' = (122 :: byte)"
  "of_char CHR ''f'' = (102 :: byte)" "of_char CHR ''0'' = (48 :: byte)"
  "of_char CHR ''9'' = (57 :: byte)" "of_char CHR ''-'' = (45 :: byte)"
  by code_simp+

lemma separator_pair: "kServiceSeparator = [of_char CHR ''-'', of_char CHR ''-'']"
  by (simp add: kServiceSeparator_def byte_string_def)

lemma homeId_no_separator: "isHomeId h \<Longrightarrow> of_char CHR ''-'' \<notin> set h"
  by (auto simp: isHomeId_def is_digit_def list_all_iff lowered_ge)

definition device_label :: "device_name \<Rightarrow> bytes" where
  "device_label dn =
     (if service dn = [] then homeId dn else service dn @ kServiceSeparator @ homeId dn)"

definition valid_device :: "device_name \<Rightarrow> bool" where
  "valid_device dn \<longleftrightarrow> isHomeId (homeId dn) \<and> (service dn = [] \<or> isService (service dn))"

definition device_of_label :: "bytes \<Rightarrow> device_name option" where
  "device_of_label label =
     (let separator = rfind kServiceSeparator label;
          home = (case separator of None \<Rightarrow> label
                  | Some i \<Rightarrow> drop (i + length kServiceSeparator) label);
          svc = (case separator of None \<Rightarrow> [] | Some i \<Rightarrow> take i label)
      in if \<not> isHomeId home \<or> (separator \<noteq> None \<and> \<not> isService svc) then None
         else Some \<lparr>service = svc, homeId = home\<rparr>)"

lemma device_of_label_iff:
  "device_of_label label = Some dn \<longleftrightarrow> valid_device dn \<and> label = device_label dn"
proof
  assume dn: "device_of_label label = Some dn"
  show "valid_device dn \<and> label = device_label dn"
  proof (cases "rfind kServiceSeparator label")
    case None
    with dn show ?thesis
      by (auto simp: device_of_label_def valid_device_def device_label_def split: if_splits)
  next
    case (Some i)
    have "take i label @ take 2 (drop i label) @ drop (i + 2) label = label"
      by (metis add.commute append_take_drop_id drop_drop)
    moreover have "take 2 (drop i label) = kServiceSeparator"
      using rfind_Some(1) [OF Some] by (simp add: separator_pair numeral_2_eq_2)
    moreover have "dn = \<lparr>service = take i label, homeId = drop (i + 2) label\<rparr>"
      "isHomeId (drop (i + 2) label)" "isService (take i label)"
      using Some dn by (auto simp: device_of_label_def separator_pair Let_def split: if_splits)
    ultimately show ?thesis
      by (auto simp: valid_device_def device_label_def isService_def kMinServiceLength_def)
  qed
next
  assume dn: "valid_device dn \<and> label = device_label dn"
  then have h: "isHomeId (homeId dn)" "of_char CHR ''-'' \<notin> set (homeId dn)"
    using homeId_no_separator by (auto simp: valid_device_def)
  show "device_of_label label = Some dn"
  proof (cases "service dn = []")
    case True
    with dn h show ?thesis
      by (simp add: device_of_label_def device_label_def separator_pair rfind_pair_None)
  next
    case False
    with dn h rfind_pair_last [OF h(2), of "service dn"] show ?thesis
      by (simp add: device_of_label_def device_label_def separator_pair valid_device_def)
  qed
qed

lemma device_label_length: "valid_device dn \<Longrightarrow> 0 < length (device_label dn) \<and>
    length (device_label dn) \<le> kMaxLabelLength"
  by (auto simp: valid_device_def device_label_def isHomeId_def isService_def separator_pair
        kHomeIdLength_def kMaxServiceLength_def kMaxLabelLength_def)

lemma parseDeviceName_split:
  "parseDeviceName server suffix =
     (let n = length server - length suffix
      in if length server \<le> length suffix \<or> n > kMaxLabelLength
            \<or> \<not> sameIgnoringCase (drop n server) suffix then None
         else device_of_label (map lowered (take n server)))"
  by (simp add: parseDeviceName_def device_of_label_def Let_def)

section \<open>Properties\<close>

text \<open>
  C16. The ClientHello parser never reads past the bytes it was given: it returns on every
  input. It asks for more exactly when the five bytes of the record header are not all there,
  or they announce a handshake record that can hold a handshake header and is longer than the
  bytes that follow, so a complete record always gets its verdict; and a verdict other than
  "need more" is final, because the bytes that follow do not change it.
\<close>

theorem clientHello_final:
  "\<exists>res. parseClientHello bs = Some res
     \<and> (status res = HelloNeedMore \<longleftrightarrow>
          length bs < 5
          \<or> (let announced = 256 * unat (bs ! 3) + unat (bs ! 4)
             in bs ! 0 = 0x16 \<and> 4 \<le> announced \<and> length bs < 5 + announced))
     \<and> (status res \<noteq> HelloNeedMore \<longrightarrow> (\<forall>c. parseClientHello (bs @ c) = Some res))"
proof -
  obtain res where res: "parseClientHello bs = Some res"
    using parseClientHello_result by blast
  have "status res = HelloNeedMore \<longleftrightarrow>
      length bs < 5 \<or> bs ! 0 = 0x16 \<and> 4 \<le> record_length bs \<and> length bs < 5 + record_length bs"
  proof (cases "kRecordHeader \<le> length bs")
    case True
    then show ?thesis
      using res parse_handshake_status [of "take (record_length bs) (drop kRecordHeader bs)" res]
      by (auto simp: parseClientHello_record needMoreHello_def malformedHello_def kRecordHeader_def
            kHandshakeHeader_def not_less split: if_splits)
  next
    case False
    then show ?thesis
      using res by (auto simp: parseClientHello_short needMoreHello_def kRecordHeader_def)
  qed
  moreover have "res \<noteq> needMoreHello" if "status res \<noteq> HelloNeedMore"
    using that by (auto simp: needMoreHello_def)
  ultimately show ?thesis
    using res parseClientHello_append by (auto simp: record_length_bytes Let_def)
qed


theorem clientHello_final_witness:
  "\<exists>res. parseClientHello [0x17, 3, 1, 0, 0] = Some res \<and> status res = HelloMalformed
     \<and> parseClientHello ([0x17, 3, 1, 0, 0] @ [1, 2, 3]) = Some res"
  using clientHello_final [of "[0x17, 3, 1, 0, 0]"]
  by (auto simp: parseClientHello_def kRecordHeader_def kHandshakeRecord_def malformedHello_def)

text \<open>
  C21. Round trip with the format of RFC 8446 and RFC 6066: for every ClientHello in a single
  TLS record, with a session identifier, cipher suites and compression methods of any size their length
  fields can say, and with one server-name extension that lists one host name, among any other
  extensions and with any bytes of the following records behind it, the parser returns exactly
  the host name. A hello that is split over several records is outside the claim.
\<close>

theorem clientHello_finds_server_name:
  assumes "length vr = 34" "length session < 256" "length comps < 256"
    and "\<forall>(t, d) \<in> set (before @ after). 0 < t \<and> t < 65536 \<and> length d < 65536"
    and "exts = other_extensions before @ sni_extension name @ other_extensions after"
    and "length (hello_body vr session suites comps exts) + 4 < 65536"
  shows "parseClientHello (hello_record (hello_body vr session suites comps exts) @ rest)
    = Some \<lparr>status = HelloParsed, serverName = name\<rparr>"
proof -
  let ?body = "hello_body vr session suites comps exts"
  let ?sni = "be16 (length name + 3) @ [0] @ be16 (length name) @ name"
  have size: "length suites < 65536" "length exts < 65492"
    using assms(1,6) by (simp_all add: hello_body_def)
  have name: "length name < 65500"
    using assms(5) size(2) by (simp add: sni_extension_def)
  have empty: "extensionLoop (other_extensions after) nm = Some \<lparr>status = HelloParsed, serverName = nm\<rparr>"
    for nm
    using extensionLoop_other [of after "[]" nm] assms(4)
    by (simp add: extensionLoop.simps [of "[]"] has_def kExtensionHeader_def)
  have "sni_extension name = be16 0 @ be16 (length ?sni) @ ?sni"
    by (simp add: sni_extension_def eval_nat_numeral)
  then have "extensionLoop (sni_extension name @ other_extensions after) []
      = extensionLoop (other_extensions after) name"
    using extensionLoop_step [of 0 ?sni "other_extensions after" "[]"] hostNameIn_sni [OF name] name
    by simp
  then have "extensionLoop exts [] = Some \<lparr>status = HelloParsed, serverName = name\<rparr>"
    using extensionLoop_other [of before "sni_extension name @ other_extensions after" "[]"] assms(4,5)
    by (simp add: empty)
  then show ?thesis
    using parse_hello_body_enc [of vr session suites comps exts] parseClientHello_enc [of ?body rest]
      assms(1-3,6) size
    by simp
qed

theorem clientHello_finds_server_name_witness:
  "parseClientHello (hello_record (hello_body (replicate 34 0) [1, 2] [0x13, 0x01] [0]
      (other_extensions [(43, [2, 3, 4])] @ sni_extension (byte_string ''a.b'') @ other_extensions [])) @ [7])
    = Some \<lparr>status = HelloParsed, serverName = byte_string ''a.b''\<rparr>"
  by (rule clientHello_finds_server_name [where before = "[(43, [2, 3, 4])]" and after = "[]"])
     (simp_all add: other_extensions_def sni_extension_def byte_string_def hello_body_def)

text \<open>
  C27. A server name routes to a device exactly when it is, up to the case of its ASCII
  letters, the label of that device followed by the domain suffix, the label being the
  32-digit home identifier, or a service of 3 to 12 characters, two dashes and the
  identifier. Names of another domain, and labels of any other shape, reach no device.
\<close>

theorem parseDeviceName_iff:
  "parseDeviceName server suffix = Some dn \<longleftrightarrow>
     valid_device dn \<and>
     (\<exists>label dom. server = label @ dom \<and> map lowered label = device_label dn
        \<and> sameIgnoringCase dom suffix)"
proof
  assume dn: "parseDeviceName server suffix = Some dn"
  let ?n = "length server - length suffix"
  have "server = take ?n server @ drop ?n server" by simp
  moreover have "valid_device dn" "map lowered (take ?n server) = device_label dn"
    "sameIgnoringCase (drop ?n server) suffix"
    using dn by (auto simp: parseDeviceName_split Let_def device_of_label_iff split: if_splits)
  ultimately show "valid_device dn \<and> (\<exists>label dom. server = label @ dom
      \<and> map lowered label = device_label dn \<and> sameIgnoringCase dom suffix)"
    by blast
next
  assume r: "valid_device dn \<and> (\<exists>label dom. server = label @ dom
      \<and> map lowered label = device_label dn \<and> sameIgnoringCase dom suffix)"
  then obtain label dom where s: "server = label @ dom" "map lowered label = device_label dn"
    "sameIgnoringCase dom suffix" "length dom = length suffix"
    by (auto simp: sameIgnoringCase_def)
  moreover have "length label = length (device_label dn)"
    using arg_cong [OF s(2), of length] by simp
  ultimately show "parseDeviceName server suffix = Some dn"
    using r device_label_length [of dn] device_of_label_iff [of "device_label dn" dn]
    by (auto simp: parseDeviceName_split Let_def)
qed

end
