(* ===== verification/Base64.thy ===== *)
theory Base64
  imports Prelude
begin

text \<open>
  Base64 as \<open>packages/lib/text/src/text/base64.cc\<close> has it: the encoder with its 24-bit
  blocks at their 32-bit width, and the decoder, which accepts the padding character at any
  position of a block.
\<close>

section \<open>Encoder\<close>

definition kAlphabet :: string where
  "kAlphabet = ''ABCDEFGHIJKLMNOPQRSTUVWXYZabcdefghijklmnopqrstuvwxyz0123456789+/''"

definition sextet :: "u32 \<Rightarrow> nat \<Rightarrow> char" where
  "sextet block shift = kAlphabet ! unat (drop_bit shift block AND 0x3F)"

definition block_of :: "byte \<Rightarrow> byte \<Rightarrow> byte \<Rightarrow> u32" where
  "block_of a b c = push_bit 16 (ucast a) OR push_bit 8 (ucast b) OR ucast c"

text \<open>
  The loop takes three bytes at a time; the code after it handles the one or two bytes left.
\<close>

fun base64_encode :: "bytes \<Rightarrow> string" where
  "base64_encode (a # b # c # rest) =
     (let block = block_of a b c
      in [sextet block 18, sextet block 12, sextet block 6, sextet block 0] @ base64_encode rest)"
| "base64_encode [] = []"
| "base64_encode [a] =
     (let block = push_bit 16 (ucast a)
      in [sextet block 18, sextet block 12, CHR ''='', CHR ''=''])"
| "base64_encode [a, b] =
     (let block = push_bit 16 (ucast a) OR push_bit 8 (ucast b)
      in [sextet block 18, sextet block 12, sextet block 6, CHR ''=''])"

section \<open>Decoder\<close>

definition code :: "char \<Rightarrow> int" where
  "code c = of_char c"

definition valueOf :: "char \<Rightarrow> int" where
  "valueOf c =
     (if code c \<ge> code CHR ''A'' \<and> code c \<le> code CHR ''Z'' then code c - code CHR ''A''
      else if code c \<ge> code CHR ''a'' \<and> code c \<le> code CHR ''z'' then code c - code CHR ''a'' + 26
      else if code c \<ge> code CHR ''0'' \<and> code c \<le> code CHR ''9'' then code c - code CHR ''0'' + 52
      else if c = CHR ''+'' then 62
      else if c = CHR ''/'' then 63
      else - 1)"

text \<open>The inner loop over the four characters of a block.\<close>

fun decode_quad :: "string \<Rightarrow> int \<Rightarrow> nat \<Rightarrow> (int \<times> nat) option" where
  "decode_quad [] block padding = Some (block, padding)"
| "decode_quad (c # cs) block padding =
     (if c = CHR ''='' then decode_quad cs (push_bit 6 block) (padding + 1)
      else if valueOf c < 0 then None
      else decode_quad cs (push_bit 6 block OR valueOf c) padding)"

definition block_bytes :: "int \<Rightarrow> nat \<Rightarrow> bytes" where
  "block_bytes block padding =
     [word_of_int (drop_bit 16 block AND 0xFF)]
     @ (if padding < 2 then [word_of_int (drop_bit 8 block AND 0xFF)] else [])
     @ (if padding < 1 then [word_of_int (block AND 0xFF)] else [])"

fun decode_blocks :: "string \<Rightarrow> bytes option" where
  "decode_blocks (c0 # c1 # c2 # c3 # rest) =
     (case decode_quad [c0, c1, c2, c3] 0 0 of None \<Rightarrow> None
      | Some (block, padding) \<Rightarrow>
          (case decode_blocks rest of None \<Rightarrow> None
           | Some more \<Rightarrow> Some (block_bytes block padding @ more)))"
| "decode_blocks _ = Some []"

definition base64_decode :: "string \<Rightarrow> bytes option" where
  "base64_decode text = (if length text mod 4 \<noteq> 0 then None else decode_blocks text)"

section \<open>Lemmas\<close>

lemma unat_and_63: "unat (w AND 63 :: u32) < 64"
proof -
  have "w AND 63 = take_bit 6 w"
    by (simp add: take_bit_eq_mask mask_eq_exp_minus_1)
  then show ?thesis
    using take_bit_nat_less_exp [of 6 "unat w"] by (simp add: unsigned_take_bit_eq)
qed

lemma alphabet_values: "list_all (\<lambda>n. valueOf (kAlphabet ! n) = int n \<and> kAlphabet ! n \<noteq> CHR ''='') [0..<64]"
  by code_simp

lemma alphabet_value: "n < 64 \<Longrightarrow> valueOf (kAlphabet ! n) = int n \<and> kAlphabet ! n \<noteq> CHR ''=''"
proof -
  assume "n < 64"
  then have "n \<in> set [0..<64]" by (simp only: set_upt atLeastLessThan_iff) simp
  then show ?thesis
    using alphabet_values unfolding list_all_iff by blast
qed

lemma sextet_value: "valueOf (sextet w s) = uint (drop_bit s w AND 63)" "sextet w s \<noteq> CHR ''=''"
  unfolding sextet_def uint_nat using alphabet_value [OF unat_and_63, of "drop_bit s w"] by blast+

lemma sextet_nonneg: "\<not> valueOf (sextet w s) < 0"
  by (simp add: sextet_value)

lemma alphabet_length: "length kAlphabet = 64"
  by (simp add: kAlphabet_def)

lemma and_63_int: "w AND 63 = take_bit 6 (w :: 'a::len word)"
  by (simp add: take_bit_eq_mask mask_eq_exp_minus_1)

lemma and_255_int: "x AND 255 = take_bit 8 (x :: int)"
  by (simp add: take_bit_eq_mask mask_eq_exp_minus_1)

lemma quad_bytes:
  fixes w :: u32
  defines "v \<equiv> push_bit 6 (push_bit 6 (push_bit 6 (uint (drop_bit 18 w AND 63)) OR uint (drop_bit 12 w AND 63))
        OR uint (drop_bit 6 w AND 63)) OR uint (drop_bit 0 w AND 63)"
  shows "(word_of_int (drop_bit 16 v AND 255) :: byte) = ucast (drop_bit 16 w)"
    "(word_of_int (drop_bit 8 v AND 255) :: byte) = ucast (drop_bit 8 w)"
    "(word_of_int (v AND 255) :: byte) = ucast w"
proof -
  have v: "v = take_bit 24 (uint w)"
    unfolding v_def and_63_int
  proof (rule bit_eqI)
    fix n :: nat
    consider "n < 6" | "6 \<le> n" "n < 12" | "12 \<le> n" "n < 18" | "18 \<le> n" "n < 24" | "24 \<le> n"
      by linarith
    then show "bit (push_bit 6 (push_bit 6 (push_bit 6 (uint (take_bit 6 (drop_bit 18 w)))
        OR uint (take_bit 6 (drop_bit 12 w))) OR uint (take_bit 6 (drop_bit 6 w)))
        OR uint (take_bit 6 (drop_bit 0 w))) n = bit (take_bit 24 (uint w)) n"
      by cases (auto simp: bit_simps)
  qed
  show "(word_of_int (drop_bit 16 v AND 255) :: byte) = ucast (drop_bit 16 w)"
    "(word_of_int (drop_bit 8 v AND 255) :: byte) = ucast (drop_bit 8 w)"
    "(word_of_int (v AND 255) :: byte) = ucast w"
    unfolding v and_255_int
    by (rule bit_word_eqI; simp add: bit_simps)+
qed


lemma decode_quad_block:
  "decode_quad [sextet w 18, sextet w 12, sextet w 6, sextet w 0] 0 0
    = Some (push_bit 6 (push_bit 6 (push_bit 6 (uint (drop_bit 18 w AND 63)) OR uint (drop_bit 12 w AND 63))
        OR uint (drop_bit 6 w AND 63)) OR uint (drop_bit 0 w AND 63), 0)"
  by (simp add: sextet_value sextet_nonneg del: drop_bit_0)

lemma Suc_Suc_minus: "2 \<le> n \<Longrightarrow> Suc (Suc (n - 2)) = n"
  by simp

lemma byte_bit_ge: "8 \<le> k \<Longrightarrow> \<not> bit (b :: byte) k"
  using bit_imp_le_length [of b k] by auto

lemma ucast_block:
  "(ucast (drop_bit 16 (block_of a b c)) :: byte) = a"
  "(ucast (drop_bit 8 (block_of a b c)) :: byte) = b"
  "(ucast (block_of a b c) :: byte) = c"
  unfolding block_of_def by (rule bit_word_eqI; simp add: bit_simps byte_bit_ge)+

lemma decode_block3:
  "decode_blocks ([sextet (block_of a b c) 18, sextet (block_of a b c) 12,
      sextet (block_of a b c) 6, sextet (block_of a b c) 0] @ rest)
    = map_option (\<lambda>more. [a, b, c] @ more) (decode_blocks rest)"
  using quad_bytes [of "block_of a b c"]
  by (simp add: decode_quad_block block_bytes_def ucast_block split: option.splits
        del: decode_quad.simps drop_bit_0)

lemma decode_block2:
  "decode_blocks ([sextet (block_of a b 0) 18, sextet (block_of a b 0) 12,
      sextet (block_of a b 0) 6, CHR ''='']) = Some [a, b]"
proof -
  let ?w = "block_of a b 0"
  have "(word_of_int (drop_bit 16 (push_bit 6 (push_bit 6 (push_bit 6 (uint (drop_bit 18 ?w AND 63))
      OR uint (drop_bit 12 ?w AND 63)) OR uint (drop_bit 6 ?w AND 63))) AND 255) :: byte) = a"
    unfolding and_63_int and_255_int block_of_def
    by (rule bit_word_eqI) (auto simp: bit_simps byte_bit_ge Suc_Suc_minus)
  moreover have "(word_of_int (drop_bit 8 (push_bit 6 (push_bit 6 (push_bit 6 (uint (drop_bit 18 ?w AND 63))
      OR uint (drop_bit 12 ?w AND 63)) OR uint (drop_bit 6 ?w AND 63))) AND 255) :: byte) = b"
    unfolding and_63_int and_255_int block_of_def
    by (rule bit_word_eqI) (auto simp: bit_simps byte_bit_ge Suc_Suc_minus)
  ultimately show ?thesis
    by (simp add: sextet_value sextet_nonneg block_bytes_def)
qed

lemma decode_block1:
  "decode_blocks [sextet (block_of a 0 0) 18, sextet (block_of a 0 0) 12, CHR ''='', CHR ''=''] = Some [a]"
proof -
  let ?w = "block_of a 0 0"
  have "(word_of_int (drop_bit 16 (push_bit 6 (push_bit 6 (push_bit 6 (uint (drop_bit 18 ?w AND 63))
      OR uint (drop_bit 12 ?w AND 63)))) AND 255) :: byte) = a"
    unfolding and_63_int and_255_int block_of_def
    by (rule bit_word_eqI) (auto simp: bit_simps byte_bit_ge Suc_Suc_minus)
  then show ?thesis
    by (simp add: sextet_value sextet_nonneg block_bytes_def)
qed

lemma block_of_partial: "push_bit 16 (ucast a) = block_of a 0 0"
  "push_bit 16 (ucast a) OR push_bit 8 (ucast b) = block_of a b 0"
  by (simp_all add: block_of_def)

lemma encode_length: "length (base64_encode bs) mod 4 = 0"
  by (induction bs rule: base64_encode.induct) (simp_all add: Let_def)

lemma decode_blocks_encode: "decode_blocks (base64_encode bs) = Some bs"
proof (induction bs rule: base64_encode.induct)
  case (1 a b c rest)
  have "decode_blocks (base64_encode (a # b # c # rest))
      = map_option (\<lambda>more. [a, b, c] @ more) (decode_blocks (base64_encode rest))"
    unfolding base64_encode.simps(1) Let_def by (rule decode_block3)
  with 1 show ?case by simp
next
  case (3 a)
  show ?case
    unfolding base64_encode.simps Let_def block_of_partial(1) by (rule decode_block1)
next
  case (4 a b)
  show ?case
    unfolding base64_encode.simps Let_def block_of_partial(2) by (rule decode_block2)
qed simp

definition is_base64_char :: "char \<Rightarrow> bool" where
  "is_base64_char c \<longleftrightarrow> c = CHR ''='' \<or> 0 \<le> valueOf c"

lemma decode_quad_defined: "(decode_quad cs block padding \<noteq> None) = list_all is_base64_char cs"
  by (induction cs block padding rule: decode_quad.induct) (auto simp: is_base64_char_def)

lemma decode_blocks_defined:
  "length cs mod 4 = 0 \<Longrightarrow> (decode_blocks cs \<noteq> None) = list_all is_base64_char cs"
proof (induction cs rule: decode_blocks.induct)
  case (1 c0 c1 c2 c3 rest)
  then show ?case
    using decode_quad_defined [of "[c0, c1, c2, c3]" 0 0]
    by (cases "decode_quad [c0, c1, c2, c3] 0 0"; cases "decode_blocks rest")
       (auto simp del: decode_quad.simps)
qed auto

lemma alphabet_codes:
  "kAlphabet = map char_of ([65..<91] @ [97..<123] @ [48..<58] @ [43, 47 :: nat])"
  by code_simp

lemma code_nat: "(of_char c :: int) = int (of_char c)"
  by (simp only: of_nat_of_char)

lemma value_in_alphabet: "0 \<le> valueOf c \<Longrightarrow> c \<in> set kAlphabet"
proof -
  assume "0 \<le> valueOf c"
  then have "of_char c \<in> {65..<91} \<union> {97..<123} \<union> {48..<58} \<union> {43, 47 :: nat}"
    using code_nat [of c] by (auto simp: valueOf_def code_def split: if_splits)
  then have "of_char c \<in> set ([65..<91] @ [97..<123] @ [48..<58] @ [43, 47 :: nat])"
    unfolding set_append set_upt by simp
  then have "char_of (of_char c :: nat) \<in> set kAlphabet"
    unfolding alphabet_codes set_map by (rule imageI)
  then show ?thesis by simp
qed

section \<open>Properties\<close>

text \<open>
  Decoding an encoding gives the bytes back, for every byte string.
\<close>

theorem base64_roundtrip: "base64_decode (base64_encode bs) = Some bs"
  by (simp add: base64_decode_def encode_length decode_blocks_encode)

text \<open>
  The decoder accepts exactly the texts whose length is a multiple of four and whose
  characters are the 64 of the alphabet or the padding character, wherever it stands.
\<close>

theorem base64_accepts:
  "base64_decode text \<noteq> None \<longleftrightarrow>
     length text mod 4 = 0 \<and> list_all (\<lambda>c. c = CHR ''='' \<or> c \<in> set kAlphabet) text"
proof -
  have "0 \<le> valueOf c \<longleftrightarrow> c \<in> set kAlphabet" for c
  proof
    assume "c \<in> set kAlphabet"
    then obtain n where "n < 64" "c = kAlphabet ! n"
      by (metis in_set_conv_nth alphabet_length)
    then show "0 \<le> valueOf c"
      using alphabet_value [of n] by simp
  next
    assume "0 \<le> valueOf c"
    then show "c \<in> set kAlphabet"
      by (rule value_in_alphabet)
  qed
  then have "is_base64_char = (\<lambda>c. c = CHR ''='' \<or> c \<in> set kAlphabet)"
    by (auto simp: is_base64_char_def)
  then show ?thesis
    using decode_blocks_defined [of "text"] by (auto simp: base64_decode_def)
qed

end
