(* ===== verification/Push_Envelope.thy ===== *)
theory Push_Envelope
  imports Link_Frames "HOL-Library.Monad_Syntax"
begin

text \<open>
  The sealed push envelope, \<open>packages/contracts/push/src/push/push-envelope.hxx\<close> and the
  enumerations beside it: what the notification service seals, the tunnel frames and the push
  service opens. The cursor of the parser is the list of the bytes it has left.
\<close>

section \<open>Data\<close>

datatype push_provider = Fcm | Apns | ApnsVoip
datatype push_kind = Alert | Call
datatype push_priority = NormalPriority | HighPriority
datatype push_outcome = Delivered | Unregistered | InvalidToken | Throttled | TokenBound | FailedOutcome

fun provider_code :: "push_provider \<Rightarrow> byte" where
  "provider_code Fcm = 1" | "provider_code Apns = 2" | "provider_code ApnsVoip = 3"

fun kind_code :: "push_kind \<Rightarrow> byte" where
  "kind_code Alert = 1" | "kind_code Call = 2"

fun priority_code :: "push_priority \<Rightarrow> byte" where
  "priority_code NormalPriority = 0" | "priority_code HighPriority = 1"

fun outcome_code :: "push_outcome \<Rightarrow> byte" where
  "outcome_code Delivered = 0" | "outcome_code Unregistered = 1" | "outcome_code InvalidToken = 2"
| "outcome_code Throttled = 3" | "outcome_code TokenBound = 4" | "outcome_code FailedOutcome = 5"

text \<open>The casts back, only applied to a byte in range.\<close>

definition provider_of :: "byte \<Rightarrow> push_provider" where
  "provider_of b = (if b = 1 then Fcm else if b = 2 then Apns else ApnsVoip)"

definition kind_of :: "byte \<Rightarrow> push_kind" where
  "kind_of b = (if b = 1 then Alert else Call)"

definition priority_of :: "byte \<Rightarrow> push_priority" where
  "priority_of b = (if b = 0 then NormalPriority else HighPriority)"

definition outcome_of :: "byte \<Rightarrow> push_outcome" where
  "outcome_of b = (if b = 0 then Delivered else if b = 1 then Unregistered else if b = 2 then InvalidToken
     else if b = 3 then Throttled else if b = 4 then TokenBound else FailedOutcome)"

fun pushProviderToString :: "push_provider \<Rightarrow> string" where
  "pushProviderToString Fcm = ''fcm''"
| "pushProviderToString Apns = ''apns''"
| "pushProviderToString ApnsVoip = ''apns_voip''"

definition pushProviderFromString :: "string \<Rightarrow> push_provider option" where
  "pushProviderFromString name =
     (if name = ''fcm'' then Some Fcm else if name = ''apns'' then Some Apns
      else if name = ''apns_voip'' then Some ApnsVoip else None)"

fun pushKindToString :: "push_kind \<Rightarrow> string" where
  "pushKindToString Alert = ''alert''" | "pushKindToString Call = ''call''"

definition pushKindFromString :: "string \<Rightarrow> push_kind option" where
  "pushKindFromString name =
     (if name = ''alert'' then Some Alert else if name = ''call'' then Some Call else None)"

fun pushPriorityToString :: "push_priority \<Rightarrow> string" where
  "pushPriorityToString NormalPriority = ''normal''" | "pushPriorityToString HighPriority = ''high''"

definition pushPriorityFromString :: "string \<Rightarrow> push_priority option" where
  "pushPriorityFromString name =
     (if name = ''normal'' then Some NormalPriority else if name = ''high'' then Some HighPriority else None)"

fun pushOutcomeToString :: "push_outcome \<Rightarrow> string" where
  "pushOutcomeToString Delivered = ''delivered''"
| "pushOutcomeToString Unregistered = ''unregistered''"
| "pushOutcomeToString InvalidToken = ''invalid_token''"
| "pushOutcomeToString Throttled = ''throttled''"
| "pushOutcomeToString TokenBound = ''token_bound''"
| "pushOutcomeToString FailedOutcome = ''failed''"

definition pushOutcomeFromString :: "string \<Rightarrow> push_outcome option" where
  "pushOutcomeFromString name =
     (if name = ''delivered'' then Some Delivered else if name = ''unregistered'' then Some Unregistered
      else if name = ''invalid_token'' then Some InvalidToken else if name = ''throttled'' then Some Throttled
      else if name = ''token_bound'' then Some TokenBound else if name = ''failed'' then Some FailedOutcome else None)"

record push_sealed =
  deliveryId :: bytes
  provider :: push_provider
  kind :: push_kind
  priority :: push_priority
  ttlSeconds :: u32
  collapseId :: bytes
  token :: bytes
  enc :: bytes
  ciphertext :: bytes

record push_result =
  r_deliveryId :: bytes
  outcome :: push_outcome

definition kDeliveryIdSize :: nat where "kDeliveryIdSize = 16"
definition kEncSize :: nat where "kEncSize = 32"
definition kMinCiphertextSize :: nat where "kMinCiphertextSize = 16"
definition kMaxCiphertextSize :: nat where "kMaxCiphertextSize = 2048"
definition kMaxCollapseIdSize :: nat where "kMaxCollapseIdSize = 64"
definition kMaxTokenSize :: nat where "kMaxTokenSize = 512"
definition kResultPayloadSize :: nat where "kResultPayloadSize = 17"
definition kInfoPrefix :: bytes where "kInfoPrefix = byte_string ''argus.push.v1''"

lemmas push_sizes = kDeliveryIdSize_def kEncSize_def kMinCiphertextSize_def kMaxCiphertextSize_def
  kMaxCollapseIdSize_def kMaxTokenSize_def kResultPayloadSize_def

section \<open>Writing\<close>

definition push_appendU16 :: "bytes \<Rightarrow> nat \<Rightarrow> bytes" where
  "push_appendU16 out v = out @ [of_nat (v mod 256), of_nat (v div 256 mod 256)]"

definition push_appendU32 :: "bytes \<Rightarrow> u32 \<Rightarrow> bytes" where
  "push_appendU32 out v = out @ map (\<lambda>shift. ucast (drop_bit shift v AND 0xFF)) [0, 8, 16, 24]"

definition combinationAllowed :: "push_provider \<Rightarrow> push_kind \<Rightarrow> bool" where
  "combinationAllowed p k =
     (if p = Apns then k = Alert else if p = ApnsVoip then k = Call else True)"

definition wellFormed :: "push_sealed \<Rightarrow> bool" where
  "wellFormed e \<longleftrightarrow>
     length (deliveryId e) = kDeliveryIdSize \<and> length (collapseId e) \<le> kMaxCollapseIdSize
     \<and> token e \<noteq> [] \<and> length (token e) \<le> kMaxTokenSize \<and> length (enc e) = kEncSize
     \<and> length (ciphertext e) \<ge> kMinCiphertextSize \<and> length (ciphertext e) \<le> kMaxCiphertextSize
     \<and> combinationAllowed (provider e) (kind e)"

definition envelopePrefix :: "push_sealed \<Rightarrow> bytes" where
  "envelopePrefix e =
     (let out = deliveryId e @ [provider_code (provider e)] @ [kind_code (kind e)] @ [priority_code (priority e)];
          out = push_appendU32 out (ttlSeconds e);
          out = out @ [of_nat (length (collapseId e))] @ collapseId e;
          out = push_appendU16 out (length (token e))
      in out @ token e)"

definition hpkeInfo :: "bytes \<Rightarrow> push_sealed \<Rightarrow> bytes" where
  "hpkeInfo keyId e = kInfoPrefix @ [0] @ keyId @ [0] @ envelopePrefix e"

definition sealedPayload :: "push_sealed \<Rightarrow> bytes option" where
  "sealedPayload e =
     (if \<not> wellFormed e then None
      else let out = envelopePrefix e;
               out = push_appendU16 out (length (enc e)) @ enc e;
               out = push_appendU16 out (length (ciphertext e)) @ ciphertext e
        in Some out)"

definition resultPayload :: "push_result \<Rightarrow> bytes option" where
  "resultPayload e =
     (if length (r_deliveryId e) \<noteq> kDeliveryIdSize then None
      else Some (r_deliveryId e @ [outcome_code (outcome e)]))"

section \<open>Reading\<close>

text \<open>\<open>ByteCursor\<close>: what is read, and the bytes left.\<close>

definition cursor_take :: "nat \<Rightarrow> bytes \<Rightarrow> (bytes \<times> bytes) option" where
  "cursor_take count c = (if length c < count then None else Some (take count c, drop count c))"

fun cursor_byte :: "bytes \<Rightarrow> (byte \<times> bytes) option" where
  "cursor_byte [] = None"
| "cursor_byte (b # c) = Some (b, c)"

definition cursor_u16 :: "bytes \<Rightarrow> (nat \<times> bytes) option" where
  "cursor_u16 c = do {
     (low, c) \<leftarrow> cursor_byte c;
     (high, c) \<leftarrow> cursor_byte c;
     Some (unat low + 256 * unat high, c)
   }"

fun cursor_shifts :: "nat list \<Rightarrow> u32 \<Rightarrow> bytes \<Rightarrow> (u32 \<times> bytes) option" where
  "cursor_shifts [] out c = Some (out, c)"
| "cursor_shifts (shift # shifts) out c = do {
     (b, c) \<leftarrow> cursor_byte c;
     cursor_shifts shifts (out OR push_bit shift (ucast b)) c
   }"

definition cursor_u32 :: "bytes \<Rightarrow> (u32 \<times> bytes) option" where
  "cursor_u32 c = cursor_shifts [0, 8, 16, 24] 0 c"

text \<open>A failed condition of the parser returns.\<close>

definition require :: "bool \<Rightarrow> unit option" where
  "require ok = (if ok then Some () else None)"

definition parseSealedPayload :: "bytes \<Rightarrow> push_sealed option" where
  "parseSealedPayload payload = do {
     (did, c) \<leftarrow> cursor_take kDeliveryIdSize payload;
     (prov, c) \<leftarrow> cursor_byte c;
     (knd, c) \<leftarrow> cursor_byte c;
     (prio, c) \<leftarrow> cursor_byte c;
     (ttl, c) \<leftarrow> cursor_u32 c;
     (collapseLength, c) \<leftarrow> cursor_byte c;
     require (\<not> (prov < 1 \<or> prov > 3 \<or> knd < 1 \<or> knd > 2 \<or> prio > 1 \<or> unat collapseLength > kMaxCollapseIdSize));
     (collapse, c) \<leftarrow> cursor_take (unat collapseLength) c;
     (tokenLength, c) \<leftarrow> cursor_u16 c;
     require (\<not> (tokenLength = 0 \<or> tokenLength > kMaxTokenSize));
     (tok, c) \<leftarrow> cursor_take tokenLength c;
     (encLength, c) \<leftarrow> cursor_u16 c;
     require (encLength = kEncSize);
     (en, c) \<leftarrow> cursor_take encLength c;
     (ciphertextLength, c) \<leftarrow> cursor_u16 c;
     require (\<not> (ciphertextLength < kMinCiphertextSize \<or> ciphertextLength > kMaxCiphertextSize));
     (ct, c) \<leftarrow> cursor_take ciphertextLength c;
     require (c = []);
     let parsed = \<lparr>deliveryId = did, provider = provider_of prov, kind = kind_of knd, priority = priority_of prio,
                   ttlSeconds = ttl, collapseId = collapse, token = tok, enc = en, ciphertext = ct\<rparr>;
     require (wellFormed parsed);
     Some parsed
   }"

definition parseResultPayload :: "bytes \<Rightarrow> push_result option" where
  "parseResultPayload payload =
     (if length payload \<noteq> kResultPayloadSize then None
      else let raw = payload ! kDeliveryIdSize
        in if raw > outcome_code FailedOutcome then None
           else Some \<lparr>r_deliveryId = take kDeliveryIdSize payload, outcome = outcome_of raw\<rparr>)"

section \<open>Readers invert writers\<close>

lemma byte_cases:
  assumes "\<not> (b :: byte) > of_nat n" "n < 256"
  shows "b \<in> of_nat ` {0..n}"
proof (rule image_eqI)
  show "unat b \<in> {0..n}" using assms by (simp add: word_less_nat_alt unat_of_nat take_bit_nat_eq_self)
qed simp

lemma byte_codes:
  "\<not> (b :: byte) > 1 \<longleftrightarrow> b \<in> {0, 1}"
  "\<not> b > 2 \<longleftrightarrow> b \<in> {0, 1, 2}"
  "\<not> b > 3 \<longleftrightarrow> b \<in> {0, 1, 2, 3}"
  "\<not> b > 5 \<longleftrightarrow> b \<in> {0, 1, 2, 3, 4, 5}"
proof -
  have set: "{0..1 :: nat} = {0, 1}" "{0..2 :: nat} = {0, 1, 2}" "{0..3 :: nat} = {0, 1, 2, 3}"
      "{0..5 :: nat} = {0, 1, 2, 3, 4, 5}"
    by auto
  show "\<not> b > 1 \<longleftrightarrow> b \<in> {0, 1}" using byte_cases [of 1 b, unfolded set] by auto
  show "\<not> b > 2 \<longleftrightarrow> b \<in> {0, 1, 2}" using byte_cases [of 2 b, unfolded set] by auto
  show "\<not> b > 3 \<longleftrightarrow> b \<in> {0, 1, 2, 3}" using byte_cases [of 3 b, unfolded set] by auto
  show "\<not> b > 5 \<longleftrightarrow> b \<in> {0, 1, 2, 3, 4, 5}" using byte_cases [of 5 b, unfolded set] by auto
qed

lemma provider_byte: "\<not> (b < 1 \<or> b > 3) \<longleftrightarrow> b = provider_code (provider_of b)"
  using byte_codes(3) [of b] by (auto simp: provider_of_def)

lemma kind_byte: "\<not> (b < 1 \<or> b > 2) \<longleftrightarrow> b = kind_code (kind_of b)"
  using byte_codes(2) [of b] by (auto simp: kind_of_def)

lemma priority_byte: "\<not> b > 1 \<longleftrightarrow> b = priority_code (priority_of b)"
  using byte_codes(1) [of b] by (auto simp: priority_of_def)

lemma outcome_byte: "\<not> b > 5 \<longleftrightarrow> b = outcome_code (outcome_of b)"
  using byte_codes(4) [of b] by (auto simp: outcome_of_def)

lemma codes_inverse [simp]:
  "provider_of (provider_code p) = p" "kind_of (kind_code k) = k" "priority_of (priority_code q) = q"
  "outcome_of (outcome_code r) = r"
  by (cases p; cases k; cases q; cases r; simp add: provider_of_def kind_of_def priority_of_def outcome_of_def)+

lemma cursor_take_Some: "cursor_take n c = Some (x, r) \<longleftrightarrow> c = x @ r \<and> length x = n"
  by (auto simp: cursor_take_def)

lemma cursor_byte_Some: "cursor_byte c = Some (b, r) \<longleftrightarrow> c = b # r"
  by (cases c) auto

lemma u16_bytes:
  "n < 65536 \<and> a = of_nat (n mod 256) \<and> b = of_nat (n div 256 mod 256) \<longleftrightarrow> n = unat (a :: byte) + 256 * unat (b :: byte)"
  using unat_byte_lt [of a] unat_byte_lt [of b]
  by (auto simp: unat_of_nat take_bit_nat_eq_self word_unat_eq_iff)

lemma cursor_u16_Some: "cursor_u16 c = Some (n, r) \<longleftrightarrow> n < 65536 \<and> c = push_appendU16 [] n @ r"
proof -
  have "cursor_u16 c = Some (n, r) \<longleftrightarrow> (\<exists>a b. c = a # b # r \<and> n = unat a + 256 * unat b)"
    by (auto simp: cursor_u16_def bind_eq_Some_conv cursor_byte_Some)
  also have "\<dots> \<longleftrightarrow> n < 65536 \<and> c = push_appendU16 [] n @ r"
    unfolding u16_bytes [symmetric] push_appendU16_def by auto
  finally show ?thesis .
qed

lemma push_appendU32_link: "push_appendU32 out v = link_appendU32 out v"
  by (simp add: push_appendU32_def link_appendU32_def)

lemma cursor_u32_link: "cursor_u32 (a # b # c # d # r) = Some (link_readU32 [a, b, c, d], r)"
  by (simp add: cursor_u32_def link_readU32_def or.assoc)

lemma cursor_u32_Some: "cursor_u32 c = Some (v, r) \<longleftrightarrow> c = push_appendU32 [] v @ r"
proof
  assume c: "c = push_appendU32 [] v @ r"
  obtain w x y z where l: "push_appendU32 [] v = [w, x, y, z]" by (simp add: push_appendU32_def)
  then have "link_readU32 [w, x, y, z] = v"
    using link_readU32_appendU32 [of v "[]"] by (simp add: push_appendU32_link)
  then show "cursor_u32 c = Some (v, r)" using c l by (simp add: cursor_u32_link)
next
  assume a: "cursor_u32 c = Some (v, r)"
  then obtain w x y z where "c = w # x # y # z # r"
    by (auto simp: cursor_u32_def bind_eq_Some_conv cursor_byte_Some)
  then show "c = push_appendU32 [] v @ r"
    using a link_appendU32_readU32 [of w x y z] by (simp add: cursor_u32_link push_appendU32_link)
qed

lemma require_Some [simp]: "require ok = Some u \<longleftrightarrow> ok"
  by (simp add: require_def)


section \<open>The sealed payload\<close>

lemma sealedPayload_Some:
  "sealedPayload e = Some p \<longleftrightarrow> wellFormed e \<and>
     p = deliveryId e @ [provider_code (provider e), kind_code (kind e), priority_code (priority e)]
       @ push_appendU32 [] (ttlSeconds e) @ [of_nat (length (collapseId e))] @ collapseId e
       @ push_appendU16 [] (length (token e)) @ token e
       @ push_appendU16 [] (length (enc e)) @ enc e
       @ push_appendU16 [] (length (ciphertext e)) @ ciphertext e"
  by (auto simp: sealedPayload_def envelopePrefix_def Let_def push_appendU16_def push_appendU32_def)

lemma wellFormed_sizes:
  assumes "wellFormed e"
  shows "unat (of_nat (length (collapseId e)) :: byte) = length (collapseId e)"
    "length (collapseId e) \<le> 64" "0 < length (token e)" "length (token e) \<le> 512" "length (enc e) = 32"
    "16 \<le> length (ciphertext e)" "length (ciphertext e) \<le> 2048" "length (deliveryId e) = 16"
  using assms by (auto simp: wellFormed_def push_sizes unat_of_nat take_bit_nat_eq_self)

lemma parse_sealedPayload:
  assumes "sealedPayload e = Some p"
  shows "parseSealedPayload p = Some e"
proof -
  have wf: "wellFormed e" using assms by (simp add: sealedPayload_Some)
  note sz = wellFormed_sizes [OF wf]
  have p: "p = deliveryId e @ provider_code (provider e) # kind_code (kind e) # priority_code (priority e)
      # push_appendU32 [] (ttlSeconds e) @ of_nat (length (collapseId e)) # collapseId e
      @ push_appendU16 [] (length (token e)) @ token e @ push_appendU16 [] (length (enc e)) @ enc e
      @ push_appendU16 [] (length (ciphertext e)) @ ciphertext e @ []"
    using assms by (simp add: sealedPayload_Some)
  have take: "cursor_take n (x @ r) = Some (x, r)" if "length x = n" for n x r
    using that by (simp add: cursor_take_Some)
  have u16: "cursor_u16 (push_appendU16 [] n @ r) = Some (n, r)" if "n < 65536" for n r
    using that by (simp add: cursor_u16_Some)
  have u32: "cursor_u32 (push_appendU32 [] v @ r) = Some (v, r)" for v r
    by (simp add: cursor_u32_Some)
  have rest: "cursor_take (length x) x = Some (x, [])" for x
    by (simp add: cursor_take_Some)
  have rebuild: "\<lparr>deliveryId = deliveryId e, provider = provider e, kind = kind e, priority = priority e,
      ttlSeconds = ttlSeconds e, collapseId = collapseId e, token = token e, enc = enc e, ciphertext = ciphertext e\<rparr> = e"
    by simp
  show ?thesis
    unfolding p parseSealedPayload_def
    using sz wf provider_byte [of "provider_code (provider e)"] kind_byte [of "kind_code (kind e)"]
      priority_byte [of "priority_code (priority e)"]
    by (simp add: take u16 u32 rest push_sizes require_def Let_def rebuild)
qed


lemma sealedPayload_parse:
  assumes "parseSealedPayload p = Some e"
  shows "sealedPayload e = Some p"
proof -
  obtain did prov knd prio cl tok en ct ttl col where
    p: "p = did @ prov # knd # prio # push_appendU32 [] ttl @ cl # col @ push_appendU16 [] (length tok) @ tok
          @ push_appendU16 [] (length en) @ en @ push_appendU16 [] (length ct) @ ct"
    and e: "e = \<lparr>deliveryId = did, provider = provider_of prov, kind = kind_of knd, priority = priority_of prio,
          ttlSeconds = ttl, collapseId = col, token = tok, enc = en, ciphertext = ct\<rparr>"
    and c: "\<not> (prov < 1 \<or> prov > 3)" "\<not> (knd < 1 \<or> knd > 2)" "\<not> prio > 1" "length col = unat cl" "wellFormed e"
    using assms
    by (auto simp: parseSealedPayload_def bind_eq_Some_conv cursor_take_Some cursor_byte_Some cursor_u16_Some
        cursor_u32_Some Let_def)
  have "of_nat (length col) = cl" using c(4) by simp
  moreover have "provider_code (provider_of prov) = prov" "kind_code (kind_of knd) = knd" "priority_code (priority_of prio) = prio"
    using c(1-3) provider_byte [of prov] kind_byte [of knd] priority_byte [of prio] by auto
  ultimately show ?thesis
    using c(5) by (simp add: sealedPayload_Some p e)
qed

lemma resultPayload_parse: "parseResultPayload p = Some r \<longleftrightarrow> resultPayload r = Some p"
proof
  assume a: "parseResultPayload p = Some r"
  then have l: "length p = 17" and b: "\<not> p ! 16 > 5" and r: "r = \<lparr>r_deliveryId = take 16 p, outcome = outcome_of (p ! 16)\<rparr>"
    by (auto simp: parseResultPayload_def push_sizes Let_def split: if_splits)
  have "p = take 16 p @ [p ! 16]" using l take_Suc_conv_app_nth [of 16 p] by simp
  then show "resultPayload r = Some p"
    using l b outcome_byte [of "p ! 16"] by (simp add: resultPayload_def push_sizes r)
next
  assume "resultPayload r = Some p"
  then have "length (r_deliveryId r) = 16" "p = r_deliveryId r @ [outcome_code (outcome r)]"
    by (auto simp: resultPayload_def push_sizes split: if_splits)
  then show "parseResultPayload p = Some r"
    using outcome_byte [of "outcome_code (outcome r)"]
    by (simp add: parseResultPayload_def push_sizes nth_append)
qed

section \<open>Properties\<close>

text \<open>C17. The sealed payload is a bijection between well-formed envelopes and the byte strings the
  parser accepts: a payload parses to an envelope exactly when it is the payload of that envelope,
  so nothing else is accepted and no envelope has two encodings. The same holds of results.\<close>

theorem push_payload_exact:
  "(parseSealedPayload p = Some e \<longleftrightarrow> sealedPayload e = Some p)
   \<and> (parseResultPayload q = Some r \<longleftrightarrow> resultPayload r = Some q)
   \<and> (wellFormed e \<longleftrightarrow> sealedPayload e \<noteq> None)"
proof (intro conjI)
  show "parseSealedPayload p = Some e \<longleftrightarrow> sealedPayload e = Some p"
    using parse_sealedPayload sealedPayload_parse by blast
  show "parseResultPayload q = Some r \<longleftrightarrow> resultPayload r = Some q"
    by (rule resultPayload_parse)
  show "wellFormed e \<longleftrightarrow> sealedPayload e \<noteq> None"
    by (simp add: sealedPayload_def Let_def)
qed

text \<open>The sealing context binds the envelope: two envelopes sealed under key identifiers without a
  NUL have the same context only if the keys and every field before the ciphertext agree.\<close>

theorem hpkeInfo_binds:
  assumes "wellFormed e" "wellFormed f" "0 \<notin> set k" "0 \<notin> set l" "hpkeInfo k e = hpkeInfo l f"
  shows "k = l \<and> deliveryId e = deliveryId f \<and> provider e = provider f \<and> kind e = kind f
    \<and> priority e = priority f \<and> ttlSeconds e = ttlSeconds f \<and> collapseId e = collapseId f \<and> token e = token f"
proof -
  have split: "k = l \<and> xs = ys" if "k @ 0 # xs = l @ 0 # ys" for xs ys :: bytes
    using that assms(3,4)
    by (induction k arbitrary: l) (case_tac l; auto)+
  have "envelopePrefix e = envelopePrefix f" "k = l"
    using assms(5) split by (auto simp: hpkeInfo_def)
  let ?pad = "\<lambda>x. x\<lparr>enc := replicate 32 0, ciphertext := replicate 16 0\<rparr>"
  have wf: "wellFormed (?pad e)" "wellFormed (?pad f)"
    using assms(1,2) by (auto simp: wellFormed_def push_sizes)
  have "envelopePrefix (?pad e) = envelopePrefix (?pad f)"
    using \<open>envelopePrefix e = envelopePrefix f\<close> by (simp add: envelopePrefix_def)
  then have "sealedPayload (?pad e) = sealedPayload (?pad f)"
    using wf by (simp add: sealedPayload_def Let_def)
  then have "Some (?pad e) = Some (?pad f)"
    using wf parse_sealedPayload by (metis option.exhaust sealedPayload_Some)
  then show ?thesis
    using \<open>k = l\<close> by (cases e; cases f; simp)
qed

definition example_envelope :: push_sealed where
  "example_envelope =
     \<lparr>deliveryId = replicate 16 7, provider = Apns, kind = Alert, priority = HighPriority, ttlSeconds = 3600,
      collapseId = [], token = [1, 2, 3], enc = replicate 32 9, ciphertext = replicate 20 5\<rparr>"

theorem hpkeInfo_binds_witness:
  "token example_envelope = token (example_envelope\<lparr>ciphertext := replicate 16 0\<rparr>)"
  using hpkeInfo_binds [of example_envelope "example_envelope\<lparr>ciphertext := replicate 16 0\<rparr>" "[4]" "[4]"]
  by (simp add: wellFormed_def push_sizes example_envelope_def combinationAllowed_def hpkeInfo_def envelopePrefix_def)

end
