(* ===== verification/Link_State.thy ===== *)
theory Link_State
  imports Tunnel_Frames Credit_Window Client_Hello Push_Envelope
begin

text \<open>
  The state of the link client, \<open>services/tunnel/src/link/client/link-client.hxx\<close>, with the objects
  it drives: the TLS channel to the cloud (\<open>link/tls/tls-channel.hxx\<close>) and the sockets of the
  local listeners (\<open>net/tcp-peer.hxx\<close>).

  Channels and peers are objects with an identity: they live in a store, and a \<open>shared_ptr\<close> is an
  index into it. Their callbacks are the ones the client installs, so a callback table is either
  empty or names the stream it belongs to. \<open>setCallbacks\<close> during a dispatch is staged, as in the
  code. \<open>streams_\<close> is an association list in the order of the iteration of the hash map.

  What the operating system and OpenSSL answer is part of the state: the answers to \<open>send\<close> and
  \<open>SSL_write\<close> are taken one by one from a list, and \<open>EAGAIN\<close> or \<open>SSL_ERROR_WANT_WRITE\<close> is
  the answer when the list is empty. What was accepted is kept in \<open>p_sent\<close> and \<open>c_wire\<close>. The clock is
  read from the state. The registration with \<open>epoll\<close> is the field \<open>interest\<close>.
\<close>

section \<open>Environment\<close>

datatype send_answer = Sent nat | SendAgain | SendInterrupted | SendFailed
datatype recv_answer = Received bytes | RecvEof | RecvAgain | RecvInterrupted | RecvFailed
datatype write_answer = Wrote nat | WriteWantWrite | WriteWantRead | WriteFailed
datatype read_answer = ReadBytes bytes | ReadWantRead | ReadWantWrite | ReadClosed | ReadFailed
datatype handshake_answer =
  HandshakeDone bytes "bytes option" | HandshakeWantRead | HandshakeWantWrite | HandshakeFailed

record epoll_events =
  ev_in :: bool
  ev_out :: bool
  ev_err :: bool
  ev_hup :: bool
  ev_rdhup :: bool

section \<open>Sockets and channels\<close>

datatype peer_callbacks = NoCallbacks | StreamCallbacks u32

record tcp_peer =
  p_port :: u16
  p_callbacks :: peer_callbacks
  p_dispatchDepth :: nat
  p_staged :: "peer_callbacks option"
  p_sendBuffer :: bytes
  p_closeWhenFlushed :: bool
  p_writeShut :: bool
  p_readPaused :: bool
  p_connecting :: bool
  p_connected :: bool
  p_congestedNotified :: bool
  p_eofSeen :: bool
  p_closed :: bool
  p_interest :: epoll_events
  p_sent :: bytes

record tls_channel =
  c_callbacks :: bool
  c_dispatchDepth :: nat
  c_staged :: "bool option"
  c_sendBuffer :: bytes
  c_connecting :: bool
  c_ready :: bool
  c_readPaused :: bool
  c_closeWhenFlushed :: bool
  c_sentShutdown :: bool
  c_congestedNotified :: bool
  c_wantWrite :: bool
  c_eofSeen :: bool
  c_closed :: bool
  c_pinnedKey :: bytes
  c_peer :: "(bytes \<times> bytes) option"
  c_interest :: epoll_events
  c_wire :: bytes

definition kSendLimit :: nat where "kSendLimit = 262144"
definition kSendHardCap :: nat where "kSendHardCap = 4194304"

definition p_congested :: "tcp_peer \<Rightarrow> bool" where
  "p_congested p \<longleftrightarrow> length (p_sendBuffer p) \<ge> kSendLimit"

definition c_congested :: "tls_channel \<Rightarrow> bool" where
  "c_congested c \<longleftrightarrow> length (c_sendBuffer c) \<ge> kSendLimit"

section \<open>The push queue\<close>

record push_queue =
  queue :: "bytes list"
  capacity :: nat
  received :: u64
  dropped :: u64

definition push_intent :: "bytes \<Rightarrow> push_queue \<Rightarrow> bool \<times> push_queue" where
  "push_intent intent q =
     (let q = q\<lparr>received := received q + 1\<rparr>
      in if intent = [] \<or> length intent > kMaxPayload \<or> length (queue q) \<ge> capacity q
         then (False, q\<lparr>dropped := dropped q + 1\<rparr>)
         else (True, q\<lparr>queue := queue q @ [intent]\<rparr>))"

fun pop_intent :: "push_queue \<Rightarrow> bytes \<times> push_queue" where
  "pop_intent q = (case queue q of [] \<Rightarrow> ([], q) | x # xs \<Rightarrow> (x, q\<lparr>queue := xs\<rparr>))"

section \<open>The client\<close>

datatype home_service =
  ServiceAuth | ServiceIdentity | ServiceSync | ServiceCamera | ServiceProductivity
| ServiceNotification | ServiceGuard | ServiceSettings | ServiceRtc | ServiceTurn

record link_limits =
  streamPendingCap :: nat
  globalPendingCap :: nat
  linkHighWater :: nat
  maxStreams :: nat
  streamIdleTimeout :: int

record link_options =
  gatewayPort :: u16
  pinnedSubjectPublicKeyDer :: bytes
  limits :: link_limits
  keepaliveActive :: int
  keepaliveIdle :: int
  keepalivePongTimeout :: int
  deadLinkTimeout :: int
  helloTimeout :: int
  reconnectBaseMs :: int
  reconnectCapMs :: int
  opt_capabilities :: u32
  opt_homeId :: bytes
  deviceDomainSuffix :: bytes
  serviceListeners :: "(home_service \<times> u16) list"

record link_stream =
  stream_id :: u32
  local_peer :: "nat option"
  pendingToLocal :: bytes
  pendingToHome :: bytes
  sendWindow :: credit_window
  receiveWindow :: credit_window
  lastActivity :: int
  localAttached :: bool
  localReadPaused :: bool
  localEof :: bool
  closedByNode :: bool
  routed :: bool
  clientHello :: bytes

datatype link_event =
  OnLinkUp | OnLinkDown | OnGoingAway byte u16 | OnPushIntent bytes
| OnPushResult push_result | OnWireError wire_error

datatype link_task = SweepTask | ReconnectTask | CloseTask

record link_client =
  options :: link_options
  channel :: "nat option"
  chans :: "nat \<Rightarrow> tls_channel"
  nextChan :: nat
  peers :: "nat \<Rightarrow> tcp_peer"
  nextPeer :: nat
  parser :: link_parser
  streams :: "(u32 \<times> link_stream) list"
  drainingPeers :: "(nat \<times> int) list"
  globalPendingToHome :: u64
  globalPendingToLocal :: u64
  localCapabilities :: u32
  negotiatedCredit :: bool
  helloReceived :: bool
  linkReadPaused :: bool
  awaitingPong :: bool
  reconnectWithoutBackoff :: bool
  pingNonce :: u64
  attachedAt :: int
  lastFrameAt :: int
  lastPingAt :: int
  pushQueue :: push_queue
  stopped :: bool
  connected :: bool
  draining :: bool
  activeKeepalive :: bool
  streamCount :: nat
  pendingBytes :: u64
  attempts :: int
  lastDelayMs :: int
  remoteCapabilities :: u32
  reconnectPending :: bool
  resolving :: nat
  timers :: "(int \<times> link_task) list"
  observed :: "link_event list"
  clock :: int
  sendAnswers :: "send_answer list"
  writeAnswers :: "write_answer list"
  dialAnswers :: "bool list"
  randomAnswers :: "u64 list"
  jitter :: "int \<Rightarrow> int"

text \<open>
  The calls that cross objects while another call is running: the callbacks of the channel and of
  the peers, and the rounds of the loops whose bodies may come back to them. An operation gets the
  meaning of these calls as an argument of type \<open>runner\<close>; \<open>None\<close> is a call that does not return.
\<close>

datatype link_call =
  ChannelConnected | ChannelRead bytes | ChannelEof | ChannelDrained | ChannelClosed
| PeerConnected u32 | PeerRead u32 bytes | PeerEof u32 | PeerDrained u32 nat | PeerClosed u32 nat
| PumpFrames | FlushToHome u32 | FlushToLocal u32 | TeardownStreams

type_synonym runner = "link_call \<Rightarrow> link_client \<Rightarrow> link_client option"

end
