(* ===== verification/Link_Channel.thy ===== *)
theory Link_Channel
  imports Link_State "HOL-Library.Monad_Syntax"
begin

text \<open>
  The TLS channel, \<open>link/tls/tls-channel.cc\<close>: handshake with the pinned key, buffered writing with
  its congestion marks, reading, and closing.
\<close>

definition kAlpnWireName :: bytes where "kAlpnWireName = byte_string ''argus-link/2''"
definition tls_kReadChunk :: nat where "tls_kReadChunk = 65536"
definition kWriteChunk :: nat where "kWriteChunk = 16384"

definition chan_upd :: "nat \<Rightarrow> (tls_channel \<Rightarrow> tls_channel) \<Rightarrow> link_client \<Rightarrow> link_client" where
  "chan_upd i f s = s\<lparr>chans := (chans s)(i := f (chans s i))\<rparr>"

definition c_interestEvents :: "tls_channel \<Rightarrow> epoll_events" where
  "c_interestEvents c =
     (if c_connecting c then \<lparr>ev_in = False, ev_out = True, ev_err = False, ev_hup = False, ev_rdhup = True\<rparr>
      else \<lparr>ev_in = \<not> c_eofSeen c \<and> \<not> c_readPaused c,
            ev_out = (\<not> c_ready c \<or> c_sendBuffer c \<noteq> [] \<or> c_wantWrite c),
            ev_err = False, ev_hup = False, ev_rdhup = True\<rparr>)"

definition c_updateInterest :: "nat \<Rightarrow> link_client \<Rightarrow> link_client" where
  "c_updateInterest i s =
     (if c_closed (chans s i) then s else chan_upd i (\<lambda>c. c\<lparr>c_interest := c_interestEvents c\<rparr>) s)"

definition c_close :: "runner \<Rightarrow> nat \<Rightarrow> link_client \<Rightarrow> link_client option" where
  "c_close run i s =
     (if c_closed (chans s i) then Some s
      else let s = chan_upd i (\<lambda>c. c\<lparr>c_closed := True\<rparr>) s
        in if c_callbacks (chans s i) then run ChannelClosed s else Some s)"

definition c_setCallbacks :: "bool \<Rightarrow> nat \<Rightarrow> link_client \<Rightarrow> link_client" where
  "c_setCallbacks cb i s =
     (if c_dispatchDepth (chans s i) > 0 then chan_upd i (\<lambda>c. c\<lparr>c_staged := Some cb\<rparr>) s
      else chan_upd i (\<lambda>c. c\<lparr>c_callbacks := cb\<rparr>) s)"

definition c_applyStaged :: "nat \<Rightarrow> link_client \<Rightarrow> link_client" where
  "c_applyStaged i s =
     (if c_dispatchDepth (chans s i) > 0 then s
      else case c_staged (chans s i) of
             None \<Rightarrow> s
           | Some cb \<Rightarrow> chan_upd i (\<lambda>c. c\<lparr>c_staged := None, c_callbacks := cb\<rparr>) s)"

definition c_setReadPaused :: "bool \<Rightarrow> nat \<Rightarrow> link_client \<Rightarrow> link_client" where
  "c_setReadPaused paused i s =
     (if c_readPaused (chans s i) = paused \<or> c_closed (chans s i) then s
      else c_updateInterest i (chan_upd i (\<lambda>c. c\<lparr>c_readPaused := paused\<rparr>) s))"

text \<open>The loop of \<open>flush\<close>: whether it failed, what is left, what was accepted, \<open>wantWrite_\<close> and the
  answers left.\<close>

fun write_loop :: "bytes \<Rightarrow> bytes \<Rightarrow> bool \<Rightarrow> write_answer list \<Rightarrow> bool \<times> bytes \<times> bytes \<times> bool \<times> write_answer list" where
  "write_loop [] wire want answers = (False, [], wire, want, answers)"
| "write_loop buf wire want [] = (False, buf, wire, True, [])"
| "write_loop buf wire want (Wrote n # answers) =
     (let written = min n (min (length buf) kWriteChunk)
      in if written = 0 then (True, buf, wire, want, answers)
         else write_loop (drop written buf) (wire @ take written buf)
                (if drop written buf = [] then False else want) answers)"
| "write_loop buf wire want (WriteWantWrite # answers) = (False, buf, wire, True, answers)"
| "write_loop buf wire want (WriteWantRead # answers) = (False, buf, wire, False, answers)"
| "write_loop buf wire want (WriteFailed # answers) = (True, buf, wire, want, answers)"

definition c_write_all :: "nat \<Rightarrow> link_client \<Rightarrow> bool \<times> link_client" where
  "c_write_all i s =
     (let c = chans s i;
          (bad, buf, wire, want, answers) = write_loop (c_sendBuffer c) (c_wire c) (c_wantWrite c) (writeAnswers s)
      in (bad, (chan_upd i (\<lambda>c. c\<lparr>c_sendBuffer := buf, c_wire := wire, c_wantWrite := want\<rparr>) s)\<lparr>writeAnswers := answers\<rparr>))"

definition c_notify_drained :: "runner \<Rightarrow> nat \<Rightarrow> link_client \<Rightarrow> link_client option" where
  "c_notify_drained run i s =
     (if c_sendBuffer (chans s i) = [] \<and> c_congestedNotified (chans s i)
      then let s = chan_upd i (\<lambda>c. c\<lparr>c_congestedNotified := False\<rparr>) s
        in if c_callbacks (chans s i) then run ChannelDrained s else Some s
      else Some s)"

definition c_shutdown :: "runner \<Rightarrow> nat \<Rightarrow> link_client \<Rightarrow> link_client option" where
  "c_shutdown run i s =
     (let c = chans s i
      in if c_sendBuffer c = [] \<and> c_closeWhenFlushed c \<and> \<not> c_sentShutdown c \<and> \<not> c_closed c
         then let s = chan_upd i (\<lambda>c. c\<lparr>c_sentShutdown := True\<rparr>) s
           in if c_eofSeen c then c_close run i s else Some s
         else Some s)"

definition c_flush :: "runner \<Rightarrow> nat \<Rightarrow> link_client \<Rightarrow> link_client option" where
  "c_flush run i s =
     (if c_closed (chans s i) \<or> \<not> c_ready (chans s i) then Some s
      else let (bad, s) = c_write_all i s
        in if bad then c_close run i s
           else do {
             s \<leftarrow> c_notify_drained run i s;
             c_shutdown run i s
           })"

definition c_mark_congested :: "runner \<Rightarrow> nat \<Rightarrow> link_client \<Rightarrow> link_client option" where
  "c_mark_congested run i s =
     (let c = chans s i
      in if c_closed c then Some s
         else if length (c_sendBuffer c) \<ge> kSendHardCap then c_close run i s
         else let s = (if length (c_sendBuffer c) \<ge> kSendLimit \<and> \<not> c_congestedNotified c
                       then chan_upd i (\<lambda>c. c\<lparr>c_congestedNotified := True\<rparr>) s else s)
           in Some (c_updateInterest i s))"

definition c_send :: "runner \<Rightarrow> nat \<Rightarrow> bytes \<Rightarrow> link_client \<Rightarrow> link_client option" where
  "c_send run i data s =
     (if c_closed (chans s i) then Some s
      else do {
        let s = chan_upd i (\<lambda>c. c\<lparr>c_sendBuffer := c_sendBuffer c @ data\<rparr>) s;
        s \<leftarrow> (if c_ready (chans s i) then c_flush run i s else Some s);
        c_mark_congested run i s
      })"

definition c_closeWhenFlushed_op :: "runner \<Rightarrow> nat \<Rightarrow> link_client \<Rightarrow> link_client option" where
  "c_closeWhenFlushed_op run i s =
     (if c_closed (chans s i) \<or> c_closeWhenFlushed (chans s i) then Some s
      else do {
        s \<leftarrow> c_flush run i (chan_upd i (\<lambda>c. c\<lparr>c_closeWhenFlushed := True, c_readPaused := False\<rparr>) s);
        Some (c_updateInterest i s)
      })"

definition verifyPeer :: "runner \<Rightarrow> nat \<Rightarrow> bytes \<Rightarrow> bytes option \<Rightarrow> link_client \<Rightarrow> link_client option" where
  "verifyPeer run i negotiated certificate s =
     (if negotiated \<noteq> kAlpnWireName then c_close run i s
      else case certificate of
             None \<Rightarrow> c_close run i s
           | Some presented \<Rightarrow>
               if c_pinnedKey (chans s i) = [] \<or> presented \<noteq> c_pinnedKey (chans s i) then c_close run i s
               else let s = c_updateInterest i (chan_upd i (\<lambda>c. c\<lparr>c_ready := True, c_peer := Some (negotiated, presented)\<rparr>) s)
                 in if c_callbacks (chans s i) then run ChannelConnected s else Some s)"

fun stepHandshake :: "runner \<Rightarrow> nat \<Rightarrow> handshake_answer \<Rightarrow> link_client \<Rightarrow> link_client option" where
  "stepHandshake run i HandshakeWantRead s = Some (chan_upd i (\<lambda>c. c\<lparr>c_wantWrite := False\<rparr>) s)"
| "stepHandshake run i HandshakeWantWrite s = Some (chan_upd i (\<lambda>c. c\<lparr>c_wantWrite := True\<rparr>) s)"
| "stepHandshake run i HandshakeFailed s = c_close run i s"
| "stepHandshake run i (HandshakeDone negotiated certificate) s = verifyPeer run i negotiated certificate s"

definition completeConnection :: "runner \<Rightarrow> nat \<Rightarrow> bool \<Rightarrow> handshake_answer \<Rightarrow> link_client \<Rightarrow> link_client option" where
  "completeConnection run i socket_error answer s =
     (if socket_error then c_close run i s
      else do {
        s \<leftarrow> stepHandshake run i answer (chan_upd i (\<lambda>c. c\<lparr>c_connecting := False\<rparr>) s);
        Some (if \<not> c_closed (chans s i) \<and> \<not> c_ready (chans s i) then c_updateInterest i s else s)
      })"

fun c_read_loop :: "runner \<Rightarrow> nat \<Rightarrow> read_answer list \<Rightarrow> link_client \<Rightarrow> link_client option" where
  "c_read_loop run i [] s = Some (c_updateInterest i (chan_upd i (\<lambda>c. c\<lparr>c_wantWrite := False\<rparr>) s))"
| "c_read_loop run i (ReadBytes data # answers) s =
     (if data = [] then c_close run i s
      else do {
        s \<leftarrow> (if c_callbacks (chans s i) \<and> \<not> c_closeWhenFlushed (chans s i)
              then run (ChannelRead (take tls_kReadChunk data)) s else Some s);
        (if c_closed (chans s i) \<or> c_readPaused (chans s i) then Some s else c_read_loop run i answers s)
      })"
| "c_read_loop run i (ReadWantRead # answers) s = Some (c_updateInterest i (chan_upd i (\<lambda>c. c\<lparr>c_wantWrite := False\<rparr>) s))"
| "c_read_loop run i (ReadWantWrite # answers) s = Some (c_updateInterest i (chan_upd i (\<lambda>c. c\<lparr>c_wantWrite := True\<rparr>) s))"
| "c_read_loop run i (ReadClosed # answers) s = do {
     let s = chan_upd i (\<lambda>c. c\<lparr>c_eofSeen := True\<rparr>) s;
     s \<leftarrow> (if c_callbacks (chans s i) then run ChannelEof s else Some s);
     (if c_sentShutdown (chans s i) \<and> \<not> c_closed (chans s i) then c_close run i s else Some s)
   }"
| "c_read_loop run i (ReadFailed # answers) s = c_close run i s"

definition c_readAvailable :: "runner \<Rightarrow> nat \<Rightarrow> read_answer list \<Rightarrow> link_client \<Rightarrow> link_client option" where
  "c_readAvailable run i answers s =
     (let c = chans s i
      in if c_eofSeen c \<or> c_readPaused c \<or> c_closed c \<or> \<not> c_ready c then Some s
         else c_read_loop run i answers s)"

record channel_input =
  in_events :: epoll_events
  in_socket_error :: bool
  in_handshake :: handshake_answer
  in_reads :: "read_answer list"

definition c_dispatch_ready :: "runner \<Rightarrow> nat \<Rightarrow> channel_input \<Rightarrow> link_client \<Rightarrow> link_client option" where
  "c_dispatch_ready run i e s =
     (let ev = in_events e
      in do {
        s \<leftarrow> (if ev_in ev \<or> ev_hup ev \<or> ev_rdhup ev then c_readAvailable run i (in_reads e) s else Some s);
        (if c_closed (chans s i) then Some s
         else do {
           s \<leftarrow> (if ev_out ev then c_flush run i s else Some s);
           (if c_closed (chans s i) then Some s
            else if ev_err ev then c_close run i s
            else Some (c_updateInterest i s))
         })
      })"

definition c_dispatch :: "runner \<Rightarrow> nat \<Rightarrow> channel_input \<Rightarrow> link_client \<Rightarrow> link_client option" where
  "c_dispatch run i e s =
     (let ev = in_events e; c = chans s i
      in if c_closed c then Some s
         else if c_connecting c then
           (if ev_out ev \<or> ev_err ev then completeConnection run i (in_socket_error e) (in_handshake e) s
            else if ev_in ev \<or> ev_hup ev \<or> ev_rdhup ev then c_close run i s
            else Some s)
         else do {
           s \<leftarrow> (if \<not> c_ready c then stepHandshake run i (in_handshake e) s else Some s);
           (if c_closed (chans s i) then Some s
            else if c_ready (chans s i) then c_dispatch_ready run i e s
            else Some (c_updateInterest i s))
         })"

definition c_handleEvents :: "runner \<Rightarrow> nat \<Rightarrow> channel_input \<Rightarrow> link_client \<Rightarrow> link_client option" where
  "c_handleEvents run i e s = do {
     s \<leftarrow> c_dispatch run i e (chan_upd i (\<lambda>c. c\<lparr>c_dispatchDepth := c_dispatchDepth c + 1\<rparr>) s);
     Some (c_applyStaged i (chan_upd i (\<lambda>c. c\<lparr>c_dispatchDepth := c_dispatchDepth c - 1\<rparr>) s))
   }"

text \<open>\<open>TlsChannel::connect\<close>, where it does not throw.\<close>

definition c_connect :: "bytes \<Rightarrow> tls_channel" where
  "c_connect key =
     \<lparr>c_callbacks = False, c_dispatchDepth = 0, c_staged = None, c_sendBuffer = [], c_connecting = True,
      c_ready = False, c_readPaused = False, c_closeWhenFlushed = False, c_sentShutdown = False,
      c_congestedNotified = False, c_wantWrite = False, c_eofSeen = False, c_closed = False, c_pinnedKey = key,
      c_peer = None, c_interest = \<lparr>ev_in = False, ev_out = True, ev_err = False, ev_hup = False, ev_rdhup = True\<rparr>,
      c_wire = []\<rparr>"

end
