(* ===== verification/Link_Peer.thy ===== *)
theory Link_Peer
  imports Link_State "HOL-Library.Monad_Syntax"
begin

text \<open>
  The socket of a local listener, \<open>net/tcp-peer.cc\<close>: buffered sending with its congestion marks,
  reading, half-closing and closing.
\<close>

definition kReadChunk :: nat where "kReadChunk = 65536"

definition peer_upd :: "nat \<Rightarrow> (tcp_peer \<Rightarrow> tcp_peer) \<Rightarrow> link_client \<Rightarrow> link_client" where
  "peer_upd i f s = s\<lparr>peers := (peers s)(i := f (peers s i))\<rparr>"

definition p_interestEvents :: "tcp_peer \<Rightarrow> epoll_events" where
  "p_interestEvents p =
     \<lparr>ev_in = \<not> p_readPaused p \<and> \<not> p_eofSeen p, ev_out = p_sendBuffer p \<noteq> [], ev_err = False,
      ev_hup = False, ev_rdhup = \<not> p_eofSeen p\<rparr>"

definition p_updateInterest :: "nat \<Rightarrow> link_client \<Rightarrow> link_client" where
  "p_updateInterest i s =
     (if p_closed (peers s i) then s else peer_upd i (\<lambda>p. p\<lparr>p_interest := p_interestEvents p\<rparr>) s)"

text \<open>The callbacks that \<open>dialListener\<close> installs, by the stream they belong to.\<close>

definition peer_call :: "runner \<Rightarrow> nat \<Rightarrow> (u32 \<Rightarrow> link_call) \<Rightarrow> link_client \<Rightarrow> link_client option" where
  "peer_call run i call s =
     (case p_callbacks (peers s i) of NoCallbacks \<Rightarrow> Some s | StreamCallbacks sid \<Rightarrow> run (call sid) s)"

definition p_close :: "runner \<Rightarrow> nat \<Rightarrow> link_client \<Rightarrow> link_client option" where
  "p_close run i s =
     (if p_closed (peers s i) then Some s
      else peer_call run i (\<lambda>sid. PeerClosed sid i) (peer_upd i (\<lambda>p. p\<lparr>p_closed := True\<rparr>) s))"

definition p_setCallbacks :: "peer_callbacks \<Rightarrow> nat \<Rightarrow> link_client \<Rightarrow> link_client" where
  "p_setCallbacks cb i s =
     (if p_dispatchDepth (peers s i) > 0 then peer_upd i (\<lambda>p. p\<lparr>p_staged := Some cb\<rparr>) s
      else peer_upd i (\<lambda>p. p\<lparr>p_callbacks := cb\<rparr>) s)"

definition p_applyStaged :: "nat \<Rightarrow> link_client \<Rightarrow> link_client" where
  "p_applyStaged i s =
     (if p_dispatchDepth (peers s i) > 0 then s
      else case p_staged (peers s i) of
             None \<Rightarrow> s
           | Some cb \<Rightarrow> peer_upd i (\<lambda>p. p\<lparr>p_staged := None, p_callbacks := cb\<rparr>) s)"

definition p_setReadPaused :: "bool \<Rightarrow> nat \<Rightarrow> link_client \<Rightarrow> link_client" where
  "p_setReadPaused paused i s =
     (if p_readPaused (peers s i) = paused \<or> p_closed (peers s i) then s
      else p_updateInterest i (peer_upd i (\<lambda>p. p\<lparr>p_readPaused := paused\<rparr>) s))"

text \<open>The loop of \<open>flush\<close>: whether it failed, what is left, what was accepted and the answers left.\<close>

fun send_loop :: "bytes \<Rightarrow> bytes \<Rightarrow> send_answer list \<Rightarrow> bool \<times> bytes \<times> bytes \<times> send_answer list" where
  "send_loop [] sent answers = (False, [], sent, answers)"
| "send_loop buf sent [] = (False, buf, sent, [])"
| "send_loop buf sent (Sent n # answers) =
     (let written = min n (length buf)
      in if written = 0 then (True, buf, sent, answers)
         else send_loop (drop written buf) (sent @ take written buf) answers)"
| "send_loop buf sent (SendAgain # answers) = (False, buf, sent, answers)"
| "send_loop buf sent (SendInterrupted # answers) = send_loop buf sent answers"
| "send_loop buf sent (SendFailed # answers) = (True, buf, sent, answers)"

definition p_write_all :: "nat \<Rightarrow> link_client \<Rightarrow> bool \<times> link_client" where
  "p_write_all i s =
     (let p = peers s i; (bad, buf, sent, answers) = send_loop (p_sendBuffer p) (p_sent p) (sendAnswers s)
      in (bad, (peer_upd i (\<lambda>p. p\<lparr>p_sendBuffer := buf, p_sent := sent\<rparr>) s)\<lparr>sendAnswers := answers\<rparr>))"

definition p_notify_drained :: "runner \<Rightarrow> nat \<Rightarrow> link_client \<Rightarrow> link_client option" where
  "p_notify_drained run i s =
     (if p_sendBuffer (peers s i) = [] \<and> p_congestedNotified (peers s i)
      then peer_call run i (\<lambda>sid. PeerDrained sid i) (peer_upd i (\<lambda>p. p\<lparr>p_congestedNotified := False\<rparr>) s)
      else Some s)"

definition p_shutdown :: "runner \<Rightarrow> nat \<Rightarrow> link_client \<Rightarrow> link_client option" where
  "p_shutdown run i s =
     (let p = peers s i
      in if p_sendBuffer p = [] \<and> p_closeWhenFlushed p \<and> \<not> p_writeShut p \<and> \<not> p_closed p
         then (if p_eofSeen p then p_close run i s else Some (peer_upd i (\<lambda>p. p\<lparr>p_writeShut := True\<rparr>) s))
         else Some s)"

definition p_flush :: "runner \<Rightarrow> nat \<Rightarrow> link_client \<Rightarrow> link_client option" where
  "p_flush run i s =
     (if p_closed (peers s i) \<or> p_connecting (peers s i) then Some s
      else let (bad, s) = p_write_all i s
        in if bad then p_close run i s
           else do {
             s \<leftarrow> p_notify_drained run i s;
             p_shutdown run i s
           })"

definition p_mark_congested :: "runner \<Rightarrow> nat \<Rightarrow> link_client \<Rightarrow> link_client option" where
  "p_mark_congested run i s =
     (let p = peers s i
      in if length (p_sendBuffer p) \<ge> kSendHardCap then p_close run i s
         else let s = (if length (p_sendBuffer p) \<ge> kSendLimit \<and> \<not> p_congestedNotified p
                       then peer_upd i (\<lambda>p. p\<lparr>p_congestedNotified := True\<rparr>) s else s)
           in Some (p_updateInterest i s))"

definition p_send :: "runner \<Rightarrow> nat \<Rightarrow> bytes \<Rightarrow> link_client \<Rightarrow> link_client option" where
  "p_send run i data s =
     (if p_closed (peers s i) then Some s
      else do {
        s \<leftarrow> p_flush run i (peer_upd i (\<lambda>p. p\<lparr>p_sendBuffer := p_sendBuffer p @ data\<rparr>) s);
        p_mark_congested run i s
      })"

definition p_closeWhenFlushed_op :: "runner \<Rightarrow> nat \<Rightarrow> link_client \<Rightarrow> link_client option" where
  "p_closeWhenFlushed_op run i s =
     (if p_closed (peers s i) \<or> p_closeWhenFlushed (peers s i) then Some s
      else do {
        s \<leftarrow> p_flush run i (peer_upd i (\<lambda>p. p\<lparr>p_closeWhenFlushed := True, p_readPaused := False\<rparr>) s);
        Some (p_updateInterest i s)
      })"

fun p_read_loop :: "runner \<Rightarrow> nat \<Rightarrow> recv_answer list \<Rightarrow> link_client \<Rightarrow> link_client option" where
  "p_read_loop run i [] s = Some s"
| "p_read_loop run i (Received data # answers) s =
     (if data = [] then Some s
      else do {
        s \<leftarrow> (if \<not> p_closeWhenFlushed (peers s i)
              then peer_call run i (\<lambda>sid. PeerRead sid (take kReadChunk data)) s else Some s);
        (if p_closed (peers s i) \<or> p_readPaused (peers s i) then Some s else p_read_loop run i answers s)
      })"
| "p_read_loop run i (RecvEof # answers) s = do {
     s \<leftarrow> peer_call run i PeerEof (peer_upd i (\<lambda>p. p\<lparr>p_eofSeen := True\<rparr>) s);
     (if p_writeShut (peers s i) \<and> \<not> p_closed (peers s i) then p_close run i s else Some s)
   }"
| "p_read_loop run i (RecvAgain # answers) s = Some s"
| "p_read_loop run i (RecvInterrupted # answers) s = p_read_loop run i answers s"
| "p_read_loop run i (RecvFailed # answers) s = p_close run i s"

definition p_readAvailable :: "runner \<Rightarrow> nat \<Rightarrow> recv_answer list \<Rightarrow> link_client \<Rightarrow> link_client option" where
  "p_readAvailable run i answers s =
     (if p_eofSeen (peers s i) then Some s else p_read_loop run i answers s)"

definition p_connection_complete :: "runner \<Rightarrow> nat \<Rightarrow> bool \<Rightarrow> link_client \<Rightarrow> link_client option" where
  "p_connection_complete run i socket_error s =
     (if socket_error then peer_call run i (\<lambda>sid. PeerClosed sid i) (peer_upd i (\<lambda>p. p\<lparr>p_closed := True\<rparr>) s)
      else do {
        s \<leftarrow> peer_call run i PeerConnected
               (p_updateInterest i (peer_upd i (\<lambda>p. p\<lparr>p_connecting := False, p_connected := True\<rparr>) s));
        (if p_closeWhenFlushed (peers s i) \<and> \<not> p_closed (peers s i) then p_flush run i s else Some s)
      })"

record peer_input =
  pe_events :: epoll_events
  pe_socket_error :: bool
  pe_recvs :: "recv_answer list"

definition p_dispatch :: "runner \<Rightarrow> nat \<Rightarrow> peer_input \<Rightarrow> link_client \<Rightarrow> link_client option" where
  "p_dispatch run i e s =
     (let ev = pe_events e; p = peers s i
      in if p_closed p then Some s
         else if p_connecting p \<and> ev_out ev then p_connection_complete run i (pe_socket_error e) s
         else do {
           s \<leftarrow> (if ev_in ev \<or> ev_hup ev \<or> ev_rdhup ev then p_readAvailable run i (pe_recvs e) s else Some s);
           (if p_closed (peers s i) then Some s
            else do {
              s \<leftarrow> (if ev_out ev \<or> ev_err ev then p_flush run i s else Some s);
              (if ev_err ev \<and> \<not> p_closed (peers s i) then p_close run i s
               else Some (p_updateInterest i s))
            })
         })"

definition p_handleEvents :: "runner \<Rightarrow> nat \<Rightarrow> peer_input \<Rightarrow> link_client \<Rightarrow> link_client option" where
  "p_handleEvents run i e s = do {
     s \<leftarrow> p_dispatch run i e (peer_upd i (\<lambda>p. p\<lparr>p_dispatchDepth := p_dispatchDepth p + 1\<rparr>) s);
     Some (p_applyStaged i (peer_upd i (\<lambda>p. p\<lparr>p_dispatchDepth := p_dispatchDepth p - 1\<rparr>) s))
   }"

text \<open>\<open>TcpPeer::connect\<close>, where it does not throw.\<close>

definition p_connect :: "u16 \<Rightarrow> peer_callbacks \<Rightarrow> tcp_peer" where
  "p_connect port cb =
     \<lparr>p_port = port, p_callbacks = cb, p_dispatchDepth = 0, p_staged = None, p_sendBuffer = [], p_closeWhenFlushed = False,
      p_writeShut = False, p_readPaused = False, p_connecting = True, p_connected = False,
      p_congestedNotified = False, p_eofSeen = False, p_closed = False,
      p_interest = \<lparr>ev_in = False, ev_out = True, ev_err = False, ev_hup = False, ev_rdhup = True\<rparr>, p_sent = []\<rparr>"

end
