(* ===== verification/Link_Client.thy ===== *)
theory Link_Client
  imports Link_Channel Link_Peer
begin

text \<open>
  The link client, \<open>link/client/link-client.cc\<close>: the streams of the house over the link to the
  cloud. Every operation is the operation of the code on the state of \<open>Link_State\<close>; the calls it makes
  through callbacks go to its argument \<open>run\<close>. Durations are in milliseconds.
\<close>

section \<open>Constants and pure helpers\<close>

definition kPushIntents :: u32 where "kPushIntents = 0x00000001"
definition kStreamCredit :: u32 where "kStreamCredit = 0x00000002"
definition kSealedPush :: u32 where "kSealedPush = 0x00000004"
definition kSweepInterval :: int where "kSweepInterval = 1000"
definition kDrainGrace :: int where "kDrainGrace = 30000"
definition kClientHelloMaxBytes :: nat where "kClientHelloMaxBytes = 32 * 1024"
definition kUnrecognizedNameAlert :: byte where "kUnrecognizedNameAlert = 112"

fun homeServiceToString :: "home_service \<Rightarrow> bytes" where
  "homeServiceToString ServiceAuth = byte_string ''auth''"
| "homeServiceToString ServiceIdentity = byte_string ''identity''"
| "homeServiceToString ServiceSync = byte_string ''sync''"
| "homeServiceToString ServiceCamera = byte_string ''camera''"
| "homeServiceToString ServiceProductivity = byte_string ''productivity''"
| "homeServiceToString ServiceNotification = byte_string ''notification''"
| "homeServiceToString ServiceGuard = byte_string ''guard''"
| "homeServiceToString ServiceSettings = byte_string ''settings''"
| "homeServiceToString ServiceRtc = byte_string ''rtc''"
| "homeServiceToString ServiceTurn = byte_string ''turn''"

definition kHomeServices :: "home_service list" where
  "kHomeServices = [ServiceAuth, ServiceIdentity, ServiceSync, ServiceCamera, ServiceProductivity,
     ServiceNotification, ServiceGuard, ServiceSettings, ServiceRtc, ServiceTurn]"

definition homeServiceFromString :: "bytes \<Rightarrow> home_service option" where
  "homeServiceFromString name = find (\<lambda>svc. homeServiceToString svc = name) kHomeServices"

text \<open>\<open>linkReconnectDelayMs\<close>: the window, and the product with the random double in the unit interval,
  which is the argument \<open>scale\<close>.\<close>

definition reconnect_window :: "int \<Rightarrow> int \<Rightarrow> int \<Rightarrow> int" where
  "reconnect_window attempt baseMs capMs =
     (let base = max 1 baseMs;
          cap = max base capMs;
          doublings = min (max (attempt - 1) 0) 30;
          window = base * 2 ^ nat (min doublings 20)
      in max 1 (min window cap))"

definition linkReconnectDelayMs :: "(int \<Rightarrow> int) \<Rightarrow> int \<Rightarrow> int \<Rightarrow> int \<Rightarrow> int" where
  "linkReconnectDelayMs scale attempt baseMs capMs = scale (reconnect_window attempt baseMs capMs)"

section \<open>Streams\<close>

definition findStream :: "u32 \<Rightarrow> link_client \<Rightarrow> link_stream option" where
  "findStream sid s = map_of (streams s) sid"

definition stream_upd :: "u32 \<Rightarrow> (link_stream \<Rightarrow> link_stream) \<Rightarrow> link_client \<Rightarrow> link_client" where
  "stream_upd sid f s = s\<lparr>streams := map (\<lambda>(k, st). (k, if k = sid then f st else st)) (streams s)\<rparr>"

definition erase_stream :: "u32 \<Rightarrow> link_client \<Rightarrow> link_client" where
  "erase_stream sid s =
     (let left = filter (\<lambda>(k, st). k \<noteq> sid) (streams s) in s\<lparr>streams := left, streamCount := length left\<rparr>)"

definition updatePending :: "link_client \<Rightarrow> link_client" where
  "updatePending s = s\<lparr>pendingBytes := globalPendingToHome s + globalPendingToLocal s\<rparr>"

definition sendFrameToNode :: "runner \<Rightarrow> bytes \<Rightarrow> link_client \<Rightarrow> link_client option" where
  "sendFrameToNode run frame s =
     (case channel s of
        None \<Rightarrow> Some s
      | Some i \<Rightarrow> if c_closed (chans s i) \<or> frame = [] then Some s else c_send run i frame s)"

definition pause_stream :: "bool \<Rightarrow> u32 \<Rightarrow> link_client \<Rightarrow> link_client" where
  "pause_stream paused sid s =
     (case findStream sid s of
        None \<Rightarrow> s
      | Some st \<Rightarrow>
          (case local_peer st of
             None \<Rightarrow> s
           | Some p \<Rightarrow> p_setReadPaused paused p (stream_upd sid (\<lambda>st. st\<lparr>localReadPaused := paused\<rparr>) s)))"

definition pauseAllLocalReads :: "link_client \<Rightarrow> link_client" where
  "pauseAllLocalReads s =
     foldl (\<lambda>s (sid, st). if local_peer st \<noteq> None \<and> \<not> localReadPaused st then pause_stream True sid s else s)
       s (streams s)"

definition resumeLocalReads :: "link_client \<Rightarrow> link_client" where
  "resumeLocalReads s =
     (if globalPendingToHome s > of_nat (globalPendingCap (limits (options s)) div 2) then s
      else foldl (\<lambda>s (sid, st). if local_peer st \<noteq> None \<and> localReadPaused st \<and> pendingToHome st = []
                    then pause_stream False sid s else s)
             s (streams s))"

definition resumeLinkRead :: "runner \<Rightarrow> link_client \<Rightarrow> link_client option" where
  "resumeLinkRead run s =
     (case channel s of
        None \<Rightarrow> Some s
      | Some i \<Rightarrow>
          if \<not> linkReadPaused s then Some s
          else if globalPendingToLocal s \<le> of_nat (linkHighWater (limits (options s)) div 2)
          then run PumpFrames (c_setReadPaused False i (s\<lparr>linkReadPaused := False\<rparr>))
          else Some s)"

definition releaseLocal :: "runner \<Rightarrow> nat \<Rightarrow> bytes \<Rightarrow> link_close \<Rightarrow> link_client \<Rightarrow> link_client option" where
  "releaseLocal run p pending why s =
     (let s = p_setCallbacks NoCallbacks p s
      in if why \<noteq> LNormal \<or> p_closed (peers s p) then p_close run p s
         else do {
           s \<leftarrow> (if pending \<noteq> [] then p_send run p pending s else Some s);
           s \<leftarrow> p_closeWhenFlushed_op run p s;
           Some (if \<not> p_closed (peers s p)
                 then s\<lparr>drainingPeers := drainingPeers s @ [(p, clock s + kDrainGrace)]\<rparr> else s)
         })"

definition closeLocal :: "runner \<Rightarrow> link_stream \<Rightarrow> link_close \<Rightarrow> link_client \<Rightarrow> link_client option" where
  "closeLocal run st why s = do {
     let s = erase_stream (stream_id st) s;
     let s = updatePending (s\<lparr>globalPendingToHome := globalPendingToHome s - of_nat (length (pendingToHome st)),
                             globalPendingToLocal := globalPendingToLocal s - of_nat (length (pendingToLocal st))\<rparr>);
     s \<leftarrow> (if helloReceived s \<and> \<not> closedByNode st
           then sendFrameToNode run (encodeClose (stream_id st) why) s else Some s);
     s \<leftarrow> (case local_peer st of None \<Rightarrow> Some s | Some p \<Rightarrow> releaseLocal run p (pendingToLocal st) why s);
     resumeLinkRead run s
   }"

definition closeStream :: "runner \<Rightarrow> u32 \<Rightarrow> link_close \<Rightarrow> link_client \<Rightarrow> link_client option" where
  "closeStream run sid why s =
     (case findStream sid s of None \<Rightarrow> Some s | Some st \<Rightarrow> closeLocal run st why s)"

text \<open>\<open>grantConsumedCredit\<close> on the stream of the client.\<close>

definition grantStreamCredit :: "runner \<Rightarrow> u32 \<Rightarrow> nat \<Rightarrow> link_client \<Rightarrow> link_client option" where
  "grantStreamCredit run sid n s =
     (case findStream sid s of
        None \<Rightarrow> Some s
      | Some st \<Rightarrow>
          let (w, frame) = grantConsumedCredit (receiveWindow st) (stream_id st) (of_nat n);
              s = stream_upd sid (\<lambda>st. st\<lparr>receiveWindow := w\<rparr>) s
          in case frame of None \<Rightarrow> Some s | Some f \<Rightarrow> sendFrameToNode run f s)"

section \<open>Flushing\<close>

text \<open>How much of a stream may go out in one frame.\<close>

definition flush_chunk :: "link_stream \<Rightarrow> nat" where
  "flush_chunk st =
     (let chunk = min (length (pendingToHome st)) kDataFrameMax
      in if limited (sendWindow st) then min chunk (unat (remaining (sendWindow st))) else chunk)"

definition flush_idle :: "runner \<Rightarrow> u32 \<Rightarrow> link_stream \<Rightarrow> link_client \<Rightarrow> link_client option" where
  "flush_idle run sid st s =
     (if localEof st then do {
        s \<leftarrow> closeStream run sid LNormal s;
        Some (resumeLocalReads s)
      }
      else let s = (if localReadPaused st \<and> local_peer st \<noteq> None
                       \<and> globalPendingToHome s < of_nat (globalPendingCap (limits (options s)) div 2)
                    then pause_stream False sid s else s)
        in Some (resumeLocalReads s))"

definition flushToHome :: "runner \<Rightarrow> u32 \<Rightarrow> link_client \<Rightarrow> link_client option" where
  "flushToHome run sid s =
     (case (findStream sid s, channel s) of
        (Some st, Some i) \<Rightarrow>
          if c_closed (chans s i) then Some s
          else if pendingToHome st = [] then flush_idle run sid st s
          else if c_congested (chans s i) then Some s
          else if limited (sendWindow st) \<and> remaining (sendWindow st) = 0 then Some s
          else let chunk = flush_chunk st
            in do {
              s \<leftarrow> sendFrameToNode run (encodeData sid (take chunk (pendingToHome st))) s;
              (case findStream sid s of
                 None \<Rightarrow> Some s
               | Some _ \<Rightarrow>
                   let s = stream_upd sid (\<lambda>st. st\<lparr>sendWindow := recordUsed (sendWindow st) (of_nat chunk),
                                                  pendingToHome := drop chunk (pendingToHome st)\<rparr>) s;
                       s = updatePending (s\<lparr>globalPendingToHome := globalPendingToHome s - of_nat chunk\<rparr>)
                   in run (FlushToHome sid) s)
            }
      | _ \<Rightarrow> Some s)"

text \<open>\<open>std::move\<close> of the pending bytes leaves the string of the stream empty before \<open>send\<close> runs.\<close>

definition flushToLocal :: "runner \<Rightarrow> u32 \<Rightarrow> link_client \<Rightarrow> link_client option" where
  "flushToLocal run sid s =
     (case findStream sid s of
        None \<Rightarrow> Some s
      | Some st \<Rightarrow>
          (case local_peer st of
             None \<Rightarrow> Some s
           | Some p \<Rightarrow>
               if p_closed (peers s p) then Some s
               else if pendingToLocal st = [] then resumeLinkRead run s
               else if p_congested (peers s p) then Some s
               else let n = length (pendingToLocal st)
                 in do {
                   s \<leftarrow> p_send run p (pendingToLocal st) (stream_upd sid (\<lambda>st. st\<lparr>pendingToLocal := []\<rparr>) s);
                   (case findStream sid s of
                      None \<Rightarrow> Some s
                    | Some _ \<Rightarrow> do {
                        let s = stream_upd sid (\<lambda>st. st\<lparr>pendingToLocal := []\<rparr>) s;
                        let s = updatePending (s\<lparr>globalPendingToLocal := globalPendingToLocal s - of_nat n\<rparr>);
                        s \<leftarrow> grantStreamCredit run sid n s;
                        run (FlushToLocal sid) s
                      })
                 }))"

definition writeToStream :: "runner \<Rightarrow> u32 \<Rightarrow> bytes \<Rightarrow> link_client \<Rightarrow> link_client option" where
  "writeToStream run sid data s =
     (case findStream sid s of
        None \<Rightarrow> Some s
      | Some st \<Rightarrow>
          if data = [] then Some s
          else if \<not> helloReceived s \<or> (case channel s of None \<Rightarrow> True | Some i \<Rightarrow> c_closed (chans s i))
          then closeStream run sid LError s
          else let s = stream_upd sid (\<lambda>st. st\<lparr>lastActivity := clock s, pendingToHome := pendingToHome st @ data\<rparr>) s;
                   s = updatePending (s\<lparr>globalPendingToHome := globalPendingToHome s + of_nat (length data)\<rparr>);
                   s = (if length (pendingToHome st @ data) \<ge> streamPendingCap (limits (options s))
                           \<and> \<not> localReadPaused st \<and> local_peer st \<noteq> None
                        then pause_stream True sid s else s);
                   s = (if globalPendingToHome s \<ge> of_nat (globalPendingCap (limits (options s)))
                        then pauseAllLocalReads s else s)
            in flushToHome run sid s)"

definition handleLocalEof :: "runner \<Rightarrow> u32 \<Rightarrow> link_client \<Rightarrow> link_client option" where
  "handleLocalEof run sid s =
     (case findStream sid s of
        None \<Rightarrow> Some s
      | Some st \<Rightarrow>
          let s = stream_upd sid (\<lambda>st. st\<lparr>localEof := True\<rparr>) s
          in if pendingToHome st = [] then closeStream run sid LNormal s else Some s)"

section \<open>Reconnecting\<close>

definition armReconnect :: "int \<Rightarrow> link_client \<Rightarrow> link_client" where
  "armReconnect delayMs s = s\<lparr>timers := timers s @ [(clock s + delayMs, ReconnectTask)]\<rparr>"

definition nextDelayMs :: "link_client \<Rightarrow> int \<times> link_client" where
  "nextDelayMs s =
     (let attempt = attempts s + 1;
          delay = linkReconnectDelayMs (jitter s) attempt (reconnectBaseMs (options s)) (reconnectCapMs (options s))
      in (delay, s\<lparr>attempts := attempt, lastDelayMs := delay\<rparr>))"

definition scheduleReconnect :: "link_client \<Rightarrow> link_client" where
  "scheduleReconnect s =
     (if stopped s \<or> reconnectPending s then s
      else let immediate = reconnectWithoutBackoff s;
               s = s\<lparr>reconnectPending := True, reconnectWithoutBackoff := False\<rparr>
        in if immediate then armReconnect 0 (s\<lparr>attempts := 0, lastDelayMs := 0\<rparr>)
           else let (delay, s) = nextDelayMs s in armReconnect delay s)"

definition connectHome :: "link_client \<Rightarrow> link_client" where
  "connectHome s = (if stopped s \<or> channel s \<noteq> None then s else s\<lparr>resolving := resolving s + 1\<rparr>)"

definition scheduleSweep :: "link_client \<Rightarrow> link_client" where
  "scheduleSweep s = s\<lparr>timers := timers s @ [(clock s + kSweepInterval, SweepTask)]\<rparr>"

definition start :: "link_client \<Rightarrow> link_client" where
  "start s = scheduleSweep (connectHome s)"

definition installChannelCallbacks :: "link_client \<Rightarrow> link_client" where
  "installChannelCallbacks s = (case channel s of None \<Rightarrow> s | Some i \<Rightarrow> c_setCallbacks True i s)"

text \<open>\<open>dialled\<close> is false where \<open>TlsChannel::connect\<close> throws.\<close>

definition openChannel :: "bool \<Rightarrow> bool \<Rightarrow> link_client \<Rightarrow> link_client" where
  "openChannel resolved dialled s =
     (if stopped s \<or> channel s \<noteq> None then s
      else if \<not> resolved then scheduleReconnect s
      else if \<not> dialled then scheduleReconnect s
      else let i = nextChan s
        in installChannelCallbacks
             (s\<lparr>chans := (chans s)(i := c_connect (pinnedSubjectPublicKeyDer (options s))),
                nextChan := i + 1, channel := Some i\<rparr>))"

section \<open>Closing the link\<close>

definition teardownStreams :: "runner \<Rightarrow> link_client \<Rightarrow> link_client option" where
  "teardownStreams run s =
     (case streams s of
        [] \<Rightarrow> Some (updatePending (s\<lparr>globalPendingToHome := 0, globalPendingToLocal := 0\<rparr>))
      | (k, st) # _ \<Rightarrow> do {
          s \<leftarrow> closeLocal run st LError s;
          run TeardownStreams s
        })"

definition reset_link :: "link_client \<Rightarrow> link_client" where
  "reset_link s =
     s\<lparr>helloReceived := False, connected := False, draining := False, activeKeepalive := False, awaitingPong := False,
       linkReadPaused := False, negotiatedCredit := False, remoteCapabilities := 0, observed := observed s @ [OnLinkDown]\<rparr>"

definition closeLink :: "runner \<Rightarrow> link_client \<Rightarrow> link_client option" where
  "closeLink run s =
     (case channel s of
        None \<Rightarrow> Some s
      | Some i \<Rightarrow> do {
          s \<leftarrow> c_close run i (c_setCallbacks False i (s\<lparr>channel := None\<rparr>));
          s \<leftarrow> teardownStreams run (s\<lparr>parser := link_initial_parser\<rparr>);
          Some (scheduleReconnect (reset_link s))
        })"

definition goAwayAndClose :: "runner \<Rightarrow> link_client \<Rightarrow> link_client option" where
  "goAwayAndClose run s = do {
     s \<leftarrow> sendFrameToNode run (encodeGoAway ProtocolError 0) s;
     closeLink run s
   }"

definition refuseLink :: "runner \<Rightarrow> wire_error \<Rightarrow> link_client \<Rightarrow> link_client option" where
  "refuseLink run e s = goAwayAndClose run (s\<lparr>observed := observed s @ [OnWireError e]\<rparr>)"

section \<open>Opening and routing streams\<close>

definition new_stream :: "u32 \<Rightarrow> link_client \<Rightarrow> link_stream" where
  "new_stream sid s =
     \<lparr>stream_id = sid, local_peer = None, pendingToLocal = [], pendingToHome = [],
      sendWindow = CreditWindow (negotiatedCredit s) kInitialStreamCredit kCreditGrantThreshold,
      receiveWindow = CreditWindow (negotiatedCredit s) kInitialStreamCredit kCreditGrantThreshold,
      lastActivity = clock s, localAttached = False, localReadPaused = False, localEof = False,
      closedByNode = False, routed = True, clientHello = []\<rparr>"

definition take_dial :: "link_client \<Rightarrow> bool \<times> link_client" where
  "take_dial s = (case dialAnswers s of [] \<Rightarrow> (True, s) | d # ds \<Rightarrow> (d, s\<lparr>dialAnswers := ds\<rparr>))"

definition dialListener :: "runner \<Rightarrow> u32 \<Rightarrow> u16 \<Rightarrow> link_client \<Rightarrow> link_client option" where
  "dialListener run sid port s =
     (let (ok, s) = take_dial s
      in if ok then
           let p = nextPeer s;
               s = s\<lparr>peers := (peers s)(p := p_connect port (StreamCallbacks sid)), nextPeer := p + 1\<rparr>
           in Some (stream_upd sid (\<lambda>st. st\<lparr>local_peer := Some p\<rparr>) s)
         else do {
           s \<leftarrow> sendFrameToNode run (encodeClose sid LBusy) s;
           Some (erase_stream sid s)
         })"

definition openStream :: "runner \<Rightarrow> u32 \<Rightarrow> link_client \<Rightarrow> link_client option" where
  "openStream run sid s =
     (if length (streams s) \<ge> maxStreams (limits (options s)) then sendFrameToNode run (encodeClose sid LBusy) s
      else let st = new_stream sid s; opened = streams s @ [(sid, st)];
               s = s\<lparr>streams := opened, streamCount := length opened\<rparr>
        in if serviceListeners (options s) \<noteq> [] then Some (stream_upd sid (\<lambda>st. st\<lparr>routed := False\<rparr>) s)
           else dialListener run sid (gatewayPort (options s)) s)"

definition listenerFor :: "link_options \<Rightarrow> bytes \<Rightarrow> u16 option" where
  "listenerFor opts server =
     (case parseDeviceName server (deviceDomainSuffix opts) of
        None \<Rightarrow> None
      | Some name \<Rightarrow>
          if opt_homeId opts \<noteq> [] \<and> homeId name \<noteq> opt_homeId opts then None
          else if service name = [] then Some (gatewayPort opts)
          else case homeServiceFromString (service name) of
                 None \<Rightarrow> None
               | Some svc \<Rightarrow> map_of (serviceListeners opts) svc)"

definition refuseStream :: "runner \<Rightarrow> u32 \<Rightarrow> link_client \<Rightarrow> link_client option" where
  "refuseStream run sid s = do {
     s \<leftarrow> sendFrameToNode run (encodeData sid (tlsAlertRecord kUnrecognizedNameAlert)) s;
     closeStream run sid LNormal s
   }"

definition route_to :: "runner \<Rightarrow> u32 \<Rightarrow> bytes \<Rightarrow> u16 \<Rightarrow> link_client \<Rightarrow> link_client option" where
  "route_to run sid hello port s = do {
     s \<leftarrow> dialListener run sid port (stream_upd sid (\<lambda>st. st\<lparr>routed := True, clientHello := []\<rparr>) s);
     (case map_option local_peer (findStream sid s) of
        Some (Some p) \<Rightarrow> do {
          s \<leftarrow> p_send run p hello s;
          grantStreamCredit run sid (length hello) s
        }
      | _ \<Rightarrow> Some s)
   }"

definition routeStream :: "runner \<Rightarrow> u32 \<Rightarrow> link_client \<Rightarrow> link_client option" where
  "routeStream run sid s =
     (case findStream sid s of
        None \<Rightarrow> Some s
      | Some st \<Rightarrow>
          if routed st then Some s
          else case parseClientHello (clientHello st) of
                 None \<Rightarrow> None
               | Some hello \<Rightarrow>
                   if status hello = HelloNeedMore
                   then (if length (clientHello st) > kClientHelloMaxBytes then refuseStream run sid s else Some s)
                   else case (if status hello = HelloParsed then listenerFor (options s) (serverName hello) else None) of
                          None \<Rightarrow> refuseStream run sid s
                        | Some port \<Rightarrow> route_to run sid (clientHello st) port s)"

section \<open>Frames from the cloud\<close>

definition handleHello :: "runner \<Rightarrow> link_frame \<Rightarrow> link_client \<Rightarrow> link_client option" where
  "handleHello run f s =
     (if helloReceived s then refuseLink run DuplicateHello s
      else let remote = capabilities (decodeHello f) AND kKnown
        in Some (s\<lparr>remoteCapabilities := remote,
                   negotiatedCredit := (remote AND kStreamCredit \<noteq> 0 \<and> localCapabilities s AND kStreamCredit \<noteq> 0),
                   helloReceived := True, connected := True, attempts := 0, observed := observed s @ [OnLinkUp]\<rparr>))"

definition handleOpen :: "runner \<Rightarrow> link_frame \<Rightarrow> link_client \<Rightarrow> link_client option" where
  "handleOpen run f s =
     (if lstream f = 0 \<or> findStream (lstream f) s \<noteq> None then Some s else openStream run (lstream f) s)"

text \<open>The bytes of a DATA frame that cannot go out at once.\<close>

definition hold_data :: "runner \<Rightarrow> u32 \<Rightarrow> link_stream \<Rightarrow> bytes \<Rightarrow> link_client \<Rightarrow> link_client option" where
  "hold_data run sid st data s =
     (if length (pendingToLocal st) + length data > 2 * streamPendingCap (limits (options s))
      then closeStream run sid LBackpressure s
      else let s = stream_upd sid (\<lambda>st. st\<lparr>pendingToLocal := pendingToLocal st @ data\<rparr>) s;
               s = updatePending (s\<lparr>globalPendingToLocal := globalPendingToLocal s + of_nat (length data)\<rparr>)
        in Some (if globalPendingToLocal s \<ge> of_nat (linkHighWater (limits (options s))) \<and> \<not> linkReadPaused s
                 then (case channel s of None \<Rightarrow> s | Some i \<Rightarrow> c_setReadPaused True i (s\<lparr>linkReadPaused := True\<rparr>))
                 else s))"

definition handleData :: "runner \<Rightarrow> link_frame \<Rightarrow> link_client \<Rightarrow> link_client option" where
  "handleData run f s =
     (let sid = lstream f; data = lpayload f
      in case findStream sid s of
           None \<Rightarrow> Some s
         | Some st \<Rightarrow>
             let s = stream_upd sid (\<lambda>st. st\<lparr>lastActivity := clock s\<rparr>) s
             in if \<not> covers (receiveWindow st) (of_nat (length data))
                then closeStream run sid LBackpressure (s\<lparr>observed := observed s @ [OnWireError OverCredit]\<rparr>)
                else let s = stream_upd sid (\<lambda>st. st\<lparr>receiveWindow := recordUsed (receiveWindow st) (of_nat (length data))\<rparr>) s
                  in if \<not> routed st
                     then routeStream run sid (stream_upd sid (\<lambda>st. st\<lparr>clientHello := clientHello st @ data\<rparr>) s)
                     else case local_peer st of
                            None \<Rightarrow> hold_data run sid st data s
                          | Some p \<Rightarrow>
                              if pendingToLocal st \<noteq> [] \<or> p_congested (peers s p) then hold_data run sid st data s
                              else do {
                                s \<leftarrow> p_send run p data s;
                                grantStreamCredit run sid (length data) s
                              })"

definition link_close_of :: "byte \<Rightarrow> link_close" where
  "link_close_of b = (if b = 0 then LNormal else if b = 1 then LBusy else if b = 2 then LIdleTimeout
     else if b = 3 then LBackpressure else LError)"

definition handleClose :: "runner \<Rightarrow> link_frame \<Rightarrow> link_client \<Rightarrow> link_client option" where
  "handleClose run f s =
     (case findStream (lstream f) s of
        None \<Rightarrow> Some s
      | Some st \<Rightarrow> closeLocal run (st\<lparr>closedByNode := True\<rparr>) (link_close_of (decodeCloseReason f)) s)"

definition handlePing :: "runner \<Rightarrow> link_frame \<Rightarrow> link_client \<Rightarrow> link_client option" where
  "handlePing run f s = sendFrameToNode run (encodePong (decodeNonce f)) s"

definition handlePong :: "link_frame \<Rightarrow> link_client \<Rightarrow> link_client" where
  "handlePong f s = (if decodeNonce f = pingNonce s then s\<lparr>awaitingPong := False\<rparr> else s)"

definition both_offer :: "u32 \<Rightarrow> link_client \<Rightarrow> bool" where
  "both_offer cap s \<longleftrightarrow> remoteCapabilities s AND cap \<noteq> 0 \<and> localCapabilities s AND cap \<noteq> 0"

definition handlePush :: "runner \<Rightarrow> link_frame \<Rightarrow> link_client \<Rightarrow> link_client option" where
  "handlePush run f s =
     (if \<not> both_offer kPushIntents s then goAwayAndClose run s
      else Some (s\<lparr>observed := observed s @ [OnPushIntent (lpayload f)],
                   pushQueue := snd (push_intent (lpayload f) (pushQueue s))\<rparr>))"

definition handlePushSealed :: "runner \<Rightarrow> link_client \<Rightarrow> link_client option" where
  "handlePushSealed run s = goAwayAndClose run s"

definition handlePushResult :: "runner \<Rightarrow> link_frame \<Rightarrow> link_client \<Rightarrow> link_client option" where
  "handlePushResult run f s =
     (if \<not> both_offer kSealedPush s then goAwayAndClose run s
      else case parseResultPayload (lpayload f) of
             None \<Rightarrow> goAwayAndClose run s
           | Some r \<Rightarrow> Some (s\<lparr>observed := observed s @ [OnPushResult r]\<rparr>))"

definition sealedPushReady :: "link_client \<Rightarrow> bool" where
  "sealedPushReady s \<longleftrightarrow>
     connected s \<and> (case channel s of None \<Rightarrow> False | Some i \<Rightarrow> \<not> c_closed (chans s i)) \<and> both_offer kSealedPush s"

definition sendSealedPush :: "runner \<Rightarrow> push_sealed \<Rightarrow> link_client \<Rightarrow> (bool \<times> link_client) option" where
  "sendSealedPush run e s =
     (if \<not> sealedPushReady s then Some (False, s)
      else case sealedPayload e of
             None \<Rightarrow> Some (False, s)
           | Some body \<Rightarrow> do {
               s \<leftarrow> sendFrameToNode run (link_encodeFrame \<lparr>ltype = LPushSealed, lstream = 0, lpayload = body\<rparr>) s;
               Some (True, s)
             })"

definition handleGoAway :: "link_frame \<Rightarrow> link_client \<Rightarrow> link_client" where
  "handleGoAway f s =
     (let goAway = decodeGoAway f
      in s\<lparr>draining := True, reconnectWithoutBackoff := True,
          observed := observed s @ [OnGoingAway (goaway_payload.reason goAway) (seconds goAway)]\<rparr>)"

definition handleCredit :: "runner \<Rightarrow> link_frame \<Rightarrow> link_client \<Rightarrow> link_client option" where
  "handleCredit run f s =
     (case findStream (lstream f) s of
        None \<Rightarrow> Some s
      | Some st \<Rightarrow>
          flushToHome run (lstream f)
            (stream_upd (lstream f) (\<lambda>st. st\<lparr>sendWindow := grant (sendWindow st) (decodeCredit f)\<rparr>) s))"

definition dispatchFrame :: "runner \<Rightarrow> link_frame \<Rightarrow> link_client \<Rightarrow> link_client option" where
  "dispatchFrame run f s =
     (let s = s\<lparr>lastFrameAt := clock s\<rparr>
      in if ltype f \<noteq> LHello \<and> \<not> helloReceived s then refuseLink run HelloRequired s
         else case ltype f of
                LHello \<Rightarrow> handleHello run f s
              | LOpen \<Rightarrow> handleOpen run f s
              | LData \<Rightarrow> handleData run f s
              | LClose \<Rightarrow> handleClose run f s
              | LPing \<Rightarrow> handlePing run f s
              | LPong \<Rightarrow> Some (handlePong f s)
              | LPush \<Rightarrow> handlePush run f s
              | LPushSealed \<Rightarrow> handlePushSealed run s
              | LPushResult \<Rightarrow> handlePushResult run f s
              | LGoAway \<Rightarrow> Some (handleGoAway f s)
              | LCredit \<Rightarrow> handleCredit run f s)"

definition pumpFrames :: "runner \<Rightarrow> link_client \<Rightarrow> link_client option" where
  "pumpFrames run s =
     (case link_popFrame (parser s) of
        None \<Rightarrow> Some s
      | Some (f, p) \<Rightarrow>
          if lfailed (parser s) \<or> linkReadPaused s then Some s
          else do {
            s \<leftarrow> dispatchFrame run f (s\<lparr>parser := p\<rparr>);
            run PumpFrames s
          })"

definition handleLinkRead :: "runner \<Rightarrow> bytes \<Rightarrow> link_client \<Rightarrow> link_client option" where
  "handleLinkRead run data s =
     (let s = s\<lparr>parser := link_feed (parser s) data\<rparr>
      in if lfailed (parser s) then refuseLink run (lerror (parser s)) s else pumpFrames run s)"

section \<open>Timers\<close>

definition take_random :: "link_client \<Rightarrow> u64 \<times> link_client" where
  "take_random s = (case randomAnswers s of [] \<Rightarrow> (0, s) | r # rs \<Rightarrow> (r, s\<lparr>randomAnswers := rs\<rparr>))"

definition keepaliveTick :: "runner \<Rightarrow> link_client \<Rightarrow> link_client option" where
  "keepaliveTick run s =
     (let now = clock s
      in if awaitingPong s \<and> now - lastPingAt s > keepalivePongTimeout (options s) then closeLink run s
         else let active = streams s \<noteq> [];
                  s = s\<lparr>activeKeepalive := active\<rparr>;
                  interval = (if active then keepaliveActive (options s) else keepaliveIdle (options s))
           in if now - lastPingAt s < interval then Some s
              else let (nonce, s) = take_random s
                in sendFrameToNode run (encodePing nonce) (s\<lparr>pingNonce := nonce, awaitingPong := True, lastPingAt := now\<rparr>))"

fun close_all :: "runner \<Rightarrow> u32 list \<Rightarrow> link_close \<Rightarrow> link_client \<Rightarrow> link_client option" where
  "close_all run [] why s = Some s"
| "close_all run (sid # ids) why s = do { s \<leftarrow> closeStream run sid why s; close_all run ids why s }"

fun sweep_draining :: "runner \<Rightarrow> (nat \<times> int) list \<Rightarrow> link_client \<Rightarrow> ((nat \<times> int) list \<times> link_client) option" where
  "sweep_draining run [] s = Some ([], s)"
| "sweep_draining run ((p, deadline) # rest) s =
     (if p_closed (peers s p) then sweep_draining run rest s
      else if clock s < deadline
      then do { (kept, s) \<leftarrow> sweep_draining run rest s; Some ((p, deadline) # kept, s) }
      else do { s \<leftarrow> p_close run p s; sweep_draining run rest s })"

definition sweep_link :: "runner \<Rightarrow> link_client \<Rightarrow> link_client option" where
  "sweep_link run s =
     (let now = clock s
      in if channel s \<noteq> None \<and> \<not> connected s \<and> now - attachedAt s > helloTimeout (options s) then closeLink run s
         else if channel s \<noteq> None \<and> connected s \<and> now - lastFrameAt s > deadLinkTimeout (options s) then closeLink run s
         else if channel s \<noteq> None \<and> connected s then keepaliveTick run s
         else Some s)"

definition sweep :: "runner \<Rightarrow> link_client \<Rightarrow> link_client option" where
  "sweep run s = do {
     let now = clock s;
     s \<leftarrow> sweep_link run s;
     let idle = map fst (filter (\<lambda>(sid, st). now - lastActivity st > streamIdleTimeout (limits (options s))) (streams s));
     s \<leftarrow> close_all run idle LIdleTimeout s;
     (kept, s) \<leftarrow> sweep_draining run (drainingPeers s) s;
     Some (s\<lparr>drainingPeers := kept\<rparr>)
   }"

section \<open>Callbacks and runs\<close>

fun flush_all :: "runner \<Rightarrow> u32 list \<Rightarrow> link_client \<Rightarrow> link_client option" where
  "flush_all run [] s = Some s"
| "flush_all run (sid # ids) s = do { s \<leftarrow> flushToHome run sid s; flush_all run ids s }"

definition onDrained :: "runner \<Rightarrow> link_client \<Rightarrow> link_client option" where
  "onDrained run s = do {
     s \<leftarrow> flush_all run (map fst (streams s)) s;
     resumeLinkRead run (resumeLocalReads s)
   }"

definition onConnected :: "runner \<Rightarrow> link_client \<Rightarrow> link_client option" where
  "onConnected run s =
     sendFrameToNode run (encodeHello (localCapabilities s))
       (s\<lparr>attachedAt := clock s, lastFrameAt := clock s, lastPingAt := clock s, helloReceived := False,
          parser := link_initial_parser\<rparr>)"

definition onPeerDrained :: "runner \<Rightarrow> u32 \<Rightarrow> nat \<Rightarrow> link_client \<Rightarrow> link_client option" where
  "onPeerDrained run sid p s =
     (if map_option local_peer (findStream sid s) = Some (Some p) then flushToLocal run sid s else Some s)"

definition onPeerClosed :: "runner \<Rightarrow> u32 \<Rightarrow> nat \<Rightarrow> link_client \<Rightarrow> link_client option" where
  "onPeerClosed run sid p s =
     (case findStream sid s of
        None \<Rightarrow> Some s
      | Some st \<Rightarrow>
          if local_peer st \<noteq> Some p then Some s
          else closeStream run sid (if localAttached st then LError else LBusy) s)"

fun exec_call :: "runner \<Rightarrow> link_call \<Rightarrow> link_client \<Rightarrow> link_client option" where
  "exec_call run ChannelConnected s = onConnected run s"
| "exec_call run (ChannelRead data) s = handleLinkRead run data s"
| "exec_call run ChannelEof s = closeLink run s"
| "exec_call run ChannelDrained s = onDrained run s"
| "exec_call run ChannelClosed s = closeLink run s"
| "exec_call run (PeerConnected sid) s = Some (stream_upd sid (\<lambda>st. st\<lparr>localAttached := True\<rparr>) s)"
| "exec_call run (PeerRead sid data) s = writeToStream run sid data s"
| "exec_call run (PeerEof sid) s = handleLocalEof run sid s"
| "exec_call run (PeerDrained sid p) s = onPeerDrained run sid p s"
| "exec_call run (PeerClosed sid p) s = onPeerClosed run sid p s"
| "exec_call run PumpFrames s = pumpFrames run s"
| "exec_call run (FlushToHome sid) s = flushToHome run sid s"
| "exec_call run (FlushToLocal sid) s = flushToLocal run sid s"
| "exec_call run TeardownStreams s = teardownStreams run s"

text \<open>A run with at most \<open>n\<close> calls inside each other, counting the rounds of the loops.\<close>

primrec run_link :: "nat \<Rightarrow> runner" where
  "run_link 0 = (\<lambda>c s. None)"
| "run_link (Suc n) = exec_call (run_link n)"

text \<open>What the poll loop hands to the client, each one a complete run.\<close>

datatype link_input =
  ChannelInput nat channel_input | PeerInput nat peer_input | SweepTimer | ReconnectTimer
| Resolved bool bool | StopClient | PostedClose | SealedPush push_sealed

text \<open>The first timer of a kind that is due, taken off the queue of the loop.\<close>

definition due_timer :: "link_task \<Rightarrow> link_client \<Rightarrow> link_client option" where
  "due_timer t s =
     (case find (\<lambda>(due, t'). t' = t \<and> due \<le> clock s) (timers s) of
        None \<Rightarrow> None
      | Some x \<Rightarrow> Some (s\<lparr>timers := remove1 x (timers s)\<rparr>))"

fun handle_input :: "runner \<Rightarrow> link_input \<Rightarrow> link_client \<Rightarrow> link_client option" where
  "handle_input run (ChannelInput i e) s = c_handleEvents run i e s"
| "handle_input run (PeerInput i e) s = p_handleEvents run i e s"
| "handle_input run SweepTimer s =
     (case due_timer SweepTask s of
        None \<Rightarrow> Some s
      | Some s \<Rightarrow> if stopped s then Some s else do { s \<leftarrow> sweep run s; Some (scheduleSweep s) })"
| "handle_input run ReconnectTimer s =
     (case due_timer ReconnectTask s of
        None \<Rightarrow> Some s
      | Some s \<Rightarrow> Some (if stopped s then s else connectHome (s\<lparr>reconnectPending := False\<rparr>)))"
| "handle_input run (Resolved found dialled) s =
     (if resolving s = 0 then Some s else Some (openChannel found dialled (s\<lparr>resolving := resolving s - 1\<rparr>)))"
| "handle_input run StopClient s =
     Some (if stopped s then s else s\<lparr>stopped := True, timers := timers s @ [(clock s, CloseTask)]\<rparr>)"
| "handle_input run PostedClose s =
     (case due_timer CloseTask s of None \<Rightarrow> Some s | Some s \<Rightarrow> closeLink run s)"
| "handle_input run (SealedPush e) s = map_option snd (sendSealedPush run e s)"

definition initial_client :: "link_options \<Rightarrow> nat \<Rightarrow> link_client" where
  "initial_client opts queueCapacity =
     \<lparr>options = opts, channel = None, chans = (\<lambda>_. c_connect (pinnedSubjectPublicKeyDer opts)), nextChan = 0, peers = (\<lambda>_. p_connect 0 NoCallbacks),
      nextPeer = 0, parser = link_initial_parser, streams = [], drainingPeers = [], globalPendingToHome = 0,
      globalPendingToLocal = 0, localCapabilities = opt_capabilities opts AND kKnown, negotiatedCredit = False,
      helloReceived = False, linkReadPaused = False, awaitingPong = False, reconnectWithoutBackoff = False,
      pingNonce = 0, attachedAt = 0, lastFrameAt = 0, lastPingAt = 0,
      pushQueue = \<lparr>queue = [], capacity = queueCapacity, received = 0, dropped = 0\<rparr>, stopped = False,
      connected = False, draining = False, activeKeepalive = False, streamCount = 0, pendingBytes = 0, attempts = 0,
      lastDelayMs = 0, remoteCapabilities = 0, reconnectPending = False, resolving = 0, timers = [], observed = [],
      clock = 0, sendAnswers = [], writeAnswers = [], dialAnswers = [], randomAnswers = [], jitter = (\<lambda>b. b)\<rparr>"

end
