(* ===== verification/Link_Safety.thy ===== *)
theory Link_Safety
  imports Link_Client
begin

text \<open>
  What every operation of the link client guarantees, whatever the callbacks it runs do, as long
  as they guarantee it too. \<open>link_ok\<close> holds whenever a call starts or ends; \<open>no_link\<close> holds
  between inputs, and says what a client without a channel looks like.
\<close>

section \<open>Invariants\<close>

definition buffer_ok :: "bool \<Rightarrow> bool \<Rightarrow> bytes \<Rightarrow> bool" where
  "buffer_ok shut notified buf \<longleftrightarrow>
     shut \<or> (length buf < kSendHardCap \<and> (notified \<or> length buf < kSendLimit))"

definition chan_ok :: "tls_channel \<Rightarrow> bool" where
  "chan_ok c \<longleftrightarrow>
     (c_ready c \<longrightarrow> c_peer c = Some (kAlpnWireName, c_pinnedKey c) \<and> c_pinnedKey c \<noteq> [])
     \<and> (c_wire c \<noteq> [] \<longrightarrow> c_ready c)
     \<and> c_staged c \<noteq> Some True
     \<and> buffer_ok (c_closed c) (c_congestedNotified c) (c_sendBuffer c)"

definition peer_ok :: "tcp_peer \<Rightarrow> bool" where
  "peer_ok p \<longleftrightarrow> buffer_ok (p_closed p) (p_congestedNotified p) (p_sendBuffer p)"

definition stream_ok :: "link_limits \<Rightarrow> u32 \<Rightarrow> link_stream \<Rightarrow> bool" where
  "stream_ok lim k st \<longleftrightarrow>
     stream_id st = k \<and> window_ok (sendWindow st) \<and> window_ok (receiveWindow st)
     \<and> length (pendingToLocal st) \<le> 2 * streamPendingCap lim"

definition streams_ok :: "link_client \<Rightarrow> bool" where
  "streams_ok s \<longleftrightarrow>
     distinct (map fst (streams s)) \<and> (\<forall>(k, st) \<in> set (streams s). stream_ok (limits (options s)) k st)
     \<and> streamCount s = length (streams s) \<and> length (streams s) \<le> maxStreams (limits (options s))"

definition chans_ok :: "link_client \<Rightarrow> bool" where
  "chans_ok s \<longleftrightarrow>
     (\<forall>i. chan_ok (chans s i) \<and> c_pinnedKey (chans s i) = pinnedSubjectPublicKeyDer (options s)
        \<and> (c_callbacks (chans s i) \<and> \<not> c_closed (chans s i) \<longrightarrow> channel s = Some i))"

definition armed :: "link_task \<Rightarrow> link_client \<Rightarrow> (int \<times> link_task) list" where
  "armed task s = filter (\<lambda>x. snd x = task) (timers s)"

definition timers_ok :: "link_client \<Rightarrow> bool" where
  "timers_ok s \<longleftrightarrow> stopped s \<or> length (armed ReconnectTask s) = of_bool (reconnectPending s)"

definition link_ok :: "link_client \<Rightarrow> bool" where
  "link_ok s \<longleftrightarrow> chans_ok s \<and> (\<forall>i. peer_ok (peers s i)) \<and> streams_ok s \<and> timers_ok s"

definition no_link :: "link_client \<Rightarrow> bool" where
  "no_link s \<longleftrightarrow>
     (channel s = None \<longrightarrow>
        streams s = [] \<and> \<not> connected s \<and> \<not> helloReceived s \<and> \<not> linkReadPaused s \<and> lframes (parser s) = []
        \<and> globalPendingToHome s = 0 \<and> globalPendingToLocal s = 0 \<and> pendingBytes s = 0
        \<and> (stopped s \<or> reconnectPending s \<or> resolving s > 0))"

definition keeps :: "link_client \<Rightarrow> link_client \<Rightarrow> bool" where
  "keeps s t \<longleftrightarrow>
     options t = options s \<and> stopped t = stopped s \<and> resolving t = resolving s \<and> armed SweepTask t = armed SweepTask s
     \<and> (channel t = channel s \<or> channel t = None) \<and> (reconnectPending s \<longrightarrow> reconnectPending t)
     \<and> (channel s = None \<and> lframes (parser s) = [] \<longrightarrow> lframes (parser t) = [])
     \<and> (link_ok s \<longrightarrow> link_ok t \<and> (no_link s \<longrightarrow> no_link t))"

lemma keeps_refl [simp]: "keeps s s"
  by (simp add: keeps_def)

lemma keeps_channel: "keeps s t \<Longrightarrow> channel s = None \<Longrightarrow> channel t = None"
  unfolding keeps_def by (elim conjE disjE) simp_all

lemma keeps_trans [trans]:
  assumes a: "keeps s t" and b: "keeps t u"
  shows "keeps s u"
  unfolding keeps_def
proof (intro conjI impI)
  show "options u = options s" "stopped u = stopped s" "resolving u = resolving s" "armed SweepTask u = armed SweepTask s"
    using a b by (simp_all add: keeps_def)
  show "channel u = channel s \<or> channel u = None"
    using a b keeps_channel [OF b] unfolding keeps_def by (elim conjE disjE) simp_all
  show "reconnectPending u" if "reconnectPending s" using a b that by (simp add: keeps_def)
  show "lframes (parser u) = []" if "channel s = None \<and> lframes (parser s) = []"
    using a b that keeps_channel [OF a] by (simp add: keeps_def)
  show "link_ok u" if "link_ok s" using a b that by (simp add: keeps_def)
  show "no_link u" if "link_ok s" "no_link s" using a b that by (simp add: keeps_def)
qed

text \<open>When a call may be made: the channel callbacks that use the channel need it to be there, and frames
  are only pumped without a channel when there are none.\<close>

fun call_ready :: "link_call \<Rightarrow> link_client \<Rightarrow> bool" where
  "call_ready ChannelConnected s = (channel s \<noteq> None)"
| "call_ready (ChannelRead data) s = (channel s \<noteq> None)"
| "call_ready ChannelDrained s = (channel s \<noteq> None)"
| "call_ready PumpFrames s = (channel s = None \<longrightarrow> lframes (parser s) = [])"
| "call_ready c s = True"

fun call_done :: "link_call \<Rightarrow> link_client \<Rightarrow> bool" where
  "call_done TeardownStreams t \<longleftrightarrow> streams t = [] \<and> globalPendingToHome t = 0 \<and> globalPendingToLocal t = 0 \<and> pendingBytes t = 0"
| "call_done c t = True"

definition good_run :: "runner \<Rightarrow> bool" where
  "good_run run \<longleftrightarrow>
     (\<forall>c s t. run c s = Some t \<longrightarrow> link_ok s \<longrightarrow> call_ready c s \<longrightarrow> keeps s t \<and> call_done c t)"

text \<open>The guarantee of a computation from a state.\<close>

definition guar :: "link_client \<Rightarrow> link_client option \<Rightarrow> bool" where
  "guar s m \<longleftrightarrow> (\<forall>t. m = Some t \<longrightarrow> link_ok s \<longrightarrow> keeps s t)"

lemma guar_None [simp]: "guar s None"
  by (simp add: guar_def)

lemma guar_Some: "keeps s t \<Longrightarrow> guar s (Some t)"
  by (simp add: guar_def)

lemma guar_same [simp]: "guar s (Some s)"
  by (simp add: guar_def)

lemma keeps_ok: "keeps s t \<Longrightarrow> link_ok s \<Longrightarrow> link_ok t"
  by (simp add: keeps_def)

lemma guar_after:
  assumes "keeps s t" "guar t m"
  shows "guar s m"
  unfolding guar_def
proof (intro allI impI)
  fix u assume "m = Some u" "link_ok s"
  then have "keeps t u" using assms keeps_ok unfolding guar_def by blast
  with assms(1) show "keeps s u" by (rule keeps_trans)
qed

lemma guar_bind:
  assumes "guar s m" "\<And>t. m = Some t \<Longrightarrow> link_ok t \<Longrightarrow> keeps s t \<Longrightarrow> guar t (f t)"
  shows "guar s (m \<bind> f)"
  unfolding guar_def
proof (intro allI impI)
  fix u assume u: "m \<bind> f = Some u" "link_ok s"
  then obtain t where t: "m = Some t" "f t = Some u" by (auto simp: bind_eq_Some_conv)
  then have st: "keeps s t" using assms(1) u(2) by (simp add: guar_def)
  then have "link_ok t" using u(2) by (rule keeps_ok)
  then have "keeps t u" using assms(2) [OF t(1) _ st] t(2) by (simp add: guar_def)
  with st show "keeps s u" by (rule keeps_trans)
qed

lemma guar_run: "good_run run \<Longrightarrow> (link_ok s \<Longrightarrow> call_ready c s) \<Longrightarrow> guar s (run c s)"
  by (auto simp: good_run_def guar_def)


section \<open>Pure updates\<close>

lemma chan_upd_simps [simp]:
  "chans (chan_upd i f s) i = f (chans s i)" "channel (chan_upd i f s) = channel s"
  "peers (chan_upd i f s) = peers s" "streams (chan_upd i f s) = streams s"
  by (simp_all add: chan_upd_def)

lemma peer_upd_simps [simp]:
  "peers (peer_upd i g s) i = g (peers s i)" "channel (peer_upd i g s) = channel s"
  "chans (peer_upd i g s) = chans s" "streams (peer_upd i g s) = streams s"
  by (simp_all add: peer_upd_def)

text \<open>An update that leaves alone everything the invariants speak of.\<close>

lemma keeps_chan:
  assumes "chan_ok (chans s i) \<Longrightarrow> chan_ok (f (chans s i))"
    "c_callbacks (f (chans s i)) \<Longrightarrow> \<not> c_closed (f (chans s i)) \<Longrightarrow> c_callbacks (chans s i) \<and> \<not> c_closed (chans s i)"
    "c_pinnedKey (f (chans s i)) = c_pinnedKey (chans s i)"
  shows "keeps s (chan_upd i f s)"
  using assms
  by (auto simp: keeps_def link_ok_def chans_ok_def streams_ok_def timers_ok_def armed_def no_link_def chan_upd_def)

lemma keeps_peer:
  assumes "peer_ok (peers s i) \<Longrightarrow> peer_ok (f (peers s i))"
  shows "keeps s (peer_upd i f s)"
  using assms
  by (auto simp: keeps_def link_ok_def chans_ok_def streams_ok_def timers_ok_def armed_def no_link_def peer_upd_def)

lemma stream_upd_fst: "map fst (streams (stream_upd sid f s)) = map fst (streams s)"
  by (auto simp: stream_upd_def)

lemma stream_upd_set:
  "(k, st) \<in> set (streams (stream_upd sid f s)) \<longleftrightarrow>
     (\<exists>st'. (k, st') \<in> set (streams s) \<and> st = (if k = sid then f st' else st'))"
  by (force simp: stream_upd_def)

lemma keeps_stream:
  assumes "\<And>st. stream_ok (limits (options s)) sid st \<Longrightarrow> stream_ok (limits (options s)) sid (f st)"
  shows "keeps s (stream_upd sid f s)"
proof -
  have len: "length (streams (stream_upd sid f s)) = length (streams s)"
    by (simp add: stream_upd_def)
  have opts: "options (stream_upd sid f s) = options s" "streamCount (stream_upd sid f s) = streamCount s"
    by (simp_all add: stream_upd_def)
  have "streams_ok (stream_upd sid f s)" if "streams_ok s"
    unfolding streams_ok_def stream_upd_fst len opts
  proof (intro conjI ballI)
    fix x assume x: "x \<in> set (streams (stream_upd sid f s))"
    obtain k u where k: "x = (k, u)" by (rule prod.exhaust)
    with x obtain st where "u = (if k = sid then f st else st)" "(k, st) \<in> set (streams s)"
      by (auto simp: stream_upd_set)
    then show "case x of (k, st) \<Rightarrow> stream_ok (limits (options s)) k st"
      using that assms k by (auto simp: streams_ok_def)
  qed (use that in \<open>simp_all add: streams_ok_def\<close>)
  then show ?thesis
    by (auto simp: keeps_def link_ok_def chans_ok_def timers_ok_def armed_def no_link_def stream_upd_def)
qed

lemma keeps_fields:
  assumes "options t = options s" "stopped t = stopped s" "resolving t = resolving s" "channel t = channel s"
    "chans t = chans s" "peers t = peers s" "streams t = streams s" "streamCount t = streamCount s"
    "reconnectPending t = reconnectPending s" "timers t = timers s"
    "channel s = None \<Longrightarrow> lframes (parser s) = [] \<Longrightarrow> lframes (parser t) = []"
    "no_link s \<Longrightarrow> no_link t"
  shows "keeps s t"
  using assms by (simp add: keeps_def link_ok_def chans_ok_def streams_ok_def timers_ok_def armed_def)

lemma keeps_erase: "keeps s (erase_stream sid s)"
  by (auto simp: keeps_def link_ok_def chans_ok_def streams_ok_def timers_ok_def armed_def no_link_def erase_stream_def
      distinct_map_filter Let_def intro: order_trans [OF length_filter_le])


text \<open>A state that is fine but for the size of the buffer of one channel: closing that channel is fine,
  and so is marking it congested while it stays below the hard cap.\<close>

definition grown :: "nat \<Rightarrow> link_client \<Rightarrow> link_client \<Rightarrow> bool" where
  "grown i s u \<longleftrightarrow> (\<exists>t b. keeps s t \<and> \<not> c_closed (chans t i) \<and> u = chan_upd i (\<lambda>c. c\<lparr>c_sendBuffer := b\<rparr>) t)"

text \<open>As for channels, a state that is fine but for the size of one buffer.\<close>

definition p_grown :: "nat \<Rightarrow> link_client \<Rightarrow> link_client \<Rightarrow> bool" where
  "p_grown i s u \<longleftrightarrow> (\<exists>t b. keeps s t \<and> u = peer_upd i (\<lambda>p. p\<lparr>p_sendBuffer := b\<rparr>) t)"

section \<open>The channel\<close>

locale link_callbacks =
  fixes run :: runner
  assumes run_good: "good_run run"
begin

lemma run_guar: "(link_ok s \<Longrightarrow> call_ready c s) \<Longrightarrow> guar s (run c s)"
  using run_good by (rule guar_run)

lemma open_channel: "link_ok s \<Longrightarrow> c_callbacks (chans s i) \<Longrightarrow> \<not> c_closed (chans s i) \<Longrightarrow> channel s = Some i"
  by (simp add: link_ok_def chans_ok_def)

lemma keeps_c_updateInterest: "keeps s (c_updateInterest i s)"
  unfolding c_updateInterest_def by (auto intro!: keeps_chan simp: chan_ok_def)

lemma keeps_c_setReadPaused: "keeps s (c_setReadPaused b i s)"
  unfolding c_setReadPaused_def
  by (auto intro!: keeps_trans [OF keeps_chan keeps_c_updateInterest] simp: chan_ok_def)

lemma keeps_c_closed: "keeps s (chan_upd i (\<lambda>c. c\<lparr>c_closed := True\<rparr>) s)"
  by (rule keeps_chan) (auto simp: chan_ok_def buffer_ok_def)

lemma guar_c_close: "guar s (c_close run i s)"
proof (cases "c_closed (chans s i)")
  case False
  let ?t = "chan_upd i (\<lambda>c. c\<lparr>c_closed := True\<rparr>) s"
  have "guar ?t (if c_callbacks (chans ?t i) then run ChannelClosed ?t else Some ?t)"
    by (simp add: run_guar)
  then show ?thesis
    using False guar_after [OF keeps_c_closed [of s i]] by (simp add: c_close_def Let_def)
qed (simp add: c_close_def)

lemma keeps_c_applyStaged: "keeps s (c_applyStaged i s)"
proof (cases "link_ok s")
  case True
  then have "c_staged (chans s i) \<noteq> Some True" by (simp add: link_ok_def chans_ok_def chan_ok_def)
  then show ?thesis
    by (auto simp: c_applyStaged_def chan_ok_def intro!: keeps_chan split: option.split)
next
  case False
  then show ?thesis
    by (auto simp: c_applyStaged_def keeps_def armed_def chan_upd_def split: option.split)
qed

lemma keeps_c_silence: "keeps s (c_setCallbacks False i s)"
  unfolding c_setCallbacks_def by (auto intro!: keeps_chan simp: chan_ok_def)

lemma guar_c_shutdown: "guar s (c_shutdown run i s)"
proof -
  let ?t = "chan_upd i (\<lambda>c. c\<lparr>c_sentShutdown := True\<rparr>) s"
  have "keeps s ?t" by (rule keeps_chan) (auto simp: chan_ok_def)
  then have "guar s (c_close run i ?t)" "guar s (Some ?t)"
    using guar_after guar_c_close guar_same by blast+
  then show ?thesis by (simp add: c_shutdown_def Let_def)
qed

text \<open>The store after the loop of \<open>flush\<close>: less to send, and bytes on the wire only from a channel that
  is ready.\<close>

lemma write_loop_length:
  "write_loop buf wire want answers = (bad, buf', wire', want', answers') \<Longrightarrow> length buf' \<le> length buf"
  by (induction buf wire want answers rule: write_loop.induct) (auto simp: Let_def split: if_splits)

lemma keeps_env: "keeps s (s\<lparr>writeAnswers := as\<rparr>)" "keeps s (s\<lparr>sendAnswers := bs\<rparr>)"
  by (auto simp: keeps_def link_ok_def chans_ok_def streams_ok_def timers_ok_def armed_def no_link_def)

lemma c_write_all_keeps:
  assumes "c_write_all i s = (bad, t)" "c_ready (chans s i)"
  shows "keeps s t"
proof -
  obtain bad' buf wire want answers where
    w: "write_loop (c_sendBuffer (chans s i)) (c_wire (chans s i)) (c_wantWrite (chans s i)) (writeAnswers s)
        = (bad', buf, wire, want, answers)"
    by (metis prod_cases5)
  let ?f = "\<lambda>c. c\<lparr>c_sendBuffer := buf, c_wire := wire, c_wantWrite := want\<rparr>"
  have t: "t = (chan_upd i ?f s)\<lparr>writeAnswers := answers\<rparr>"
    using assms(1) w by (simp add: c_write_all_def)
  have "chan_ok (?f (chans s i))" if "chan_ok (chans s i)"
    using that assms(2) write_loop_length [OF w]
    by (auto simp: chan_ok_def buffer_ok_def)
  then have "keeps s (chan_upd i ?f s)"
    by (rule keeps_chan) auto
  then show ?thesis unfolding t by (rule keeps_trans [OF _ keeps_env(1)])
qed

lemma keeps_not_notified:
  assumes "c_sendBuffer (chans s i) = []"
  shows "keeps s (chan_upd i (\<lambda>c. c\<lparr>c_congestedNotified := False\<rparr>) s)"
  by (rule keeps_chan) (use assms in \<open>auto simp: chan_ok_def buffer_ok_def kSendLimit_def\<close>)

lemma guar_c_notify_drained:
  assumes "\<not> c_closed (chans s i)"
  shows "guar s (c_notify_drained run i s)"
proof (cases "c_sendBuffer (chans s i) = [] \<and> c_congestedNotified (chans s i)")
  case True
  let ?t = "chan_upd i (\<lambda>c. c\<lparr>c_congestedNotified := False\<rparr>) s"
  have "\<not> c_closed (chans ?t i)" using assms by (simp add: chan_upd_def)
  then have "guar ?t (if c_callbacks (chans ?t i) then run ChannelDrained ?t else Some ?t)"
    using open_channel [of ?t i] by (auto intro!: run_guar)
  then show ?thesis
    using True guar_after [OF keeps_not_notified [of s i]] by (simp add: c_notify_drained_def Let_def)
qed (auto simp: c_notify_drained_def)

lemma c_write_all_open: "c_write_all i s = (bad, t) \<Longrightarrow> c_closed (chans t i) = c_closed (chans s i)"
  by (auto simp: c_write_all_def chan_upd_def Let_def split: prod.splits)

lemma guar_c_flush_rest:
  assumes "\<not> c_closed (chans s i)"
  shows "guar s (do { s \<leftarrow> c_notify_drained run i s; c_shutdown run i s })"
  by (rule guar_bind [OF guar_c_notify_drained [OF assms]]) (rule guar_c_shutdown)

lemma guar_c_flush: "guar s (c_flush run i s)"
proof (cases "c_closed (chans s i) \<or> \<not> c_ready (chans s i)")
  case False
  obtain bad t where w: "c_write_all i s = (bad, t)" by (rule prod.exhaust)
  have k: "keeps s t" using c_write_all_keeps [OF w] False by simp
  have "guar t (if bad then c_close run i t else do { s \<leftarrow> c_notify_drained run i t; c_shutdown run i s })"
    using guar_c_close guar_c_flush_rest c_write_all_open [OF w] False by simp
  from guar_after [OF k this] show ?thesis using False w by (simp add: c_flush_def)
qed (auto simp: c_flush_def)

lemma chan_upd_twice: "chan_upd i f (chan_upd i g s) = chan_upd i (\<lambda>c. f (g c)) s"
  by (simp add: chan_upd_def)

lemma guar_grown_close:
  assumes "grown i s u"
  shows "guar s (c_close run i u)"
proof -
  obtain t b where t: "keeps s t" "\<not> c_closed (chans t i)" "u = chan_upd i (\<lambda>c. c\<lparr>c_sendBuffer := b\<rparr>) t"
    using assms by (auto simp: grown_def)
  let ?v = "chan_upd i (\<lambda>c. c\<lparr>c_closed := True\<rparr>) u"
  have "keeps t ?v"
    unfolding t(3) chan_upd_twice by (rule keeps_chan) (auto simp: chan_ok_def buffer_ok_def)
  with t(1) have k: "keeps s ?v" by (rule keeps_trans)
  have "guar ?v (if c_callbacks (chans ?v i) then run ChannelClosed ?v else Some ?v)"
    by (simp add: run_guar)
  from guar_after [OF k this] show ?thesis
    using t(2) unfolding t(3) by (simp add: c_close_def Let_def split: if_splits)
qed

lemma guar_grown_mark:
  assumes "grown i s u"
  shows "guar s (c_mark_congested run i u)"
proof -
  obtain t b where t: "keeps s t" "\<not> c_closed (chans t i)" "u = chan_upd i (\<lambda>c. c\<lparr>c_sendBuffer := b\<rparr>) t"
    using assms by (auto simp: grown_def)
  have b: "c_sendBuffer (chans u i) = b" "\<not> c_closed (chans u i)" using t by (auto simp: chan_upd_def)
  let ?v = "if length b \<ge> kSendLimit \<and> \<not> c_congestedNotified (chans u i)
    then chan_upd i (\<lambda>c. c\<lparr>c_congestedNotified := True\<rparr>) u else u"
  have "keeps t ?v" if "\<not> length b \<ge> kSendHardCap"
    using that t(2) unfolding t(3)
    by (auto simp: chan_upd_twice intro!: keeps_chan) (auto simp: chan_ok_def buffer_ok_def)
  then have "guar s (Some (c_updateInterest i ?v))" if "\<not> length b \<ge> kSendHardCap"
    using that keeps_trans [OF t(1)] keeps_trans keeps_c_updateInterest guar_Some by metis
  then show ?thesis
    using guar_grown_close [OF assms] b by (simp add: c_mark_congested_def Let_def)
qed

lemma guar_c_mark: "guar s (c_mark_congested run i s)"
proof (cases "c_closed (chans s i)")
  case False
  have "grown i s s"
    unfolding grown_def using False by (intro exI [of _ s] exI [of _ "c_sendBuffer (chans s i)"]) (simp add: chan_upd_def)
  then show ?thesis by (rule guar_grown_mark)
qed (simp add: c_mark_congested_def)

lemma guar_c_send: "guar s (c_send run i data s)"
proof (cases "c_closed (chans s i)")
  case open_: False
  let ?u = "chan_upd i (\<lambda>c. c\<lparr>c_sendBuffer := c_sendBuffer c @ data\<rparr>) s"
  have u: "?u = chan_upd i (\<lambda>c. c\<lparr>c_sendBuffer := c_sendBuffer (chans s i) @ data\<rparr>) s"
    by (simp add: chan_upd_def)
  then have g: "grown i s ?u"
    unfolding grown_def using open_ keeps_refl by blast
  show ?thesis
  proof (cases "c_ready (chans s i)")
    case False
    then show ?thesis using open_ guar_grown_mark [OF g] by (simp add: c_send_def Let_def)
  next
    case ready: True
    obtain bad buf wire want answers where
      w: "write_loop (c_sendBuffer (chans s i) @ data) (c_wire (chans s i)) (c_wantWrite (chans s i)) (writeAnswers s)
          = (bad, buf, wire, want, answers)"
      by (metis prod_cases5)
    let ?t = "(chan_upd i (\<lambda>c. c\<lparr>c_wire := wire, c_wantWrite := want\<rparr>) s)\<lparr>writeAnswers := answers\<rparr>"
    let ?v = "chan_upd i (\<lambda>c. c\<lparr>c_sendBuffer := buf\<rparr>) ?t"
    have wr: "c_write_all i ?u = (bad, ?v)"
      using w by (auto simp: c_write_all_def chan_upd_def Let_def intro!: link_client.equality tls_channel.equality ext)
    have "keeps s (chan_upd i (\<lambda>c. c\<lparr>c_wire := wire, c_wantWrite := want\<rparr>) s)"
      by (rule keeps_chan) (use ready in \<open>auto simp: chan_ok_def\<close>)
    then have kt: "keeps s ?t" by (rule keeps_trans [OF _ keeps_env(1)])
    have ot: "\<not> c_closed (chans ?t i)" using open_ by (simp add: chan_upd_def)
    have gv: "grown i s ?v" unfolding grown_def using kt ot by blast
    have fl: "c_flush run i ?u = (if bad then c_close run i ?v
        else do { s \<leftarrow> c_notify_drained run i ?v; c_shutdown run i s })"
      using open_ ready wr by (simp add: c_flush_def)
    have "guar s (c_flush run i ?u \<bind> c_mark_congested run i)"
    proof (cases "bad \<or> buf = []")
      case True
      have "guar s (c_flush run i ?u)"
      proof (cases bad)
        case True
        then show ?thesis using fl guar_grown_close [OF gv] by simp
      next
        case False
        with True have "buf = []" by simp
        then have "keeps ?t ?v"
          by (intro keeps_chan) (auto simp: chan_ok_def buffer_ok_def kSendLimit_def kSendHardCap_def)
        from keeps_trans [OF kt this] have "guar s (do { s \<leftarrow> c_notify_drained run i ?v; c_shutdown run i s })"
          using guar_c_flush_rest ot by (intro guar_after [of s ?v]) simp_all
        then show ?thesis using False fl by simp
      qed
      then show ?thesis by (rule guar_bind) (rule guar_c_mark)
    next
      case False
      then have "c_flush run i ?u = Some ?v"
        using fl by (simp add: c_notify_drained_def c_shutdown_def Let_def)
      then show ?thesis using guar_grown_mark [OF gv] by simp
    qed
    then show ?thesis using open_ ready by (simp add: c_send_def Let_def)
  qed
qed (simp add: c_send_def)

lemma guar_sendFrameToNode: "guar s (sendFrameToNode run frame s)"
  by (auto simp: sendFrameToNode_def guar_c_send split: option.split)

lemma guar_c_closeWhenFlushed: "guar s (c_closeWhenFlushed_op run i s)"
proof (cases "c_closed (chans s i) \<or> c_closeWhenFlushed (chans s i)")
  case False
  let ?t = "chan_upd i (\<lambda>c. c\<lparr>c_closeWhenFlushed := True, c_readPaused := False\<rparr>) s"
  have "keeps s ?t" by (rule keeps_chan) (auto simp: chan_ok_def)
  moreover have "guar ?t (c_flush run i ?t \<bind> (\<lambda>s. Some (c_updateInterest i s)))"
    by (rule guar_bind [OF guar_c_flush]) (rule guar_Some [OF keeps_c_updateInterest])
  ultimately show ?thesis using False guar_after by (simp add: c_closeWhenFlushed_op_def)
qed (auto simp: c_closeWhenFlushed_op_def)

lemma guar_verifyPeer:
  assumes "\<not> c_closed (chans s i)"
  shows "guar s (verifyPeer run i negotiated certificate s)"
proof (cases "negotiated = kAlpnWireName \<and> certificate = Some (c_pinnedKey (chans s i)) \<and> c_pinnedKey (chans s i) \<noteq> []")
  case True
  let ?t = "chan_upd i (\<lambda>c. c\<lparr>c_ready := True, c_peer := Some (negotiated, c_pinnedKey (chans s i))\<rparr>) s"
  let ?u = "c_updateInterest i ?t"
  have k: "keeps s ?u"
    by (rule keeps_trans [OF keeps_chan keeps_c_updateInterest]) (use True in \<open>auto simp: chan_ok_def\<close>)
  have "\<not> c_closed (chans ?u i)" using assms by (simp add: c_updateInterest_def)
  then have "guar ?u (if c_callbacks (chans ?u i) then run ChannelConnected ?u else Some ?u)"
    using open_channel [of ?u i] by (auto intro!: run_guar)
  from guar_after [OF k this] show ?thesis using True by (auto simp: verifyPeer_def Let_def split: if_splits)
qed (auto simp: verifyPeer_def guar_c_close split: option.split)

lemma keeps_wantWrite: "keeps s (chan_upd i (\<lambda>c. c\<lparr>c_wantWrite := b\<rparr>) s)"
  by (rule keeps_chan) (auto simp: chan_ok_def)

lemma guar_stepHandshake:
  assumes "\<not> c_closed (chans s i)"
  shows "guar s (stepHandshake run i answer s)"
  using assms by (cases answer) (auto intro: guar_Some keeps_wantWrite guar_c_close guar_verifyPeer)

lemma guar_completeConnection:
  assumes "\<not> c_closed (chans s i)"
  shows "guar s (completeConnection run i err answer s)"
proof (cases err)
  case False
  let ?t = "chan_upd i (\<lambda>c. c\<lparr>c_connecting := False\<rparr>) s"
  have k: "keeps s ?t" by (rule keeps_chan) (auto simp: chan_ok_def)
  have "guar ?t (do { s \<leftarrow> stepHandshake run i answer ?t;
      Some (if \<not> c_closed (chans s i) \<and> \<not> c_ready (chans s i) then c_updateInterest i s else s) })"
    by (rule guar_bind [OF guar_stepHandshake]) (use assms in \<open>auto intro: guar_Some keeps_c_updateInterest\<close>)
  from guar_after [OF k this] show ?thesis using False by (simp add: completeConnection_def)
qed (simp add: completeConnection_def guar_c_close)

lemma keeps_interest_want: "keeps s (c_updateInterest i (chan_upd i (\<lambda>c. c\<lparr>c_wantWrite := b\<rparr>) s))"
  by (rule keeps_trans [OF keeps_wantWrite keeps_c_updateInterest])

lemma guar_c_read_loop:
  "\<not> c_closed (chans s i) \<Longrightarrow> guar s (c_read_loop run i answers s)"
proof (induction answers arbitrary: s)
  case Nil
  then show ?case by (simp add: guar_Some keeps_interest_want)
next
  case (Cons a answers)
  show ?case
  proof (cases a)
    case (ReadBytes data)
    have "guar s (if c_callbacks (chans s i) \<and> \<not> c_closeWhenFlushed (chans s i)
        then run (ChannelRead (take tls_kReadChunk data)) s else Some s)"
      using open_channel [of s i] Cons.prems by (auto intro!: run_guar)
    then have "guar s (do { s \<leftarrow> (if c_callbacks (chans s i) \<and> \<not> c_closeWhenFlushed (chans s i)
        then run (ChannelRead (take tls_kReadChunk data)) s else Some s);
        (if c_closed (chans s i) \<or> c_readPaused (chans s i) then Some s else c_read_loop run i answers s) })"
      by (rule guar_bind) (auto intro: Cons.IH)
    then show ?thesis using ReadBytes by (simp add: guar_c_close)
  next
    case ReadClosed
    let ?t = "chan_upd i (\<lambda>c. c\<lparr>c_eofSeen := True\<rparr>) s"
    have k: "keeps s ?t" by (rule keeps_chan) (auto simp: chan_ok_def)
    have "guar ?t (if c_callbacks (chans ?t i) then run ChannelEof ?t else Some ?t)"
      by (simp add: run_guar)
    then have "guar ?t (do { s \<leftarrow> (if c_callbacks (chans ?t i) then run ChannelEof ?t else Some ?t);
        (if c_sentShutdown (chans s i) \<and> \<not> c_closed (chans s i) then c_close run i s else Some s) })"
      by (rule guar_bind) (simp add: guar_c_close)
    from guar_after [OF k this] show ?thesis using ReadClosed by (simp add: Let_def)
  qed (simp_all add: guar_c_close guar_Some keeps_interest_want)
qed

lemma guar_c_readAvailable: "guar s (c_readAvailable run i answers s)"
  by (simp add: c_readAvailable_def Let_def guar_c_read_loop)

lemma guar_c_dispatch_ready: "guar s (c_dispatch_ready run i e s)"
  unfolding c_dispatch_ready_def Let_def
  by (rule guar_bind) (auto simp: guar_c_readAvailable guar_c_flush guar_c_close
      intro!: guar_bind guar_Some keeps_c_updateInterest)

lemma guar_c_dispatch: "guar s (c_dispatch run i e s)"
proof (cases "c_closed (chans s i)")
  case False
  then have "guar s (do { s \<leftarrow> (if \<not> c_ready (chans s i) then stepHandshake run i (in_handshake e) s else Some s);
      (if c_closed (chans s i) then Some s else if c_ready (chans s i) then c_dispatch_ready run i e s
       else Some (c_updateInterest i s)) })"
    by (intro guar_bind) (auto simp: guar_stepHandshake guar_c_dispatch_ready intro: guar_Some keeps_c_updateInterest)
  then show ?thesis
    using False guar_completeConnection guar_c_close by (simp add: c_dispatch_def Let_def)
qed (simp add: c_dispatch_def)

lemma keeps_c_depth: "keeps s (chan_upd i (\<lambda>c. c\<lparr>c_dispatchDepth := f c\<rparr>) s)"
  by (rule keeps_chan) (auto simp: chan_ok_def)

lemma guar_c_handleEvents: "guar s (c_handleEvents run i e s)"
  unfolding c_handleEvents_def
  by (rule guar_after [OF keeps_c_depth], rule guar_bind [OF guar_c_dispatch])
     (rule guar_Some, rule keeps_trans [OF keeps_c_depth keeps_c_applyStaged])

section \<open>Peers\<close>

lemma keeps_p_updateInterest: "keeps s (p_updateInterest i s)"
  unfolding p_updateInterest_def by (auto intro!: keeps_peer simp: peer_ok_def)

lemma keeps_p_setReadPaused: "keeps s (p_setReadPaused b i s)"
  unfolding p_setReadPaused_def
  by (auto intro!: keeps_trans [OF keeps_peer keeps_p_updateInterest] simp: peer_ok_def)

lemma guar_peer_call: "(\<And>sid. call_ready (call sid) s) \<Longrightarrow> guar s (peer_call run i call s)"
  by (auto simp: peer_call_def split: peer_callbacks.split intro: run_guar)

lemma keeps_p_closed: "keeps s (peer_upd i (\<lambda>p. p\<lparr>p_closed := True\<rparr>) s)"
  by (rule keeps_peer) (simp add: peer_ok_def buffer_ok_def)

lemma guar_p_closing: "guar s (peer_call run i (\<lambda>sid. PeerClosed sid i) (peer_upd i (\<lambda>p. p\<lparr>p_closed := True\<rparr>) s))"
  by (rule guar_after [OF keeps_p_closed guar_peer_call]) simp

lemma guar_p_close: "guar s (p_close run i s)"
  by (simp add: p_close_def guar_p_closing)

lemma keeps_p_setCallbacks: "keeps s (p_setCallbacks cb i s)"
  unfolding p_setCallbacks_def by (auto intro!: keeps_peer simp: peer_ok_def)

lemma keeps_p_applyStaged: "keeps s (p_applyStaged i s)"
  unfolding p_applyStaged_def by (auto intro!: keeps_peer simp: peer_ok_def split: option.split)

lemma guar_p_notify_drained: "guar s (p_notify_drained run i s)"
proof (cases "p_sendBuffer (peers s i) = [] \<and> p_congestedNotified (peers s i)")
  case True
  have "keeps s (peer_upd i (\<lambda>p. p\<lparr>p_congestedNotified := False\<rparr>) s)"
    by (rule keeps_peer) (use True in \<open>auto simp: peer_ok_def buffer_ok_def kSendLimit_def\<close>)
  from guar_after [OF this guar_peer_call] True show ?thesis by (simp add: p_notify_drained_def)
qed (auto simp: p_notify_drained_def)

lemma guar_p_shutdown: "guar s (p_shutdown run i s)"
  unfolding p_shutdown_def Let_def
  by (auto simp: guar_p_close peer_ok_def intro!: guar_Some keeps_peer)

lemma guar_p_flush_rest: "guar s (do { s \<leftarrow> p_notify_drained run i s; p_shutdown run i s })"
  by (rule guar_bind [OF guar_p_notify_drained]) (rule guar_p_shutdown)

lemma send_loop_length:
  "send_loop buf sent answers = (bad, buf', sent', answers') \<Longrightarrow> length buf' \<le> length buf"
  by (induction buf sent answers rule: send_loop.induct) (auto simp: Let_def split: if_splits)

lemma p_write_all_keeps:
  assumes "p_write_all i s = (bad, t)"
  shows "keeps s t"
proof -
  obtain bad' buf sent answers where
    w: "send_loop (p_sendBuffer (peers s i)) (p_sent (peers s i)) (sendAnswers s) = (bad', buf, sent, answers)"
    by (metis prod_cases4)
  have "keeps s (peer_upd i (\<lambda>p. p\<lparr>p_sendBuffer := buf, p_sent := sent\<rparr>) s)"
    by (rule keeps_peer) (use send_loop_length [OF w] in \<open>auto simp: peer_ok_def buffer_ok_def\<close>)
  from keeps_trans [OF this keeps_env(2)] show ?thesis
    using assms w by (auto simp: p_write_all_def)
qed

lemma guar_p_flush: "guar s (p_flush run i s)"
proof (cases "p_closed (peers s i) \<or> p_connecting (peers s i)")
  case False
  obtain bad t where w: "p_write_all i s = (bad, t)" by (rule prod.exhaust)
  have "guar t (if bad then p_close run i t else do { s \<leftarrow> p_notify_drained run i t; p_shutdown run i s })"
    using guar_p_close guar_p_flush_rest by simp
  from guar_after [OF p_write_all_keeps [OF w] this] show ?thesis using False w by (simp add: p_flush_def)
qed (auto simp: p_flush_def)

lemma peer_upd_twice: "peer_upd i f (peer_upd i g s) = peer_upd i (\<lambda>p. f (g p)) s"
  by (simp add: peer_upd_def)

lemma guar_p_grown_close:
  assumes "p_grown i s u"
  shows "guar s (p_close run i u)"
proof -
  obtain t b where t: "keeps s t" "u = peer_upd i (\<lambda>p. p\<lparr>p_sendBuffer := b\<rparr>) t"
    using assms by (auto simp: p_grown_def)
  show ?thesis
  proof (cases "p_closed (peers u i)")
    case True
    then have "keeps t u" unfolding t(2) by (intro keeps_peer) (auto simp: peer_ok_def buffer_ok_def)
    then show ?thesis using True keeps_trans [OF t(1)] by (simp add: p_close_def guar_Some)
  next
    case False
    have "keeps t (peer_upd i (\<lambda>p. p\<lparr>p_closed := True\<rparr>) u)"
      unfolding t(2) peer_upd_twice by (rule keeps_peer) (auto simp: peer_ok_def buffer_ok_def)
    from guar_after [OF keeps_trans [OF t(1) this] guar_peer_call] False show ?thesis
      by (simp add: p_close_def)
  qed
qed

lemma guar_p_grown_mark:
  assumes "p_grown i s u"
  shows "guar s (p_mark_congested run i u)"
proof -
  obtain t b where t: "keeps s t" "u = peer_upd i (\<lambda>p. p\<lparr>p_sendBuffer := b\<rparr>) t"
    using assms by (auto simp: p_grown_def)
  have b: "p_sendBuffer (peers u i) = b" using t by simp
  let ?v = "if length b \<ge> kSendLimit \<and> \<not> p_congestedNotified (peers u i)
    then peer_upd i (\<lambda>p. p\<lparr>p_congestedNotified := True\<rparr>) u else u"
  have "keeps t ?v" if "\<not> length b \<ge> kSendHardCap"
    using that unfolding t(2)
    by (auto simp: peer_upd_twice intro!: keeps_peer) (auto simp: peer_ok_def buffer_ok_def)
  then have "guar s (Some (p_updateInterest i ?v))" if "\<not> length b \<ge> kSendHardCap"
    using that keeps_trans [OF t(1)] keeps_trans keeps_p_updateInterest guar_Some by metis
  then show ?thesis
    using guar_p_grown_close [OF assms] b by (simp add: p_mark_congested_def Let_def)
qed

lemma p_grown_self: "p_grown i s s"
  unfolding p_grown_def by (intro exI [of _ s] exI [of _ "p_sendBuffer (peers s i)"]) (simp add: peer_upd_def)

lemma guar_p_send: "guar s (p_send run i data s)"
proof (cases "p_closed (peers s i)")
  case open_: False
  let ?u = "peer_upd i (\<lambda>p. p\<lparr>p_sendBuffer := p_sendBuffer p @ data\<rparr>) s"
  have "?u = peer_upd i (\<lambda>p. p\<lparr>p_sendBuffer := p_sendBuffer (peers s i) @ data\<rparr>) s"
    by (simp add: peer_upd_def)
  then have g: "p_grown i s ?u" unfolding p_grown_def using keeps_refl by blast
  have "guar s (p_flush run i ?u \<bind> p_mark_congested run i)"
  proof (cases "p_connecting (peers s i)")
    case True
    then show ?thesis using guar_p_grown_mark [OF g] by (simp add: p_flush_def)
  next
    case False
    obtain bad buf sent answers where
      w: "send_loop (p_sendBuffer (peers s i) @ data) (p_sent (peers s i)) (sendAnswers s) = (bad, buf, sent, answers)"
      by (metis prod_cases4)
    let ?t = "(peer_upd i (\<lambda>p. p\<lparr>p_sent := sent\<rparr>) s)\<lparr>sendAnswers := answers\<rparr>"
    let ?v = "peer_upd i (\<lambda>p. p\<lparr>p_sendBuffer := buf\<rparr>) ?t"
    have wr: "p_write_all i ?u = (bad, ?v)"
      using w by (auto simp: p_write_all_def peer_upd_def Let_def intro!: link_client.equality tcp_peer.equality ext)
    have "keeps s (peer_upd i (\<lambda>p. p\<lparr>p_sent := sent\<rparr>) s)" by (rule keeps_peer) (simp add: peer_ok_def)
    then have kt: "keeps s ?t" by (rule keeps_trans [OF _ keeps_env(2)])
    then have gv: "p_grown i s ?v" unfolding p_grown_def by blast
    have fl: "p_flush run i ?u = (if bad then p_close run i ?v
        else do { s \<leftarrow> p_notify_drained run i ?v; p_shutdown run i s })"
      using open_ False wr by (simp add: p_flush_def)
    show ?thesis
    proof (cases "bad \<or> buf = []")
      case True
      have "keeps ?t ?v" if "buf = []"
        using that by (intro keeps_peer) (auto simp: peer_ok_def buffer_ok_def kSendLimit_def kSendHardCap_def)
      then have "guar s (p_flush run i ?u)"
        using fl True guar_p_grown_close [OF gv] guar_after [OF keeps_trans [OF kt] guar_p_flush_rest] by auto
      then show ?thesis by (rule guar_bind) (rule guar_p_grown_mark [OF p_grown_self])
    next
      case False
      then have "p_flush run i ?u = Some ?v" using fl by (simp add: p_notify_drained_def p_shutdown_def Let_def)
      then show ?thesis using guar_p_grown_mark [OF gv] by simp
    qed
  qed
  then show ?thesis using open_ by (simp add: p_send_def)
qed (simp add: p_send_def)

lemma guar_p_closeWhenFlushed: "guar s (p_closeWhenFlushed_op run i s)"
proof (cases "p_closed (peers s i) \<or> p_closeWhenFlushed (peers s i)")
  case False
  let ?t = "peer_upd i (\<lambda>p. p\<lparr>p_closeWhenFlushed := True, p_readPaused := False\<rparr>) s"
  have "keeps s ?t" by (rule keeps_peer) (auto simp: peer_ok_def)
  moreover have "guar ?t (p_flush run i ?t \<bind> (\<lambda>s. Some (p_updateInterest i s)))"
    by (rule guar_bind [OF guar_p_flush]) (rule guar_Some [OF keeps_p_updateInterest])
  ultimately show ?thesis using False guar_after by (simp add: p_closeWhenFlushed_op_def)
qed (auto simp: p_closeWhenFlushed_op_def)

lemma guar_p_read_loop: "guar s (p_read_loop run i answers s)"
proof (induction answers arbitrary: s)
  case (Cons a answers)
  show ?case
  proof (cases a)
    case (Received data)
    have "guar s (if \<not> p_closeWhenFlushed (peers s i)
        then peer_call run i (\<lambda>sid. PeerRead sid (take kReadChunk data)) s else Some s)"
      by (simp add: guar_peer_call)
    then have "guar s (do { s \<leftarrow> (if \<not> p_closeWhenFlushed (peers s i)
        then peer_call run i (\<lambda>sid. PeerRead sid (take kReadChunk data)) s else Some s);
        (if p_closed (peers s i) \<or> p_readPaused (peers s i) then Some s else p_read_loop run i answers s) })"
      by (rule guar_bind) (simp add: Cons.IH)
    then show ?thesis using Received by simp
  next
    case RecvEof
    let ?t = "peer_upd i (\<lambda>p. p\<lparr>p_eofSeen := True\<rparr>) s"
    have k: "keeps s ?t" by (rule keeps_peer) (simp add: peer_ok_def)
    have "guar ?t (do { s \<leftarrow> peer_call run i PeerEof ?t;
        (if p_writeShut (peers s i) \<and> \<not> p_closed (peers s i) then p_close run i s else Some s) })"
      by (rule guar_bind [OF guar_peer_call]) (simp_all add: guar_p_close)
    from guar_after [OF k this] show ?thesis using RecvEof by simp
  qed (simp_all add: guar_p_close Cons.IH)
qed simp

lemma guar_p_connection_complete: "guar s (p_connection_complete run i err s)"
proof (cases err)
  case False
  let ?t = "p_updateInterest i (peer_upd i (\<lambda>p. p\<lparr>p_connecting := False, p_connected := True\<rparr>) s)"
  have k: "keeps s ?t"
    by (rule keeps_trans [OF keeps_peer keeps_p_updateInterest]) (simp add: peer_ok_def)
  have "guar ?t (do { s \<leftarrow> peer_call run i PeerConnected ?t;
      (if p_closeWhenFlushed (peers s i) \<and> \<not> p_closed (peers s i) then p_flush run i s else Some s) })"
    by (rule guar_bind [OF guar_peer_call]) (simp_all add: guar_p_flush)
  from guar_after [OF k this] show ?thesis using False by (simp add: p_connection_complete_def)
qed (simp add: p_connection_complete_def guar_p_closing)

lemma guar_p_dispatch: "guar s (p_dispatch run i e s)"
proof -
  let ?ev = "pe_events e"
  have rest: "guar s (do { s \<leftarrow> (if ev_out ?ev \<or> ev_err ?ev then p_flush run i s else Some s);
      (if ev_err ?ev \<and> \<not> p_closed (peers s i) then p_close run i s else Some (p_updateInterest i s)) })" for s
    by (rule guar_bind) (simp_all add: guar_p_flush guar_p_close guar_Some keeps_p_updateInterest)
  have "guar s (do { s \<leftarrow> (if ev_in ?ev \<or> ev_hup ?ev \<or> ev_rdhup ?ev then p_readAvailable run i (pe_recvs e) s else Some s);
      (if p_closed (peers s i) then Some s
       else do { s \<leftarrow> (if ev_out ?ev \<or> ev_err ?ev then p_flush run i s else Some s);
         (if ev_err ?ev \<and> \<not> p_closed (peers s i) then p_close run i s else Some (p_updateInterest i s)) }) })"
    by (rule guar_bind) (simp_all add: p_readAvailable_def guar_p_read_loop rest)
  then show ?thesis by (simp add: p_dispatch_def Let_def guar_p_connection_complete)
qed

lemma keeps_p_depth: "keeps s (peer_upd i (\<lambda>p. p\<lparr>p_dispatchDepth := f p\<rparr>) s)"
  by (rule keeps_peer) (simp add: peer_ok_def)

lemma guar_p_handleEvents: "guar s (p_handleEvents run i e s)"
  unfolding p_handleEvents_def
  by (rule guar_after [OF keeps_p_depth], rule guar_bind [OF guar_p_dispatch])
     (rule guar_Some, rule keeps_trans [OF keeps_p_depth keeps_p_applyStaged])

end

end
