(* ===== verification/Link_Client_Safety.thy ===== *)
theory Link_Client_Safety
  imports Link_Safety
begin

text \<open>
  Every operation of the link client keeps the invariants of \<open>Link_Safety\<close>, so every run of the
  client does, and every state it can reach satisfies them.
\<close>

section \<open>Updates of the client\<close>

text \<open>While there is a stream there is a channel, so an update may change the counters.\<close>

lemma keeps_live:
  assumes "no_link s \<Longrightarrow> channel s \<noteq> None"
    "options t = options s" "stopped t = stopped s" "resolving t = resolving s" "channel t = channel s"
    "parser t = parser s" "reconnectPending t = reconnectPending s" "timers t = timers s" "link_ok s \<Longrightarrow> link_ok t"
  shows "keeps s t"
  using assms by (auto simp: keeps_def no_link_def armed_def)

lemma findStream_streams: "findStream sid s = Some st \<Longrightarrow> (sid, st) \<in> set (streams s)"
  by (simp add: findStream_def map_of_SomeD)

lemma stream_live: "(k, st) \<in> set (streams s) \<Longrightarrow> no_link s \<Longrightarrow> channel s \<noteq> None"
  by (auto simp: no_link_def)

lemma findStream_live: "findStream sid s = Some st \<Longrightarrow> no_link s \<Longrightarrow> channel s \<noteq> None"
  using findStream_streams stream_live by blast

lemma keeps_counters:
  assumes "no_link s \<Longrightarrow> channel s \<noteq> None"
  shows "keeps s (updatePending (s\<lparr>globalPendingToHome := a, globalPendingToLocal := b\<rparr>))"
    "keeps s (updatePending (s\<lparr>globalPendingToHome := a\<rparr>))"
    "keeps s (updatePending (s\<lparr>globalPendingToLocal := b\<rparr>))"
  using assms
  by (auto intro!: keeps_live simp: updatePending_def link_ok_def chans_ok_def streams_ok_def timers_ok_def armed_def)

lemma findStream_upd: "findStream sid (stream_upd sid f s) = map_option f (findStream sid s)"
proof -
  have "map_of (map (\<lambda>(k, st). (k, if k = sid then f st else st)) xs) sid = map_option f (map_of xs sid)"
    for xs :: "(u32 \<times> link_stream) list"
    by (induction xs) auto
  then show ?thesis by (simp add: findStream_def stream_upd_def)
qed

lemma stream_upd_simps [simp]:
  "channel (stream_upd sid f s) = channel s" "chans (stream_upd sid f s) = chans s"
  "peers (stream_upd sid f s) = peers s" "options (stream_upd sid f s) = options s"
  "globalPendingToHome (stream_upd sid f s) = globalPendingToHome s"
  "globalPendingToLocal (stream_upd sid f s) = globalPendingToLocal s"
  "linkReadPaused (stream_upd sid f s) = linkReadPaused s"
  by (simp_all add: stream_upd_def)

lemma keeps_scheduleReconnect: "keeps s (scheduleReconnect s)"
  by (auto simp: keeps_def link_ok_def chans_ok_def streams_ok_def timers_ok_def armed_def no_link_def scheduleReconnect_def
      armReconnect_def nextDelayMs_def Let_def)

context link_callbacks
begin

lemma keeps_pause_stream: "keeps s (pause_stream b sid s)"
  by (auto simp: pause_stream_def stream_ok_def
      intro!: keeps_trans [OF keeps_stream keeps_p_setReadPaused] split: option.split)

lemma keeps_foldl: "(\<And>s x. keeps s (f s x)) \<Longrightarrow> keeps s (foldl f s xs)"
proof (induction xs arbitrary: s)
  case (Cons x xs)
  then show ?case using keeps_trans by (metis foldl_Cons)
qed simp

lemma keeps_pauseAllLocalReads: "keeps s (pauseAllLocalReads s)"
  unfolding pauseAllLocalReads_def by (rule keeps_foldl) (auto simp: keeps_pause_stream)

lemma keeps_resumeLocalReads: "keeps s (resumeLocalReads s)"
  unfolding resumeLocalReads_def by (auto intro!: keeps_foldl simp: keeps_pause_stream)

lemma guar_resumeLinkRead: "guar s (resumeLinkRead run s)"
proof (cases "channel s")
  case (Some i)
  have "keeps s (s\<lparr>linkReadPaused := False\<rparr>)" by (rule keeps_fields) (auto simp: no_link_def)
  from keeps_trans [OF this keeps_c_setReadPaused [of _ False i]]
  have "guar s (run PumpFrames (c_setReadPaused False i (s\<lparr>linkReadPaused := False\<rparr>)))"
    by (rule guar_after, intro run_guar) (use Some in \<open>simp add: c_setReadPaused_def c_updateInterest_def\<close>)
  then show ?thesis using Some by (simp add: resumeLinkRead_def)
qed (simp add: resumeLinkRead_def)

lemma guar_releaseLocal: "guar s (releaseLocal run p pending why s)"
proof -
  let ?t = "p_setCallbacks NoCallbacks p s"
  have drain: "keeps s (s\<lparr>drainingPeers := ds\<rparr>)" for s ds
    by (rule keeps_fields) (auto simp: no_link_def)
  have "guar ?t (do { s \<leftarrow> (if pending \<noteq> [] then p_send run p pending ?t else Some ?t);
      s \<leftarrow> p_closeWhenFlushed_op run p s;
      Some (if \<not> p_closed (peers s p) then s\<lparr>drainingPeers := drainingPeers s @ [(p, clock s + kDrainGrace)]\<rparr> else s) })"
    by (intro guar_bind) (auto simp: guar_p_send guar_p_closeWhenFlushed intro: guar_Some drain)
  from guar_after [OF keeps_p_setCallbacks this] guar_after [OF keeps_p_setCallbacks guar_p_close, of s p]
  show ?thesis by (simp add: releaseLocal_def Let_def)
qed

lemma guar_closeLocal:
  assumes "(k, st0) \<in> set (streams s)"
  shows "guar s (closeLocal run st why s)"
proof -
  let ?t = "updatePending ((erase_stream (stream_id st) s)
    \<lparr>globalPendingToHome := globalPendingToHome (erase_stream (stream_id st) s) - of_nat (length (pendingToHome st)),
     globalPendingToLocal := globalPendingToLocal (erase_stream (stream_id st) s) - of_nat (length (pendingToLocal st))\<rparr>)"
  have "link_ok (erase_stream (stream_id st) s)" if "link_ok s"
    using keeps_erase that by (rule keeps_ok)
  then have k: "keeps s ?t"
    using stream_live [OF assms]
    by (intro keeps_live) (auto simp: updatePending_def erase_stream_def Let_def link_ok_def chans_ok_def streams_ok_def timers_ok_def armed_def)
  have "guar ?t (do {
      s \<leftarrow> (if helloReceived ?t \<and> \<not> closedByNode st then sendFrameToNode run (encodeClose (stream_id st) why) ?t else Some ?t);
      s \<leftarrow> (case local_peer st of None \<Rightarrow> Some s | Some p \<Rightarrow> releaseLocal run p (pendingToLocal st) why s);
      resumeLinkRead run s })"
    by (intro guar_bind) (auto simp: guar_sendFrameToNode guar_releaseLocal guar_resumeLinkRead split: option.split)
  from guar_after [OF k this] show ?thesis by (simp add: closeLocal_def Let_def)
qed

lemma guar_closeStream: "guar s (closeStream run sid why s)"
  by (auto simp: closeStream_def split: option.split dest: findStream_streams intro: guar_closeLocal)

lemma guar_grantStreamCredit: "guar s (grantStreamCredit run sid n s)"
proof (cases "findStream sid s")
  case (Some st)
  obtain w frame where w: "grantConsumedCredit (receiveWindow st) (stream_id st) (of_nat n) = (w, frame)"
    by (rule prod.exhaust)
  have "keeps s (stream_upd sid (\<lambda>st. st\<lparr>receiveWindow := w\<rparr>) s)"
  proof (cases "link_ok s")
    case True
    then have "window_ok (receiveWindow st)"
      using findStream_streams [OF Some] by (auto simp: link_ok_def streams_ok_def stream_ok_def)
    then have "window_ok w"
      using w window_ok_takePendingGrant [OF window_ok_markConsumed, of "receiveWindow st" "of_nat n"]
      by (auto simp: grantConsumedCredit_def split: prod.splits)
    then show ?thesis by (intro keeps_stream) (auto simp: stream_ok_def)
  next
    case False
    then show ?thesis by (auto simp: keeps_def stream_upd_def armed_def)
  qed
  from guar_after [OF this guar_sendFrameToNode] guar_Some [OF this] show ?thesis
    using Some w by (auto simp: grantStreamCredit_def Let_def split: option.split)
qed (simp add: grantStreamCredit_def)

section \<open>Flushing and data\<close>

lemma guar_flush_idle: "guar s (flush_idle run sid st s)"
proof -
  have "guar s (closeStream run sid LNormal s \<bind> (\<lambda>s. Some (resumeLocalReads s)))"
    by (rule guar_bind [OF guar_closeStream]) (rule guar_Some [OF keeps_resumeLocalReads])
  moreover have "guar s (Some (resumeLocalReads (pause_stream False sid s)))" "guar s (Some (resumeLocalReads s))"
    using keeps_trans [OF keeps_pause_stream keeps_resumeLocalReads] keeps_resumeLocalReads by (auto intro: guar_Some)
  ultimately show ?thesis by (simp add: flush_idle_def Let_def)
qed

lemma keeps_flushed:
  assumes "findStream sid s = Some st"
  shows "keeps s (updatePending ((stream_upd sid (\<lambda>st. st\<lparr>sendWindow := recordUsed (sendWindow st) n, pendingToHome := f st\<rparr>) s)
     \<lparr>globalPendingToHome := g\<rparr>))"
proof -
  let ?t = "stream_upd sid (\<lambda>st. st\<lparr>sendWindow := recordUsed (sendWindow st) n, pendingToHome := f st\<rparr>) s"
  have "keeps s ?t" by (rule keeps_stream) (auto simp: stream_ok_def window_ok_recordUsed)
  moreover have "findStream sid ?t \<noteq> None" using assms by (simp add: findStream_upd)
  then have "keeps ?t (updatePending (?t\<lparr>globalPendingToHome := g\<rparr>))"
    using findStream_live by (intro keeps_counters) blast
  ultimately show ?thesis by (rule keeps_trans)
qed

lemma guar_flushToHome: "guar s (flushToHome run sid s)"
proof -
  have sent: "guar t (case findStream sid t of None \<Rightarrow> Some t
      | Some _ \<Rightarrow> let s = stream_upd sid (\<lambda>st. st\<lparr>sendWindow := recordUsed (sendWindow st) (of_nat n),
                       pendingToHome := drop n (pendingToHome st)\<rparr>) t;
                     s = updatePending (s\<lparr>globalPendingToHome := globalPendingToHome s - of_nat n\<rparr>)
                 in run (FlushToHome sid) s)" for t n
  proof (cases "findStream sid t")
    case (Some st)
    have "guar u (run (FlushToHome sid) u)" for u by (simp add: run_guar)
    from guar_after [OF keeps_flushed [OF Some] this] show ?thesis using Some by (simp add: Let_def)
  qed simp
  have "guar s (sendFrameToNode run frame s \<bind> (\<lambda>t. case findStream sid t of None \<Rightarrow> Some t
      | Some _ \<Rightarrow> let s = stream_upd sid (\<lambda>st. st\<lparr>sendWindow := recordUsed (sendWindow st) (of_nat n),
                       pendingToHome := drop n (pendingToHome st)\<rparr>) t;
                     s = updatePending (s\<lparr>globalPendingToHome := globalPendingToHome s - of_nat n\<rparr>)
                 in run (FlushToHome sid) s))" for frame n
    by (rule guar_bind [OF guar_sendFrameToNode sent])
  then show ?thesis
    by (auto simp: flushToHome_def Let_def guar_flush_idle split: option.split)
qed

lemma keeps_emptied: "keeps s (stream_upd sid (\<lambda>st. st\<lparr>pendingToLocal := []\<rparr>) s)"
  by (rule keeps_stream) (auto simp: stream_ok_def)

lemma guar_flushToLocal: "guar s (flushToLocal run sid s)"
proof -
  let ?e = "stream_upd sid (\<lambda>st. st\<lparr>pendingToLocal := []\<rparr>)"
  have sent: "guar t (case findStream sid t of None \<Rightarrow> Some t
      | Some _ \<Rightarrow> do {
          let s = ?e t;
          let s = updatePending (s\<lparr>globalPendingToLocal := globalPendingToLocal s - of_nat n\<rparr>);
          s \<leftarrow> grantStreamCredit run sid n s;
          run (FlushToLocal sid) s })" for t n
  proof (cases "findStream sid t")
    case (Some st)
    then have "findStream sid (?e t) \<noteq> None" by (simp add: findStream_upd)
    then have k: "keeps t (updatePending ((?e t)\<lparr>globalPendingToLocal := g\<rparr>))" for g
      using findStream_live by (intro keeps_trans [OF keeps_emptied keeps_counters(3)]) blast
    have "guar u (grantStreamCredit run sid n u \<bind> run (FlushToLocal sid))" for u
      by (rule guar_bind [OF guar_grantStreamCredit]) (simp add: run_guar)
    from guar_after [OF k this] show ?thesis using Some by (simp add: Let_def)
  qed simp
  have "guar s (p_send run p data (?e s) \<bind> (\<lambda>t. case findStream sid t of None \<Rightarrow> Some t
      | Some _ \<Rightarrow> do {
          let s = ?e t;
          let s = updatePending (s\<lparr>globalPendingToLocal := globalPendingToLocal s - of_nat n\<rparr>);
          s \<leftarrow> grantStreamCredit run sid n s;
          run (FlushToLocal sid) s }))" for p data n
    by (rule guar_after [OF keeps_emptied], rule guar_bind [OF guar_p_send sent])
  then show ?thesis
    by (auto simp: flushToLocal_def Let_def guar_resumeLinkRead split: option.split)
qed

lemma guar_writeToStream: "guar s (writeToStream run sid data s)"
proof (cases "findStream sid s")
  case (Some st)
  let ?t = "stream_upd sid (\<lambda>st. st\<lparr>lastActivity := clock s, pendingToHome := pendingToHome st @ data\<rparr>) s"
  have "keeps s ?t" by (rule keeps_stream) (auto simp: stream_ok_def)
  moreover have "findStream sid ?t \<noteq> None" using Some by (simp add: findStream_upd)
  then have "keeps ?t (updatePending (?t\<lparr>globalPendingToHome := g\<rparr>))" for g
    using findStream_live by (intro keeps_counters) blast
  ultimately have a: "keeps s (updatePending (?t\<lparr>globalPendingToHome := g\<rparr>))" for g by (rule keeps_trans)
  have b: "keeps s (if c then pause_stream True sid t else t)" if "keeps s t" for c t
    using keeps_trans [OF that keeps_pause_stream] that by simp
  have c: "keeps s (if c then pauseAllLocalReads t else t)" if "keeps s t" for c t
    using keeps_trans [OF that keeps_pauseAllLocalReads] that by simp
  show ?thesis
    using Some guar_after [OF c [OF b [OF a]] guar_flushToHome] guar_closeStream
    by (simp add: writeToStream_def Let_def)
qed (simp add: writeToStream_def)

lemma guar_handleLocalEof: "guar s (handleLocalEof run sid s)"
proof -
  have "keeps s (stream_upd sid (\<lambda>st. st\<lparr>localEof := True\<rparr>) s)" by (rule keeps_stream) (auto simp: stream_ok_def)
  then show ?thesis
    using guar_after guar_closeStream guar_Some by (auto simp: handleLocalEof_def Let_def split: option.split)
qed

section \<open>Closing the link\<close>

lemma teardownStreams_good:
  assumes "teardownStreams run s = Some t" "link_ok s"
  shows "keeps s t \<and> call_done TeardownStreams t"
proof (cases "streams s")
  case Nil
  then have t: "t = updatePending (s\<lparr>globalPendingToHome := 0, globalPendingToLocal := 0\<rparr>)"
    using assms(1) by (simp add: teardownStreams_def)
  have "keeps s t"
    unfolding t by (rule keeps_fields) (simp_all add: updatePending_def no_link_def)
  then show ?thesis using Nil by (simp add: t updatePending_def)
next
  case (Cons x xs)
  obtain k st where x: "x = (k, st)" by (rule prod.exhaust)
  obtain u where u: "closeLocal run st LError s = Some u" "run TeardownStreams u = Some t"
    using assms(1) Cons x by (auto simp: teardownStreams_def bind_eq_Some_conv)
  have su: "keeps s u" using guar_closeLocal [of k st s st LError] u(1) assms(2) Cons x by (simp add: guar_def)
  then have "link_ok u" using assms(2) by (rule keeps_ok)
  then have "keeps u t \<and> call_done TeardownStreams t"
    using run_good u(2) unfolding good_run_def by (metis call_ready.simps(14))
  then show ?thesis using keeps_trans [OF su] by blast
qed

text \<open>The channel is given up and marked closed before anything else can run.\<close>

lemma keeps_released:
  assumes "channel s = Some i" "c_closed c" "chan_ok (chans s i) \<Longrightarrow> chan_ok c" "c_pinnedKey c = c_pinnedKey (chans s i)"
  defines "t \<equiv> s\<lparr>channel := None, chans := (chans s)(i := c)\<rparr>"
  shows "link_ok s \<Longrightarrow> link_ok t" "options t = options s" "stopped t = stopped s" "resolving t = resolving s"
    "reconnectPending t = reconnectPending s" "channel t = None" "armed SweepTask t = armed SweepTask s"
  using assms by (auto simp: t_def link_ok_def chans_ok_def streams_ok_def timers_ok_def armed_def)

lemma c_close_released:
  assumes "channel s = Some i" "c_close run i (c_setCallbacks False i (s\<lparr>channel := None\<rparr>)) = Some t" "link_ok s"
  shows "link_ok t \<and> options t = options s \<and> stopped t = stopped s \<and> resolving t = resolving s
    \<and> (reconnectPending s \<longrightarrow> reconnectPending t) \<and> channel t = None \<and> armed SweepTask t = armed SweepTask s"
proof -
  let ?silent = "if c_dispatchDepth (chans s i) > 0 then (chans s i)\<lparr>c_staged := Some False\<rparr>
    else (chans s i)\<lparr>c_callbacks := False\<rparr>"
  let ?c = "?silent\<lparr>c_closed := True\<rparr>"
  let ?u = "s\<lparr>channel := None, chans := (chans s)(i := ?c)\<rparr>"
  have silent: "c_setCallbacks False i (s\<lparr>channel := None\<rparr>) = s\<lparr>channel := None, chans := (chans s)(i := ?silent)\<rparr>"
    by (simp add: c_setCallbacks_def chan_upd_def)
  have cl: "c_close run i (c_setCallbacks False i (s\<lparr>channel := None\<rparr>)) =
      (if \<not> c_closed (chans s i) \<and> c_callbacks ?c then run ChannelClosed ?u else Some ?u)"
    unfolding silent by (auto simp: c_close_def chan_upd_def Let_def intro!: link_client.equality tls_channel.equality ext)
  have "c_closed ?c" by simp
  moreover have "chan_ok ?c" if "chan_ok (chans s i)" using that by (auto simp: chan_ok_def buffer_ok_def)
  moreover have "c_pinnedKey ?c = c_pinnedKey (chans s i)" by simp
  ultimately have r: "link_ok ?u" "options ?u = options s" "stopped ?u = stopped s" "resolving ?u = resolving s"
      "reconnectPending ?u = reconnectPending s" "channel ?u = None" "armed SweepTask ?u = armed SweepTask s"
    using keeps_released [OF assms(1), of ?c] assms(3) by blast+
  have "guar ?u (if \<not> c_closed (chans s i) \<and> c_callbacks ?c then run ChannelClosed ?u else Some ?u)"
    by (simp add: run_guar)
  then have k: "keeps ?u t" using assms(2) r(1) unfolding cl guar_def by simp
  then show ?thesis using r keeps_ok [OF k r(1)] keeps_channel [OF k r(6)] unfolding keeps_def by (intro conjI; elim conjE; simp)
qed

lemma closeLink_good:
  assumes "closeLink run s = Some t" "link_ok s"
  shows "keeps s t \<and> channel t = None"
proof (cases "channel s")
  case None
  then show ?thesis using assms(1) by (simp add: closeLink_def)
next
  case (Some i)
  obtain u v where u: "c_close run i (c_setCallbacks False i (s\<lparr>channel := None\<rparr>)) = Some u"
    and v: "teardownStreams run (u\<lparr>parser := link_initial_parser\<rparr>) = Some v"
    and t: "t = scheduleReconnect (reset_link v)"
    using assms(1) Some by (auto simp: closeLink_def bind_eq_Some_conv)
  note fu = c_close_released [OF Some u assms(2)]
  let ?u = "u\<lparr>parser := link_initial_parser\<rparr>"
  have "link_ok ?u" using conjunct1 [OF fu] by (simp add: link_ok_def chans_ok_def streams_ok_def timers_ok_def armed_def)
  with v have kv: "keeps ?u v" "call_done TeardownStreams v" using teardownStreams_good by blast+
  have lv: "link_ok v" using kv(1) \<open>link_ok ?u\<close> by (rule keeps_ok)
  have "channel ?u = None" "lframes (parser ?u) = []" using fu by (simp_all add: link_initial_parser_def)
  then have pv: "channel v = None" "lframes (parser v) = []"
    using kv(1) keeps_channel [OF kv(1)] unfolding keeps_def by auto
  let ?w = "reset_link v"
  have lw: "link_ok ?w" using lv by (simp add: reset_link_def link_ok_def chans_ok_def streams_ok_def timers_ok_def armed_def)
  have kt: "keeps ?w t" unfolding t by (rule keeps_scheduleReconnect)
  have lt: "link_ok t" using kt lw by (rule keeps_ok)
  have "no_link t"
    using pv kv(2) by (auto simp: t no_link_def scheduleReconnect_def reset_link_def armReconnect_def nextDelayMs_def Let_def)
  moreover have "options t = options s" "stopped t = stopped s" "resolving t = resolving s" "channel t = None"
      "reconnectPending s \<longrightarrow> reconnectPending t" "armed SweepTask t = armed SweepTask s"
    using fu kv(1) kt keeps_channel [OF kt] pv(1) by (auto simp: keeps_def reset_link_def armed_def)
  ultimately show ?thesis using Some lt by (simp add: keeps_def)
qed

lemma guar_closeLink: "guar s (closeLink run s)"
  by (simp add: guar_def closeLink_good)

lemma guar_goAwayAndClose: "guar s (goAwayAndClose run s)"
  unfolding goAwayAndClose_def by (rule guar_bind [OF guar_sendFrameToNode guar_closeLink])

lemma keeps_observed: "keeps s (s\<lparr>observed := es\<rparr>)"
  by (rule keeps_fields) (simp_all add: no_link_def)

lemma guar_refuseLink: "guar s (refuseLink run e s)"
  unfolding refuseLink_def by (rule guar_after [OF keeps_observed guar_goAwayAndClose])

section \<open>Opening and routing\<close>

lemma keeps_take_dial: "keeps s (snd (take_dial s))"
  by (auto simp: take_dial_def split: list.split intro!: keeps_fields simp: no_link_def)

lemma keeps_new_peer: "keeps s (s\<lparr>peers := (peers s)(p := p_connect port cb), nextPeer := n\<rparr>)"
  by (auto simp: keeps_def link_ok_def chans_ok_def streams_ok_def timers_ok_def armed_def no_link_def peer_ok_def p_connect_def
      buffer_ok_def kSendLimit_def kSendHardCap_def)

lemma guar_dialListener: "guar s (dialListener run sid port s)"
proof -
  obtain ok t where d: "take_dial s = (ok, t)" by (rule prod.exhaust)
  have st: "keeps s t" using keeps_take_dial [of s] d by simp
  have "keeps t (stream_upd sid (\<lambda>st. st\<lparr>local_peer := Some p\<rparr>)
      (t\<lparr>peers := (peers t)(p := p_connect port (StreamCallbacks sid)), nextPeer := p + 1\<rparr>))" for p
    by (rule keeps_trans [OF keeps_new_peer keeps_stream]) (auto simp: stream_ok_def)
  moreover have "guar t (sendFrameToNode run (encodeClose sid LBusy) t \<bind> (\<lambda>s. Some (erase_stream sid s)))"
    by (rule guar_bind [OF guar_sendFrameToNode]) (rule guar_Some [OF keeps_erase])
  ultimately have "guar t (if ok then Some (stream_upd sid (\<lambda>st. st\<lparr>local_peer := Some (nextPeer t)\<rparr>)
      (t\<lparr>peers := (peers t)(nextPeer t := p_connect port (StreamCallbacks sid)), nextPeer := nextPeer t + 1\<rparr>))
      else sendFrameToNode run (encodeClose sid LBusy) t \<bind> (\<lambda>s. Some (erase_stream sid s)))"
    by (simp add: guar_Some)
  from guar_after [OF st this] show ?thesis using d by (simp add: dialListener_def Let_def split: if_splits)
qed

lemma keeps_opened:
  assumes "channel s \<noteq> None" "findStream sid s = None" "length (streams s) < maxStreams (limits (options s))"
  shows "keeps s (s\<lparr>streams := streams s @ [(sid, new_stream sid s)], streamCount := length (streams s @ [(sid, new_stream sid s)])\<rparr>)"
proof -
  have "sid \<notin> fst ` set (streams s)" using assms(2) by (simp add: findStream_def map_of_eq_None_iff)
  moreover have "stream_ok lim sid (new_stream sid s)" for lim
    by (simp add: stream_ok_def new_stream_def window_ok_initial)
  ultimately have "streams_ok (s\<lparr>streams := streams s @ [(sid, new_stream sid s)], streamCount := Suc (length (streams s))\<rparr>)"
    if "streams_ok s"
    using that assms(3) by (auto simp: streams_ok_def)
  then show ?thesis
    using assms(1) by (intro keeps_live) (auto simp: link_ok_def chans_ok_def timers_ok_def armed_def)
qed

lemma guar_openStream:
  assumes "channel s \<noteq> None" "findStream sid s = None"
  shows "guar s (openStream run sid s)"
proof (cases "length (streams s) \<ge> maxStreams (limits (options s))")
  case False
  let ?t = "s\<lparr>streams := streams s @ [(sid, new_stream sid s)], streamCount := length (streams s @ [(sid, new_stream sid s)])\<rparr>"
  have k: "keeps s ?t" using assms False by (intro keeps_opened) simp_all
  have "keeps ?t (stream_upd sid (\<lambda>st. st\<lparr>routed := False\<rparr>) ?t)"
    by (rule keeps_stream) (auto simp: stream_ok_def)
  then have "guar ?t (if serviceListeners (options ?t) \<noteq> [] then Some (stream_upd sid (\<lambda>st. st\<lparr>routed := False\<rparr>) ?t)
      else dialListener run sid (gatewayPort (options ?t)) ?t)"
    by (simp add: guar_Some guar_dialListener)
  from guar_after [OF k this] show ?thesis using False by (simp add: openStream_def Let_def)
qed (simp add: openStream_def guar_sendFrameToNode)

lemma guar_refuseStream: "guar s (refuseStream run sid s)"
  unfolding refuseStream_def by (rule guar_bind [OF guar_sendFrameToNode guar_closeStream])

lemma guar_route_to: "guar s (route_to run sid hello port s)"
proof -
  have k: "keeps s (stream_upd sid (\<lambda>st. st\<lparr>routed := True, clientHello := []\<rparr>) s)"
    by (rule keeps_stream) (auto simp: stream_ok_def)
  have "guar t (p_send run p hello t \<bind> grantStreamCredit run sid n)" for t p n
    by (rule guar_bind [OF guar_p_send guar_grantStreamCredit])
  then show ?thesis
    unfolding route_to_def
    by (intro guar_after [OF k] guar_bind [OF guar_dialListener]) (auto split: option.split)
qed

lemma guar_routeStream: "guar s (routeStream run sid s)"
  by (auto simp: routeStream_def guar_refuseStream guar_route_to split: option.split)

section \<open>Frames\<close>

lemma guar_hold_data:
  assumes "findStream sid s = Some st0" "link_ok s \<Longrightarrow> pendingToLocal st0 = pendingToLocal st"
  shows "guar s (hold_data run sid st data s)"
proof (cases "length (pendingToLocal st) + length data > 2 * streamPendingCap (limits (options s))")
  case False
  let ?f = "\<lambda>st. st\<lparr>pendingToLocal := pendingToLocal st @ data\<rparr>"
  let ?t = "stream_upd sid ?f s"
  have kt: "keeps s ?t" if ok: "link_ok s"
  proof -
    have "stream_ok (limits (options s)) k (if k = sid then ?f st' else st')" if "(k, st') \<in> set (streams s)" for k st'
    proof (cases "k = sid")
      case True
      have "st' = st0"
        using that True assms(1) ok by (auto simp: findStream_def link_ok_def streams_ok_def dest: map_of_is_SomeI)
      then show ?thesis
        using that True assms(2) [OF ok] False ok by (auto simp: stream_ok_def link_ok_def streams_ok_def)
    qed (use that ok in \<open>auto simp: link_ok_def streams_ok_def\<close>)
    then have "streams_ok ?t"
      using ok unfolding link_ok_def streams_ok_def stream_upd_fst by (auto simp: stream_upd_def)
    then show ?thesis
      using findStream_live [OF assms(1)] by (intro keeps_live) (auto simp: link_ok_def chans_ok_def timers_ok_def armed_def stream_upd_def)
  qed
  have "findStream sid ?t \<noteq> None" using assms(1) by (simp add: findStream_upd)
  then have ku: "keeps ?t (updatePending (?t\<lparr>globalPendingToLocal := g\<rparr>))" for g
    using findStream_live by (intro keeps_counters) blast
  have kp: "keeps u (case channel u of None \<Rightarrow> u | Some i \<Rightarrow> c_setReadPaused True i (u\<lparr>linkReadPaused := True\<rparr>))" for u
    by (auto intro!: keeps_trans [OF keeps_fields keeps_c_setReadPaused] simp: no_link_def split: option.split)
  have "keeps s (if b then case channel u of None \<Rightarrow> u | Some i \<Rightarrow> c_setReadPaused True i (u\<lparr>linkReadPaused := True\<rparr>) else u)"
    if "link_ok s" "u = updatePending (?t\<lparr>globalPendingToLocal := g\<rparr>)" for b u g
  proof -
    have u: "keeps s u" unfolding that(2) by (rule keeps_trans [OF kt [OF that(1)] ku])
    show ?thesis using u keeps_trans [OF u kp] by simp
  qed
  then show ?thesis
    using False by (simp add: guar_def hold_data_def Let_def)
qed (simp add: hold_data_def guar_closeStream)

lemma guar_handleData: "guar s (handleData run f s)"
proof (cases "findStream (lstream f) s")
  case (Some st)
  let ?n = "of_nat (length (lpayload f))"
  let ?a = "stream_upd (lstream f) (\<lambda>st. st\<lparr>lastActivity := clock s\<rparr>) s"
  let ?b = "stream_upd (lstream f) (\<lambda>st. st\<lparr>receiveWindow := recordUsed (receiveWindow st) ?n\<rparr>) ?a"
  have a: "keeps s ?a" by (rule keeps_stream) (auto simp: stream_ok_def)
  have b: "keeps s ?b"
    by (rule keeps_trans [OF a keeps_stream]) (auto simp: stream_ok_def window_ok_recordUsed)
  have h: "keeps s (stream_upd (lstream f) (\<lambda>st. st\<lparr>clientHello := clientHello st @ lpayload f\<rparr>) ?b)"
    by (rule keeps_trans [OF b keeps_stream]) (auto simp: stream_ok_def)
  have fb: "findStream (lstream f) ?b = Some (st\<lparr>lastActivity := clock s, receiveWindow := recordUsed (receiveWindow st) ?n\<rparr>)"
    using Some by (simp add: findStream_upd)
  have "guar ?b (hold_data run (lstream f) st (lpayload f) ?b)" by (rule guar_hold_data [OF fb]) simp
  then have hold: "guar s (hold_data run (lstream f) st (lpayload f) ?b)" by (rule guar_after [OF b])
  have "guar ?b (p_send run p (lpayload f) ?b \<bind> grantStreamCredit run (lstream f) (length (lpayload f)))" for p
    by (rule guar_bind [OF guar_p_send guar_grantStreamCredit])
  then have send: "guar s (p_send run p (lpayload f) ?b \<bind> grantStreamCredit run (lstream f) (length (lpayload f)))" for p
    by (rule guar_after [OF b])
  show ?thesis
    using Some hold send guar_after [OF h guar_routeStream] guar_after [OF keeps_trans [OF a keeps_observed] guar_closeStream]
    by (auto simp: handleData_def Let_def split: option.split)
qed (simp add: handleData_def)

lemma guar_handleOpen: "channel s \<noteq> None \<Longrightarrow> guar s (handleOpen run f s)"
  by (simp add: handleOpen_def guar_openStream)

lemma guar_handleHello: "channel s \<noteq> None \<Longrightarrow> guar s (handleHello run f s)"
  by (auto simp: handleHello_def Let_def guar_refuseLink link_ok_def chans_ok_def streams_ok_def timers_ok_def armed_def
      intro!: guar_Some keeps_live)

lemma guar_handleClose: "guar s (handleClose run f s)"
  by (auto simp: handleClose_def split: option.split dest: findStream_streams intro: guar_closeLocal)

lemma guar_handlePush: "guar s (handlePush run f s)"
  by (auto simp: handlePush_def guar_goAwayAndClose no_link_def intro!: guar_Some keeps_fields)

lemma guar_handlePushResult: "guar s (handlePushResult run f s)"
  by (auto simp: handlePushResult_def guar_goAwayAndClose intro: guar_Some keeps_observed split: option.split)

lemma keeps_handlePong: "keeps s (handlePong f s)"
  by (auto simp: handlePong_def no_link_def intro!: keeps_fields)

lemma keeps_handleGoAway: "keeps s (handleGoAway f s)"
  by (auto simp: handleGoAway_def no_link_def Let_def intro!: keeps_fields)

lemma guar_handleCredit: "guar s (handleCredit run f s)"
proof -
  have "keeps s (stream_upd (lstream f) (\<lambda>st. st\<lparr>sendWindow := grant (sendWindow st) g\<rparr>) s)" for g
    by (rule keeps_stream) (auto simp: stream_ok_def window_ok_grant)
  from guar_after [OF this guar_flushToHome] show ?thesis
    by (auto simp: handleCredit_def split: option.split)
qed

lemma guar_dispatchFrame:
  assumes "channel s \<noteq> None"
  shows "guar s (dispatchFrame run f s)"
proof -
  let ?t = "s\<lparr>lastFrameAt := clock s\<rparr>"
  have k: "keeps s ?t" by (rule keeps_fields) (auto simp: no_link_def)
  have ch: "channel ?t \<noteq> None" using assms by simp
  have "guar ?t (if ltype f \<noteq> LHello \<and> \<not> helloReceived ?t then refuseLink run HelloRequired ?t
         else case ltype f of
                LHello \<Rightarrow> handleHello run f ?t
              | LOpen \<Rightarrow> handleOpen run f ?t
              | LData \<Rightarrow> handleData run f ?t
              | LClose \<Rightarrow> handleClose run f ?t
              | LPing \<Rightarrow> handlePing run f ?t
              | LPong \<Rightarrow> Some (handlePong f ?t)
              | LPush \<Rightarrow> handlePush run f ?t
              | LPushSealed \<Rightarrow> handlePushSealed run ?t
              | LPushResult \<Rightarrow> handlePushResult run f ?t
              | LGoAway \<Rightarrow> Some (handleGoAway f ?t)
              | LCredit \<Rightarrow> handleCredit run f ?t)"
    using guar_handleHello [OF ch] guar_handleOpen [OF ch]
    by (cases "ltype f")
       (simp_all add: guar_refuseLink guar_handleData guar_handleClose handlePing_def guar_sendFrameToNode
         guar_handlePush handlePushSealed_def guar_goAwayAndClose guar_handlePushResult guar_handleCredit
         guar_Some keeps_handlePong keeps_handleGoAway)
  from guar_after [OF k this] show ?thesis by (simp only: dispatchFrame_def Let_def)
qed


lemma guar_ok: "(link_ok s \<Longrightarrow> guar s m) \<Longrightarrow> guar s m"
  by (auto simp: guar_def)

lemma popFrame_idle: "lframes p = [] \<Longrightarrow> link_popFrame p = None"
  by simp

lemma guar_pump_next:
  assumes "channel s \<noteq> None"
  shows "guar s (dispatchFrame run f s \<bind> run PumpFrames)"
proof (rule guar_ok)
  assume ok: "link_ok s"
  show ?thesis
  proof (rule guar_bind [OF guar_dispatchFrame [OF assms]])
    fix u assume "keeps s u"
    moreover have "no_link s" using assms by (auto simp: no_link_def)
    ultimately have "no_link u" using ok by (simp add: keeps_def)
    then show "guar u (run PumpFrames u)" by (intro run_guar) (simp add: no_link_def)
  qed
qed

lemma guar_pumpFrames:
  assumes "channel s = None \<Longrightarrow> lframes (parser s) = []"
  shows "guar s (pumpFrames run s)"
proof (cases "channel s")
  case None
  then show ?thesis using assms by (simp add: pumpFrames_def)
next
  case (Some i)
  have k: "keeps s (s\<lparr>parser := p\<rparr>)" for p
    using Some by (auto simp: keeps_def link_ok_def chans_ok_def streams_ok_def timers_ok_def armed_def no_link_def)
  have "guar s (dispatchFrame run f (s\<lparr>parser := p\<rparr>) \<bind> run PumpFrames)" for f p
    by (rule guar_after [OF k guar_pump_next]) (use Some in simp)
  then show ?thesis by (auto simp: pumpFrames_def split: option.split list.split)
qed

lemma guar_handleLinkRead:
  assumes "channel s \<noteq> None"
  shows "guar s (handleLinkRead run data s)"
proof -
  have "keeps s (s\<lparr>parser := link_feed (parser s) data\<rparr>)"
    using assms by (auto simp: keeps_def link_ok_def chans_ok_def streams_ok_def timers_ok_def armed_def no_link_def)
  from guar_after [OF this guar_refuseLink] guar_after [OF this guar_pumpFrames] show ?thesis
    using assms by (simp add: handleLinkRead_def Let_def)
qed

section \<open>Timers\<close>

lemma keeps_take_random: "keeps s (snd (take_random s))"
  by (auto simp: take_random_def no_link_def split: list.split intro!: keeps_fields)

lemma guar_keepaliveTick: "guar s (keepaliveTick run s)"
proof -
  let ?t = "s\<lparr>activeKeepalive := streams s \<noteq> []\<rparr>"
  obtain nonce u where r: "take_random ?t = (nonce, u)" by (rule prod.exhaust)
  let ?v = "u\<lparr>pingNonce := nonce, awaitingPong := True, lastPingAt := clock s\<rparr>"
  have t: "keeps s ?t" by (rule keeps_fields) (auto simp: no_link_def)
  have u: "keeps s u" using keeps_trans [OF t keeps_take_random] r by simp
  have "keeps u ?v" by (rule keeps_fields) (auto simp: no_link_def)
  with u have "keeps s ?v" by (rule keeps_trans)
  from guar_after [OF this guar_sendFrameToNode] guar_Some [OF t] guar_closeLink show ?thesis
    using r by (simp add: keepaliveTick_def Let_def)
qed

lemma guar_close_all: "guar s (close_all run ids why s)"
proof (induction ids arbitrary: s)
  case (Cons sid ids)
  have "guar s (closeStream run sid why s \<bind> close_all run ids why)"
    by (rule guar_bind [OF guar_closeStream Cons.IH])
  then show ?case by simp
qed simp

lemma guar_sweep_draining: "guar s (map_option snd (sweep_draining run ds s))"
proof (induction ds arbitrary: s)
  case (Cons d ds)
  obtain p deadline where d: "d = (p, deadline)" by (rule prod.exhaust)
  have "guar s (p_close run p s \<bind> (\<lambda>s. map_option snd (sweep_draining run ds s)))"
    by (rule guar_bind [OF guar_p_close Cons.IH])
  moreover have "map_option snd (m \<bind> f) = m \<bind> (\<lambda>x. map_option snd (f x))" for m :: "link_client option"
      and f :: "link_client \<Rightarrow> ((nat \<times> int) list \<times> link_client) option"
    by (cases m) simp_all
  moreover have "map_option snd (m \<bind> (\<lambda>(kept, s). Some (x # kept, s))) = map_option snd m"
    for m :: "((nat \<times> int) list \<times> link_client) option" and x
    by (cases m) auto
  ultimately show ?case using Cons.IH d by simp
qed simp

lemma guar_sweep_link: "guar s (sweep_link run s)"
  by (simp add: sweep_link_def Let_def guar_closeLink guar_keepaliveTick)

lemma guar_sweep: "guar s (sweep run s)"
proof -
  have rest: "guar t (sweep_draining run (drainingPeers t) t \<bind> (\<lambda>(kept, s). Some (s\<lparr>drainingPeers := kept\<rparr>)))" for t
  proof -
    have kept: "keeps u (u\<lparr>drainingPeers := k\<rparr>)" for u k by (rule keeps_fields) (auto simp: no_link_def)
    have "guar t (map_option snd (sweep_draining run (drainingPeers t) t))" by (rule guar_sweep_draining)
    then show ?thesis using keeps_trans [OF _ kept] by (auto simp: guar_def bind_eq_Some_conv)
  qed
  have "guar t (close_all run ids LIdleTimeout t \<bind>
      (\<lambda>t. sweep_draining run (drainingPeers t) t \<bind> (\<lambda>(kept, s). Some (s\<lparr>drainingPeers := kept\<rparr>))))" for t ids
    by (rule guar_bind [OF guar_close_all rest])
  then show ?thesis
    unfolding sweep_def Let_def by (intro guar_bind [OF guar_sweep_link])
qed

section \<open>Callbacks\<close>

lemma guar_flush_all: "guar s (flush_all run ids s)"
proof (induction ids arbitrary: s)
  case (Cons sid ids)
  have "guar s (flushToHome run sid s \<bind> flush_all run ids)"
    by (rule guar_bind [OF guar_flushToHome Cons.IH])
  then show ?case by simp
qed simp

lemma guar_onDrained: "guar s (onDrained run s)"
  unfolding onDrained_def
  by (rule guar_bind [OF guar_flush_all guar_after [OF keeps_resumeLocalReads guar_resumeLinkRead]])

lemma guar_onConnected:
  assumes "channel s \<noteq> None"
  shows "guar s (onConnected run s)"
  unfolding onConnected_def
  by (rule guar_after [OF _ guar_sendFrameToNode])
     (use assms in \<open>auto simp: keeps_def link_ok_def chans_ok_def streams_ok_def timers_ok_def armed_def no_link_def\<close>)

lemma guar_onPeerDrained: "guar s (onPeerDrained run sid p s)"
  by (simp add: onPeerDrained_def guar_flushToLocal)

lemma guar_onPeerClosed: "guar s (onPeerClosed run sid p s)"
  by (auto simp: onPeerClosed_def guar_closeStream split: option.split)

lemma guar_sendSealedPush: "guar s (map_option snd (sendSealedPush run e s))"
proof -
  have "map_option snd (m \<bind> (\<lambda>s. Some (True, s))) = m" for m :: "link_client option"
    by (cases m) simp_all
  then show ?thesis by (auto simp: sendSealedPush_def guar_sendFrameToNode split: option.split)
qed

lemma exec_call_guar:
  assumes "call_ready c s"
  shows "guar s (exec_call run c s)"
proof (cases c)
  case (PeerConnected sid)
  have "keeps s (stream_upd sid (\<lambda>st. st\<lparr>localAttached := True\<rparr>) s)"
    by (rule keeps_stream) (auto simp: stream_ok_def)
  then show ?thesis using PeerConnected by (simp add: guar_Some)
next
  case TeardownStreams
  then show ?thesis using teardownStreams_good by (simp add: guar_def)
qed (use assms in \<open>simp_all add: guar_onConnected guar_handleLinkRead guar_closeLink guar_onDrained guar_writeToStream
  guar_handleLocalEof guar_onPeerDrained guar_onPeerClosed guar_pumpFrames guar_flushToHome guar_flushToLocal\<close>)

lemma exec_call_good: "good_run (exec_call run)"
proof -
  have "call_done c t" if "exec_call run c s = Some t" "link_ok s" for c s t
    using that teardownStreams_good by (cases c) simp_all
  moreover have "keeps s t" if "exec_call run c s = Some t" "link_ok s" "call_ready c s" for c s t
    using exec_call_guar [OF that(3)] that by (simp add: guar_def)
  ultimately show ?thesis by (auto simp: good_run_def)
qed

end

end
