(* ===== verification/Link_Runs.thy ===== *)
theory Link_Runs
  imports Link_Client_Safety
begin

text \<open>
  The runs of the link client. Every run with bounded nesting of calls is an instance of
  \<open>link_callbacks\<close>; an input keeps the invariant of the client, so every state that a started client can
  reach satisfies it.
\<close>

section \<open>Every run keeps the invariants\<close>

lemma run_link_good: "good_run (run_link n)"
proof (induction n)
  case 0
  then show ?case by (simp add: good_run_def)
next
  case (Suc n)
  from link_callbacks.exec_call_good [OF link_callbacks.intro [OF this]] show ?case by simp
qed

interpretation link_runs: link_callbacks "run_link n" for n
  by unfold_locales (rule run_link_good)

section \<open>Inputs\<close>

definition link_inv :: "link_client \<Rightarrow> bool" where
  "link_inv s \<longleftrightarrow> link_ok s \<and> no_link s \<and> (stopped s \<or> length (armed SweepTask s) = 1)"

lemma keeps_inv: "keeps s t \<Longrightarrow> link_inv s \<Longrightarrow> link_inv t"
  by (simp add: keeps_def link_inv_def)

lemma guar_inv: "guar s m \<Longrightarrow> m = Some t \<Longrightarrow> link_inv s \<Longrightarrow> link_inv t \<and> options t = options s"
  by (auto simp: guar_def link_inv_def keeps_def)

lemma due_timer_spec:
  assumes "due_timer task s = Some t"
  shows "\<exists>x ys zs. timers s = ys @ x # zs \<and> t = s\<lparr>timers := ys @ zs\<rparr> \<and> snd x = task"
proof -
  obtain x where x: "find (\<lambda>(due, t'). t' = task \<and> due \<le> clock s) (timers s) = Some x" "t = s\<lparr>timers := remove1 x (timers s)\<rparr>"
    using assms by (auto simp: due_timer_def split: option.splits)
  have "x \<in> set (timers s)" "snd x = task" using x(1) by (auto simp: find_Some_iff in_set_conv_nth)
  then obtain ys zs where "timers s = ys @ x # zs" "x \<notin> set ys" using split_list_first by metis
  then have "t = s\<lparr>timers := ys @ zs\<rparr>" using x(2) by (simp add: remove1_append)
  with \<open>timers s = ys @ x # zs\<close> \<open>snd x = task\<close> show ?thesis by blast
qed

lemma due_timer_fields:
  assumes "due_timer task s = Some t"
  obtains ts where "t = s\<lparr>timers := ts\<rparr>"
    "\<And>k. length (filter (\<lambda>x. snd x = k) ts) = length (armed k s) - of_bool (k = task)"
  using due_timer_spec [OF assms] by (force simp: armed_def)

lemma due_timer_stopped: "due_timer task s = Some t \<Longrightarrow> stopped t = stopped s \<and> options t = options s"
  by (auto elim: due_timer_fields)

lemma reconnect_inv:
  assumes "link_inv s" "due_timer ReconnectTask s = Some t" "\<not> stopped t"
  shows "link_inv (connectHome (t\<lparr>reconnectPending := False\<rparr>))"
proof -
  obtain ts where t: "t = s\<lparr>timers := ts\<rparr>"
    "\<And>k. length (filter (\<lambda>x. snd x = k) ts) = length (armed k s) - of_bool (k = ReconnectTask)"
    using due_timer_fields [OF assms(2)] by metis
  have "length (armed ReconnectTask s) \<le> 1" using assms t(1) by (simp add: link_inv_def link_ok_def timers_ok_def)
  then show ?thesis
    using assms(1,3) t by (auto simp: link_inv_def link_ok_def chans_ok_def streams_ok_def timers_ok_def armed_def
        no_link_def connectHome_def)
qed

lemma scheduleReconnect_pending: "stopped s \<or> reconnectPending (scheduleReconnect s)"
  by (simp add: scheduleReconnect_def armReconnect_def nextDelayMs_def Let_def)

lemma scheduleReconnect_inv:
  assumes "link_ok s" "stopped s \<or> length (armed SweepTask s) = 1" "no_link (s\<lparr>resolving := 1\<rparr>)"
  shows "link_inv (scheduleReconnect s)"
proof -
  have k: "keeps s (scheduleReconnect s)" by (rule keeps_scheduleReconnect)
  have "no_link (scheduleReconnect s)"
    using assms(3) by (auto simp: no_link_def scheduleReconnect_def armReconnect_def nextDelayMs_def Let_def)
  then show ?thesis using assms k keeps_ok [OF k] by (simp add: link_inv_def keeps_def)
qed

lemma opened_inv:
  assumes "link_inv s" "channel s = None"
  shows "link_inv (installChannelCallbacks (s\<lparr>resolving := r, chans := (chans s)(i := c_connect (pinnedSubjectPublicKeyDer (options s))),
    nextChan := n, channel := Some i\<rparr>))"
proof -
  have "\<not> (c_callbacks (chans s j) \<and> \<not> c_closed (chans s j))" for j
    using assms by (simp add: link_inv_def link_ok_def chans_ok_def)
  moreover have "chan_ok ((c_connect k)\<lparr>c_callbacks := True\<rparr>)" "c_pinnedKey (c_connect k) = k" "c_dispatchDepth (c_connect k) = 0" for k
    by (simp_all add: chan_ok_def c_connect_def buffer_ok_def kSendLimit_def kSendHardCap_def)
  ultimately show ?thesis
    using assms(1) by (auto simp: link_inv_def link_ok_def chans_ok_def streams_ok_def timers_ok_def armed_def no_link_def
        installChannelCallbacks_def c_setCallbacks_def chan_upd_def)
qed

lemma openChannel_inv:
  assumes "link_inv s"
  shows "link_inv (openChannel found dialled (s\<lparr>resolving := r\<rparr>))"
proof (cases "stopped s \<or> channel s \<noteq> None")
  case True
  then show ?thesis
    using assms by (auto simp: openChannel_def link_inv_def link_ok_def chans_ok_def streams_ok_def timers_ok_def
        armed_def no_link_def)
next
  case False
  have "link_inv (scheduleReconnect (s\<lparr>resolving := r\<rparr>))"
    using assms by (intro scheduleReconnect_inv)
      (auto simp: link_inv_def link_ok_def chans_ok_def streams_ok_def timers_ok_def armed_def no_link_def)
  then show ?thesis using opened_inv [OF assms] False by (simp add: openChannel_def Let_def)
qed

lemma openChannel_options: "options (openChannel found dialled s) = options s"
  by (simp add: openChannel_def installChannelCallbacks_def c_setCallbacks_def chan_upd_def scheduleReconnect_def
      armReconnect_def nextDelayMs_def Let_def)

lemma sweep_timer_inv:
  assumes "link_inv s" "due_timer SweepTask s = Some t" "\<not> stopped t" "sweep (run_link n) t = Some u"
  shows "link_inv (scheduleSweep u) \<and> options (scheduleSweep u) = options s"
proof -
  obtain ts where t: "t = s\<lparr>timers := ts\<rparr>"
    "\<And>k. length (filter (\<lambda>x. snd x = k) ts) = length (armed k s) - of_bool (k = SweepTask)"
    using due_timer_fields [OF assms(2)] by metis
  have "length (armed SweepTask t) = 0" using assms(1,3) t by (simp add: link_inv_def armed_def)
  moreover have "link_ok t" "no_link t"
    using assms(1,3) t by (auto simp: link_inv_def link_ok_def chans_ok_def streams_ok_def timers_ok_def armed_def no_link_def)
  ultimately have ok: "link_ok t" "no_link t" "armed SweepTask t = []" by simp_all
  have "keeps t u" using link_runs.guar_sweep [of t n] assms(4) ok(1) by (simp add: guar_def)
  then have "link_ok u" "no_link u" "armed SweepTask u = []" "options u = options s"
    using ok t(1) by (simp_all add: keeps_def)
  then show ?thesis
    by (auto simp: scheduleSweep_def link_inv_def link_ok_def chans_ok_def streams_ok_def timers_ok_def armed_def no_link_def)
qed

lemma due_timer_inv:
  assumes "link_inv s" "due_timer task s = Some t" "task = CloseTask \<or> stopped s"
  shows "link_inv t \<and> options t = options s"
proof -
  obtain ts where t: "t = s\<lparr>timers := ts\<rparr>"
    "\<And>k. length (filter (\<lambda>x. snd x = k) ts) = length (armed k s) - of_bool (k = task)"
    using due_timer_fields [OF assms(2)] by metis
  then show ?thesis
    using assms(1,3) by (auto simp: link_inv_def link_ok_def chans_ok_def streams_ok_def timers_ok_def armed_def no_link_def)
qed

lemma posted_close_inv:
  assumes "handle_input (run_link n) PostedClose s = Some t" "link_inv s"
  shows "link_inv t \<and> options t = options s"
proof (cases "due_timer CloseTask s")
  case (Some u)
  then have "link_inv u \<and> options u = options s" using due_timer_inv [OF assms(2) Some] by simp
  then show ?thesis using assms Some guar_inv [OF link_runs.guar_closeLink, of n u t] by simp
qed (use assms in simp)

lemma sweep_input_inv:
  assumes "handle_input (run_link n) SweepTimer s = Some t" "link_inv s"
  shows "link_inv t \<and> options t = options s"
proof (cases "due_timer SweepTask s")
  case (Some u)
  show ?thesis
  proof (cases "stopped u")
    case True
    then show ?thesis using assms Some due_timer_inv [OF assms(2) Some] due_timer_stopped [OF Some] by simp
  next
    case False
    then show ?thesis using assms Some sweep_timer_inv [OF assms(2) Some False] by (auto simp: bind_eq_Some_conv)
  qed
qed (use assms in simp)

lemma reconnect_input_inv:
  assumes "handle_input run ReconnectTimer s = Some t" "link_inv s"
  shows "link_inv t \<and> options t = options s"
proof (cases "due_timer ReconnectTask s")
  case (Some u)
  show ?thesis
  proof (cases "stopped u")
    case True
    then show ?thesis using assms Some due_timer_inv [OF assms(2) Some] due_timer_stopped [OF Some] by simp
  next
    case False
    then show ?thesis using assms Some reconnect_inv [OF assms(2) Some False] due_timer_stopped [OF Some]
      by (auto simp: connectHome_def split: if_splits)
  qed
qed (use assms in simp)

lemma handle_input_inv:
  assumes "handle_input (run_link n) inp s = Some t" "link_inv s"
  shows "link_inv t \<and> options t = options s"
proof (cases inp)
  case (ChannelInput i e)
  show ?thesis by (rule guar_inv [OF link_runs.guar_c_handleEvents _ assms(2)]) (use ChannelInput assms(1) in simp)
next
  case (PeerInput i e)
  show ?thesis by (rule guar_inv [OF link_runs.guar_p_handleEvents _ assms(2)]) (use PeerInput assms(1) in simp)
next
  case SweepTimer
  show ?thesis by (rule sweep_input_inv [OF assms(1) [unfolded SweepTimer] assms(2)])
next
  case ReconnectTimer
  show ?thesis by (rule reconnect_input_inv [OF assms(1) [unfolded ReconnectTimer] assms(2)])
next
  case (Resolved found dialled)
  then show ?thesis using assms openChannel_inv [OF assms(2)] by (auto simp: openChannel_options split: if_splits)
next
  case StopClient
  then show ?thesis
    using assms by (auto simp: link_inv_def link_ok_def chans_ok_def streams_ok_def timers_ok_def no_link_def split: if_splits)
next
  case PostedClose
  show ?thesis by (rule posted_close_inv [OF assms(1) [unfolded PostedClose] assms(2)])
next
  case (SealedPush e)
  show ?thesis by (rule guar_inv [OF link_runs.guar_sendSealedPush _ assms(2)]) (use SealedPush assms(1) in simp)
qed

section \<open>Reachable states\<close>

text \<open>Between two inputs time passes, and the sockets, the resolver and the random device may answer
  anything.\<close>

inductive link_step :: "link_client \<Rightarrow> link_client \<Rightarrow> bool" where
  handled: "handle_input (run_link n) inp s = Some t \<Longrightarrow> link_step s t"
| elapsed: "clock s \<le> now \<Longrightarrow>
    link_step s (s\<lparr>clock := now, sendAnswers := sa, writeAnswers := wa, dialAnswers := da, randomAnswers := ra, jitter := j\<rparr>)"

inductive link_reachable :: "link_options \<Rightarrow> nat \<Rightarrow> link_client \<Rightarrow> bool" for opts queueCapacity where
  started: "link_reachable opts queueCapacity (start (initial_client opts queueCapacity))"
| stepped: "link_reachable opts queueCapacity s \<Longrightarrow> link_step s t \<Longrightarrow> link_reachable opts queueCapacity t"

inductive_cases link_stepE: "link_step s t"

lemma started_inv: "link_inv (start (initial_client opts queueCapacity))"
  by (auto simp: start_def scheduleSweep_def connectHome_def initial_client_def link_inv_def link_ok_def chans_ok_def
      streams_ok_def timers_ok_def armed_def no_link_def chan_ok_def peer_ok_def c_connect_def p_connect_def buffer_ok_def
      kSendLimit_def kSendHardCap_def link_initial_parser_def)

lemma elapsed_inv:
  "link_inv s \<Longrightarrow>
   link_inv (s\<lparr>clock := now, sendAnswers := sa, writeAnswers := wa, dialAnswers := da, randomAnswers := ra, jitter := j\<rparr>)"
  by (auto simp: link_inv_def link_ok_def chans_ok_def streams_ok_def timers_ok_def armed_def no_link_def)

lemma reachable_inv: "link_reachable opts queueCapacity s \<Longrightarrow> link_inv s \<and> options s = opts"
proof (induction rule: link_reachable.induct)
  case started
  then show ?case
    using started_inv by (simp add: start_def scheduleSweep_def connectHome_def initial_client_def)
next
  case (stepped s t)
  from stepped.hyps(2) stepped.IH show ?case
    by (cases rule: link_stepE) (auto simp: elapsed_inv dest: handle_input_inv)
qed

section \<open>Closing returns\<close>

lemma no_channel_calls:
  "channel s = None \<Longrightarrow> sendFrameToNode run f s = Some s" "channel s = None \<Longrightarrow> resumeLinkRead run s = Some s"
  by (simp_all add: sendFrameToNode_def resumeLinkRead_def)

lemma erase_shorter: "(sid, st) \<in> set (streams s) \<Longrightarrow> length (streams (erase_stream sid s)) < length (streams s)"
  by (auto simp: erase_stream_def Let_def intro: length_filter_less)

text \<open>Without a channel, a peer that is closed only closes its own stream, if that is still there.\<close>

lemma p_close_returns:
  assumes "channel s = None" "link_ok s" "n > 0"
    and rec: "\<And>k st why t. (k, st) \<in> set (streams t) \<Longrightarrow> why \<noteq> LNormal \<Longrightarrow> channel t = None \<Longrightarrow> link_ok t
      \<Longrightarrow> length (streams t) \<le> length (streams s) \<Longrightarrow> \<exists>u. closeLocal (run_link (n - 1)) st why t = Some u \<and> length (streams u) \<le> length (streams t)"
  shows "\<exists>t. p_close (run_link n) p s = Some t \<and> length (streams t) \<le> length (streams s)"
proof (cases "p_closed (peers s p) \<or> p_callbacks (peers s p) = NoCallbacks")
  case True
  then show ?thesis by (auto simp: p_close_def peer_call_def split: peer_callbacks.split)
next
  case False
  let ?t = "peer_upd p (\<lambda>x. x\<lparr>p_closed := True\<rparr>) s"
  obtain sid where sid: "p_callbacks (peers s p) = StreamCallbacks sid" using False by (cases "p_callbacks (peers s p)") auto
  have pc: "p_close (run_link n) p s = onPeerClosed (run_link (n - 1)) sid p ?t"
    using False sid assms(3) by (cases n) (auto simp: p_close_def peer_call_def)
  have "link_ok ?t" using link_runs.keeps_p_closed assms(2) by (rule keeps_ok)
  then have "\<exists>u. closeLocal (run_link (n - 1)) st why ?t = Some u \<and> length (streams u) \<le> length (streams ?t)"
    if "(k, st) \<in> set (streams ?t)" "why \<noteq> LNormal" for k st why
    using rec [OF that, of] assms(1) by simp
  then show ?thesis
    unfolding pc onPeerClosed_def closeStream_def
    by (auto split: option.split dest!: findStream_streams)
qed

lemma closeLocal_returns:
  assumes "channel s = None" "link_ok s" "(k, st) \<in> set (streams s)" "why \<noteq> LNormal" "length (streams s) \<le> n"
  shows "\<exists>t. closeLocal (run_link n) st why s = Some t \<and> length (streams t) < length (streams s)"
  using assms
proof (induction n arbitrary: s k st why)
  case (Suc n)
  let ?e = "erase_stream (stream_id st) s"
  let ?u = "updatePending (?e\<lparr>globalPendingToHome := globalPendingToHome ?e - of_nat (length (pendingToHome st)),
     globalPendingToLocal := globalPendingToLocal ?e - of_nat (length (pendingToLocal st))\<rparr>)"
  have "stream_id st = k" using Suc.prems(2,3) by (auto simp: link_ok_def streams_ok_def stream_ok_def)
  then have less: "length (streams ?u) < length (streams s)"
    using erase_shorter [of k st s] Suc.prems(3) by (simp add: updatePending_def)
  have "link_ok ?e" using keeps_erase Suc.prems(2) by (rule keeps_ok)
  then have ok: "link_ok ?u"
    by (simp add: updatePending_def link_ok_def chans_ok_def streams_ok_def timers_ok_def armed_def)
  have ch: "channel ?u = None" using Suc.prems(1) by (simp add: updatePending_def erase_stream_def Let_def)
  have "\<exists>t. (case local_peer st of None \<Rightarrow> Some ?u | Some p \<Rightarrow> releaseLocal (run_link (Suc n)) p (pendingToLocal st) why ?u) = Some t
      \<and> length (streams t) \<le> length (streams ?u)"
  proof (cases "local_peer st")
    case (Some p)
    let ?v = "p_setCallbacks NoCallbacks p ?u"
    have v: "channel ?v = None" "streams ?v = streams ?u" using ch by (simp_all add: p_setCallbacks_def)
    have "link_ok ?v" using link_runs.keeps_p_setCallbacks ok by (rule keeps_ok)
    moreover have "\<exists>w. closeLocal (run_link (Suc n - 1)) st' why' t = Some w \<and> length (streams w) \<le> length (streams t)"
      if "(k', st') \<in> set (streams t)" "why' \<noteq> LNormal" "channel t = None" "link_ok t" "length (streams t) \<le> length (streams ?v)"
      for k' st' why' t
      using Suc.IH [of t k' st' why'] that v(2) less Suc.prems(5) by fastforce
    ultimately show ?thesis
      using p_close_returns [of ?v "Suc n" p] v Suc.prems(4) Some by (simp add: releaseLocal_def Let_def)
  qed simp
  then obtain t where t: "(case local_peer st of None \<Rightarrow> Some ?u
      | Some p \<Rightarrow> releaseLocal (run_link (Suc n)) p (pendingToLocal st) why ?u) = Some t" "length (streams t) \<le> length (streams ?u)"
    by blast
  have "guar ?u (Some t)"
  proof (cases "local_peer st")
    case (Some p)
    then show ?thesis using link_runs.guar_releaseLocal [of ?u "Suc n" p "pendingToLocal st" why] t(1) by simp
  qed (use t(1) in simp)
  then have "channel t = None" using ok keeps_channel [OF _ ch] by (simp add: guar_def)
  moreover have "closeLocal (run_link (Suc n)) st why s = (case local_peer st of None \<Rightarrow> Some ?u
      | Some p \<Rightarrow> releaseLocal (run_link (Suc n)) p (pendingToLocal st) why ?u) \<bind> resumeLinkRead (run_link (Suc n))"
    unfolding closeLocal_def Let_def by (simp only: no_channel_calls(1) [OF ch] if_cancel bind.bind_lunit)
  ultimately have "closeLocal (run_link (Suc n)) st why s = Some t"
    unfolding t(1) by (simp add: no_channel_calls)
  with t(2) less show ?case by auto
qed auto

lemma teardownStreams_returns:
  assumes "channel s = None" "link_ok s" "length (streams s) \<le> n"
  shows "\<exists>t. teardownStreams (run_link n) s = Some t"
  using assms
proof (induction n arbitrary: s)
  case 0
  then show ?case by (simp add: teardownStreams_def)
next
  case (Suc n)
  show ?case
  proof (cases "streams s")
    case (Cons x xs)
    obtain k st where x: "x = (k, st)" by (rule prod.exhaust)
    have st: "(k, st) \<in> set (streams s)" using Cons x by simp
    obtain t where t: "closeLocal (run_link (Suc n)) st LError s = Some t" "length (streams t) < length (streams s)"
      using closeLocal_returns [OF Suc.prems(1,2) st, of LError "Suc n"] Suc.prems(3) by auto
    have k: "keeps s t"
      using link_runs.guar_closeLocal [OF st, where n = "Suc n" and st = st and why = LError] t(1) Suc.prems(2)
      unfolding guar_def by blast
    have "\<exists>u. teardownStreams (run_link n) t = Some u"
      by (rule Suc.IH) (use k keeps_channel keeps_ok Suc.prems t(2) in auto)
    then show ?thesis using Cons x t(1) by (simp add: teardownStreams_def)
  qed (simp add: teardownStreams_def)
qed

lemma closeLink_returns:
  assumes "link_ok s" "length (streams s) < n"
  shows "\<exists>t. closeLink (run_link n) s = Some t"
proof (cases "channel s")
  case (Some i)
  have "\<exists>u. c_close (run_link n) i (c_setCallbacks False i (s\<lparr>channel := None\<rparr>)) = Some u \<and> streams u = streams s"
    using assms(2) by (cases n) (auto simp: c_close_def c_setCallbacks_def Let_def chan_upd_def closeLink_def)
  then obtain u where u: "c_close (run_link n) i (c_setCallbacks False i (s\<lparr>channel := None\<rparr>)) = Some u" "streams u = streams s"
    by blast
  note fu = link_runs.c_close_released [OF Some u(1)]
  have "link_ok (u\<lparr>parser := link_initial_parser\<rparr>)"
    using fu assms(1) by (auto simp: link_ok_def chans_ok_def streams_ok_def timers_ok_def armed_def)
  then have "\<exists>t. teardownStreams (run_link n) (u\<lparr>parser := link_initial_parser\<rparr>) = Some t"
    using teardownStreams_returns fu assms u(2) by simp
  then show ?thesis using Some u(1) by (auto simp: closeLink_def)
qed (simp add: closeLink_def)

end
