(* ===== verification/Link_Flush.thy ===== *)
theory Link_Flush
  imports Link_Runs
begin

text \<open>
  How the link client flushes the bytes of a stream to the cloud: in order, each byte once, within the
  credit of the stream, until nothing is left or the channel is congested. The exception is a channel
  that has been marked congested and is not any more: there the drain callback runs inside the send.
\<close>

section \<open>Sending on a channel that is not marked congested\<close>

definition transmitted :: "tls_channel \<Rightarrow> bytes" where
  "transmitted c = c_wire c @ c_sendBuffer c"

text \<open>Answers of a connection that does not break.\<close>

fun accepts :: "write_answer \<Rightarrow> bool" where
  "accepts (Wrote n) = (n > 0)"
| "accepts WriteFailed = False"
| "accepts a = True"

definition sending :: "nat \<Rightarrow> link_client \<Rightarrow> bool" where
  "sending i s \<longleftrightarrow>
     channel s = Some i \<and> c_ready (chans s i) \<and> \<not> c_closed (chans s i) \<and> \<not> c_closeWhenFlushed (chans s i)
     \<and> length (c_sendBuffer (chans s i)) < kSendHardCap
     \<and> (c_congestedNotified (chans s i) \<longrightarrow> c_congested (chans s i)) \<and> list_all accepts (writeAnswers s)"

lemma write_loop_accepted:
  "list_all accepts answers \<Longrightarrow> write_loop buf wire want answers = (bad, buf', wire', want', answers')
   \<Longrightarrow> \<not> bad \<and> wire' @ buf' = wire @ buf \<and> list_all accepts answers' \<and> length buf' \<le> length buf"
  by (induction buf wire want answers rule: write_loop.induct) (auto simp: Let_def kWriteChunk_def split: if_splits)

lemma c_send_quiet:
  assumes "sending i s" "\<not> c_congested (chans s i)" "length data < kSendHardCap - kSendLimit"
  shows "\<exists>c answers. c_send run i data s = Some (s\<lparr>chans := (chans s)(i := c), writeAnswers := answers\<rparr>)
    \<and> sending i (s\<lparr>chans := (chans s)(i := c), writeAnswers := answers\<rparr>) \<and> transmitted c = transmitted (chans s i) @ data"
proof -
  let ?c = "chans s i"
  obtain bad buf wire want answers where
    w: "write_loop (c_sendBuffer ?c @ data) (c_wire ?c) (c_wantWrite ?c) (writeAnswers s) = (bad, buf, wire, want, answers)"
    by (metis prod_cases5)
  have l: "\<not> bad" "wire @ buf = c_wire ?c @ c_sendBuffer ?c @ data" "list_all accepts answers"
      "length buf \<le> length (c_sendBuffer ?c @ data)"
    using write_loop_accepted [OF _ w] assms(1) by (simp_all add: sending_def)
  have small: "length buf < kSendHardCap" using l(4) assms(2,3) by (simp add: c_congested_def kSendLimit_def kSendHardCap_def)
  let ?d = "?c\<lparr>c_sendBuffer := buf, c_wire := wire, c_wantWrite := want\<rparr>"
  let ?e = "if length buf \<ge> kSendLimit then ?d\<lparr>c_congestedNotified := True\<rparr> else ?d"
  let ?f = "?e\<lparr>c_interest := c_interestEvents ?e\<rparr>"
  have n: "\<not> c_congestedNotified ?c" "c_ready ?c" "\<not> c_closed ?c" "\<not> c_closeWhenFlushed ?c"
    using assms(1,2) by (auto simp: sending_def)
  have "c_flush run i (chan_upd i (\<lambda>c. c\<lparr>c_sendBuffer := c_sendBuffer c @ data\<rparr>) s)
      = Some (s\<lparr>chans := (chans s)(i := ?d), writeAnswers := answers\<rparr>)"
    using n w l(1) by (simp add: c_flush_def c_write_all_def c_notify_drained_def c_shutdown_def chan_upd_def)
  then have "c_send run i data s = Some (s\<lparr>chans := (chans s)(i := ?f), writeAnswers := answers\<rparr>)"
    using n small by (simp add: c_send_def c_mark_congested_def c_updateInterest_def chan_upd_def Let_def)
  moreover have "sending i (s\<lparr>chans := (chans s)(i := ?f), writeAnswers := answers\<rparr>)"
    using assms(1) l(3) n small by (simp add: sending_def c_congested_def)
  moreover have "transmitted ?f = transmitted ?c @ data" using l(2) by (simp add: transmitted_def)
  ultimately show ?thesis by blast
qed

section \<open>One stream\<close>

lemma length_encodeData: "length (encodeData sid bs) = 12 + length bs"
  by (simp add: encodeData_def length_link_encodeFrame link_kHeaderSize_def)

lemma encodeData_small: "n \<le> kDataFrameMax \<Longrightarrow> length (encodeData sid (take n bs)) < kSendHardCap - kSendLimit"
  by (simp add: length_encodeData kDataFrameMax_def kSendHardCap_def kSendLimit_def)

lemma flush_chunk_le: "flush_chunk st \<le> kDataFrameMax" "flush_chunk st \<le> length (pendingToHome st)"
  "limited (sendWindow st) \<Longrightarrow> flush_chunk st \<le> unat (remaining (sendWindow st))"
  by (auto simp: flush_chunk_def Let_def)

lemma flush_chunk_pos:
  assumes "pendingToHome st \<noteq> []" "\<not> (limited (sendWindow st) \<and> remaining (sendWindow st) = 0)"
  shows "flush_chunk st > 0"
  using assms by (auto simp: flush_chunk_def Let_def kDataFrameMax_def unat_gt_0)

lemma spent:
  assumes "limited (sendWindow st)"
  shows "unat (remaining (recordUsed (sendWindow st) (of_nat (flush_chunk st)))) + flush_chunk st = unat (remaining (sendWindow st))"
proof -
  have "flush_chunk st < 2 ^ 64" using flush_chunk_le(1) [of st] by (simp add: kDataFrameMax_def)
  then have "unat (of_nat (flush_chunk st) :: u64) = flush_chunk st" by (simp add: unsigned_of_nat take_bit_nat_eq_self)
  then show ?thesis using recordUsed_remaining [OF assms] flush_chunk_le(3) [OF assms] by simp
qed

text \<open>What a flush did to a stream: the chunks that went out, each in a frame of its own.\<close>

definition flushed :: "u32 \<Rightarrow> nat \<Rightarrow> bytes list \<Rightarrow> link_client \<Rightarrow> link_client \<Rightarrow> bool" where
  "flushed sid i chunks s t \<longleftrightarrow>
     (\<exists>st st'. findStream sid s = Some st \<and> findStream sid t = Some st'
       \<and> transmitted (chans t i) = transmitted (chans s i) @ concat (map (encodeData sid) chunks)
       \<and> pendingToHome st = concat chunks @ pendingToHome st'
       \<and> globalPendingToHome s = globalPendingToHome t + of_nat (length (concat chunks))
       \<and> (limited (sendWindow st) \<longrightarrow>
            unat (remaining (sendWindow st)) = unat (remaining (sendWindow st')) + length (concat chunks))
       \<and> limited (sendWindow st') = limited (sendWindow st) \<and> localEof st' = localEof st
       \<and> linkReadPaused t = linkReadPaused s)"

definition flush_over :: "u32 \<Rightarrow> nat \<Rightarrow> link_client \<Rightarrow> bool" where
  "flush_over sid i t \<longleftrightarrow>
     (\<exists>st. findStream sid t = Some st \<and>
       (pendingToHome st = [] \<or> c_congested (chans t i)
        \<or> (limited (sendWindow st) \<and> remaining (sendWindow st) = 0)))"

text \<open>Pausing and resuming the local sockets touches nothing that a flush depends on.\<close>

definition flush_view :: "link_stream \<Rightarrow> bytes \<times> credit_window \<times> bool" where
  "flush_view st = (pendingToHome st, sendWindow st, localEof st)"

definition same_flush :: "link_client \<Rightarrow> link_client \<Rightarrow> bool" where
  "same_flush s t \<longleftrightarrow>
     channel t = channel s \<and> chans t = chans s \<and> globalPendingToHome t = globalPendingToHome s
     \<and> linkReadPaused t = linkReadPaused s \<and> writeAnswers t = writeAnswers s
     \<and> (\<forall>sid. map_option flush_view (findStream sid t) = map_option flush_view (findStream sid s))"

lemma findStream_upd_other: "k \<noteq> sid \<Longrightarrow> findStream k (stream_upd sid f s) = findStream k s"
proof -
  assume k: "k \<noteq> sid"
  have "map_of (map (\<lambda>(j, st). (j, if j = sid then f st else st)) xs) k = map_of xs k" for xs :: "(u32 \<times> link_stream) list"
    using k by (induction xs) auto
  then show ?thesis by (simp add: findStream_def stream_upd_def)
qed

lemma findStream_cong: "streams s = streams t \<Longrightarrow> findStream k s = findStream k t"
  by (simp add: findStream_def)

lemma p_setReadPaused_fields:
  "streams (p_setReadPaused b p s) = streams s" "channel (p_setReadPaused b p s) = channel s"
  "chans (p_setReadPaused b p s) = chans s" "globalPendingToHome (p_setReadPaused b p s) = globalPendingToHome s"
  "linkReadPaused (p_setReadPaused b p s) = linkReadPaused s" "writeAnswers (p_setReadPaused b p s) = writeAnswers s"
  by (simp_all add: p_setReadPaused_def p_updateInterest_def peer_upd_def)

lemma same_flush_pause: "same_flush s (pause_stream b sid s)"
proof (cases "findStream sid s")
  case (Some st)
  have "map_option flush_view (findStream k (stream_upd sid (\<lambda>st. st\<lparr>localReadPaused := b\<rparr>) s))
      = map_option flush_view (findStream k s)" for k
    by (cases "k = sid"; cases "findStream sid s") (simp_all add: findStream_upd findStream_upd_other flush_view_def)
  then have "map_option flush_view (findStream k (p_setReadPaused b p (stream_upd sid (\<lambda>st. st\<lparr>localReadPaused := b\<rparr>) s)))
      = map_option flush_view (findStream k s)" for k p
    by (simp add: findStream_cong [OF p_setReadPaused_fields(1)])
  then show ?thesis
    using Some by (auto simp: pause_stream_def same_flush_def p_setReadPaused_fields stream_upd_def split: option.split)
qed (simp add: pause_stream_def same_flush_def)

lemma same_flush_refl: "same_flush s s"
  by (simp add: same_flush_def)

lemma same_flush_trans: "same_flush s t \<Longrightarrow> same_flush t u \<Longrightarrow> same_flush s u"
  by (simp add: same_flush_def)

lemma same_flush_foldl: "(\<And>s x. same_flush s (f s x)) \<Longrightarrow> same_flush s (foldl f s xs)"
proof (induction xs arbitrary: s)
  case (Cons x xs)
  then show ?case using same_flush_trans by (metis foldl_Cons)
qed (simp add: same_flush_refl)

lemma same_flush_resume: "same_flush s (resumeLocalReads s)"
  by (auto simp: resumeLocalReads_def same_flush_refl intro!: same_flush_foldl same_flush_pause)

lemma flush_idle_quiet: "\<not> localEof st \<Longrightarrow> \<exists>t. flush_idle run sid st s = Some t \<and> same_flush s t"
  using same_flush_resume same_flush_trans [OF same_flush_pause same_flush_resume] by (auto simp: flush_idle_def Let_def)

lemma flushed_idle:
  assumes "findStream sid s = Some st" "same_flush s t"
  shows "flushed sid i [] s t \<and> (pendingToHome st = [] \<longrightarrow> flush_over sid i t)"
proof -
  have "map_option flush_view (findStream sid t) = Some (flush_view st)" using assms by (simp add: same_flush_def)
  then obtain st' where st': "findStream sid t = Some st'" "flush_view st' = flush_view st" by auto
  then show ?thesis
    using assms by (auto simp: flushed_def flush_over_def same_flush_def flush_view_def)
qed

lemma flushed_step:
  assumes "flushed sid i [a] s t" "flushed sid i chunks t u"
  shows "flushed sid i (a # chunks) s u"
  using assms unfolding flushed_def by (elim exE conjE) (auto simp: algebra_simps)

lemma flushToHome_round:
  assumes "sending i s" "findStream sid s = Some st" "\<not> c_congested (chans s i)" "pendingToHome st \<noteq> []"
    "\<not> (limited (sendWindow st) \<and> remaining (sendWindow st) = 0)"
  defines "a \<equiv> take (flush_chunk st) (pendingToHome st)"
  shows "\<exists>t. flushToHome run sid s = run (FlushToHome sid) t \<and> sending i t \<and> flushed sid i [a] s t
    \<and> 0 < length a \<and> length a \<le> kDataFrameMax"
proof -
  let ?n = "flush_chunk st"
  obtain c answers where c: "c_send run i (encodeData sid a) s = Some (s\<lparr>chans := (chans s)(i := c), writeAnswers := answers\<rparr>)"
    "sending i (s\<lparr>chans := (chans s)(i := c), writeAnswers := answers\<rparr>)" "transmitted c = transmitted (chans s i) @ encodeData sid a"
    using c_send_quiet [OF assms(1,3) encodeData_small [OF flush_chunk_le(1)]] unfolding a_def by blast
  let ?u = "s\<lparr>chans := (chans s)(i := c), writeAnswers := answers\<rparr>"
  let ?f = "\<lambda>st. st\<lparr>sendWindow := recordUsed (sendWindow st) (of_nat ?n), pendingToHome := drop ?n (pendingToHome st)\<rparr>"
  let ?t = "updatePending ((stream_upd sid ?f ?u)\<lparr>globalPendingToHome := globalPendingToHome s - of_nat ?n\<rparr>)"
  have "encodeData sid a \<noteq> []" using length_encodeData [of sid a] by auto
  then have "sendFrameToNode run (encodeData sid a) s = Some ?u"
    using c(1) assms(1) by (simp add: sendFrameToNode_def sending_def)
  moreover have "findStream sid ?u = Some st" using assms(2) by (simp add: findStream_def)
  ultimately have "flushToHome run sid s = run (FlushToHome sid) ?t"
    using assms(1-5) unfolding a_def by (auto simp: flushToHome_def sending_def Let_def)
  moreover have "sending i ?t" using c(2) by (simp add: sending_def updatePending_def stream_upd_def)
  moreover have "findStream sid ?t = Some (?f st)"
  proof -
    have "findStream sid (stream_upd sid ?f ?u) = Some (?f st)" using \<open>findStream sid ?u = Some st\<close> by (simp add: findStream_upd)
    then show ?thesis by (simp add: findStream_def updatePending_def)
  qed
  then have "flushed sid i [a] s ?t"
    unfolding flushed_def using assms(2) c(3) spent [of st] flush_chunk_le(2) [of st]
    by (auto simp: a_def updatePending_def stream_upd_def)
  moreover have "0 < length a" "length a \<le> kDataFrameMax"
    using flush_chunk_pos [OF assms(4,5)] flush_chunk_le [of st] by (auto simp: a_def)
  ultimately show ?thesis by blast
qed

lemma flushToHome_loop:
  assumes "sending i s" "findStream sid s = Some st" "\<not> localEof st" "length (pendingToHome st) \<le> n"
  shows "\<exists>t chunks. flushToHome (run_link n) sid s = Some t \<and> flushed sid i chunks s t \<and> flush_over sid i t
    \<and> list_all (\<lambda>c. 0 < length c \<and> length c \<le> kDataFrameMax) chunks"
  using assms
proof (induction n arbitrary: s st)
  case (0 s st)
  then obtain t where "flushToHome (run_link 0) sid s = Some t" "same_flush s t"
    using flush_idle_quiet [of st "run_link 0" sid s] by (auto simp: flushToHome_def sending_def)
  then show ?case using flushed_idle [OF 0(2)] 0(4) by (intro exI [of _ t] exI [of _ "[]"]) simp
next
  case (Suc n s st)
  note live = Suc.prems(1) [unfolded sending_def]
  consider (idle) "pendingToHome st = []"
    | (blocked) "pendingToHome st \<noteq> []" "c_congested (chans s i) \<or> limited (sendWindow st) \<and> remaining (sendWindow st) = 0"
    | (round) "pendingToHome st \<noteq> []" "\<not> c_congested (chans s i)" "\<not> (limited (sendWindow st) \<and> remaining (sendWindow st) = 0)"
    by blast
  then show ?case
  proof cases
    case idle
    then obtain t where "flushToHome (run_link (Suc n)) sid s = Some t" "same_flush s t"
      using flush_idle_quiet [OF Suc.prems(3), of "run_link (Suc n)" sid s] live Suc.prems(2) by (auto simp: flushToHome_def)
    then show ?thesis using flushed_idle [OF Suc.prems(2)] idle by (intro exI [of _ t] exI [of _ "[]"]) simp
  next
    case blocked
    then have "flushToHome (run_link (Suc n)) sid s = Some s" using live Suc.prems(2) by (auto simp: flushToHome_def)
    then show ?thesis
      using flushed_idle [OF Suc.prems(2) same_flush_refl] blocked Suc.prems(2)
      by (intro exI [of _ s] exI [of _ "[]"]) (auto simp: flush_over_def)
  next
    case round
    obtain t a where t: "flushToHome (run_link (Suc n)) sid s = run_link (Suc n) (FlushToHome sid) t" "sending i t"
        "flushed sid i [a] s t" and a: "0 < length a" "length a \<le> kDataFrameMax"
      using flushToHome_round [OF Suc.prems(1,2) round(2,1,3)] by blast
    obtain st' where st': "findStream sid t = Some st'" "\<not> localEof st'" "pendingToHome st = a @ pendingToHome st'"
      using t(3) Suc.prems(2,3) by (auto simp: flushed_def)
    have "length (pendingToHome st') \<le> n" using a(1) arg_cong [OF st'(3), of length] Suc.prems(4) by (cases a) simp_all
    from Suc.IH [OF t(2) st'(1,2) this] obtain u chunks where u: "flushToHome (run_link n) sid t = Some u"
        "flushed sid i chunks t u" "flush_over sid i u" "list_all (\<lambda>c. 0 < length c \<and> length c \<le> kDataFrameMax) chunks"
      by blast
    then show ?thesis
      using t a flushed_step [OF t(3) u(2)] by (intro exI [of _ u] exI [of _ "a # chunks"]) simp
  qed
qed

section \<open>The drain callback inside a send\<close>

lemma sending_same: "sending i s \<Longrightarrow> same_flush s t \<Longrightarrow> sending i t"
  by (simp add: sending_def same_flush_def)

text \<open>The whole of a short stream goes out in one frame.\<close>

lemma flushToHome_once:
  assumes "sending i s" "findStream sid s = Some st" "\<not> c_congested (chans s i)" "pendingToHome st \<noteq> []"
    "length (pendingToHome st) \<le> kDataFrameMax" "\<not> limited (sendWindow st)" "\<not> localEof st"
  shows "\<exists>t. flushToHome (run_link (Suc n)) sid s = Some t \<and> sending i t \<and> flushed sid i [pendingToHome st] s t"
proof -
  have "flush_chunk st = length (pendingToHome st)" using assms(5,6) by (simp add: flush_chunk_def)
  then obtain t where t: "flushToHome (run_link (Suc n)) sid s = run_link (Suc n) (FlushToHome sid) t" "sending i t"
      "flushed sid i [pendingToHome st] s t"
    using flushToHome_round [OF assms(1-4), of "run_link (Suc n)"] assms(6) by auto
  then obtain st' where st': "findStream sid t = Some st'" "pendingToHome st' = []" "\<not> localEof st'"
    using assms(2,7) by (auto simp: flushed_def)
  then obtain u where u: "flush_idle (run_link n) sid st' t = Some u" "same_flush t u"
    using flush_idle_quiet by blast
  have "flushToHome (run_link (Suc n)) sid s = Some u"
    using t(1,2) st' u(1) by (simp add: flushToHome_def sending_def)
  moreover have "flushed sid i [pendingToHome st] s u"
    using flushed_step [OF t(3)] flushed_idle [OF st'(1) u(2)] by blast
  ultimately show ?thesis using sending_same [OF t(2) u(2)] by blast
qed

lemma onDrained_once:
  assumes "sending i s" "streams s = [(sid, st)]" "\<not> c_congested (chans s i)" "pendingToHome st \<noteq> []"
    "length (pendingToHome st) \<le> kDataFrameMax" "\<not> limited (sendWindow st)" "\<not> localEof st" "\<not> linkReadPaused s"
  shows "\<exists>t. onDrained (run_link (Suc n)) s = Some t \<and> sending i t \<and> flushed sid i [pendingToHome st] s t"
proof -
  have st: "findStream sid s = Some st" using assms(2) by (simp add: findStream_def)
  obtain t where t: "flushToHome (run_link (Suc n)) sid s = Some t" "sending i t" "flushed sid i [pendingToHome st] s t"
    using flushToHome_once [OF assms(1) st assms(3-7)] by blast
  let ?u = "resumeLocalReads t"
  have "linkReadPaused t = linkReadPaused s" using t(3) by (auto simp: flushed_def)
  then have "\<not> linkReadPaused ?u" using same_flush_resume [of t] assms(8) by (simp add: same_flush_def)
  then have "resumeLinkRead (run_link (Suc n)) ?u = Some ?u" by (auto simp: resumeLinkRead_def split: option.split)
  then have "onDrained (run_link (Suc n)) s = Some ?u" using t(1) assms(2) by (simp add: onDrained_def)
  moreover obtain st' where "findStream sid t = Some st'" using t(3) by (auto simp: flushed_def)
  then have "flushed sid i [] t ?u" using flushed_idle same_flush_resume by blast
  ultimately show ?thesis using flushed_step [OF t(3)] sending_same [OF t(2) same_flush_resume] by blast
qed

lemma write_loop_whole:
  assumes "buf \<noteq> []" "length buf \<le> n" "length buf \<le> kWriteChunk"
  shows "write_loop buf wire want (Wrote n # answers) = (False, [], wire @ buf, False, answers)"
  using assms by (cases buf) (simp_all add: Let_def)

lemma c_mark_congested_sending:
  assumes "sending i s"
  shows "\<exists>t. c_mark_congested run i s = Some t \<and> sending i t \<and> flushed sid i [] s t = (findStream sid s \<noteq> None)"
proof -
  let ?c = "chans s i"
  let ?d = "if length (c_sendBuffer ?c) \<ge> kSendLimit then ?c\<lparr>c_congestedNotified := True\<rparr> else ?c"
  let ?e = "?d\<lparr>c_interest := c_interestEvents ?d\<rparr>"
  let ?t = "s\<lparr>chans := (chans s)(i := ?e)\<rparr>"
  have "c_mark_congested run i s = Some ?t"
    using assms
    by (cases "c_congestedNotified ?c")
       (auto simp: c_mark_congested_def sending_def c_updateInterest_def chan_upd_def Let_def c_congested_def
         c_interestEvents_def intro!: link_client.equality tls_channel.equality ext)
  moreover have "sending i ?t" using assms by (auto simp: sending_def c_congested_def)
  moreover have "findStream sid ?t = findStream sid s" by (rule findStream_cong) simp
  then have "flushed sid i [] s ?t = (findStream sid s \<noteq> None)"
    by (auto simp: flushed_def transmitted_def)
  ultimately show ?thesis by blast
qed

text \<open>A channel that was marked congested and has drained below the limit, but not to the end.\<close>

definition half_drained :: "nat \<Rightarrow> link_client \<Rightarrow> bool" where
  "half_drained i s \<longleftrightarrow>
     channel s = Some i \<and> c_ready (chans s i) \<and> c_callbacks (chans s i) \<and> \<not> c_closed (chans s i)
     \<and> \<not> c_closeWhenFlushed (chans s i) \<and> c_congestedNotified (chans s i) \<and> \<not> c_congested (chans s i)"

lemma c_send_drains:
  assumes "half_drained i s" "streams s = [(sid, st)]" "pendingToHome st \<noteq> []" "length (pendingToHome st) \<le> kDataFrameMax"
    "\<not> limited (sendWindow st)" "\<not> localEof st" "\<not> linkReadPaused s"
    "writeAnswers s = Wrote m # answers" "list_all accepts answers"
    "length (c_sendBuffer (chans s i) @ data) \<le> min m kWriteChunk" "data \<noteq> []"
  shows "\<exists>t. c_send (run_link (Suc (Suc n))) i data s = Some t \<and> sending i t
    \<and> transmitted (chans t i) = transmitted (chans s i) @ data @ encodeData sid (pendingToHome st)
    \<and> (\<exists>st'. findStream sid t = Some st' \<and> pendingToHome st' = [] \<and> \<not> localEof st' \<and> \<not> limited (sendWindow st'))
    \<and> globalPendingToHome s = globalPendingToHome t + of_nat (length (pendingToHome st))"
proof -
  let ?c = "chans s i" and ?run = "run_link (Suc (Suc n))"
  let ?d = "?c\<lparr>c_sendBuffer := [], c_wire := transmitted ?c @ data, c_wantWrite := False, c_congestedNotified := False\<rparr>"
  let ?u = "s\<lparr>writeAnswers := answers, chans := (chans s)(i := ?d)\<rparr>"
  note h = assms(1) [unfolded half_drained_def]
  have w: "write_loop (c_sendBuffer ?c @ data) (c_wire ?c) (c_wantWrite ?c) (writeAnswers s) = (False, [], transmitted ?c @ data, False, answers)"
    using assms(8,10,11) by (simp add: write_loop_whole transmitted_def)
  have su: "sending i ?u" "\<not> c_congested (chans ?u i)" "streams ?u = [(sid, st)]" "\<not> linkReadPaused ?u"
    using h assms(2,7,9) by (simp_all add: sending_def c_congested_def kSendLimit_def kSendHardCap_def)
  obtain v where v: "onDrained (run_link (Suc n)) ?u = Some v" "sending i v" "flushed sid i [pendingToHome st] ?u v"
    using onDrained_once [OF su(1,3,2) assms(3-6) su(4)] by blast
  have "c_flush ?run i (chan_upd i (\<lambda>c. c\<lparr>c_sendBuffer := c_sendBuffer c @ data\<rparr>) s) = Some v"
    using h w v(1,2) by (simp add: c_flush_def c_write_all_def c_notify_drained_def c_shutdown_def chan_upd_def sending_def Let_def)
  then have "c_send ?run i data s = c_mark_congested ?run i v" using h by (simp add: c_send_def)
  moreover obtain st' where st': "findStream sid v = Some st'" using v(3) by (auto simp: flushed_def)
  obtain t where t: "c_mark_congested ?run i v = Some t" "sending i t" "flushed sid i [] v t"
    using c_mark_congested_sending [OF v(2), of ?run sid] st' by auto
  have "findStream sid ?u = Some st" using su(3) by (simp add: findStream_def)
  then have "flushed sid i [pendingToHome st] ?u t" "transmitted (chans ?u i) = transmitted ?c @ data"
    using flushed_step [OF v(3) t(3)] by (simp_all add: transmitted_def)
  ultimately show ?thesis
    using t \<open>findStream sid ?u = Some st\<close> assms(5,6) by (auto simp: flushed_def)
qed

lemma flushToHome_twice:
  assumes "half_drained i s" "streams s = [(sid, st)]" "pendingToHome st \<noteq> []" "length (pendingToHome st) \<le> kDataFrameMax"
    "\<not> limited (sendWindow st)" "\<not> localEof st" "\<not> linkReadPaused s"
    "writeAnswers s = Wrote m # answers" "list_all accepts answers"
  defines "frame \<equiv> encodeData sid (pendingToHome st)"
  assumes "length (c_sendBuffer (chans s i) @ frame) \<le> min m kWriteChunk"
  shows "\<exists>t. flushToHome (run_link (Suc (Suc n))) sid s = Some t
    \<and> transmitted (chans t i) = transmitted (chans s i) @ frame @ frame
    \<and> globalPendingToHome t = globalPendingToHome s - 2 * of_nat (length (pendingToHome st))"
proof -
  let ?run = "run_link (Suc (Suc n))" and ?k = "length (pendingToHome st)"
  note h = assms(1) [unfolded half_drained_def]
  have ne: "frame \<noteq> []" using length_encodeData [of sid "pendingToHome st"] by (auto simp: frame_def)
  obtain u st' where u: "c_send ?run i frame s = Some u" "sending i u"
      "transmitted (chans u i) = transmitted (chans s i) @ frame @ frame"
      "globalPendingToHome s = globalPendingToHome u + of_nat ?k"
    and st': "findStream sid u = Some st'" "pendingToHome st' = []" "\<not> localEof st'"
    using c_send_drains [OF assms(1-9,11) ne, of n] unfolding frame_def by blast
  have st: "findStream sid s = Some st" using assms(2) by (simp add: findStream_def)
  have chunk: "flush_chunk st = ?k" using assms(4,5) by (simp add: flush_chunk_def)
  let ?f = "\<lambda>st. st\<lparr>sendWindow := recordUsed (sendWindow st) (of_nat ?k), pendingToHome := drop ?k (pendingToHome st)\<rparr>"
  let ?v = "updatePending ((stream_upd sid ?f u)\<lparr>globalPendingToHome := globalPendingToHome u - of_nat ?k\<rparr>)"
  have "sendFrameToNode ?run frame s = Some u" using h ne u(1) by (simp add: sendFrameToNode_def)
  then have fl: "flushToHome ?run sid s = flushToHome (run_link (Suc n)) sid ?v"
    using h st st'(1) assms(3,5) chunk by (subst flushToHome_def) (simp add: frame_def Let_def)
  have fv: "findStream sid ?v = Some (?f st')"
  proof -
    have "findStream sid (stream_upd sid ?f u) = Some (?f st')" using st'(1) by (simp add: findStream_upd)
    then show ?thesis by (simp add: findStream_def updatePending_def)
  qed
  have sv: "channel ?v = Some i" "\<not> c_closed (chans ?v i)" "chans ?v = chans u"
      "globalPendingToHome ?v = globalPendingToHome u - of_nat ?k"
    using u(2) by (simp_all add: sending_def updatePending_def)
  obtain t where t: "flush_idle (run_link (Suc n)) sid (?f st') ?v = Some t" "same_flush ?v t"
    using flush_idle_quiet [of "?f st'" "run_link (Suc n)" sid ?v] st'(3) by (simp del: run_link.simps) blast
  have "flushToHome (run_link (Suc n)) sid ?v = Some t" using fv sv st'(2) t(1) by (simp add: flushToHome_def)
  then show ?thesis
    using fl t(2) sv u(3,4) by (auto simp: same_flush_def algebra_simps)
qed

section \<open>A local socket that breaks during a flush\<close>

lemma closeLocal_broken:
  assumes "streams s = [(sid, st)]" "stream_id st = sid" "pendingToLocal st = []" "local_peer st = Some p" "p_closed (peers s p)"
    "sending i s" "\<not> c_congested (chans s i)" "why \<noteq> LNormal" "\<not> linkReadPaused s"
  shows "\<exists>t. closeLocal run st why s = Some t \<and> streams t = [] \<and> globalPendingToLocal t = globalPendingToLocal s
    \<and> peers t = peers (p_setCallbacks NoCallbacks p s)"
proof -
  let ?u = "updatePending ((erase_stream sid s)\<lparr>globalPendingToHome := globalPendingToHome s - of_nat (length (pendingToHome st)),
     globalPendingToLocal := globalPendingToLocal s\<rparr>)"
  have u: "streams ?u = []" "peers ?u = peers s" "linkReadPaused ?u = linkReadPaused s" "globalPendingToLocal ?u = globalPendingToLocal s"
      "sending i ?u" "chans ?u = chans s"
    using assms(1,6) by (simp_all add: updatePending_def erase_stream_def sending_def Let_def)
  have "length (encodeClose sid why) < kSendHardCap - kSendLimit"
    by (simp add: encodeClose_def length_link_encodeFrame link_kHeaderSize_def kSendHardCap_def kSendLimit_def)
  then obtain c answers where "c_send run i (encodeClose sid why) ?u = Some (?u\<lparr>chans := (chans ?u)(i := c), writeAnswers := answers\<rparr>)"
    using c_send_quiet [OF u(5)] assms(7) u(6) by metis
  moreover have "encodeClose sid why \<noteq> []" by (simp add: encodeClose_def link_encodeFrame_layout)
  ultimately have "sendFrameToNode run (encodeClose sid why) ?u = Some (?u\<lparr>chans := (chans ?u)(i := c), writeAnswers := answers\<rparr>)"
    using u(5) by (simp add: sendFrameToNode_def sending_def)
  then have sent: "\<exists>v. (if helloReceived ?u \<and> \<not> closedByNode st then sendFrameToNode run (encodeClose sid why) ?u else Some ?u) = Some v
      \<and> streams v = [] \<and> peers v = peers s \<and> \<not> linkReadPaused v \<and> globalPendingToLocal v = globalPendingToLocal s"
    using u assms(9) by auto
  then obtain v where v: "(if helloReceived ?u \<and> \<not> closedByNode st then sendFrameToNode run (encodeClose sid why) ?u else Some ?u) = Some v"
      "streams v = []" "peers v = peers s" "\<not> linkReadPaused v" "globalPendingToLocal v = globalPendingToLocal s" by blast
  let ?w = "p_setCallbacks NoCallbacks p v"
  have w: "streams ?w = []" "\<not> linkReadPaused ?w" "globalPendingToLocal ?w = globalPendingToLocal s" "p_closed (peers ?w p)"
      "peers ?w = peers (p_setCallbacks NoCallbacks p s)"
    using v assms(5) by (simp_all add: p_setCallbacks_def peer_upd_def)
  have "releaseLocal run p [] why v = Some ?w" using w(4) by (simp add: releaseLocal_def p_close_def Let_def)
  moreover have "resumeLinkRead run ?w = Some ?w" using w(2) by (auto simp: resumeLinkRead_def split: option.split)
  moreover have "closeLocal run st why s = (if helloReceived ?u \<and> \<not> closedByNode st then sendFrameToNode run (encodeClose sid why) ?u else Some ?u)
      \<bind> (\<lambda>s. releaseLocal run p [] why s \<bind> resumeLinkRead run)"
    using assms(2-4) by (simp add: closeLocal_def Let_def erase_stream_def)
  ultimately have "closeLocal run st why s = Some ?w" using v(1) by simp
  then show ?thesis using w by blast
qed

lemma flushToLocal_broken:
  assumes "streams s = [(sid, st)]" "stream_id st = sid" "pendingToLocal st \<noteq> []" "local_peer st = Some p"
    "\<not> p_closed (peers s p)" "\<not> p_connecting (peers s p)" "\<not> p_congested (peers s p)" "p_callbacks (peers s p) = StreamCallbacks sid"
    "length (p_sendBuffer (peers s p) @ pendingToLocal st) < kSendHardCap"
    "sendAnswers s = SendFailed # answers" "sending i s" "\<not> c_congested (chans s i)" "\<not> linkReadPaused s"
  shows "\<exists>t. flushToLocal (run_link (Suc n)) sid s = Some t \<and> streams t = [] \<and> globalPendingToLocal t = globalPendingToLocal s"
proof -
  let ?data = "pendingToLocal st" and ?run = "run_link (Suc n)"
  let ?e = "stream_upd sid (\<lambda>st. st\<lparr>pendingToLocal := []\<rparr>) s"
  let ?st = "st\<lparr>pendingToLocal := []\<rparr>"
  let ?q = "(peers s p)\<lparr>p_sendBuffer := p_sendBuffer (peers s p) @ ?data, p_closed := True\<rparr>"
  let ?u = "?e\<lparr>sendAnswers := answers, peers := (peers s)(p := ?q)\<rparr>"
  let ?why = "if localAttached st then LError else LBusy"
  have st: "stream_id ?st = sid" "pendingToLocal ?st = []" "local_peer ?st = Some p" "?why \<noteq> LNormal"
    using assms(2,4) by simp_all
  have loop: "send_loop (p_sendBuffer (peers s p) @ ?data) (p_sent (peers s p)) (SendFailed # answers)
      = (True, p_sendBuffer (peers s p) @ ?data, p_sent (peers s p), answers)"
    using assms(3) by (cases "p_sendBuffer (peers s p) @ ?data") auto
  have str: "streams ?e = [(sid, ?st)]" using assms(1) by (simp add: stream_upd_def)
  have up: "streams ?u = [(sid, ?st)]" "sending i ?u" "\<not> c_congested (chans ?u i)" "\<not> linkReadPaused ?u" "p_closed (peers ?u p)"
      "globalPendingToLocal ?u = globalPendingToLocal s"
    using str assms(11-13) by (simp_all add: sending_def stream_upd_def)
  obtain t where t: "closeLocal (run_link n) ?st ?why ?u = Some t" "streams t = []" "globalPendingToLocal t = globalPendingToLocal s"
      "peers t = peers (p_setCallbacks NoCallbacks p ?u)"
    using closeLocal_broken [OF up(1) st(1-3) up(5,2,3) st(4) up(4), of "run_link n"] up(6) by metis
  have "exec_call (run_link n) (PeerClosed sid p) ?u = Some t"
    using t(1) assms(4) up(1) by (simp add: onPeerClosed_def closeStream_def findStream_def)
  then have "p_flush ?run p (peer_upd p (\<lambda>q. q\<lparr>p_sendBuffer := p_sendBuffer q @ ?data\<rparr>) ?e) = Some t"
    using assms(5,6,8,10) loop by (simp add: p_flush_def p_write_all_def p_close_def peer_call_def peer_upd_def stream_upd_def)
  moreover have "p_sendBuffer (peers t p) = p_sendBuffer (peers s p) @ ?data" "p_closed (peers t p)"
    unfolding t(4) by (simp_all add: p_setCallbacks_def)
  then have "\<exists>v. p_mark_congested ?run p t = Some v \<and> streams v = [] \<and> globalPendingToLocal v = globalPendingToLocal s"
    using assms(9) t(2,3) by (auto simp: p_mark_congested_def p_updateInterest_def peer_upd_def Let_def)
  ultimately obtain v where "p_send ?run p ?data ?e = Some v" "streams v = []" "globalPendingToLocal v = globalPendingToLocal s"
    using assms(5) by (auto simp: p_send_def)
  then show ?thesis
    using assms(1,3-5,7) by (simp add: flushToLocal_def findStream_def Let_def)
qed

end
