(* ===== verification/Link_Properties.thy ===== *)
theory Link_Properties
  imports Link_Flush
begin

text \<open>
  What the link client promises in every state it can reach, and how a sweep deals with a link that is
  dead or still being opened.
\<close>

lemma sweep_draining_returns:
  assumes "link_ok s" "no_link s" "channel s = None" "n > 0"
  shows "\<exists>kept t. sweep_draining (run_link n) ds s = Some (kept, t) \<and> channel t = None"
  using assms
proof (induction ds arbitrary: s)
  case (Cons d ds)
  obtain p deadline where d: "d = (p, deadline)" by (rule prod.exhaust)
  have "streams s = []" using Cons.prems by (simp add: no_link_def)
  then obtain t where t: "p_close (run_link n) p s = Some t"
    using p_close_returns [OF Cons.prems(3,1,4), of p] by (metis in_set_conv_nth le_zero_eq length_0_conv not_less_zero)
  then have k: "keeps s t" using link_runs.guar_p_close [of s n p] Cons.prems(1) by (simp add: guar_def)
  then have "link_ok t" "no_link t" "channel t = None"
    using Cons.prems keeps_channel [OF k] by (simp_all add: keeps_def)
  from Cons.IH [OF this Cons.prems(4)] t Cons.IH [OF Cons.prems] show ?case
    unfolding d by (auto split: prod.split)
qed simp

lemma sweep_closed_returns:
  assumes "sweep_link (run_link n) s = closeLink (run_link n) s" "link_ok s" "no_link s" "length (streams s) < n"
  shows "\<exists>t. sweep (run_link n) s = Some t \<and> channel t = None \<and> keeps s t"
proof -
  obtain u where u: "closeLink (run_link n) s = Some u" using closeLink_returns [OF assms(2,4)] by blast
  note ok = assms(2,3)
  have ku: "keeps s u" "channel u = None" using link_runs.closeLink_good [OF u ok(1)] by simp_all
  then have v: "link_ok u" "no_link u" using ok by (simp_all add: keeps_def)
  then have "streams u = []" using ku(2) by (simp add: no_link_def)
  moreover obtain kept t where t: "sweep_draining (run_link n) (drainingPeers u) u = Some (kept, t)" "channel t = None"
    using sweep_draining_returns [OF v ku(2)] assms(4) by (metis gr_zeroI not_less_zero)
  ultimately have "sweep (run_link n) s = Some (t\<lparr>drainingPeers := kept\<rparr>)"
    using assms(1) u by (simp add: sweep_def)
  then show ?thesis
    using t(2) link_runs.guar_sweep [of s n] ok(1) by (auto simp: guar_def)
qed

definition link_overdue :: "link_client \<Rightarrow> bool" where
  "link_overdue s \<longleftrightarrow> channel s \<noteq> None \<and>
     (if connected s then clock s - lastFrameAt s > deadLinkTimeout (options s)
      else clock s - attachedAt s > helloTimeout (options s))"

lemma overdue_sweep_link: "link_overdue s \<Longrightarrow> sweep_link run s = closeLink run s"
  by (auto simp: link_overdue_def sweep_link_def)

lemma overdue_swept:
  assumes "link_inv s" "\<not> stopped s" "link_overdue s" "due_timer SweepTask s \<noteq> None" "maxStreams (limits (options s)) < n"
  shows "\<exists>t. handle_input (run_link n) SweepTimer s = Some t \<and> link_inv t \<and> channel t = None \<and> \<not> stopped t"
proof -
  obtain u where u: "due_timer SweepTask s = Some u" using assms(4) by blast
  then obtain ts where ts: "u = s\<lparr>timers := ts\<rparr>"
    "\<And>k. length (filter (\<lambda>x. snd x = k) ts) = length (armed k s) - of_bool (k = SweepTask)"
    using due_timer_fields by metis
  have ok: "link_ok u" "no_link u"
    using assms(1,2) ts by (auto simp: link_inv_def link_ok_def chans_ok_def streams_ok_def timers_ok_def armed_def no_link_def)
  have "link_overdue u" using assms(3) ts(1) by (simp add: link_overdue_def)
  moreover have "length (streams u) < n"
    using ok(1) assms(5) ts(1) by (simp add: link_ok_def streams_ok_def)
  ultimately obtain t where t: "sweep (run_link n) u = Some t" "channel t = None" "keeps u t"
    using sweep_closed_returns [OF overdue_sweep_link ok] by blast
  have "handle_input (run_link n) SweepTimer s = Some (scheduleSweep t)"
    using u t(1) assms(2) ts(1) by simp
  moreover have "stopped t = stopped s" using t(3) ts(1) by (simp add: keeps_def)
  ultimately show ?thesis
    using handle_input_inv [of n SweepTimer s "scheduleSweep t"] assms(1,2) t(2) by (simp add: scheduleSweep_def)
qed


section \<open>A sample run\<close>

primrec follow :: "nat \<Rightarrow> link_input list \<Rightarrow> link_client \<Rightarrow> link_client option" where
  "follow n [] s = Some s"
| "follow n (inp # inps) s = handle_input (run_link n) inp s \<bind> follow n inps"

lemma follow_reachable: "link_reachable opts q s \<Longrightarrow> follow n inps s = Some t \<Longrightarrow> link_reachable opts q t"
proof (induction inps arbitrary: s)
  case (Cons inp inps)
  then show ?case by (auto simp: bind_eq_Some_conv dest: stepped handled)
qed simp

definition sample_options :: link_options where
  "sample_options = \<lparr>gatewayPort = 8443, pinnedSubjectPublicKeyDer = [1, 2, 3],
     limits = \<lparr>streamPendingCap = 8, globalPendingCap = 16, linkHighWater = 16, maxStreams = 2, streamIdleTimeout = 300000\<rparr>,
     keepaliveActive = 15000, keepaliveIdle = 45000, keepalivePongTimeout = 10000, deadLinkTimeout = 60000, helloTimeout = 10000,
     reconnectBaseMs = 500, reconnectCapMs = 30000, opt_capabilities = 7, opt_homeId = [], deviceDomainSuffix = [],
     serviceListeners = []\<rparr>"

definition sample_frames :: "link_frame list" where
  "sample_frames = [\<lparr>ltype = LHello, lstream = 0, lpayload = [2, 0, 0, 0, 7, 0, 0, 0]\<rparr>, \<lparr>ltype = LOpen, lstream = 5, lpayload = []\<rparr>]"

definition sample_bytes :: bytes where
  "sample_bytes = concat (map link_encodeFrame sample_frames)"

definition quiet :: epoll_events where
  "quiet = \<lparr>ev_in = False, ev_out = False, ev_err = False, ev_hup = False, ev_rdhup = False\<rparr>"

definition sample_dial :: "link_input list" where
  "sample_dial = [Resolved True True,
     ChannelInput 0 \<lparr>in_events = quiet\<lparr>ev_out := True\<rparr>, in_socket_error = False,
       in_handshake = HandshakeDone kAlpnWireName (Some [1, 2, 3]), in_reads = []\<rparr>]"

definition sample_read :: link_input where
  "sample_read = ChannelInput 0 \<lparr>in_events = quiet\<lparr>ev_in := True\<rparr>, in_socket_error = False,
     in_handshake = HandshakeFailed, in_reads = [ReadBytes sample_bytes]\<rparr>"

definition sample_start :: link_client where
  "sample_start = (start (initial_client sample_options 4))\<lparr>clock := 0, sendAnswers := [], writeAnswers := [Wrote 64], dialAnswers := [], randomAnswers := [], jitter := \<lambda>x. x\<rparr>"

lemma sample_start_reachable: "link_reachable sample_options 4 sample_start"
  unfolding sample_start_def
  by (rule stepped [OF started elapsed]) (simp add: start_def scheduleSweep_def connectHome_def initial_client_def)

lemmas sample_chan = chan_upd_def c_interestEvents_def c_updateInterest_def c_close_def c_setCallbacks_def c_applyStaged_def
  c_setReadPaused_def c_write_all_def c_notify_drained_def c_shutdown_def c_flush_def c_mark_congested_def c_send_def verifyPeer_def
  completeConnection_def c_readAvailable_def c_dispatch_ready_def c_dispatch_def c_handleEvents_def c_connect_def
  kSendLimit_def kSendHardCap_def kWriteChunk_def tls_kReadChunk_def c_congested_def

lemma sample_hello_size: "length (encodeHello 7) = 20" "encodeHello 7 \<noteq> []"
  by code_simp+

lemma sample_hello_written: "write_loop (encodeHello 7) [] False [Wrote 64] = (False, [], encodeHello 7, False, [])"
  by (simp add: write_loop_whole sample_hello_size kWriteChunk_def)

lemma sample_hello: "decodeHello \<lparr>ltype = LHello, lstream = 0, lpayload = [2, 0, 0, 0, 7, 0, 0, 0]\<rparr> = \<lparr>version = 2, reserved = 0, capabilities = 7\<rparr>"
  by code_simp

lemma sample_fed: "link_feed link_initial_parser sample_bytes = link_initial_parser\<lparr>lframes := sample_frames\<rparr>"
  unfolding sample_bytes_def
  by (rule link_feed_encoded)
     (simp add: sample_frames_def link_valid_def payload_refusal_def link_kMaxPayload_def kDataFrameMax_def sample_hello kWireVersion_def)

lemma sample_bytes_size: "sample_bytes \<noteq> []" "length sample_bytes \<le> 65536"
  by (simp_all add: sample_bytes_def sample_frames_def link_encodeFrame_layout)

text \<open>The client after the handshake, and after the HELLO and one OPEN of the cloud.\<close>

abbreviation four :: nat where "four \<equiv> Suc (Suc (Suc (Suc 0)))"

lemmas sample_dial_defs = sample_dial_def quiet_def sample_start_def sample_options_def start_def connectHome_def scheduleSweep_def
  initial_client_def openChannel_def installChannelCallbacks_def kKnown_def

lemma sample_dialled:
  "\<exists>s. follow four sample_dial sample_start = Some s \<and> sending 0 s \<and> \<not> c_congested (chans s 0) \<and> \<not> helloReceived s
     \<and> c_wire (chans s 0) = encodeHello 7 \<and> \<not> stopped s"
  apply (simp add: sample_dial_defs chan_upd_def c_setCallbacks_def c_connect_def del: run_link.simps)
  apply (simp add: c_handleEvents_def c_dispatch_def chan_upd_def completeConnection_def del: run_link.simps)
  apply (simp add: verifyPeer_def chan_upd_def c_updateInterest_def c_interestEvents_def)
  apply (simp add: onConnected_def sendFrameToNode_def sample_hello_size)
  apply (simp add: sample_chan sample_hello_written sending_def)
  done

definition linked :: "link_client \<Rightarrow> bool" where
  "linked s \<longleftrightarrow> c_ready (chans s 0) \<and> connected s \<and> map fst (streams s) = [5] \<and> \<not> stopped s \<and> channel s = Some 0
     \<and> clock s = 0 \<and> lastFrameAt s = 0 \<and> timers s = [(1000, SweepTask)]"

lemma sample_linked:
  "\<exists>s. follow four (sample_dial @ [sample_read]) sample_start = Some s \<and> linked s"
  unfolding linked_def
  apply (simp add: sample_dial_defs chan_upd_def c_setCallbacks_def c_connect_def del: run_link.simps)
  apply (simp add: c_handleEvents_def c_dispatch_def chan_upd_def completeConnection_def del: run_link.simps)
  apply (simp add: verifyPeer_def chan_upd_def c_updateInterest_def c_interestEvents_def del: run_link.simps)
  apply (simp add: run_link.simps(2) [of "Suc (Suc (Suc 0))"] del: run_link.simps)
  apply (simp add: onConnected_def sendFrameToNode_def sample_hello_size del: run_link.simps)
  apply (simp add: sample_chan sample_hello_written del: run_link.simps)
  apply (simp add: sample_read_def quiet_def sample_chan sample_bytes_size del: run_link.simps)
  apply (simp add: run_link.simps(2) [of "Suc (Suc (Suc 0))"] handleLinkRead_def sample_fed Let_def del: run_link.simps)
  apply (simp add: sample_bytes_size pumpFrames_def sample_frames_def link_initial_parser_def del: run_link.simps)
  apply (simp add: dispatchFrame_def handleHello_def sample_hello Let_def run_link.simps(2) [of "Suc (Suc 0)"] del: run_link.simps)
  apply (simp add: pumpFrames_def dispatchFrame_def handleOpen_def findStream_def openStream_def Let_def dialListener_def take_dial_def
      stream_upd_def new_stream_def del: run_link.simps)
  apply (simp add: pumpFrames_def run_link.simps(2) [of "Suc 0"] del: run_link.simps)
  apply (simp add: sample_chan kSweepInterval_def del: run_link.simps)
  done

lemma sample_reached: "\<exists>s. link_reachable sample_options 4 s \<and> linked s"
  using sample_linked follow_reachable [OF sample_start_reachable] by blast

lemma sample_limits: "maxStreams (limits sample_options) = 2" "streamPendingCap (limits sample_options) = 8"
  "pinnedSubjectPublicKeyDer sample_options = [1, 2, 3]" "helloTimeout sample_options = 10000" "deadLinkTimeout sample_options = 60000"
  by (simp_all add: sample_options_def)

definition sample_stream :: link_stream where
  "sample_stream = (new_stream 5 (initial_client sample_options 4))\<lparr>pendingToHome := [7, 8, 9]\<rparr>"

definition sample_channel :: tls_channel where
  "sample_channel = (c_connect [1, 2, 3])\<lparr>c_connecting := False, c_ready := True, c_callbacks := True\<rparr>"

definition sample_client :: "tls_channel \<Rightarrow> link_client" where
  "sample_client c = (initial_client sample_options 4)
     \<lparr>channel := Some 0, chans := (\<lambda>_. c), streams := [(5, sample_stream)], streamCount := 1, globalPendingToHome := 3,
      pendingBytes := 3, helloReceived := True, connected := True, writeAnswers := [Wrote 100]\<rparr>"

lemma sample_client_sends:
  "sending 0 (sample_client sample_channel)" "findStream 5 (sample_client c) = Some sample_stream"
  "\<not> localEof sample_stream" "pendingToHome sample_stream = [7, 8, 9]" "\<not> limited (sendWindow sample_stream)"
  by (simp_all add: sample_client_def sample_channel_def sample_stream_def sending_def findStream_def new_stream_def c_connect_def
      initial_client_def CreditWindow_def c_congested_def kSendLimit_def kSendHardCap_def)

section \<open>Properties\<close>

text \<open>C1. In every state that a started client can reach, the streams have distinct names, there are at
  most \<open>maxStreams\<close> of them and \<open>streamCount_\<close> is their number; each stream is stored under its own name, holds at most twice
  \<open>streamPendingCap\<close> bytes for its local socket, and its two credit windows are well formed.\<close>

theorem link_streams_safe:
  assumes "link_reachable opts queueCapacity s"
  shows "distinct (map fst (streams s)) \<and> length (streams s) \<le> maxStreams (limits opts)
    \<and> streamCount s = length (streams s)
    \<and> list_all (\<lambda>(sid, st). stream_id st = sid \<and> length (pendingToLocal st) \<le> 2 * streamPendingCap (limits opts)
         \<and> window_ok (sendWindow st) \<and> window_ok (receiveWindow st)) (streams s)"
  using reachable_inv [OF assms]
  by (auto simp: link_inv_def link_ok_def streams_ok_def stream_ok_def list_all_iff)

theorem link_streams_safe_witness:
  "\<exists>s. link_reachable sample_options 4 s \<and> map fst (streams s) = [5] \<and> streamCount s = 1
     \<and> list_all (\<lambda>(sid, st). stream_id st = sid \<and> length (pendingToLocal st) \<le> 16) (streams s)"
proof -
  obtain s where s: "link_reachable sample_options 4 s" "map fst (streams s) = [5]"
    using sample_reached unfolding linked_def by (elim exE conjE)
  then have "length (streams s) = 1" using length_map [of fst "streams s"] by simp
  then show ?thesis using link_streams_safe [OF s(1)] s by (auto simp: sample_limits list_all_iff)
qed

text \<open>C2. The pinned key: a channel that is ready, or that has ever put a byte on the wire, has
  presented the configured key and agreed on the protocol \<open>argus-link/2\<close>, and the configured key is not empty. No
  other channel is ever used.\<close>

theorem link_pinned_key:
  assumes "link_reachable opts queueCapacity s" "c_ready (chans s i) \<or> c_wire (chans s i) \<noteq> []"
  shows "c_peer (chans s i) = Some (kAlpnWireName, pinnedSubjectPublicKeyDer opts) \<and> pinnedSubjectPublicKeyDer opts \<noteq> []"
  using reachable_inv [OF assms(1)] assms(2)
  by (auto simp: link_inv_def link_ok_def chans_ok_def chan_ok_def)

theorem link_pinned_key_witness:
  "\<exists>s. link_reachable sample_options 4 s \<and> c_ready (chans s 0) \<and> c_peer (chans s 0) = Some (kAlpnWireName, [1, 2, 3])"
proof -
  obtain s where s: "link_reachable sample_options 4 s" "c_ready (chans s 0)"
    using sample_reached unfolding linked_def by (elim exE conjE)
  then show ?thesis using link_pinned_key [OF s(1), of 0] by (auto simp: sample_limits)
qed

text \<open>C7. No channel and no local socket that is open holds the hard cap of bytes, and what holds the soft
  limit has been marked congested.\<close>

theorem link_buffers_bounded:
  assumes "link_reachable opts queueCapacity s"
  shows "(c_closed (chans s i) \<or> (length (c_sendBuffer (chans s i)) < kSendHardCap
      \<and> (c_congested (chans s i) \<longrightarrow> c_congestedNotified (chans s i))))
    \<and> (p_closed (peers s j) \<or> (length (p_sendBuffer (peers s j)) < kSendHardCap
      \<and> (p_congested (peers s j) \<longrightarrow> p_congestedNotified (peers s j))))"
  using reachable_inv [OF assms]
  by (auto simp: link_inv_def link_ok_def chans_ok_def chan_ok_def peer_ok_def buffer_ok_def c_congested_def p_congested_def)

theorem link_buffers_bounded_witness:
  "\<exists>s. link_reachable sample_options 4 s \<and> connected s \<and> (c_closed (chans s 0) \<or> length (c_sendBuffer (chans s 0)) < 4194304)"
proof -
  obtain s where s: "link_reachable sample_options 4 s" "connected s"
    using sample_reached unfolding linked_def by (elim exE conjE)
  then show ?thesis using link_buffers_bounded [OF s(1), of 0 0] by (auto simp: kSendHardCap_def)
qed

text \<open>C3. Never stuck: a client that is not stopped has exactly one sweep armed; while it has no channel
  it holds no stream and no byte, does not count as connected, and a resolution is running or
  exactly one reconnect is armed.\<close>

theorem link_never_stuck:
  assumes "link_reachable opts queueCapacity s" "\<not> stopped s"
  shows "length (armed SweepTask s) = 1 \<and>
    (channel s = None \<longrightarrow> streams s = [] \<and> pendingBytes s = 0 \<and> \<not> connected s
       \<and> (resolving s > 0 \<or> length (armed ReconnectTask s) = 1))"
  using reachable_inv [OF assms(1)] assms(2)
  by (auto simp: link_inv_def link_ok_def timers_ok_def no_link_def)

theorem link_never_stuck_witness:
  "\<exists>s. link_reachable sample_options 4 s \<and> connected s \<and> length (armed SweepTask s) = 1"
proof -
  obtain s where s: "link_reachable sample_options 4 s" "connected s" "\<not> stopped s"
    using sample_reached unfolding linked_def by (elim exE conjE)
  then show ?thesis using link_never_stuck [OF s(1,3)] by auto
qed

text \<open>C5. A connected link on which no frame has come for longer than \<open>deadLinkTimeout\<close>, and a link that is not
  up \<open>helloTimeout\<close> after \<open>attachedAt_\<close>, is dropped by the next sweep: the sweep returns, whatever the streams and
  sockets are doing, and leaves a client that will reconnect.\<close>

theorem overdue_link_dropped:
  assumes "link_reachable opts queueCapacity s" "\<not> stopped s" "link_overdue s" "due_timer SweepTask s \<noteq> None"
    "maxStreams (limits opts) < n"
  shows "\<exists>t. handle_input (run_link n) SweepTimer s = Some t \<and> channel t = None \<and> streams t = [] \<and> \<not> connected t
    \<and> (reconnectPending t \<or> resolving t > 0)"
proof -
  have "link_inv s" "options s = opts" using reachable_inv [OF assms(1)] by simp_all
  then obtain t where "handle_input (run_link n) SweepTimer s = Some t" "link_inv t" "channel t = None" "\<not> stopped t"
    using overdue_swept assms(2-5) by blast
  then show ?thesis by (auto simp: link_inv_def no_link_def)
qed

theorem overdue_link_dropped_witness:
  "\<exists>s t. link_reachable sample_options 4 s \<and> connected s \<and> map fst (streams s) = [5]
     \<and> handle_input (run_link 3) SweepTimer s = Some t \<and> channel t = None \<and> streams t = [] \<and> \<not> connected t"
proof -
  obtain s where s: "link_reachable sample_options 4 s" "connected s" "map fst (streams s) = [5]" "\<not> stopped s" "channel s = Some 0"
      "clock s = 0" "lastFrameAt s = 0" "timers s = [(1000, SweepTask)]"
    using sample_reached unfolding linked_def by (elim exE conjE)
  let ?s = "s\<lparr>clock := 70000, sendAnswers := [], writeAnswers := [], dialAnswers := [], randomAnswers := [], jitter := \<lambda>x. x\<rparr>"
  have r: "link_reachable sample_options 4 ?s" by (rule stepped [OF s(1) elapsed]) (simp add: s)
  have "options ?s = sample_options" using reachable_inv [OF s(1)] by simp
  then have "link_overdue ?s" using s by (simp add: link_overdue_def sample_limits)
  moreover have "due_timer SweepTask ?s \<noteq> None" "\<not> stopped ?s" using s by (simp_all add: due_timer_def)
  ultimately obtain t where "handle_input (run_link 3) SweepTimer ?s = Some t \<and> channel t = None \<and> streams t = [] \<and> \<not> connected t"
    using overdue_link_dropped [OF r, of 3] by (auto simp: sample_limits)
  with r s show ?thesis by (intro exI [of _ ?s] exI [of _ t]) simp
qed

text \<open>C10. A link that is still being dialled need not be given \<open>helloTimeout\<close>: \<open>attachedAt_\<close> is only
  set when the handshake is over. For all options and every moment past \<open>helloTimeout\<close> and the first sweep there is a
  run of a client that was never attached in which the resolver answers and a sweep is due at the same instant: the
  answer opens a channel that is connecting, and the sweep drops it with no time elapsed.\<close>

theorem fresh_link_swept:
  assumes "kSweepInterval \<le> now" "helloTimeout opts < now"
  shows "\<exists>s t. link_reachable opts queueCapacity s \<and> resolving s = 1 \<and> clock s = now
    \<and> handle_input (run_link n) (Resolved True True) s = Some t \<and> channel t = Some 0 \<and> c_connecting (chans t 0)
    \<and> map_option channel (handle_input (run_link (Suc n)) SweepTimer t) = Some None"
proof -
  let ?i = "start (initial_client opts queueCapacity)"
  let ?s = "?i\<lparr>clock := now, sendAnswers := [], writeAnswers := [], dialAnswers := [], randomAnswers := [], jitter := \<lambda>x. x\<rparr>"
  let ?t = "openChannel True True (?s\<lparr>resolving := 0\<rparr>)"
  have "clock ?i \<le> now" using assms(1) by (simp add: kSweepInterval_def start_def scheduleSweep_def connectHome_def initial_client_def)
  then have r: "link_reachable opts queueCapacity ?s" by (intro stepped [OF started] elapsed)
  have res: "resolving ?s = 1" by (simp add: start_def scheduleSweep_def connectHome_def initial_client_def)
  have t: "handle_input (run_link n) (Resolved True True) ?s = Some ?t" using res by simp
  have ch: "channel ?t = Some 0 \<and> c_connecting (chans ?t 0)"
    by (simp add: openChannel_def start_def scheduleSweep_def connectHome_def initial_client_def installChannelCallbacks_def
        c_setCallbacks_def chan_upd_def c_connect_def)
  have "map_option channel (handle_input (run_link (Suc n)) SweepTimer ?t) = Some None"
    using assms
    by (simp add: openChannel_def start_def scheduleSweep_def connectHome_def initial_client_def installChannelCallbacks_def
        c_setCallbacks_def chan_upd_def c_connect_def due_timer_def sweep_def sweep_link_def closeLink_def c_close_def
        teardownStreams_def reset_link_def scheduleReconnect_def armReconnect_def nextDelayMs_def updatePending_def Let_def)
  with r res t ch show ?thesis by (intro exI [of _ ?s] exI [of _ ?t]) simp
qed

theorem fresh_link_swept_witness:
  "\<exists>s t. link_reachable sample_options 4 s \<and> clock s = 20000
    \<and> handle_input (run_link 1) (Resolved True True) s = Some t \<and> channel t = Some 0
    \<and> map_option channel (handle_input (run_link 2) SweepTimer t) = Some None"
proof -
  have "kSweepInterval \<le> 20000" "helloTimeout sample_options < 20000" by (simp_all add: kSweepInterval_def sample_limits)
  from fresh_link_swept [OF this, of 4 1] show ?thesis unfolding numeral_2_eq_2 One_nat_def by blast
qed

text \<open>C4. A flush of a stream to the cloud under four conditions: the channel is ready, below its hard cap and not
  to be closed once it is flushed; it carries no stale congestion mark, that is one it has already drained below; every
  \<open>SSL_write\<close> to come accepts something or asks to be tried again; and the local socket has not ended. Then the flush
  returns, and has sent a prefix of the pending bytes, in order and each byte once, in DATA frames of at
  most \<open>kDataFrameMax\<close> bytes; the counter of pending bytes and the credit of the stream have gone down by exactly
  that much, and it stopped because nothing is left, the channel is congested or the credit is used up. Without the
  second condition a byte can be sent twice, as \<open>flush_sends_twice\<close> shows.\<close>

theorem flush_in_order:
  assumes "sending i s" "findStream sid s = Some st" "\<not> localEof st" "length (pendingToHome st) \<le> n"
  shows "\<exists>t chunks. flushToHome (run_link n) sid s = Some t \<and> flushed sid i chunks s t \<and> flush_over sid i t
    \<and> list_all (\<lambda>c. 0 < length c \<and> length c \<le> kDataFrameMax) chunks"
  using assms by (rule flushToHome_loop)

theorem flush_in_order_witness:
  "\<exists>t chunks. flushToHome (run_link 3) 5 (sample_client sample_channel) = Some t
     \<and> flushed 5 0 chunks (sample_client sample_channel) t \<and> flush_over 5 0 t"
  using flush_in_order [OF sample_client_sends(1,2,3), of 3] by (auto simp: sample_client_sends(4))

text \<open>C6. On a channel that was marked congested and has drained below the limit but not to the end,
  a flush whose send drains the channel runs the drain callback before the pending bytes are taken off the
  stream: the same bytes go out twice, and the counter of pending bytes goes down twice.\<close>

theorem flush_sends_twice:
  assumes "half_drained i s" "streams s = [(sid, st)]" "pendingToHome st \<noteq> []" "length (pendingToHome st) \<le> kDataFrameMax"
    "\<not> limited (sendWindow st)" "\<not> localEof st" "\<not> linkReadPaused s"
    "writeAnswers s = Wrote m # answers" "list_all accepts answers"
    "length (c_sendBuffer (chans s i) @ encodeData sid (pendingToHome st)) \<le> min m kWriteChunk"
  shows "\<exists>t. flushToHome (run_link (Suc (Suc n))) sid s = Some t
    \<and> transmitted (chans t i) = transmitted (chans s i) @ encodeData sid (pendingToHome st) @ encodeData sid (pendingToHome st)
    \<and> globalPendingToHome t = globalPendingToHome s - 2 * of_nat (length (pendingToHome st))"
  using assms by (rule flushToHome_twice)

theorem flush_sends_twice_witness:
  "\<exists>t. flushToHome (run_link 2) 5 (sample_client (sample_channel\<lparr>c_congestedNotified := True, c_sendBuffer := [1]\<rparr>)) = Some t
     \<and> transmitted (chans t 0) = [1] @ encodeData 5 [7, 8, 9] @ encodeData 5 [7, 8, 9] \<and> globalPendingToHome t = - 3"
proof -
  let ?s = "sample_client (sample_channel\<lparr>c_congestedNotified := True, c_sendBuffer := [1]\<rparr>)"
  have "half_drained 0 ?s"
    by (simp add: half_drained_def sample_client_def sample_channel_def c_connect_def c_congested_def kSendLimit_def)
  moreover have "streams ?s = [(5, sample_stream)]" "\<not> linkReadPaused ?s" "writeAnswers ?s = Wrote 100 # []"
      "globalPendingToHome ?s = 3" "c_sendBuffer (chans ?s 0) = [1]" "transmitted (chans ?s 0) = [1]"
    by (simp_all add: sample_client_def initial_client_def sample_channel_def transmitted_def c_connect_def)
  ultimately show ?thesis
    using flush_sends_twice [of 0 ?s 5 sample_stream 100 "[]" 0]
    by (simp add: sample_client_sends length_encodeData kDataFrameMax_def kWriteChunk_def numeral_2_eq_2)
qed

text \<open>C8. When the local socket breaks while the bytes held for it are being flushed, the stream is closed with its
  bytes already moved away, so \<open>globalPendingToLocal_\<close> keeps counting bytes that no stream holds.\<close>

theorem flush_leaks_pending:
  assumes "streams s = [(sid, st)]" "stream_id st = sid" "pendingToLocal st \<noteq> []" "local_peer st = Some p"
    "\<not> p_closed (peers s p)" "\<not> p_connecting (peers s p)" "\<not> p_congested (peers s p)" "p_callbacks (peers s p) = StreamCallbacks sid"
    "length (p_sendBuffer (peers s p) @ pendingToLocal st) < kSendHardCap"
    "sendAnswers s = SendFailed # answers" "sending i s" "\<not> c_congested (chans s i)" "\<not> linkReadPaused s"
  shows "\<exists>t. flushToLocal (run_link (Suc n)) sid s = Some t \<and> streams t = [] \<and> globalPendingToLocal t = globalPendingToLocal s"
  using assms by (rule flushToLocal_broken)

theorem flush_leaks_pending_witness:
  "\<exists>t. flushToLocal (run_link 1) 5 ((sample_client sample_channel)
       \<lparr>streams := [(5, sample_stream\<lparr>pendingToLocal := [4, 5], local_peer := Some 0\<rparr>)], globalPendingToLocal := 2,
        peers := (\<lambda>_. (p_connect 8443 (StreamCallbacks 5))\<lparr>p_connecting := False, p_connected := True\<rparr>),
        sendAnswers := [SendFailed]\<rparr>) = Some t \<and> streams t = [] \<and> globalPendingToLocal t = 2"
proof -
  let ?s = "(sample_client sample_channel)
       \<lparr>streams := [(5, sample_stream\<lparr>pendingToLocal := [4, 5], local_peer := Some 0\<rparr>)], globalPendingToLocal := 2,
        peers := (\<lambda>_. (p_connect 8443 (StreamCallbacks 5))\<lparr>p_connecting := False, p_connected := True\<rparr>),
        sendAnswers := [SendFailed]\<rparr>"
  have "sending 0 ?s" using sample_client_sends(1) by (simp add: sending_def)
  moreover have "\<not> c_congested (chans ?s 0)" "\<not> linkReadPaused ?s"
    by (simp_all add: sample_client_def sample_channel_def c_connect_def c_congested_def kSendLimit_def initial_client_def)
  ultimately show ?thesis
    using flush_leaks_pending [of ?s 5 "sample_stream\<lparr>pendingToLocal := [4, 5], local_peer := Some 0\<rparr>" 0 "[]" 0 0]
    by (simp add: sample_stream_def new_stream_def p_connect_def p_congested_def kSendLimit_def kSendHardCap_def)
qed

text \<open>C9. The first frame of the cloud must be HELLO: any other frame on a live channel before it ends the link; the
  client is then down, holds no stream and will reconnect unless it is stopped.\<close>

theorem hello_comes_first:
  assumes "link_reachable opts queueCapacity s" "sending i s" "\<not> c_congested (chans s i)" "\<not> helloReceived s"
    "ltype f \<noteq> LHello" "maxStreams (limits opts) < n"
  shows "\<exists>t. dispatchFrame (run_link n) f s = Some t \<and> channel t = None \<and> streams t = [] \<and> \<not> connected t
    \<and> (stopped t \<or> reconnectPending t \<or> resolving t > 0)"
proof -
  have inv: "link_ok s" "no_link s" "options s = opts" using reachable_inv [OF assms(1)] by (simp_all add: link_inv_def)
  let ?s = "s\<lparr>lastFrameAt := clock s, observed := observed s @ [OnWireError HelloRequired]\<rparr>"
  have live: "sending i ?s" "\<not> c_congested (chans ?s i)" using assms(2,3) by (simp_all add: sending_def)
  have "length (encodeGoAway ProtocolError 0) < kSendHardCap - kSendLimit"
    by (simp add: encodeGoAway_def length_link_encodeFrame link_kHeaderSize_def kSendHardCap_def kSendLimit_def link_appendU16_def)
  from c_send_quiet [OF live this] obtain c answers where
    c: "c_send (run_link n) i (encodeGoAway ProtocolError 0) ?s = Some (?s\<lparr>chans := (chans ?s)(i := c), writeAnswers := answers\<rparr>)"
    by blast
  let ?u = "?s\<lparr>chans := (chans ?s)(i := c), writeAnswers := answers\<rparr>"
  have ne: "encodeGoAway ProtocolError 0 \<noteq> []" by (simp add: encodeGoAway_def link_encodeFrame_layout)
  have sent: "sendFrameToNode (run_link n) (encodeGoAway ProtocolError 0) ?s = Some ?u"
    using c ne live(1) by (simp add: sendFrameToNode_def sending_def)
  then have "keeps ?s ?u" "link_ok ?s"
    using link_runs.guar_sendFrameToNode [of ?s n "encodeGoAway ProtocolError 0"] inv(1)
    by (simp_all add: guar_def link_ok_def chans_ok_def streams_ok_def timers_ok_def armed_def)
  then have ok: "link_ok ?u" "no_link ?u"
    using inv(2) live(1) by (auto simp: keeps_def no_link_def sending_def)
  obtain t where t: "closeLink (run_link n) ?u = Some t"
    using closeLink_returns [OF ok(1), of n] inv(1,3) assms(6) by (auto simp: link_ok_def streams_ok_def)
  then have "keeps ?u t \<and> channel t = None" using link_runs.closeLink_good ok(1) by blast
  then have "no_link t" "channel t = None" using ok by (simp_all add: keeps_def)
  moreover have "dispatchFrame (run_link n) f s = Some t"
    using sent t assms(4,5) by (simp add: dispatchFrame_def refuseLink_def goAwayAndClose_def)
  ultimately show ?thesis by (auto simp: no_link_def)
qed

theorem hello_comes_first_witness:
  "\<exists>s t. link_reachable sample_options 4 s \<and> dispatchFrame (run_link 3) \<lparr>ltype = LOpen, lstream = 5, lpayload = []\<rparr> s = Some t
     \<and> channel t = None \<and> streams t = []"
proof -
  obtain s where s: "follow four sample_dial sample_start = Some s" "sending 0 s" "\<not> c_congested (chans s 0)" "\<not> helloReceived s"
    using sample_dialled by blast
  then have r: "link_reachable sample_options 4 s" using follow_reachable [OF sample_start_reachable] by blast
  from hello_comes_first [OF this s(2-4), of "\<lparr>ltype = LOpen, lstream = 5, lpayload = []\<rparr>" 3] r
  show ?thesis by (auto simp: sample_limits)
qed

end
