(* ===== verification/Calendar.thy ===== *)
theory Calendar
  imports Prelude
begin

text \<open>
  The proleptic Gregorian calendar of \<open>recurrence.cc\<close>: the number of a day since 1970 and the
  date of a day number, with the era arithmetic written as the code has it, truncating
  divisions included.
\<close>

section \<open>Dates\<close>

record civil_date =
  year :: int
  month :: int
  day :: int

definition dayNumberOf :: "civil_date \<Rightarrow> int" where
  "dayNumberOf date =
     (let y = year date - (if month date \<le> 2 then 1 else 0);
          era = tdiv (if y \<ge> 0 then y else y - 399) 400;
          yearOfEra = y - era * 400;
          m = month date;
          dayOfYear = tdiv (153 * (m + (if m > 2 then - 3 else 9)) + 2) 5 + day date - 1;
          dayOfEra = yearOfEra * 365 + tdiv yearOfEra 4 - tdiv yearOfEra 100 + dayOfYear
      in era * 146097 + dayOfEra - 719468)"

definition civilFromDays :: "int \<Rightarrow> civil_date" where
  "civilFromDays days0 =
     (let days = days0 + 719468;
          era = tdiv (if days \<ge> 0 then days else days - 146096) 146097;
          dayOfEra = days - era * 146097;
          yearOfEra = tdiv (dayOfEra - tdiv dayOfEra 1460 + tdiv dayOfEra 36524 - tdiv dayOfEra 146096) 365;
          dayOfYear = dayOfEra - (365 * yearOfEra + tdiv yearOfEra 4 - tdiv yearOfEra 100);
          monthIndex = tdiv (5 * dayOfYear + 2) 153;
          d = dayOfYear - tdiv (153 * monthIndex + 2) 5 + 1;
          m = (if monthIndex < 10 then monthIndex + 3 else monthIndex - 9);
          y = yearOfEra + era * 400 + (if m \<le> 2 then 1 else 0)
      in \<lparr>year = to_int32 y, month = to_int32 m, day = to_int32 d\<rparr>)"

definition is_leap :: "int \<Rightarrow> bool" where
  "is_leap y \<longleftrightarrow> (tmod y 4 = 0 \<and> tmod y 100 \<noteq> 0) \<or> tmod y 400 = 0"

definition month_days :: "int list" where
  "month_days = [31, 28, 31, 30, 31, 30, 31, 31, 30, 31, 30, 31]"

definition daysInMonth :: "civil_date \<Rightarrow> int" where
  "daysInMonth date =
     (if month date = 2 \<and> is_leap (year date) then 29 else month_days ! nat (month date - 1))"

section \<open>Lemmas\<close>

definition valid_date :: "civil_date \<Rightarrow> bool" where
  "valid_date d \<longleftrightarrow> 1 \<le> month d \<and> month d \<le> 12 \<and> 1 \<le> day d \<and> day d \<le> daysInMonth d"

lemma div_eqI: "(b :: int) * k \<le> a \<Longrightarrow> a < b * (k + 1) \<Longrightarrow> 0 < b \<Longrightarrow> a div b = k"
  by (rule int_div_pos_eq [of a b k "a - b * k"]) (auto simp: algebra_simps)

lemma tdiv_neg: "a < 0 \<Longrightarrow> 0 < b \<Longrightarrow> tdiv a b = - ((- a) div b)"
  by (simp add: tdiv_def)

lemma tdiv_floor: "0 < b \<Longrightarrow> tdiv (if 0 \<le> a then a else a - (b - 1)) b = a div b"
proof (cases "0 \<le> a")
  case False
  assume b: "0 < b"
  define n where "n = - a + (b - 1)"
  define m where "m = n div b"
  have "b * m + n mod b = n" "0 \<le> n mod b" "n mod b < b"
    using b by (simp_all add: m_def)
  then have "b * m \<le> n" "n < b * m + b" by linarith+
  then have "a div b = - m"
    using b by (intro div_eqI) (auto simp: n_def algebra_simps)
  with False b show ?thesis
    by (simp add: tdiv_neg m_def n_def algebra_simps)
qed (simp add: tdiv_nonneg)

lemma tdiv_era:
  assumes "0 < b" "k = b - 1"
  shows "tdiv (if 0 \<le> a then a else a - k) b = a div b"
  unfolding assms(2) by (rule tdiv_floor [OF assms(1)])

lemma mod_self_iff: "1 \<le> x \<Longrightarrow> x \<le> n \<Longrightarrow> (x mod n = 0) = (x = (n :: int))"
  by (cases "x = n") auto

lemma tmod_zero: "0 < b \<Longrightarrow> (tmod a b = 0) = (a mod b = 0)"
proof (cases "0 \<le> a")
  case False
  assume "0 < b"
  with False have "tmod a b = - ((- a) mod b)"
    by (simp add: tmod_def tdiv_neg minus_div_mult_eq_mod [symmetric])
  then show ?thesis
    by (simp add: mod_eq_0_iff_dvd)
qed (simp add: tmod_nonneg)

lemma is_leap_mod: "is_leap y \<longleftrightarrow> (y mod 4 = 0 \<and> y mod 100 \<noteq> 0) \<or> y mod 400 = 0"
  by (simp add: is_leap_def tmod_zero)

subsection \<open>Years within an era\<close>

text \<open>
  A year of the era is \<open>100 c + 4 q + r\<close>. It begins with March, so that the leap day is its
  last; \<open>leap_year_of_era\<close> says that it has one.
\<close>

definition leap_year_of_era :: "int \<Rightarrow> int \<Rightarrow> int \<Rightarrow> bool" where
  "leap_year_of_era c q r \<longleftrightarrow> r = 3 \<and> (q \<noteq> 24 \<or> c = 3)"

definition era_coords :: "int \<Rightarrow> int \<Rightarrow> int \<Rightarrow> int \<Rightarrow> bool" where
  "era_coords c q r doy \<longleftrightarrow> 0 \<le> c \<and> c \<le> 3 \<and> 0 \<le> q \<and> q \<le> 24 \<and> 0 \<le> r \<and> r \<le> 3
     \<and> 0 \<le> doy \<and> doy \<le> (if leap_year_of_era c q r then 365 else 364)"

definition year_of_coords :: "int \<Rightarrow> int \<Rightarrow> int \<Rightarrow> int" where
  "year_of_coords c q r = 100 * c + 4 * q + r"

lemma year_start:
  assumes "era_coords c q r doy"
  defines "y \<equiv> year_of_coords c q r"
  shows "y * 365 + y div 4 - y div 100 = 36524 * c + 1461 * q + 365 * r"
proof -
  have "y div 100 = c" "y div 4 = 25 * c + q"
    using assms by (auto intro!: div_eqI simp: y_def era_coords_def year_of_coords_def)
  then show ?thesis
    by (simp add: y_def year_of_coords_def)
qed

lemma year_of_day:
  assumes "era_coords c q r doy"
  defines "doe \<equiv> 36524 * c + 1461 * q + 365 * r + doy"
  shows "(doe - doe div 1460 + doe div 36524 - doe div 146096) div 365 = year_of_coords c q r"
proof -
  let ?t = "24 * c + q + 365 * r + doy"
  have ranges: "0 \<le> c" "c \<le> 3" "0 \<le> q" "q \<le> 24" "0 \<le> r" "r \<le> 3" "0 \<le> doy"
    "doy \<le> 365" "doy = 365 \<Longrightarrow> r = 3 \<and> (q \<noteq> 24 \<or> c = 3)"
    using assms by (auto simp: era_coords_def leap_year_of_era_def split: if_splits)
  define k where "k = (if ?t \<ge> 1460 then 1 else 0 :: int)"
  have century: "doe div 36524 - doe div 146096 = c"
  proof (cases "doe = 146096")
    case True
    then have "c = 3" using ranges by (auto simp: doe_def)
    then show ?thesis by (simp add: True)
  next
    case False
    have "1461 * q + 365 * r + doy \<le> 36523"
    proof (rule ccontr)
      assume "\<not> ?thesis"
      then have "q = 24" "r = 3" "doy = 365" using ranges by auto
      with ranges(9) False show False by (simp add: doe_def)
    qed
    then have "doe div 36524 = c"
      using ranges by (intro div_eqI) (auto simp: doe_def)
    moreover have "doe div 146096 = 0"
      using ranges False \<open>1461 * q + 365 * r + doy \<le> 36523\<close> by (intro div_eqI) (auto simp: doe_def)
    ultimately show ?thesis by simp
  qed
  have "doe div 1460 = 25 * c + q + k"
    using ranges by (intro div_eqI) (auto simp: doe_def k_def)
  with century have "doe - doe div 1460 + doe div 36524 - doe div 146096
      = 365 * year_of_coords c q r + (doy - k)"
    by (simp add: doe_def year_of_coords_def)
  moreover have "0 \<le> doy - k \<and> doy - k \<le> 364"
    using ranges by (cases "doy = 365") (auto simp: k_def)
  ultimately show ?thesis
    by (auto intro!: div_eqI)
qed

lemma day_coords:
  assumes "0 \<le> doe" "doe \<le> 146096"
  obtains c q r doy where "era_coords c q r doy" "doe = 36524 * c + 1461 * q + 365 * r + doy"
proof -
  define c where "c = min 3 (doe div 36524)"
  define d1 where "d1 = doe - 36524 * c"
  have c: "0 \<le> c" "c \<le> 3" "0 \<le> d1" "d1 \<le> (if c = 3 then 36524 else 36523)"
    using assms by (auto simp: c_def d1_def min_def)
  define q where "q = min 24 (d1 div 1461)"
  define d2 where "d2 = d1 - 1461 * q"
  have q: "0 \<le> q" "q \<le> 24" "0 \<le> d2" "d2 \<le> (if q = 24 \<and> c \<noteq> 3 then 1459 else 1460)"
    using c by (auto simp: q_def d2_def min_def split: if_splits)
  define r where "r = min 3 (d2 div 365)"
  define doy where "doy = d2 - 365 * r"
  have "0 \<le> r" "r \<le> 3" "0 \<le> doy" "doy \<le> (if leap_year_of_era c q r then 365 else 364)"
    using q by (auto simp: r_def doy_def min_def leap_year_of_era_def split: if_splits)
  then have "era_coords c q r doy"
    using c q by (simp add: era_coords_def)
  moreover have "doe = 36524 * c + 1461 * q + 365 * r + doy"
    by (simp add: doy_def d2_def d1_def)
  ultimately show ?thesis by (rule that)
qed


subsection \<open>Months within a year\<close>

text \<open>The twelve months from March on, and their lengths.\<close>

definition month_length :: "int \<Rightarrow> int" where
  "month_length i = [31, 30, 31, 30, 31, 31, 30, 31, 30, 31, 31, 29] ! nat i"

lemma month_index_cases:
  assumes "0 \<le> i" "i \<le> (11 :: int)"
  obtains "i = 0" | "i = 1" | "i = 2" | "i = 3" | "i = 4" | "i = 5" | "i = 6" | "i = 7" | "i = 8"
    | "i = 9" | "i = 10" | "i = 11"
proof -
  have "i = 0 \<or> i = 1 \<or> i = 2 \<or> i = 3 \<or> i = 4 \<or> i = 5 \<or> i = 6 \<or> i = 7 \<or> i = 8 \<or> i = 9
      \<or> i = 10 \<or> i = 11"
    using assms by presburger
  then show ?thesis using that by blast
qed

lemma month_length_le: "0 \<le> i \<Longrightarrow> i \<le> 11 \<Longrightarrow> month_length i \<le> 31"
  by (cases rule: month_index_cases [of i]) (simp_all add: month_length_def)

lemma month_of_day:
  assumes "0 \<le> i" "i \<le> 11" "1 \<le> d" "d \<le> month_length i"
  shows "(5 * ((153 * i + 2) div 5 + d - 1) + 2) div 153 = i"
  using assms(1,2)
  by (cases rule: month_index_cases)
     (use assms(3,4) in \<open>auto simp: month_length_def intro!: div_eqI\<close>)

lemma day_of_month:
  assumes "0 \<le> doy" "doy \<le> 365"
  defines "i \<equiv> (5 * doy + 2) div 153"
  shows "0 \<le> i \<and> i \<le> 11 \<and> 1 \<le> doy - (153 * i + 2) div 5 + 1 \<and> doy - (153 * i + 2) div 5 + 1 \<le> month_length i"
proof -
  have i: "0 \<le> i" "i \<le> 11" "153 * i \<le> 5 * doy + 2" "5 * doy + 2 < 153 * i + 153"
    using assms by (auto simp: i_def)
  from i(1,2) have "1 \<le> doy - (153 * i + 2) div 5 + 1 \<and> doy - (153 * i + 2) div 5 + 1 \<le> month_length i"
    by (cases rule: month_index_cases) (use i(3,4) assms(1,2) in \<open>auto simp: month_length_def\<close>)
  with i show ?thesis by blast
qed


subsection \<open>Dates and day numbers\<close>

definition shifted_year :: "civil_date \<Rightarrow> int" where
  "shifted_year d = year d - (if month d \<le> 2 then 1 else 0)"

definition month_index :: "civil_date \<Rightarrow> int" where
  "month_index d = month d + (if month d > 2 then - 3 else 9)"

definition date_of :: "int \<Rightarrow> int \<Rightarrow> int \<Rightarrow> civil_date" where
  "date_of y i d = \<lparr>year = y + (if i < 10 then 0 else 1), month = if i < 10 then i + 3 else i - 9, day = d\<rparr>"

lemma date_of_shifted: "1 \<le> month d \<Longrightarrow> month d \<le> 12 \<Longrightarrow> date_of (shifted_year d) (month_index d) (day d) = d"
  by (auto simp: date_of_def shifted_year_def month_index_def)

lemma shifted_date_of:
  "0 \<le> i \<Longrightarrow> i \<le> 11 \<Longrightarrow> shifted_year (date_of y i d) = y \<and> month_index (date_of y i d) = i \<and> day (date_of y i d) = d"
  by (auto simp: date_of_def shifted_year_def month_index_def)

lemma leap_of_coords:
  assumes "era_coords c q r doy"
  shows "leap_year_of_era c q r \<longleftrightarrow> is_leap (400 * e + year_of_coords c q r + 1)"
proof -
  let ?y = "400 * e + year_of_coords c q r"
  have ranges: "0 \<le> c" "c \<le> 3" "0 \<le> q" "q \<le> 24" "0 \<le> r" "r \<le> 3"
    using assms by (auto simp: era_coords_def)
  have "?y + 1 = (r + 1) + 4 * (100 * e + 25 * c + q)" "?y + 1 = (4 * q + r + 1) + 100 * (4 * e + c)"
    "?y + 1 = (100 * c + 4 * q + r + 1) + 400 * e"
    by (simp_all add: year_of_coords_def)
  then have "(?y + 1) mod 4 = (r + 1) mod 4" "(?y + 1) mod 100 = (4 * q + r + 1) mod 100"
    "(?y + 1) mod 400 = (100 * c + 4 * q + r + 1) mod 400"
    by (metis mod_mult_self2)+
  moreover have "r + 1 = 4 \<longleftrightarrow> r = 3" by linarith
  moreover have "4 * q + r + 1 = 100 \<longleftrightarrow> q = 24 \<and> r = 3"
    using ranges by presburger
  moreover have "100 * c + 4 * q + r + 1 = 400 \<longleftrightarrow> c = 3 \<and> q = 24 \<and> r = 3"
    using ranges by presburger
  ultimately show ?thesis
    using ranges by (auto simp: is_leap_mod leap_year_of_era_def mod_self_iff)
qed

lemma era_year:
  obtains e c q r where "y = 400 * e + year_of_coords c q r" "era_coords c q r 0"
proof
  define u where "u = y mod 400"
  have u: "0 \<le> u" "u < 400" by (simp_all add: u_def)
  show "y = 400 * (y div 400) + year_of_coords (u div 100) ((u mod 100) div 4) ((u mod 100) mod 4)"
    by (simp add: year_of_coords_def u_def)
  show "era_coords (u div 100) ((u mod 100) div 4) ((u mod 100) mod 4) 0"
    using u by (auto simp: era_coords_def)
qed

lemma dayNumberOf_coords:
  assumes "era_coords c q r doy" "shifted_year d = 400 * e + year_of_coords c q r"
    "0 \<le> month_index d" "doy = (153 * month_index d + 2) div 5 + day d - 1"
  shows "dayNumberOf d = e * 146097 + (36524 * c + 1461 * q + 365 * r + doy) - 719468"
proof -
  let ?y = "year_of_coords c q r"
  have range: "0 \<le> ?y" "?y < 400"
    using assms(1) by (auto simp: era_coords_def year_of_coords_def)
  have era: "tdiv (if shifted_year d \<ge> 0 then shifted_year d else shifted_year d - 399) 400 = e"
    using tdiv_era [of 400 399 "shifted_year d"] range assms(2) by simp
  have "tdiv ?y 4 = ?y div 4" "tdiv ?y 100 = ?y div 100"
    "tdiv (153 * month_index d + 2) 5 = (153 * month_index d + 2) div 5"
    using range assms(3) by (simp_all add: tdiv_nonneg)
  moreover have "shifted_year d - e * 400 = ?y"
    using assms(2) by simp
  ultimately show ?thesis
    using year_start [OF assms(1)] assms(4) era
    unfolding dayNumberOf_def Let_def shifted_year_def [symmetric] month_index_def [symmetric]
    by simp
qed

lemma civilFromDays_coords:
  assumes "era_coords c q r doy" "i = (5 * doy + 2) div 153"
    "- 2147483648 \<le> 400 * e + year_of_coords c q r" "400 * e + year_of_coords c q r < 2147483647"
  shows "civilFromDays (e * 146097 + (36524 * c + 1461 * q + 365 * r + doy) - 719468)
    = date_of (400 * e + year_of_coords c q r) i (doy - (153 * i + 2) div 5 + 1)"
proof -
  let ?doe = "36524 * c + 1461 * q + 365 * r + doy"
  let ?y = "year_of_coords c q r"
  have doe: "0 \<le> ?doe" "?doe < 146097"
    using assms(1) by (auto simp: era_coords_def leap_year_of_era_def split: if_splits)
  have y: "0 \<le> ?y" using assms(1) by (auto simp: era_coords_def year_of_coords_def)
  have doy: "0 \<le> doy" "0 \<le> i" using assms by (auto simp: era_coords_def)
  have era: "tdiv (if 0 \<le> e * 146097 + ?doe then e * 146097 + ?doe else e * 146097 + ?doe - 146096) 146097 = e"
    using tdiv_era [of 146097 146096 "e * 146097 + ?doe"] doe by simp
  have yoe: "tdiv (?doe - tdiv ?doe 1460 + tdiv ?doe 36524 - tdiv ?doe 146096) 365 = ?y"
  proof -
    have "0 \<le> ?doe - ?doe div 1460 + ?doe div 36524 - ?doe div 146096"
      using doe by (smt (verit) div_by_1 zdiv_mono2 pos_imp_zdiv_nonneg_iff)
    then show ?thesis
      using year_of_day [OF assms(1)] doe by (simp add: tdiv_nonneg)
  qed
  have start: "365 * ?y + tdiv ?y 4 - tdiv ?y 100 = 36524 * c + 1461 * q + 365 * r"
    using year_start [OF assms(1)] y by (simp add: tdiv_nonneg)
  have i: "tdiv (5 * doy + 2) 153 = i" "tdiv (153 * i + 2) 5 = (153 * i + 2) div 5"
    using doy assms(2) by (simp_all add: tdiv_nonneg)
  have month: "0 \<le> i" "i \<le> 11" "1 \<le> doy - (153 * i + 2) div 5 + 1"
    "doy - (153 * i + 2) div 5 + 1 \<le> 31"
  proof -
    have "doy \<le> 365" using assms(1) by (auto simp: era_coords_def split: if_splits)
    with day_of_month [of doy] doy month_length_le [of i] show
      "0 \<le> i" "i \<le> 11" "1 \<le> doy - (153 * i + 2) div 5 + 1" "doy - (153 * i + 2) div 5 + 1 \<le> 31"
      by (auto simp: assms(2))
  qed
  have days: "e * 146097 + ?doe - 719468 + 719468 = e * 146097 + ?doe" "e * 146097 + ?doe - e * 146097 = ?doe"
    "?doe - (36524 * c + 1461 * q + 365 * r) = doy"
    by simp_all
  show ?thesis
    unfolding civilFromDays_def Let_def days(1) era days(2) yoe start days(3) i
    using assms(3,4) month by (simp add: date_of_def to_int32_id)
qed

subsection \<open>Valid dates\<close>

text \<open>
  The last month of a shifted year is February: its 29th day exists exactly in a leap year,
  which is the last day of the year.
\<close>

lemma valid_date_shifted:
  assumes "valid_date d"
  shows "0 \<le> month_index d" "month_index d \<le> 11" "1 \<le> day d" "day d \<le> month_length (month_index d)"
    "(153 * month_index d + 2) div 5 + day d - 1 \<le> (if is_leap (shifted_year d + 1) then 365 else 364)"
proof -
  have m: "1 \<le> month d" "month d \<le> 12" and d: "1 \<le> day d" "day d \<le> daysInMonth d"
    using assms by (auto simp: valid_date_def)
  show i: "0 \<le> month_index d" "month_index d \<le> 11" "1 \<le> day d"
    using m d by (auto simp: month_index_def)
  have "day d \<le> month_length (month_index d) \<and>
     (153 * month_index d + 2) div 5 + day d - 1 \<le> (if is_leap (shifted_year d + 1) then 365 else 364)"
    using i(1,2)
    by (cases rule: month_index_cases)
       (use m d in \<open>auto simp: month_length_def month_index_def shifted_year_def daysInMonth_def
          month_days_def split: if_splits\<close>)
  then show "day d \<le> month_length (month_index d)"
    "(153 * month_index d + 2) div 5 + day d - 1 \<le> (if is_leap (shifted_year d + 1) then 365 else 364)"
    by blast+
qed

lemma valid_date_of:
  assumes "0 \<le> i" "i \<le> 11" "1 \<le> d" "d \<le> month_length i"
    "(153 * i + 2) div 5 + d - 1 \<le> (if is_leap (y + 1) then 365 else 364)"
  shows "valid_date (date_of y i d)"
  using assms(1,2)
  by (cases rule: month_index_cases)
     (use assms(3-) in \<open>auto simp: valid_date_def date_of_def month_length_def daysInMonth_def
        month_days_def split: if_splits\<close>)

lemma dayNumberOf_civilFromDays:
  assumes "- 784000000000 \<le> n" "n \<le> 784000000000"
  shows "dayNumberOf (civilFromDays n) = n \<and> valid_date (civilFromDays n)"
proof -
  define e doe where "e = (n + 719468) div 146097" and "doe = (n + 719468) mod 146097"
  have doe: "0 \<le> doe" "doe \<le> 146096" by (auto simp: doe_def)
  have ne: "n + 719468 = e * 146097 + doe" by (simp add: e_def doe_def)
  then have n: "n = e * 146097 + doe - 719468" by simp
  have e: "- 5368000 \<le> e" "e \<le> 5368000" using assms doe ne by linarith+
  obtain c q r doy where co: "era_coords c q r doy" and d: "doe = 36524 * c + 1461 * q + 365 * r + doy"
    using day_coords [OF doe] .
  define y i where "y = 400 * e + year_of_coords c q r" and "i = (5 * doy + 2) div 153"
  have yoc: "0 \<le> year_of_coords c q r" "year_of_coords c q r < 400"
    using co by (auto simp: era_coords_def year_of_coords_def)
  let ?d = "doy - (153 * i + 2) div 5 + 1"
  have doy: "0 \<le> doy" "doy \<le> (if leap_year_of_era c q r then 365 else 364)"
    using co by (simp_all add: era_coords_def)
  then have "doy \<le> 365" by (simp split: if_splits)
  with doy have i: "0 \<le> i" "i \<le> 11" "1 \<le> ?d" "?d \<le> month_length i"
    using day_of_month [of doy] by (simp_all add: i_def)
  have c: "civilFromDays n = date_of y i ?d"
    using civilFromDays_coords [OF co i_def, of e] e yoc unfolding n d y_def by simp
  have "dayNumberOf (date_of y i ?d) = n"
    unfolding n d using i shifted_date_of [OF i(1,2)]
    by (intro dayNumberOf_coords [OF co]) (simp_all add: y_def)
  moreover have "leap_year_of_era c q r \<longleftrightarrow> is_leap (y + 1)"
    using leap_of_coords co by (simp add: y_def)
  then have "valid_date (date_of y i ?d)"
    using i doy by (intro valid_date_of) simp_all
  ultimately show ?thesis by (simp add: c)
qed

lemma civilFromDays_dayNumberOf:
  assumes "valid_date d" "- 2147483648 < year d" "year d < 2147483647"
  shows "civilFromDays (dayNumberOf d) = d"
proof -
  note v = valid_date_shifted [OF assms(1)]
  have m: "1 \<le> month d" "month d \<le> 12" using assms(1) by (auto simp: valid_date_def)
  obtain e c q r where y: "shifted_year d = 400 * e + year_of_coords c q r" "era_coords c q r 0"
    using era_year [of "shifted_year d"] .
  define doy where "doy = (153 * month_index d + 2) div 5 + day d - 1"
  have "0 \<le> doy" using v by (simp add: doy_def pos_imp_zdiv_nonneg_iff)
  then have co: "era_coords c q r doy"
    using y(2) v(5) leap_of_coords [OF y(2), of e] by (simp add: era_coords_def doy_def y(1))
  have i: "month_index d = (5 * doy + 2) div 153"
    using month_of_day [OF v(1-4)] by (simp add: doy_def)
  have "- 2147483648 \<le> shifted_year d" "shifted_year d < 2147483647"
    using assms(2,3) by (auto simp: shifted_year_def)
  then have "civilFromDays (dayNumberOf d) = date_of (shifted_year d) (month_index d) (day d)"
    unfolding dayNumberOf_coords [OF co y(1) v(1) doy_def]
    using civilFromDays_coords [OF co i, of e] y(1) by (simp add: doy_def)
  then show ?thesis using date_of_shifted [OF m] by simp
qed

subsection \<open>Day numbers count days\<close>

definition year_start_day :: "int \<Rightarrow> int" where
  "year_start_day y = 365 * y + y div 4 - y div 100 + y div 400"

lemma dayNumberOf_linear:
  assumes "1 \<le> month d" "month d \<le> 12"
  shows "dayNumberOf d = year_start_day (shifted_year d) + (153 * month_index d + 2) div 5 + day d - 1 - 719468"
proof -
  obtain e c q r where y: "shifted_year d = 400 * e + year_of_coords c q r" "era_coords c q r 0"
    using era_year [of "shifted_year d"] .
  let ?u = "year_of_coords c q r"
  have u: "0 \<le> ?u" "?u < 400" using y(2) by (auto simp: era_coords_def year_of_coords_def)
  have era: "tdiv (if shifted_year d \<ge> 0 then shifted_year d else shifted_year d - 399) 400 = e"
    using tdiv_era [of 400 399 "shifted_year d"] u y(1) by simp
  have i: "0 \<le> month_index d" using assms by (auto simp: month_index_def)
  define u where "u = ?u"
  define sy where "sy = shifted_year d"
  have sy: "sy = u + 4 * (100 * e)" "sy = u + 100 * (4 * e)" "sy = u + 400 * e"
    using y(1) by (simp_all add: u_def sy_def)
  have divs: "sy div 4 = u div 4 + 100 * e" "sy div 100 = u div 100 + 4 * e" "sy div 400 = e"
    using u by (subst sy, simp add: u_def)+
  have t: "tdiv u 4 = u div 4" "tdiv u 100 = u div 100"
    "tdiv (153 * month_index d + 2) 5 = (153 * month_index d + 2) div 5"
    using u i by (simp_all add: u_def tdiv_nonneg)
  have uu: "sy - e * 400 = u" using sy by simp
  have "dayNumberOf d = e * 146097 + (u * 365 + u div 4 - u div 100 + ((153 * month_index d + 2) div 5 + day d - 1)) - 719468"
    unfolding dayNumberOf_def Let_def shifted_year_def [symmetric] month_index_def [symmetric] era
    unfolding sy_def [symmetric] uu t ..
  then show ?thesis
    unfolding year_start_day_def sy_def [symmetric] divs using sy(3) by linarith
qed

lemma div_Suc_step: "0 < n \<Longrightarrow> (y + 1) div n = y div n + (if (y + 1) mod n = 0 then 1 else 0 :: int)"
proof -
  assume n: "0 < n"
  have y: "y = n * (y div n) + y mod n" "0 \<le> y mod n" "y mod n < n" using n by simp_all
  show ?thesis
  proof (cases "y mod n = n - 1")
    case True
    then have "y + 1 = n * (y div n + 1)" using y(1) by (simp add: distrib_left)
    then show ?thesis using n by simp
  next
    case False
    then have "y + 1 = (y mod n + 1) + n * (y div n)" "y mod n + 1 < n" using y by linarith+
    then have "(y + 1) div n = y div n" "(y + 1) mod n = y mod n + 1"
      using n y(2) by (smt (verit) div_mult_self2 div_pos_pos_trivial, smt (verit) mod_mult_self2 mod_pos_pos_trivial)
    then show ?thesis using y(2) by simp
  qed
qed

lemma year_start_day_step: "year_start_day (y + 1) = year_start_day y + (if is_leap (y + 1) then 366 else 365)"
proof -
  have "(y + 1) mod 400 = 0 \<Longrightarrow> (y + 1) mod 100 = 0" "(y + 1) mod 100 = 0 \<Longrightarrow> (y + 1) mod 4 = 0"
    by presburger+
  then show ?thesis
    unfolding year_start_day_def div_Suc_step [of 4, simplified] div_Suc_step [of 100, simplified]
      div_Suc_step [of 400, simplified] is_leap_mod
    by (auto simp: algebra_simps)
qed

text \<open>Months counted from the year 0, and the number of the first day of one.\<close>

definition month_count :: "civil_date \<Rightarrow> int" where
  "month_count d = 12 * year d + (month d - 1)"

definition month_start :: "int \<Rightarrow> int" where
  "month_start k = dayNumberOf \<lparr>year = k div 12, month = k mod 12 + 1, day = 1\<rparr>"

definition month_days_of :: "int \<Rightarrow> int" where
  "month_days_of k = daysInMonth \<lparr>year = k div 12, month = k mod 12 + 1, day = 1\<rparr>"

lemma month_start_step: "month_start (k + 1) = month_start k + month_days_of k"
proof -
  define y i where "y = k div 12" and "i = k mod 12"
  have i: "0 \<le> i" "i \<le> 11" by (auto simp: i_def)
  have next1: "(k + 1) div 12 = (if i = 11 then y + 1 else y)" "(k + 1) mod 12 = (if i = 11 then 0 else i + 1)"
  proof -
    have k: "k = 12 * y + i" by (simp add: y_def i_def)
    show "(k + 1) div 12 = (if i = 11 then y + 1 else y)"
      using i by (intro div_eqI) (auto simp: k)
    then show "(k + 1) mod 12 = (if i = 11 then 0 else i + 1)"
      using k by (simp add: minus_mult_div_eq_mod [symmetric])
  qed
  have feb: "year_start_day (y - 1) = year_start_day y - (if is_leap y then 366 else 365)"
    using year_start_day_step [of "y - 1"] by simp
  show ?thesis
    unfolding month_start_def month_days_of_def next1 y_def [symmetric] i_def [symmetric]
    using i
    by (cases rule: month_index_cases)
       (simp_all add: dayNumberOf_linear shifted_year_def month_index_def daysInMonth_def month_days_def feb)
qed

lemma month_days_pos: "28 \<le> month_days_of k \<and> month_days_of k \<le> 31"
proof -
  have i: "0 \<le> k mod 12" "k mod 12 \<le> 11" by auto
  then show ?thesis
    by (cases rule: month_index_cases) (simp_all add: month_days_of_def daysInMonth_def month_days_def)
qed

lemma month_start_mono: "k \<le> l \<Longrightarrow> month_start k \<le> month_start l"
proof (induction l rule: int_ge_induct)
  case (step l)
  then show ?case using month_start_step [of l] month_days_pos [of l] by simp
qed simp

lemma date_month_count:
  assumes "1 \<le> month d" "month d \<le> 12"
  shows "month_count d div 12 = year d" "month_count d mod 12 = month d - 1"
    "month_days_of (month_count d) = daysInMonth d"
    "dayNumberOf d = month_start (month_count d) + day d - 1"
proof -
  show dm: "month_count d div 12 = year d" "month_count d mod 12 = month d - 1"
    using assms by (simp_all add: month_count_def)
  show "month_days_of (month_count d) = daysInMonth d"
    by (simp add: month_days_of_def dm daysInMonth_def)
  show "dayNumberOf d = month_start (month_count d) + day d - 1"
    using assms by (simp add: month_start_def dm dayNumberOf_linear shifted_year_def month_index_def)
qed

lemma month_count_less:
  assumes "valid_date d" "valid_date d'" "month_count d < month_count d'"
  shows "dayNumberOf d < dayNumberOf d'"
proof -
  have m: "1 \<le> month d" "month d \<le> 12" "1 \<le> month d'" "month d' \<le> 12" "day d \<le> daysInMonth d" "1 \<le> day d'"
    using assms by (auto simp: valid_date_def)
  have "month_start (month_count d) + month_days_of (month_count d) \<le> month_start (month_count d')"
    using month_start_mono [of "month_count d + 1" "month_count d'"] month_start_step [of "month_count d"] assms(3) by simp
  then show ?thesis
    using m date_month_count [OF m(1,2)] date_month_count [OF m(3,4)] by simp
qed

lemma month_count_mono:
  assumes "valid_date d" "valid_date d'" "dayNumberOf d \<le> dayNumberOf d'"
  shows "month_count d \<le> month_count d'"
  using month_count_less [OF assms(2,1)] assms(3) by linarith

text \<open>The reference: the day after a date, by the lengths of the months.\<close>

definition next_day :: "civil_date \<Rightarrow> civil_date" where
  "next_day d =
     (if day d < daysInMonth d then d\<lparr>day := day d + 1\<rparr>
      else if month d < 12 then d\<lparr>month := month d + 1, day := 1\<rparr>
      else \<lparr>year = year d + 1, month = 1, day = 1\<rparr>)"

lemma next_day_number:
  assumes "valid_date d"
  shows "dayNumberOf (next_day d) = dayNumberOf d + 1"
proof -
  have m: "1 \<le> month d" "month d \<le> 12" "day d \<le> daysInMonth d" using assms by (auto simp: valid_date_def)
  note c = date_month_count [OF m(1,2)]
  show ?thesis
  proof (cases "day d < daysInMonth d")
    case True
    then have n: "next_day d = d\<lparr>day := day d + 1\<rparr>" by (simp add: next_day_def)
    have "dayNumberOf (d\<lparr>day := day d + 1\<rparr>) = month_start (month_count (d\<lparr>day := day d + 1\<rparr>)) + day d"
      using date_month_count(4) [of "d\<lparr>day := day d + 1\<rparr>"] m by simp
    then show ?thesis using c(4) by (simp add: n month_count_def)
  next
    case False
    then have last: "day d = daysInMonth d" using m by simp
    have n: "month_count (next_day d) = month_count d + 1" "day (next_day d) = 1"
        "1 \<le> month (next_day d)" "month (next_day d) \<le> 12"
      using False m by (auto simp: next_day_def month_count_def)
    have "dayNumberOf (next_day d) = month_start (month_count d + 1)"
      using date_month_count(4) [OF n(3,4)] n by simp
    then show ?thesis
      using month_start_step [of "month_count d"] c last by simp
  qed
qed

section \<open>Properties\<close>

text \<open>C35. A date and its day number determine each other: reading the date of the number of
  a valid date gives that date back, for every year a C++ \<open>int\<close> holds but its two extremes.\<close>

theorem civil_roundtrip:
  assumes "valid_date d" "- 2147483648 < year d" "year d < 2147483647"
  shows "civilFromDays (dayNumberOf d) = d"
  using assms by (rule civilFromDays_dayNumberOf)

theorem civil_roundtrip_witness:
  "civilFromDays (dayNumberOf \<lparr>year = 2024, month = 2, day = 29\<rparr>) = \<lparr>year = 2024, month = 2, day = 29\<rparr>"
  by (rule civil_roundtrip) (simp_all add: valid_date_def daysInMonth_def is_leap_mod month_days_def)

text \<open>Every day number, for about two billion years around 1970, is the number of exactly the
  date it is read as, and that date exists in the calendar: its month has such a day.\<close>

theorem day_number_roundtrip:
  assumes "- 784000000000 \<le> n" "n \<le> 784000000000"
  shows "dayNumberOf (civilFromDays n) = n \<and> valid_date (civilFromDays n)"
  using assms by (rule dayNumberOf_civilFromDays)

theorem day_number_roundtrip_witness:
  "dayNumberOf (civilFromDays 19782) = 19782 \<and> valid_date (civilFromDays 19782)"
  using day_number_roundtrip [of 19782] by simp

text \<open>C36. Day numbers count days: the number of the first of January 1970 is 0, and the day after
  a date, by the lengths of the months and the leap years, has the next number.\<close>

theorem day_numbers_count:
  "dayNumberOf \<lparr>year = 1970, month = 1, day = 1\<rparr> = 0
   \<and> (\<forall>d. valid_date d \<longrightarrow> dayNumberOf (next_day d) = dayNumberOf d + 1)"
proof -
  have "dayNumberOf \<lparr>year = 1970, month = 1, day = 1\<rparr> = 0" by code_simp
  then show ?thesis using next_day_number by blast
qed

theorem day_numbers_count_witness:
  "valid_date \<lparr>year = 2023, month = 12, day = 31\<rparr>
   \<and> dayNumberOf (next_day \<lparr>year = 2023, month = 12, day = 31\<rparr>)
     = dayNumberOf \<lparr>year = 2023, month = 12, day = 31\<rparr> + 1"
proof -
  have "valid_date \<lparr>year = 2023, month = 12, day = 31\<rparr>" by code_simp
  then show ?thesis using day_numbers_count by blast
qed

end
