(* ===== verification/Text_Norm.thy ===== *)
theory Text_Norm
  imports Prelude
begin

text \<open>
  Text normalization, \<open>packages/lib/text/src/text/text-norm.cc\<close>. A \<open>std::string\<close> is a list of
  \<open>char\<close>, the bytes of its UTF-8; \<open>isalnum\<close>, \<open>isspace\<close> and \<open>tolower\<close> are those of the "C"
  locale. Unicode composition is the library utf8proc: the argument \<open>compose\<close>, which fails
  with \<open>None\<close>.
\<close>

section \<open>Character classes\<close>

definition ccode :: "char \<Rightarrow> nat" where
  "ccode c = of_char c"

definition is_upper :: "char \<Rightarrow> bool" where
  "is_upper c \<longleftrightarrow> 65 \<le> ccode c \<and> ccode c \<le> 90"

definition is_lower :: "char \<Rightarrow> bool" where
  "is_lower c \<longleftrightarrow> 97 \<le> ccode c \<and> ccode c \<le> 122"

definition is_cdigit :: "char \<Rightarrow> bool" where
  "is_cdigit c \<longleftrightarrow> 48 \<le> ccode c \<and> ccode c \<le> 57"

definition isalnum :: "char \<Rightarrow> bool" where
  "isalnum c \<longleftrightarrow> is_upper c \<or> is_lower c \<or> is_cdigit c"

definition isspace :: "char \<Rightarrow> bool" where
  "isspace c \<longleftrightarrow> ccode c = 32 \<or> (9 \<le> ccode c \<and> ccode c \<le> 13)"

definition ctolower :: "char \<Rightarrow> char" where
  "ctolower c = (if is_upper c then char_of (ccode c + 32) else c)"

definition is_word_char :: "char \<Rightarrow> bool" where
  "is_word_char c \<longleftrightarrow> isalnum c \<or> ccode c \<ge> 128"

section \<open>Normalization\<close>

definition nfc :: "(string \<Rightarrow> string option) \<Rightarrow> string \<Rightarrow> string" where
  "nfc compose s =
     (if s = [] then []
      else case compose s of None \<Rightarrow> s | Some out \<Rightarrow> out)"

text \<open>\<open>words\<close>: the state of the loop is the finished words, the current one and its count.\<close>

fun words_loop :: "int \<Rightarrow> string \<Rightarrow> string list \<Rightarrow> string \<Rightarrow> int \<Rightarrow> string list \<times> string \<times> int" where
  "words_loop minAlnum [] out current alnum = (out, current, alnum)"
| "words_loop minAlnum (c # cs) out current alnum =
     (if is_word_char c then
        words_loop minAlnum cs out (current @ [ctolower c]) (if isalnum c then alnum + 1 else alnum)
      else if current \<noteq> [] then
        words_loop minAlnum cs (if alnum \<ge> minAlnum then out @ [current] else out) [] 0
      else words_loop minAlnum cs out current alnum)"

definition words :: "string \<Rightarrow> int \<Rightarrow> string list" where
  "words s minAlnum =
     (let (out, current, alnum) = words_loop minAlnum s [] [] 0
      in if alnum \<ge> minAlnum then out @ [current] else out)"

fun word_set_loop :: "int \<Rightarrow> string \<Rightarrow> string set \<Rightarrow> string \<Rightarrow> int \<Rightarrow> string set \<times> string \<times> int" where
  "word_set_loop minAlnum [] out current alnum = (out, current, alnum)"
| "word_set_loop minAlnum (c # cs) out current alnum =
     (if is_word_char c then
        word_set_loop minAlnum cs out (current @ [ctolower c]) (if isalnum c then alnum + 1 else alnum)
      else if current \<noteq> [] then
        word_set_loop minAlnum cs (if alnum \<ge> minAlnum then insert current out else out) [] 0
      else word_set_loop minAlnum cs out current alnum)"

definition wordSet :: "string \<Rightarrow> int \<Rightarrow> string set" where
  "wordSet s minAlnum =
     (let (out, current, alnum) = word_set_loop minAlnum s {} [] 0
      in if alnum \<ge> minAlnum then insert current out else out)"

fun whitespace_loop :: "bool \<Rightarrow> string \<Rightarrow> string \<Rightarrow> bool \<Rightarrow> string" where
  "whitespace_loop toLower [] out lastSpace = out"
| "whitespace_loop toLower (c # cs) out lastSpace =
     (if isspace c then
        whitespace_loop toLower cs (if \<not> lastSpace then out @ [CHR '' ''] else out) True
      else whitespace_loop toLower cs (out @ [if toLower then ctolower c else c]) False)"

definition whitespace :: "string \<Rightarrow> bool \<Rightarrow> string" where
  "whitespace s toLower = whitespace_loop toLower s [] True"

text \<open>The folds: every key is the UTF-8 of a Latin-1 letter, the byte \<open>C3\<close> and one more.\<close>

definition kFolds :: "(string \<times> char) list" where
  "kFolds = map (\<lambda>(second, letter). ([CHR 0xC3, second], letter))
     [(CHR 0xA1, CHR ''a''), (CHR 0xA9, CHR ''e''), (CHR 0xAD, CHR ''i''), (CHR 0xB3, CHR ''o''),
      (CHR 0xBA, CHR ''u''), (CHR 0xBC, CHR ''u''), (CHR 0xB1, CHR ''n''), (CHR 0xA0, CHR ''a''),
      (CHR 0xA8, CHR ''e''), (CHR 0xAC, CHR ''i''), (CHR 0xB2, CHR ''o''), (CHR 0xB9, CHR ''u''),
      (CHR 0xA2, CHR ''a''), (CHR 0xAA, CHR ''e''), (CHR 0xAE, CHR ''i''), (CHR 0xB4, CHR ''o''),
      (CHR 0xBB, CHR ''u''), (CHR 0xA4, CHR ''a''), (CHR 0xAB, CHR ''e''), (CHR 0xAF, CHR ''i''),
      (CHR 0xB6, CHR ''o''), (CHR 0xBF, CHR ''y''), (CHR 0xA7, CHR ''c''), (CHR 0x81, CHR ''a''),
      (CHR 0x89, CHR ''e''), (CHR 0x8D, CHR ''i''), (CHR 0x93, CHR ''o''), (CHR 0x9A, CHR ''u''),
      (CHR 0x9C, CHR ''u''), (CHR 0x91, CHR ''n''), (CHR 0x80, CHR ''a''), (CHR 0x88, CHR ''e''),
      (CHR 0x8C, CHR ''i''), (CHR 0x92, CHR ''o''), (CHR 0x99, CHR ''u'')]"

definition starts_with :: "string \<Rightarrow> string \<Rightarrow> bool" where
  "starts_with s prefix \<longleftrightarrow> take (length prefix) s = prefix"

definition find_fold :: "string \<Rightarrow> (string \<times> char) option" where
  "find_fold view = List.find (\<lambda>entry. starts_with view (fst entry)) kFolds"

lemma kFolds_entries:
  "list_all (\<lambda>e. length (fst e) = 2 \<and> fst e ! 0 = CHR 0xC3 \<and> 128 \<le> ccode (fst e ! 1)
     \<and> ccode (snd e) < 128 \<and> snd e \<noteq> CHR 0xC3) kFolds"
  by code_simp

lemma find_fold_Some:
  assumes "find_fold view = Some entry"
  shows "fst entry = take 2 view" "length (fst entry) = 2" "fst entry ! 0 = CHR 0xC3"
    "128 \<le> ccode (fst entry ! 1)" "ccode (snd entry) < 128" "snd entry \<noteq> CHR 0xC3"
proof -
  obtain i where i: "i < length kFolds" "entry = kFolds ! i" "starts_with view (fst entry)"
    using assms by (auto simp: find_fold_def find_Some_iff simp del: nth_mem)
  then have e: "entry \<in> set kFolds" by simp
  have p: "length (fst entry) = 2 \<and> fst entry ! 0 = CHR 0xC3 \<and> 128 \<le> ccode (fst entry ! 1)
     \<and> ccode (snd entry) < 128 \<and> snd entry \<noteq> CHR 0xC3"
    using kFolds_entries e unfolding list_all_iff by (rule bspec)
  then show "length (fst entry) = 2" "fst entry ! 0 = CHR 0xC3"
    "128 \<le> ccode (fst entry ! 1)" "ccode (snd entry) < 128" "snd entry \<noteq> CHR 0xC3"
    by simp_all
  with i(3) show "fst entry = take 2 view"
    by (simp add: starts_with_def)
qed

lemma find_fold_size:
  assumes "find_fold view = Some entry"
  shows "length (fst entry) = 2 \<and> view \<noteq> []"
  using find_fold_Some(1,2) [OF assms] by auto

lemma fold_decreases:
  "find_fold (c # cs) = Some entry \<Longrightarrow> length (drop (length (fst entry)) (c # cs)) < Suc (length cs)"
  by (drule find_fold_size) simp

function stripAccents :: "string \<Rightarrow> string" where
  "stripAccents [] = []"
| "stripAccents (c # cs) =
     (case find_fold (c # cs) of
        None \<Rightarrow> c # stripAccents cs
      | Some entry \<Rightarrow> snd entry # stripAccents (drop (length (fst entry)) (c # cs)))"
  by pat_completeness auto
termination
  by (relation "measure length") (simp_all add: fold_decreases del: length_drop)

fun trim_back :: "string \<Rightarrow> string" where
  "trim_back s = rev (dropWhile (\<lambda>c. c = CHR '' '') (rev s))"

definition is_punct :: "char \<Rightarrow> bool" where
  "is_punct c \<longleftrightarrow> c \<in> set ''?!.,;:''"

definition is_blank :: "char \<Rightarrow> bool" where
  "is_blank c \<longleftrightarrow> ccode c \<in> {32, 9, 13, 10}"

fun intent_loop :: "string \<Rightarrow> string \<Rightarrow> bool \<Rightarrow> string" where
  "intent_loop [] out lastSpace = out"
| "intent_loop [c] out lastSpace =
     (if is_punct c \<or> is_blank c then (if \<not> lastSpace then out @ [CHR '' ''] else out)
      else out @ [c])"
| "intent_loop (c # d # cs) out lastSpace =
     (if c = CHR 0xC2 \<and> (d = CHR 0xA1 \<or> d = CHR 0xBF) then intent_loop cs out lastSpace
      else if is_punct c then intent_loop (d # cs) (if \<not> lastSpace then out @ [CHR '' ''] else out) True
      else if is_blank c then intent_loop (d # cs) (if \<not> lastSpace then out @ [CHR '' ''] else out) True
      else intent_loop (d # cs) (out @ [c]) False)"

definition intent :: "string \<Rightarrow> string" where
  "intent s = trim_back (intent_loop s [] True)"


section \<open>Lemmas\<close>

lemma word_set_loop_words:
  "word_set_loop k s (set out) cur n = (case words_loop k s out cur n of (o', c', n') \<Rightarrow> (set o', c', n'))"
proof (induction s arbitrary: out cur n)
  case (Cons c cs)
  have "insert cur (set out) = set (out @ [cur])" by simp
  then show ?case
    using Cons.IH by (simp del: set_append)
qed simp

definition is_word :: "string \<Rightarrow> bool" where
  "is_word w \<longleftrightarrow> w \<noteq> [] \<and> list_all (\<lambda>c. is_word_char c \<and> \<not> is_upper c) w"

lemma ccode_char_of: "n < 256 \<Longrightarrow> ccode (char_of n) = n"
  by (simp add: ccode_def)

lemma ctolower_word: "is_word_char c \<Longrightarrow> is_word_char (ctolower c) \<and> \<not> is_upper (ctolower c)"
  by (auto simp: ctolower_def is_word_char_def isalnum_def is_upper_def is_lower_def ccode_char_of)

lemma words_loop_inv:
  assumes "words_loop k s out cur n = (out', cur', n')" "0 < k"
    "list_all is_word out" "cur \<noteq> [] \<longrightarrow> is_word cur" "n \<le> int (length cur)"
  shows "list_all is_word out' \<and> (cur' \<noteq> [] \<longrightarrow> is_word cur') \<and> n' \<le> int (length cur')"
  using assms
proof (induction k s out cur n rule: words_loop.induct)
  case (2 k c cs out cur n)
  have "is_word (cur @ [ctolower c])" if "is_word_char c"
    using that ctolower_word [OF that] 2(7) by (cases "cur = []") (auto simp: is_word_def)
  with 2 show ?case
    by (auto split: if_splits)
qed simp

lemma find_fold_pair:
  assumes "find_fold (c # d # cs) = Some entry"
  shows "c = CHR 0xC3" "128 \<le> ccode d" "fst entry = [c, d]"
  using find_fold_Some [OF assms] by auto

lemma find_fold_second:
  assumes "find_fold (c # d # cs) = None"
  shows "find_fold (c # d # ds) = None"
proof -
  have "starts_with (c # d # cs) (fst e) = starts_with (c # d # ds) (fst e)" if "e \<in> set kFolds" for e
    using kFolds_entries that unfolding list_all_iff by (auto simp: starts_with_def dest!: bspec)
  then show ?thesis
    using assms unfolding find_fold_def find_None_iff by blast
qed

lemma find_fold_single: "find_fold [c] = None"
proof (rule ccontr)
  assume "find_fold [c] \<noteq> None"
  then obtain entry where "find_fold [c] = Some entry" by blast
  from find_fold_Some(1,2) [OF this] show False by auto
qed

lemma stripAccents_head:
  assumes "stripAccents s = d # ds" "128 \<le> ccode d"
  obtains s' where "s = d # s'" "ds = stripAccents s'" "find_fold s = None"
proof (cases s)
  case (Cons c cs)
  with assms find_fold_Some(5) that show ?thesis
    by (cases "find_fold s") fastforce+
qed (use assms in simp)

lemma stripAccents_clean: "find_fold (stripAccents s) = None"
proof (cases s rule: stripAccents.cases)
  case (2 c cs)
  show ?thesis
  proof (cases "find_fold s")
    case None
    show ?thesis
    proof (rule ccontr)
      assume "find_fold (stripAccents s) \<noteq> None"
      moreover have strip: "stripAccents s = c # stripAccents cs"
        using None 2 by simp
      ultimately obtain d ds where d: "stripAccents cs = d # ds"
        using find_fold_single by (cases "stripAccents cs") auto
      with strip \<open>find_fold (stripAccents s) \<noteq> None\<close> obtain e where
        e: "find_fold (c # d # ds) = Some e" by auto
      then have "128 \<le> ccode d" by (rule find_fold_pair)
      with d obtain s' where "cs = d # s'"
        by (rule stripAccents_head) blast
      with None 2 have "find_fold (c # d # s') = None" by simp
      with find_fold_second e show False by fastforce
    qed
  next
    case (Some entry)
    show ?thesis
    proof (rule ccontr)
      assume "find_fold (stripAccents s) \<noteq> None"
      moreover have "stripAccents s = snd entry # stripAccents (drop 2 s)"
        using Some 2 find_fold_Some(2) [OF Some] by simp
      ultimately obtain e where "find_fold (snd entry # stripAccents (drop 2 s)) = Some e" by auto
      from find_fold_Some(1,3) [OF this] find_fold_Some(2,6) [OF this] find_fold_Some(6) [OF Some]
      show False by auto
    qed
  qed
qed (simp add: find_fold_def find_None_iff starts_with_def kFolds_def)


lemma stripAccents_fixed: "stripAccents (stripAccents s) = stripAccents s"
proof (induction s rule: stripAccents.induct)
  case (2 c cs)
  have clean: "find_fold (stripAccents (c # cs)) = None"
    by (rule stripAccents_clean)
  show ?case
  proof (cases "find_fold (c # cs)")
    case None
    with clean 2(1) show ?thesis by simp
  next
    case (Some entry)
    with clean 2(2) [OF Some] show ?thesis by simp
  qed
qed simp

lemma stripAccents_ascii: "list_all (\<lambda>c. ccode c < 128) s \<Longrightarrow> stripAccents s = s"
proof (induction s)
  case (Cons c cs)
  have "find_fold (c # cs) = None"
  proof (rule ccontr)
    assume "find_fold (c # cs) \<noteq> None"
    then obtain entry where "find_fold (c # cs) = Some entry" by blast
    from find_fold_Some(1,3) [OF this] have "c = CHR 0xC3" by simp
    then show False
      using Cons.prems by (simp add: ccode_def)
  qed
  with Cons show ?case by simp
qed simp

section \<open>Properties\<close>

text \<open>
  The two tokenizers agree: \<open>wordSet\<close> is the set of the words that \<open>words\<close> lists, and with
  a positive minimum every word is a non-empty run of letters, digits and non-ASCII bytes
  without an upper-case letter.
\<close>

theorem words_wordSet:
  "wordSet s k = set (words s k) \<and> (0 < k \<longrightarrow> list_all is_word (words s k))"
proof -
  obtain out cur n where loop: "words_loop k s [] [] 0 = (out, cur, n)"
    by (cases "words_loop k s [] [] 0")
  then have "wordSet s k = set (words s k)"
    using word_set_loop_words [of k s "[]" "[]" 0] by (simp add: wordSet_def words_def)
  moreover have "list_all is_word (words s k)" if "0 < k"
    using words_loop_inv [OF loop that] that by (cases "cur = []") (auto simp: words_def loop)
  ultimately show ?thesis by blast
qed

theorem words_wordSet_witness:
  "words ''Hay 2 cuchillos!'' 1 = [''hay'', ''2'', ''cuchillos'']
   \<and> list_all is_word (words ''Hay 2 cuchillos!'' 1)"
proof -
  have "words ''Hay 2 cuchillos!'' 1 = [''hay'', ''2'', ''cuchillos'']"
    by code_simp
  with words_wordSet [of "''Hay 2 cuchillos!''" 1] show ?thesis by simp
qed

text \<open>
  Folding accents is idempotent and leaves ASCII text alone.
\<close>

theorem stripAccents_idempotent:
  "stripAccents (stripAccents s) = stripAccents s
   \<and> (list_all (\<lambda>c. ccode c < 128) s \<longrightarrow> stripAccents s = s)"
  by (simp add: stripAccents_fixed stripAccents_ascii)

theorem stripAccents_idempotent_witness: "stripAccents ''arma'' = ''arma''"
  using stripAccents_idempotent [of "''arma''"] by (simp add: ccode_def)

end
