(* ===== verification/Decimal.thy ===== *)
theory Decimal
  imports Text_Norm
begin

text \<open>
  Numbers in texts, as the standard library reads and writes them: \<open>std::to_string\<close>,
  \<open>std::from_chars\<close> for an \<open>int\<close>, and the search of a character in a \<open>std::string_view\<close>. The
  components use them through the round trip \<open>from_chars_to_string\<close>.
\<close>

section \<open>Operations\<close>

definition find_char :: "char \<Rightarrow> string \<Rightarrow> nat option" where
  "find_char c s = (if c \<in> set s then Some (length (takeWhile (\<lambda>x. x \<noteq> c) s)) else None)"

definition digit_value :: "char \<Rightarrow> int" where
  "digit_value c = int (ccode c) - 48"

fun decimal :: "nat \<Rightarrow> string" where
  "decimal n = (if n < 10 then [char_of (48 + n)] else decimal (n div 10) @ [char_of (48 + n mod 10)])"

declare decimal.simps [simp del]

definition to_string :: "int \<Rightarrow> string" where
  "to_string i = (if i < 0 then CHR ''-'' # decimal (nat (- i)) else decimal (nat i))"

definition digits_value :: "string \<Rightarrow> int" where
  "digits_value ds = foldl (\<lambda>n d. 10 * n + digit_value d) 0 ds"

text \<open>
  \<open>std::from_chars\<close>: an optional minus sign and at least one digit, as many as there are; the
  result is out of range when the number is no \<open>int\<close>. The second component is what follows
  the number.
\<close>

definition from_chars :: "string \<Rightarrow> (int \<times> string) option" where
  "from_chars s =
     (let negative = (s \<noteq> [] \<and> hd s = CHR ''-'');
          body = (if negative then tl s else s);
          ds = takeWhile is_cdigit body;
          n = (if negative then - digits_value ds else digits_value ds)
      in if ds = [] then None
         else if n < - 2147483648 \<or> n > 2147483647 then None
         else Some (n, dropWhile is_cdigit body))"

section \<open>Lemmas\<close>

lemma is_cdigit_decimal: "c \<in> set (decimal n) \<Longrightarrow> is_cdigit c"
proof (induction n rule: decimal.induct)
  case (1 n)
  then show ?case
    by (subst (asm) decimal.simps [of n]) (auto simp: is_cdigit_def ccode_char_of split: if_splits)
qed

lemma decimal_nonempty [simp]: "decimal n \<noteq> []"
  by (subst decimal.simps) simp

lemma digits_value_append: "digits_value (ds @ [d]) = 10 * digits_value ds + digit_value d"
  by (simp add: digits_value_def)

lemma digits_value_decimal: "digits_value (decimal n) = int n"
proof (induction n rule: decimal.induct)
  case (1 n)
  show ?case
  proof (cases "n < 10")
    case True
    then show ?thesis
      by (subst decimal.simps) (simp add: digits_value_def digit_value_def ccode_char_of)
  next
    case False
    then show ?thesis
      by (subst decimal.simps)
         (simp add: digits_value_append 1 digit_value_def ccode_char_of zdiv_int zmod_int)
  qed
qed

lemma no_minus_decimal: "CHR ''-'' \<notin> set (decimal n)"
  using is_cdigit_decimal [of "CHR ''-''" n] by (auto simp: is_cdigit_def ccode_def)

lemma from_chars_to_string:
  assumes "- 2147483648 \<le> i" "i \<le> 2147483647"
  shows "from_chars (to_string i) = Some (i, [])"
proof -
  have all: "takeWhile is_cdigit (decimal n) = decimal n" "dropWhile is_cdigit (decimal n) = []" for n
    by (auto intro: is_cdigit_decimal)
  have "hd (decimal n) \<noteq> CHR ''-''" for n
    using no_minus_decimal [of n] hd_in_set [OF decimal_nonempty [of n]] by metis
  then show ?thesis
    using assms by (simp add: from_chars_def to_string_def Let_def all digits_value_decimal is_cdigit_decimal Ball_def)
qed

lemma find_char_Some:
  assumes "find_char c s = Some n"
  shows "n < length s" "s ! n = c" "c \<notin> set (take n s)" "s = take n s @ c # drop (n + 1) s"
proof -
  have "c \<in> set s" "n = length (takeWhile (\<lambda>x. x \<noteq> c) s)"
    using assms by (auto simp: find_char_def split: if_splits)
  moreover from this obtain ys zs where "s = ys @ c # zs" "c \<notin> set ys"
    using split_list_first by fastforce
  ultimately show "n < length s" "s ! n = c" "c \<notin> set (take n s)" "s = take n s @ c # drop (n + 1) s"
    by (auto simp: takeWhile_append)
qed

lemma find_char_append: "c \<notin> set xs \<Longrightarrow> find_char c (xs @ c # ys) = Some (length xs)"
  by (simp add: find_char_def takeWhile_tail, subst takeWhile_eq_all_conv [THEN iffD2]) auto

lemma find_char_None: "find_char c s = None \<longleftrightarrow> c \<notin> set s"
  by (simp add: find_char_def)

end
