(* ===== verification/Recurrence.thy ===== *)
theory Recurrence
  imports Calendar Decimal "HOL-Library.Monad_Syntax"
begin

text \<open>
  Recurring reminders, \<open>services/productivity/src/shared/services/recurrence/recurrence.cc\<close>: the
  grammar of a rule, the occurrences of a series and the search for the first one after a
  moment. The time zone of the host is a parameter: \<open>localtime_r\<close> and \<open>mktime\<close> are the two
  fields of \<open>zone\<close>. Times and indices are 64-bit and stay far from their bounds, so they are
  \<open>int\<close>; the narrowing casts to \<open>int\<close> are written out.
\<close>

section \<open>Rules\<close>

datatype frequency = Daily | Weekly | Monthly | Yearly

record recurrence_rule =
  frequency :: frequency
  interval :: int
  monthDay :: "int option"

definition kMaxInterval :: int where "kMaxInterval = 999"
definition kMaxMonthDay :: int where "kMaxMonthDay = 31"
definition kMaxSearch :: nat where "kMaxSearch = 1000000"

definition frequencyOf :: "string \<Rightarrow> frequency option" where
  "frequencyOf s =
     (if s = ''DAILY'' then Some Daily
      else if s = ''WEEKLY'' then Some Weekly
      else if s = ''MONTHLY'' then Some Monthly
      else if s = ''YEARLY'' then Some Yearly
      else None)"

definition boundedOf :: "string \<Rightarrow> int \<Rightarrow> int \<Rightarrow> int option" where
  "boundedOf s lowest highest =
     (case from_chars s of
        None \<Rightarrow> None
      | Some (parsed, rest) \<Rightarrow>
          if rest \<noteq> [] then None
          else if parsed < lowest \<or> parsed > highest then None
          else Some parsed)"

text \<open>What the loop of the parser has read so far.\<close>

record rule_state =
  rule_so_far :: recurrence_rule
  frequencySeen :: bool
  intervalSeen :: bool

definition initial_rule_state :: rule_state where
  "initial_rule_state =
     \<lparr>rule_so_far = \<lparr>frequency = Daily, interval = 1, monthDay = None\<rparr>, frequencySeen = False, intervalSeen = False\<rparr>"

definition parse_part :: "rule_state \<Rightarrow> string \<Rightarrow> rule_state option" where
  "parse_part st part =
     (case find_char CHR ''='' part of
        None \<Rightarrow> None
      | Some equals \<Rightarrow>
          (let key = take equals part; value = drop (equals + 1) part
           in if key = ''FREQ'' \<and> \<not> frequencySeen st
              then case frequencyOf value of
                     None \<Rightarrow> None
                   | Some f \<Rightarrow> Some (st\<lparr>rule_so_far := (rule_so_far st)\<lparr>frequency := f\<rparr>, frequencySeen := True\<rparr>)
              else if key = ''INTERVAL'' \<and> \<not> intervalSeen st
              then case boundedOf value 1 kMaxInterval of
                     None \<Rightarrow> None
                   | Some n \<Rightarrow> Some (st\<lparr>rule_so_far := (rule_so_far st)\<lparr>interval := n\<rparr>, intervalSeen := True\<rparr>)
              else if key = ''BYMONTHDAY'' \<and> monthDay (rule_so_far st) = None
              then case boundedOf value 1 kMaxMonthDay of
                     None \<Rightarrow> None
                   | Some d \<Rightarrow> Some (st\<lparr>rule_so_far := (rule_so_far st)\<lparr>monthDay := Some d\<rparr>\<rparr>)
              else None))"

definition first_rule_part :: "string \<Rightarrow> string \<times> string" where
  "first_rule_part s =
     (case find_char CHR '';'' s of None \<Rightarrow> (s, []) | Some e \<Rightarrow> (take e s, drop (e + 1) s))"

lemma first_rule_part_shorter: "s \<noteq> [] \<Longrightarrow> length (snd (first_rule_part s)) < length s"
  by (auto simp: first_rule_part_def split: option.split)

function parse_parts :: "rule_state \<Rightarrow> string \<Rightarrow> rule_state option" where
  "parse_parts st s =
     (if s = [] then Some st
      else case parse_part st (fst (first_rule_part s)) of
             None \<Rightarrow> None
           | Some st' \<Rightarrow> parse_parts st' (snd (first_rule_part s)))"
  by pat_completeness auto
termination
  by (relation "measure (\<lambda>(st, s). length s)") (simp_all add: first_rule_part_shorter)

declare parse_parts.simps [simp del]

definition parseRecurrenceRule :: "string \<Rightarrow> recurrence_rule option" where
  "parseRecurrenceRule s =
     (if s = [] \<or> last s = CHR '';'' then None
      else case parse_parts initial_rule_state s of
             None \<Rightarrow> None
           | Some st \<Rightarrow>
               if \<not> frequencySeen st then None
               else if monthDay (rule_so_far st) \<noteq> None \<and> frequency (rule_so_far st) \<noteq> Monthly then None
               else Some (rule_so_far st))"

section \<open>Occurrences\<close>

record wall_clock =
  date :: civil_date
  hour :: int
  minute :: int
  second :: int

text \<open>\<open>struct tm\<close>, its fields in the order the code fills them.\<close>

record tm =
  tm_year :: int
  tm_mon :: int
  tm_mday :: int
  tm_hour :: int
  tm_min :: int
  tm_sec :: int
  tm_isdst :: int

record zone =
  localtime_r :: "int \<Rightarrow> tm option"
  mktime :: "tm \<Rightarrow> int"

definition wallOf :: "zone \<Rightarrow> int \<Rightarrow> wall_clock option" where
  "wallOf z epoch =
     (case localtime_r z epoch of
        None \<Rightarrow> None
      | Some l \<Rightarrow>
          Some \<lparr>date = \<lparr>year = tm_year l + 1900, month = tm_mon l + 1, day = tm_mday l\<rparr>,
                hour = tm_hour l, minute = tm_min l, second = tm_sec l\<rparr>)"

definition epochOf :: "zone \<Rightarrow> wall_clock \<Rightarrow> int option" where
  "epochOf z wall =
     (let moment = mktime z \<lparr>tm_year = year (date wall) - 1900, tm_mon = month (date wall) - 1,
                     tm_mday = day (date wall), tm_hour = hour wall, tm_min = minute wall,
                     tm_sec = second wall, tm_isdst = - 1\<rparr>
      in if moment = - 1 then None else Some moment)"

text \<open>The switch of \<open>occurrenceAt\<close>: the date of an occurrence that is \<open>steps\<close> units after \<open>start\<close>.\<close>

definition monthly_day :: "recurrence_rule \<Rightarrow> civil_date \<Rightarrow> int" where
  "monthly_day rule start = (case monthDay rule of None \<Rightarrow> day start | Some d \<Rightarrow> d)"

definition late_start :: "recurrence_rule \<Rightarrow> civil_date \<Rightarrow> int" where
  "late_start rule start =
     (if min (monthly_day rule start) (daysInMonth start) < day start then 1 else 0)"

definition occurrence_date :: "recurrence_rule \<Rightarrow> civil_date \<Rightarrow> int \<Rightarrow> civil_date" where
  "occurrence_date rule start steps =
     (case frequency rule of
        Daily \<Rightarrow> civilFromDays (dayNumberOf start + steps)
      | Weekly \<Rightarrow> civilFromDays (dayNumberOf start + 7 * steps)
      | Monthly \<Rightarrow>
          (let monthIndex = year start * 12 + (month start - 1) + late_start rule start + steps;
               d = start\<lparr>year := to_int32 (tdiv monthIndex 12), month := to_int32 (tmod monthIndex 12) + 1\<rparr>
           in d\<lparr>day := min (monthly_day rule start) (daysInMonth d)\<rparr>)
      | Yearly \<Rightarrow>
          (let d = start\<lparr>year := year start + to_int32 steps\<rparr>
           in d\<lparr>day := min (day start) (daysInMonth d)\<rparr>))"

definition occurrenceAt :: "zone \<Rightarrow> recurrence_rule \<Rightarrow> int \<Rightarrow> int \<Rightarrow> int option" where
  "occurrenceAt z rule anchor index =
     (case wallOf z anchor of
        None \<Rightarrow> None
      | Some start \<Rightarrow>
          epochOf z \<lparr>date = occurrence_date rule (date start) (index * interval rule),
                     hour = hour start, minute = minute start, second = second start\<rparr>)"

definition seriesStart :: "zone \<Rightarrow> recurrence_rule \<Rightarrow> int \<Rightarrow> int" where
  "seriesStart z rule at = (case occurrenceAt z rule at 0 of None \<Rightarrow> at | Some t \<Rightarrow> t)"

section \<open>Search\<close>

definition search_estimate :: "recurrence_rule \<Rightarrow> civil_date \<Rightarrow> civil_date \<Rightarrow> int" where
  "search_estimate rule start now =
     (let daysApart = dayNumberOf now - dayNumberOf start;
          monthsApart = (year now - year start) * 12 + (month now - month start);
          yearsApart = year now - year start
      in case frequency rule of
           Daily \<Rightarrow> tdiv daysApart (interval rule)
         | Weekly \<Rightarrow> tdiv daysApart (7 * interval rule)
         | Monthly \<Rightarrow> tdiv monthsApart (interval rule)
         | Yearly \<Rightarrow> tdiv yearsApart (interval rule))"

definition searchStart :: "zone \<Rightarrow> recurrence_rule \<Rightarrow> int \<Rightarrow> int \<Rightarrow> int option" where
  "searchStart z rule anchor moment =
     (case (wallOf z anchor, wallOf z moment) of
        (Some start, Some now) \<Rightarrow> Some (max (search_estimate rule (date start) (date now) - 1) 0)
      | _ \<Rightarrow> None)"

text \<open>
  The two search loops. Their first argument counts the iterations left: it starts at
  \<open>kMaxSearch\<close>, where the code gives up.
\<close>

fun search_after :: "nat \<Rightarrow> (int \<Rightarrow> int option) \<Rightarrow> int \<Rightarrow> int \<Rightarrow> int option" where
  "search_after 0 occurrence moment index = None"
| "search_after (Suc n) occurrence moment index =
     (case occurrence index of
        None \<Rightarrow> None
      | Some candidate \<Rightarrow>
          if candidate > moment then Some candidate else search_after n occurrence moment (index + 1))"

fun search_index :: "nat \<Rightarrow> (int \<Rightarrow> int option) \<Rightarrow> int \<Rightarrow> int \<Rightarrow> int option" where
  "search_index 0 occurrence moment index = None"
| "search_index (Suc n) occurrence moment index =
     (case occurrence index of
        None \<Rightarrow> None
      | Some candidate \<Rightarrow>
          if candidate > moment then None
          else if candidate = moment then Some index
          else search_index n occurrence moment (index + 1))"

definition firstOccurrenceAfter :: "zone \<Rightarrow> recurrence_rule \<Rightarrow> int \<Rightarrow> int \<Rightarrow> int option" where
  "firstOccurrenceAfter z rule anchor moment =
     (case searchStart z rule anchor moment of
        None \<Rightarrow> None
      | Some first \<Rightarrow> search_after kMaxSearch (occurrenceAt z rule anchor) moment first)"

definition occurrenceIndex :: "zone \<Rightarrow> recurrence_rule \<Rightarrow> int \<Rightarrow> int \<Rightarrow> int option" where
  "occurrenceIndex z rule anchor moment =
     (if moment < anchor then None
      else case searchStart z rule anchor moment of
             None \<Rightarrow> None
           | Some first \<Rightarrow> search_index kMaxSearch (occurrenceAt z rule anchor) moment first)"

definition sameTimeTomorrow :: "zone \<Rightarrow> int \<Rightarrow> int option" where
  "sameTimeTomorrow z moment =
     (case wallOf z moment of
        None \<Rightarrow> None
      | Some now \<Rightarrow> epochOf z (now\<lparr>date := civilFromDays (dayNumberOf (date now) + 1)\<rparr>))"

section \<open>The grammar of rules\<close>

definition valid_rule :: "recurrence_rule \<Rightarrow> bool" where
  "valid_rule r \<longleftrightarrow> 1 \<le> interval r \<and> interval r \<le> 999
     \<and> (case monthDay r of None \<Rightarrow> True | Some d \<Rightarrow> 1 \<le> d \<and> d \<le> 31 \<and> frequency r = Monthly)"

fun frequency_name :: "frequency \<Rightarrow> string" where
  "frequency_name Daily = ''DAILY''"
| "frequency_name Weekly = ''WEEKLY''"
| "frequency_name Monthly = ''MONTHLY''"
| "frequency_name Yearly = ''YEARLY''"

definition rule_text :: "recurrence_rule \<Rightarrow> string" where
  "rule_text r = ''FREQ='' @ frequency_name (frequency r) @ '';INTERVAL='' @ to_string (interval r)
     @ (case monthDay r of None \<Rightarrow> [] | Some d \<Rightarrow> '';BYMONTHDAY='' @ to_string d)"

lemma boundedOf_bounds: "boundedOf s lo hi = Some n \<Longrightarrow> lo \<le> n \<and> n \<le> hi"
  by (auto simp: boundedOf_def split: option.splits if_splits)

lemma boundedOf_to_string:
  assumes "lo \<le> n" "n \<le> hi" "- 2147483648 \<le> lo" "hi \<le> 2147483647"
  shows "boundedOf (to_string n) lo hi = Some n"
  using assms by (simp add: boundedOf_def from_chars_to_string)

definition state_ok :: "rule_state \<Rightarrow> bool" where
  "state_ok st \<longleftrightarrow> 1 \<le> interval (rule_so_far st) \<and> interval (rule_so_far st) \<le> 999
     \<and> (\<forall>d. monthDay (rule_so_far st) = Some d \<longrightarrow> 1 \<le> d \<and> d \<le> 31)"

lemma parse_part_ok: "parse_part st p = Some st' \<Longrightarrow> state_ok st \<Longrightarrow> state_ok st'"
  by (auto simp: parse_part_def state_ok_def Let_def kMaxInterval_def kMaxMonthDay_def
      dest!: boundedOf_bounds split: option.splits if_splits)

lemma parse_parts_ok: "parse_parts st s = Some st' \<Longrightarrow> state_ok st \<Longrightarrow> state_ok st'"
proof (induction st s rule: parse_parts.induct)
  case (1 st s)
  show ?case
  proof (cases "s = []")
    case True
    then show ?thesis using 1 by (simp add: parse_parts.simps)
  next
    case False
    then obtain st1 where p: "parse_part st (fst (first_rule_part s)) = Some st1"
        "parse_parts st1 (snd (first_rule_part s)) = Some st'"
      using 1(2) by (auto simp: parse_parts.simps [of st s] split: option.splits)
    show ?thesis using 1(1) [OF False p] parse_part_ok [OF p(1) 1(3)] by blast
  qed
qed

lemma parse_part_key:
  "CHR ''='' \<notin> set key \<Longrightarrow> find_char CHR ''='' (key @ CHR ''='' # value) = Some (length key)"
  by (rule find_char_append)

lemma parse_parts_last:
  "CHR '';'' \<notin> set part \<Longrightarrow> part \<noteq> [] \<Longrightarrow> parse_parts st part = parse_part st part"
  by (subst parse_parts.simps)
     (simp add: first_rule_part_def find_char_None [THEN iffD2] parse_parts.simps [of _ "[]"] split: option.split)

lemma parse_parts_cons:
  "CHR '';'' \<notin> set part \<Longrightarrow> parse_parts st (part @ CHR '';'' # rest)
     = (case parse_part st part of None \<Rightarrow> None | Some st' \<Rightarrow> parse_parts st' rest)"
proof -
  assume "CHR '';'' \<notin> set part"
  then have "first_rule_part (part @ CHR '';'' # rest) = (part, rest)"
    by (simp add: first_rule_part_def find_char_append)
  then show ?thesis by (subst parse_parts.simps) (simp only: fst_conv snd_conv append_is_Nil_conv list.simps if_False simp_thms)
qed

lemma decimal_plain: "c \<in> set (to_string n) \<Longrightarrow> 0 \<le> n \<Longrightarrow> is_cdigit c"
  using is_cdigit_decimal by (auto simp: to_string_def)

lemma to_string_no_sep: "0 \<le> n \<Longrightarrow> CHR '';'' \<notin> set (to_string n)"
  using decimal_plain [of "CHR '';''" n] by (auto simp: is_cdigit_def ccode_def)

lemma to_string_nonempty [simp]: "to_string n \<noteq> []"
  by (simp add: to_string_def)

lemma to_string_last: "0 \<le> n \<Longrightarrow> last (to_string n) \<noteq> CHR '';''"
  using to_string_no_sep [of n] last_in_set [OF to_string_nonempty [of n]] by metis

lemma frequency_name_plain: "CHR '';'' \<notin> set (frequency_name f)"
  by (cases f) simp_all

lemma frequencyOf_name: "frequencyOf (frequency_name f) = Some f"
  by (cases f) (simp_all add: frequencyOf_def)

lemma parse_freq:
  "\<not> frequencySeen st \<Longrightarrow> parse_part st (''FREQ='' @ frequency_name f)
     = Some (st\<lparr>rule_so_far := (rule_so_far st)\<lparr>frequency := f\<rparr>, frequencySeen := True\<rparr>)"
  using parse_part_key [of "''FREQ''" "frequency_name f"]
  by (simp add: parse_part_def frequencyOf_name)

lemma parse_interval:
  "\<not> intervalSeen st \<Longrightarrow> 1 \<le> n \<Longrightarrow> n \<le> 999 \<Longrightarrow> parse_part st (''INTERVAL='' @ to_string n)
     = Some (st\<lparr>rule_so_far := (rule_so_far st)\<lparr>interval := n\<rparr>, intervalSeen := True\<rparr>)"
  using parse_part_key [of "''INTERVAL''" "to_string n"]
  by (simp add: parse_part_def boundedOf_to_string kMaxInterval_def)

lemma parse_month_day:
  "monthDay (rule_so_far st) = None \<Longrightarrow> 1 \<le> n \<Longrightarrow> n \<le> 31 \<Longrightarrow> parse_part st (''BYMONTHDAY='' @ to_string n)
     = Some (st\<lparr>rule_so_far := (rule_so_far st)\<lparr>monthDay := Some n\<rparr>\<rparr>)"
  using parse_part_key [of "''BYMONTHDAY''" "to_string n"]
  by (simp add: parse_part_def boundedOf_to_string kMaxMonthDay_def)

lemma parse_rule_text:
  assumes "valid_rule r"
  shows "parseRecurrenceRule (rule_text r) = Some r"
proof -
  have i: "1 \<le> interval r" "interval r \<le> 999" using assms by (auto simp: valid_rule_def)
  define st where "st = initial_rule_state\<lparr>rule_so_far := (rule_so_far initial_rule_state)\<lparr>frequency := frequency r\<rparr>,
    frequencySeen := True\<rparr>"
  define st2 where "st2 = st\<lparr>rule_so_far := (rule_so_far st)\<lparr>interval := interval r\<rparr>, intervalSeen := True\<rparr>"
  let ?tail = "case monthDay r of None \<Rightarrow> [] | Some d \<Rightarrow> '';BYMONTHDAY='' @ to_string d"
  have s: "rule_text r = (''FREQ='' @ frequency_name (frequency r)) @ CHR '';'' # ((''INTERVAL='' @ to_string (interval r)) @ ?tail)"
    by (simp add: rule_text_def)
  have no: "CHR '';'' \<notin> set (''FREQ='' @ frequency_name (frequency r))"
    "CHR '';'' \<notin> set (''INTERVAL='' @ to_string (interval r))"
    using i by (simp_all add: frequency_name_plain to_string_no_sep)
  have first: "parse_parts initial_rule_state (rule_text r) = parse_parts st ((''INTERVAL='' @ to_string (interval r)) @ ?tail)"
    unfolding s parse_parts_cons [OF no(1)] st_def
    by (subst parse_freq) (simp_all add: initial_rule_state_def)
  have pi: "parse_part st (''INTERVAL='' @ to_string (interval r)) = Some st2"
    unfolding st2_def by (rule parse_interval) (use i in \<open>simp_all add: st_def initial_rule_state_def\<close>)
  have st2: "frequencySeen st2" "rule_so_far st2 = r\<lparr>monthDay := None\<rparr>"
    by (simp_all add: st2_def st_def initial_rule_state_def)
  show ?thesis
  proof (cases "monthDay r")
    case None
    have "rule_text r \<noteq> [] \<and> last (rule_text r) \<noteq> CHR '';''"
      using to_string_last [of "interval r"] i None by (simp add: rule_text_def)
    moreover have "parse_parts initial_rule_state (rule_text r) = Some st2"
      unfolding first None using parse_parts_last [OF no(2)] pi by simp
    ultimately show ?thesis
      using None st2 by (simp add: parseRecurrenceRule_def)
  next
    case (Some d)
    then have d: "1 \<le> d" "d \<le> 31" "frequency r = Monthly" using assms by (auto simp: valid_rule_def)
    have "rule_text r \<noteq> [] \<and> last (rule_text r) \<noteq> CHR '';''"
      using to_string_last [of d] d Some by (simp add: rule_text_def)
    moreover have "parse_parts initial_rule_state (rule_text r) = Some (st2\<lparr>rule_so_far := r\<rparr>)"
    proof -
      have "parse_parts initial_rule_state (rule_text r)
          = parse_parts st ((''INTERVAL='' @ to_string (interval r)) @ CHR '';'' # (''BYMONTHDAY='' @ to_string d))"
        by (simp add: first Some)
      also have "\<dots> = parse_parts st2 (''BYMONTHDAY='' @ to_string d)"
        unfolding parse_parts_cons [OF no(2)] pi by (simp only: option.case)
      also have "\<dots> = parse_part st2 (''BYMONTHDAY='' @ to_string d)"
        by (rule parse_parts_last) (use d in \<open>simp_all add: to_string_no_sep\<close>)
      also have "\<dots> = Some (st2\<lparr>rule_so_far := (rule_so_far st2)\<lparr>monthDay := Some d\<rparr>\<rparr>)"
        by (rule parse_month_day) (use d st2 in simp_all)
      also have "(rule_so_far st2)\<lparr>monthDay := Some d\<rparr> = r" using Some by (simp add: st2)
      finally show ?thesis .
    qed
    ultimately show ?thesis
      using Some d st2 by (simp add: parseRecurrenceRule_def)
  qed
qed

lemma parse_rule_valid: "parseRecurrenceRule s = Some r \<Longrightarrow> valid_rule r"
  using parse_parts_ok [of initial_rule_state s]
  by (fastforce simp: parseRecurrenceRule_def valid_rule_def state_ok_def initial_rule_state_def
      split: if_splits option.splits)

section \<open>Search in a series\<close>

lemma search_after_Some:
  assumes "search_after n occurrence moment i = Some t"
  obtains k where "occurrence (i + int k) = Some t" "t > moment"
    "\<And>j. j < k \<Longrightarrow> \<exists>c. occurrence (i + int j) = Some c \<and> c \<le> moment"
  using assms
proof (induction n arbitrary: i thesis)
  case (Suc n)
  obtain c where c: "occurrence i = Some c"
    using Suc.prems(2) by (auto split: option.splits)
  show ?case
  proof (cases "c > moment")
    case True
    then show ?thesis using Suc.prems(1) [of 0] Suc.prems(2) c by simp
  next
    case False
    then have "search_after n occurrence moment (i + 1) = Some t"
      using Suc.prems(2) c by simp
    from Suc.IH [OF _ this] obtain k where k: "occurrence (i + 1 + int k) = Some t" "t > moment"
        "\<And>j. j < k \<Longrightarrow> \<exists>c. occurrence (i + 1 + int j) = Some c \<and> c \<le> moment"
      by blast
    have "\<exists>c. occurrence (i + int j) = Some c \<and> c \<le> moment" if "j < Suc k" for j
      using that k(3) [of "j - 1"] c False by (cases j) (auto simp: algebra_simps)
    then show ?thesis
      using Suc.prems(1) [of "Suc k"] k(1,2) by (simp add: algebra_simps)
  qed
qed simp

lemma search_after_finds:
  assumes "\<And>j. j \<le> k \<Longrightarrow> \<exists>c. occurrence (i + int j) = Some c"
    "occurrence (i + int k) = Some c" "c > moment" "k < n"
  shows "\<exists>t. search_after n occurrence moment i = Some t"
  using assms
proof (induction n arbitrary: i k)
  case (Suc n)
  show ?case
  proof (cases k)
    case 0
    then show ?thesis using Suc.prems by simp
  next
    case (Suc k')
    obtain c0 where c0: "occurrence i = Some c0" using Suc.prems(1) [of 0] by auto
    have "\<exists>c. occurrence (i + 1 + int j) = Some c" if "j \<le> k'" for j
      using Suc.prems(1) [of "Suc j"] that Suc by (simp add: algebra_simps)
    then have "\<exists>t. search_after n occurrence moment (i + 1) = Some t"
      using Suc.prems(2-) Suc by (intro Suc.IH [of k']) (auto simp: algebra_simps)
    then show ?thesis using c0 by simp
  qed
qed simp

lemma search_index_Some:
  "search_index n occurrence moment i = Some k \<Longrightarrow> i \<le> k \<and> occurrence k = Some moment
     \<and> (\<forall>j. i \<le> j \<and> j < k \<longrightarrow> (\<exists>c. occurrence j = Some c \<and> c < moment))"
proof (induction n arbitrary: i)
  case (Suc n)
  obtain c where c: "occurrence i = Some c" "\<not> c > moment"
    using Suc.prems by (auto split: option.splits if_splits)
  show ?case
  proof (cases "c = moment")
    case False
    then have r: "i + 1 \<le> k \<and> occurrence k = Some moment
        \<and> (\<forall>j. i + 1 \<le> j \<and> j < k \<longrightarrow> (\<exists>c. occurrence j = Some c \<and> c < moment))"
      using Suc c by simp
    have "\<exists>c. occurrence j = Some c \<and> c < moment" if "i \<le> j" "j < k" for j
      using that r c False by (cases "j = i") auto
    then show ?thesis using r by simp
  qed (use Suc.prems c in auto)
qed simp

lemma search_index_finds:
  assumes "\<And>j. j < k \<Longrightarrow> \<exists>c. occurrence (i + int j) = Some c \<and> c < moment"
    "occurrence (i + int k) = Some moment" "k < n"
  shows "search_index n occurrence moment i = Some (i + int k)"
  using assms
proof (induction n arbitrary: i k)
  case (Suc n)
  show ?case
  proof (cases k)
    case 0
    then show ?thesis using Suc.prems by simp
  next
    case (Suc k')
    obtain c0 where c0: "occurrence i = Some c0" "c0 < moment" using Suc.prems(1) [of 0] Suc by auto
    have "\<exists>c. occurrence (i + 1 + int j) = Some c \<and> c < moment" if "j < k'" for j
      using Suc.prems(1) [of "Suc j"] that Suc by (simp add: algebra_simps)
    then have "search_index n occurrence moment (i + 1) = Some (i + 1 + int k')"
      using Suc.prems(2-) Suc by (intro Suc.IH) (auto simp: algebra_simps)
    then show ?thesis using c0 Suc by (simp add: algebra_simps)
  qed
qed simp

text \<open>
  What the search relies on: the occurrences of a series come in ascending order and belong to units of
  the calendar (days, months, years) that are evenly spaced. \<open>pos\<close> is the unit of a time,
  \<open>base + k * step\<close> the unit of the occurrence \<open>k\<close>, and \<open>bound\<close> the last index for which the calendar
  is exact. A time in a later unit than an occurrence comes after it; before an occurrence are only the times
  that are two units earlier, because a clock that is set forward at midnight can place the occurrence in the
  last hour of the unit before.
\<close>

locale calendar_series =
  fixes occurrence :: "int \<Rightarrow> int option" and pos :: "int \<Rightarrow> int"
    and base step bound :: int and range :: "int \<Rightarrow> bool"
  assumes step_pos: "0 < step"
    and defined: "0 \<le> k \<Longrightarrow> k \<le> bound \<Longrightarrow> \<exists>t. occurrence k = Some t"
    and increasing: "0 \<le> k \<Longrightarrow> k < l \<Longrightarrow> l \<le> bound \<Longrightarrow> occurrence k = Some t \<Longrightarrow> occurrence l = Some t' \<Longrightarrow> t < t'"
    and earlier_unit: "0 \<le> k \<Longrightarrow> k \<le> bound \<Longrightarrow> range m \<Longrightarrow> base + k * step < pos m \<Longrightarrow> occurrence k = Some t \<Longrightarrow> t < m"
    and later_unit: "0 \<le> k \<Longrightarrow> k \<le> bound \<Longrightarrow> range m \<Longrightarrow> pos m + 2 \<le> base + k * step \<Longrightarrow> occurrence k = Some t \<Longrightarrow> m < t"
begin

lemma before:
  assumes "0 \<le> k" "k \<le> bound" "range m" "base + k * step < pos m"
  obtains t where "occurrence k = Some t" "t < m"
  using defined [of k] earlier_unit assms by metis

lemma beyond:
  assumes "0 \<le> k" "k \<le> bound" "range m" "pos m + 2 \<le> base + k * step"
  obtains t where "occurrence k = Some t" "m < t"
  using defined [of k] later_unit assms by metis

text \<open>
  The estimate: dividing the distance of the units by the step, less one, never starts past the
  first occurrence after the moment, and that is at most three further on.
\<close>

lemma estimate_before:
  assumes "range m" "base \<le> from + 1" "0 \<le> k" "k < tdiv (pos m - from) step - 1" "k \<le> bound"
  obtains t where "occurrence k = Some t" "t < m"
proof -
  have "0 < tdiv (pos m - from) step" using assms(3,4) by simp
  then have "0 \<le> pos m - from" using step_pos
    by (smt (verit) tdiv_neg pos_imp_zdiv_nonneg_iff)
  then have "tdiv (pos m - from) step * step \<le> pos m - from"
    using step_pos by (simp add: tdiv_nonneg) (metis add_le_same_cancel1 div_mult_mod_eq eq_iff_diff_eq_0 linorder_not_less pos_mod_sign le_add_same_cancel1)
  moreover have "(k + 2) * step \<le> tdiv (pos m - from) step * step"
    using assms(4) step_pos by (intro mult_right_mono) auto
  ultimately have "from + (k + 2) * step \<le> pos m" by linarith
  then have "base + k * step < pos m"
    using assms(2) step_pos by (simp add: distrib_right)
  then show ?thesis using before assms that by metis
qed

lemma estimate_beyond:
  assumes "range m" "from \<le> base" "l = max (tdiv (pos m - from) step) 0 + 2" "l \<le> bound"
  obtains t where "occurrence l = Some t" "m < t"
proof -
  have "pos m - from < (l - 1) * step"
  proof (cases "0 \<le> pos m - from")
    case True
    have "(pos m - from) div step * step + (pos m - from) mod step = pos m - from"
      by (rule div_mult_mod_eq)
    then have "pos m - from < (pos m - from) div step * step + step"
      using step_pos pos_mod_bound [of step "pos m - from"] by linarith
    moreover have "0 \<le> (pos m - from) div step" using True step_pos by (simp add: pos_imp_zdiv_nonneg_iff)
    then have "l - 1 = (pos m - from) div step + 1" using True step_pos assms(3) by (simp add: tdiv_nonneg)
    ultimately show ?thesis by (simp add: distrib_right)
  next
    case False
    have "0 < (l - 1) * step" using step_pos assms(3) by simp
    then show ?thesis using False by linarith
  qed
  then have "pos m + 2 \<le> base + l * step" using assms(2) step_pos by (simp add: left_diff_distrib)
  moreover have "0 \<le> l" using assms(3) by simp
  ultimately show ?thesis using beyond assms that by metis
qed

lemma search_least:
  assumes "range m" "from \<le> base" "base \<le> from + 1" "e = tdiv (pos m - from) step"
    "max e 0 + 2 \<le> bound" "4 \<le> n"
  shows "\<exists>k t. 0 \<le> k \<and> k \<le> max e 0 + 2 \<and> search_after n occurrence m (max (e - 1) 0) = Some t
    \<and> occurrence k = Some t \<and> t > m \<and> (\<forall>j. 0 \<le> j \<and> j < k \<longrightarrow> (\<exists>c. occurrence j = Some c \<and> c \<le> m))"
proof -
  let ?i = "max (e - 1) 0" and ?l = "max e 0 + 2"
  obtain t where t: "occurrence ?l = Some t" "m < t"
    using estimate_beyond [OF assms(1,2) _ assms(5)] assms(4) by metis
  define d where "d = nat (?l - ?i)"
  have d: "?i + int d = ?l" "d < n" "d \<le> 3" using assms(6) by (auto simp: d_def)
  have def: "\<exists>c. occurrence (?i + int j) = Some c" if "j \<le> d" for j
    using defined [of "?i + int j"] that d(1) assms(5) by auto
  obtain s where s: "search_after n occurrence m ?i = Some s"
    using search_after_finds [of d occurrence ?i t m n] def t d by auto
  obtain k where k: "occurrence (?i + int k) = Some s" "s > m"
      "\<And>j. j < k \<Longrightarrow> \<exists>c. occurrence (?i + int j) = Some c \<and> c \<le> m"
    using search_after_Some [OF s] by metis
  have kl: "?i + int k \<le> ?l"
  proof (rule ccontr)
    assume "\<not> ?thesis"
    then have "d < k" using d(1) by simp
    then show False using k(3) [of d] d(1) t by auto
  qed
  have "\<exists>c. occurrence j = Some c \<and> c \<le> m" if j: "0 \<le> j" "j < ?i + int k" for j
  proof (cases "j < ?i")
    case True
    have "j \<le> bound" using True assms(5) by linarith
    with True j estimate_before [OF assms(1,3), of j] assms(4) show ?thesis
      by (metis less_le max.strict_coboundedI1 max_def)
  next
    case False
    then have "?i + int (nat (j - ?i)) = j" "nat (j - ?i) < k" using j by linarith+
    then show ?thesis using k(3) [of "nat (j - ?i)"] by simp
  qed
  then show ?thesis using s k kl by (intro exI [of _ "?i + int k"] exI [of _ s]) auto
qed

end

section \<open>Properties\<close>

text \<open>C37. The parser of rules accepts what its error message says and nothing else comes out of
  it: every rule it returns has an interval from 1 to 999, and a day of the month only with a
  monthly frequency and from 1 to 31; and every such rule is read back from its canonical text.\<close>

theorem rule_grammar:
  "(\<forall>s r. parseRecurrenceRule s = Some r \<longrightarrow> valid_rule r)
   \<and> (\<forall>r. valid_rule r \<longrightarrow> parseRecurrenceRule (rule_text r) = Some r)"
  using parse_rule_valid parse_rule_text by blast

theorem rule_grammar_witness:
  "parseRecurrenceRule (rule_text \<lparr>frequency = Monthly, interval = 2, monthDay = Some 31\<rparr>)
     = Some \<lparr>frequency = Monthly, interval = 2, monthDay = Some 31\<rparr>"
  using rule_grammar by (simp add: valid_rule_def)

end
