(* ===== verification/Recurrence_Series.thy ===== *)
theory Recurrence_Series
  imports Recurrence
begin

text \<open>
  The occurrences of a series in the zone of the host, daylight saving included: they fall on the
  dates the rule asks for, and the search of \<open>recurrence.cc\<close> finds the first one after a moment. The
  calendar is exact for about 300,000 years, and a series is asked for within 30,000 years of 1970.
\<close>

section \<open>The zone of the host\<close>

text \<open>
  \<open>tm_at\<close> breaks local seconds down as \<open>localtime_r\<close> does, \<open>wall_seconds\<close> puts them together again, and
  \<open>tm_for\<close> is what \<open>epochOf\<close> hands to \<open>mktime\<close>. \<open>wall_time z t\<close> is what the clocks of the zone show
  at the moment \<open>t\<close>, in seconds since their own midnight of 1970-01-01.
\<close>

definition tm_at :: "int \<Rightarrow> tm" where
  "tm_at t =
     (let d = civilFromDays (t div 86400); s = t mod 86400
      in \<lparr>tm_year = year d - 1900, tm_mon = month d - 1, tm_mday = day d,
          tm_hour = s div 3600, tm_min = s mod 3600 div 60, tm_sec = s mod 60, tm_isdst = 0\<rparr>)"

definition wall_seconds :: "tm \<Rightarrow> int" where
  "wall_seconds l =
     dayNumberOf \<lparr>year = tm_year l + 1900, month = tm_mon l + 1, day = tm_mday l\<rparr> * 86400
       + tm_hour l * 3600 + tm_min l * 60 + tm_sec l"

definition tm_for :: "civil_date \<Rightarrow> int \<Rightarrow> tm" where
  "tm_for d s =
     \<lparr>tm_year = year d - 1900, tm_mon = month d - 1, tm_mday = day d,
      tm_hour = s div 3600, tm_min = s mod 3600 div 60, tm_sec = s mod 60, tm_isdst = - 1\<rparr>"

definition wall_time :: "zone \<Rightarrow> int \<Rightarrow> int" where
  "wall_time z t = (case localtime_r z t of None \<Rightarrow> 0 | Some l \<Rightarrow> wall_seconds l)"

definition local_day :: "zone \<Rightarrow> int \<Rightarrow> int" where
  "local_day z t = wall_time z t div 86400"

definition local_date :: "zone \<Rightarrow> int \<Rightarrow> civil_date" where
  "local_date z t = civilFromDays (local_day z t)"

text \<open>
  What the code relies on of \<open>localtime_r\<close> and \<open>mktime\<close>, for the times \<open>calendar_time\<close> and
  the years up to 100,000: the clocks are between \<open>lo\<close> and \<open>hi\<close> seconds ahead of UTC, with at most half a
  day between the two; the calendar date never goes backwards; and \<open>mktime\<close> gives, for a date and a time
  of day, a moment at one of these offsets which is not on a later date, and at which the clocks show just that
  time of day whenever there is such a moment. \<open>mktime\<close> is free to choose among two such moments, when the
  clocks are set back, and to move a time that is skipped either way, when they are set forward.
\<close>

definition calendar_time :: "int \<Rightarrow> bool" where
  "calendar_time t \<longleftrightarrow> \<bar>t\<bar> \<le> 10 ^ 13"

definition host_zone :: "int \<Rightarrow> int \<Rightarrow> zone \<Rightarrow> bool" where
  "host_zone lo hi z \<longleftrightarrow>
     - 86400 \<le> lo \<and> lo \<le> hi \<and> hi \<le> 86400 \<and> hi - lo \<le> 43200
     \<and> (\<forall>t. calendar_time t \<longrightarrow>
          (\<exists>off dst. lo \<le> off \<and> off \<le> hi \<and> localtime_r z t = Some ((tm_at (t + off))\<lparr>tm_isdst := dst\<rparr>)))
     \<and> (\<forall>t t'. calendar_time t \<and> calendar_time t' \<and> t \<le> t' \<longrightarrow> local_day z t \<le> local_day z t')
     \<and> (\<forall>d s. valid_date d \<and> 0 \<le> year d \<and> year d \<le> 100000 \<and> 0 \<le> s \<and> s < 86400 \<longrightarrow>
          (\<exists>off. lo \<le> off \<and> off \<le> hi \<and> mktime z (tm_for d s) = dayNumberOf d * 86400 + s - off)
          \<and> local_day z (mktime z (tm_for d s)) \<le> dayNumberOf d
          \<and> (\<forall>u. calendar_time u \<and> wall_time z u = dayNumberOf d * 86400 + s \<longrightarrow>
               wall_time z (mktime z (tm_for d s)) = dayNumberOf d * 86400 + s))"

text \<open>A zone without daylight saving: local time is the time of the epoch, shifted by \<open>off\<close> seconds.\<close>

definition offset_zone :: "int \<Rightarrow> zone" where
  "offset_zone off = \<lparr>localtime_r = \<lambda>t. Some (tm_at (t + off)), mktime = \<lambda>l. wall_seconds l - off\<rparr>"

text \<open>
  New York in the year 2026: the clocks go forward on the 8th of March at 07:00 UTC, from two to three, and back on
  the 1st of November at 06:00 UTC, from two to one. \<open>mktime\<close> takes the first of two moments, and reads a
  skipped time with the offset of the winter.
\<close>

definition eastern_dst :: "int \<Rightarrow> bool" where
  "eastern_dst t \<longleftrightarrow> 1772953200 \<le> t \<and> t < 1793512800"

definition eastern_zone :: zone where
  "eastern_zone =
     \<lparr>localtime_r = \<lambda>t. Some (if eastern_dst t then (tm_at (t - 14400))\<lparr>tm_isdst := 1\<rparr> else tm_at (t - 18000)),
      mktime = \<lambda>l. (if eastern_dst (wall_seconds l + 14400) then wall_seconds l + 14400 else wall_seconds l + 18000)\<rparr>"

section \<open>Wall clocks\<close>

lemma seconds_split: "s div 3600 * 3600 + s mod 3600 div 60 * 60 + s mod 60 = (s :: int)"
proof -
  have "s mod 60 = s mod 3600 mod 60" by (simp add: mod_mod_cancel)
  then show ?thesis by (metis add.assoc div_mult_mod_eq)
qed

lemma wall_seconds_at:
  assumes "\<bar>t\<bar> \<le> 10 ^ 14"
  shows "wall_seconds ((tm_at t)\<lparr>tm_isdst := dst\<rparr>) = t"
proof -
  have "dayNumberOf (civilFromDays (t div 86400)) = t div 86400"
    using dayNumberOf_civilFromDays [of "t div 86400"] assms by (auto simp: abs_le_iff)
  moreover have "dayNumberOf \<lparr>year = year d, month = month d, day = day d\<rparr> = dayNumberOf d" for d
    by (cases d) simp
  ultimately have "wall_seconds ((tm_at t)\<lparr>tm_isdst := dst\<rparr>) = t div 86400 * 86400 + (t mod 86400 div 3600 * 3600
      + t mod 86400 mod 3600 div 60 * 60 + t mod 86400 mod 60)"
    by (simp add: wall_seconds_def tm_at_def Let_def)
  then show ?thesis
    by (simp only: seconds_split div_mult_mod_eq)
qed

lemma tm_at_winter [simp]: "(tm_at t)\<lparr>tm_isdst := 0\<rparr> = tm_at t"
  by (simp add: tm_at_def Let_def)

lemmas wall_seconds_winter = wall_seconds_at [where dst = 0, unfolded tm_at_winter]

lemma wall_seconds_for: "wall_seconds (tm_for d s) = dayNumberOf d * 86400 + s"
  using seconds_split [of s] by (cases d) (simp add: wall_seconds_def tm_for_def)

lemma epochOf_for:
  "epochOf z \<lparr>date = d, hour = s div 3600, minute = s mod 3600 div 60, second = s mod 60\<rparr>
     = (if mktime z (tm_for d s) = - 1 then None else Some (mktime z (tm_for d s)))"
  by (simp add: epochOf_def tm_for_def Let_def)

lemma host_zone_offsets: "host_zone lo hi z \<Longrightarrow> - 86400 \<le> lo \<and> lo \<le> hi \<and> hi \<le> 86400 \<and> hi - lo \<le> 43200"
  by (simp add: host_zone_def)

lemma host_wall_time:
  assumes "host_zone lo hi z" "calendar_time t"
  obtains off where "lo \<le> off" "off \<le> hi" "wall_time z t = t + off"
proof -
  obtain off dst where off: "lo \<le> off" "off \<le> hi" "localtime_r z t = Some ((tm_at (t + off))\<lparr>tm_isdst := dst\<rparr>)"
    using assms unfolding host_zone_def by blast
  have "\<bar>t + off\<bar> \<le> 10 ^ 14"
    using off host_zone_offsets [OF assms(1)] assms(2) by (auto simp: calendar_time_def abs_le_iff)
  then show ?thesis
    using that [of off] off by (simp add: wall_time_def wall_seconds_at)
qed

lemma local_day_mono:
  "host_zone lo hi z \<Longrightarrow> calendar_time t \<Longrightarrow> calendar_time t' \<Longrightarrow> t \<le> t' \<Longrightarrow> local_day z t \<le> local_day z t'"
  unfolding host_zone_def by blast

lemma host_mktime:
  assumes "host_zone lo hi z" "valid_date d" "0 \<le> year d" "year d \<le> 100000" "0 \<le> s" "s < 86400"
  shows "\<exists>off. lo \<le> off \<and> off \<le> hi \<and> mktime z (tm_for d s) = dayNumberOf d * 86400 + s - off"
    "local_day z (mktime z (tm_for d s)) \<le> dayNumberOf d"
    "calendar_time u \<Longrightarrow> wall_time z u = dayNumberOf d * 86400 + s
       \<Longrightarrow> wall_time z (mktime z (tm_for d s)) = dayNumberOf d * 86400 + s"
  using assms unfolding host_zone_def by blast+

lemma wallOf_host:
  assumes "host_zone lo hi z" "calendar_time t"
  shows "wallOf z t = Some \<lparr>date = local_date z t, hour = wall_time z t mod 86400 div 3600,
     minute = wall_time z t mod 86400 mod 3600 div 60, second = wall_time z t mod 86400 mod 60\<rparr>"
proof -
  obtain off dst where off: "lo \<le> off" "off \<le> hi" "localtime_r z t = Some ((tm_at (t + off))\<lparr>tm_isdst := dst\<rparr>)"
    using assms unfolding host_zone_def by blast
  have "\<bar>t + off\<bar> \<le> 10 ^ 14"
    using off host_zone_offsets [OF assms(1)] assms(2) by (auto simp: calendar_time_def abs_le_iff)
  then have "wall_time z t = t + off" by (simp add: wall_time_def wall_seconds_at off(3))
  then show ?thesis
    by (simp add: wallOf_def off(3) local_date_def local_day_def) (simp add: tm_at_def Let_def)
qed

lemma occurrenceAt_host:
  assumes "host_zone lo hi z" "calendar_time a"
  shows "occurrenceAt z rule a k
     = (let t = mktime z (tm_for (occurrence_date rule (local_date z a) (k * interval rule)) (wall_time z a mod 86400))
        in if t = - 1 then None else Some t)"
  unfolding occurrenceAt_def wallOf_host [OF assms] option.case wall_clock.simps epochOf_for
  by (simp add: Let_def)

lemma local_day_bounds:
  assumes "host_zone lo hi z" "calendar_time t"
  shows "\<bar>local_day z t\<bar> \<le> 200000000"
proof -
  obtain off where "lo \<le> off" "off \<le> hi" "wall_time z t = t + off"
    using host_wall_time [OF assms] .
  then show ?thesis
    using host_zone_offsets [OF assms(1)] assms(2) by (auto simp: local_day_def calendar_time_def abs_le_iff)
qed

lemma local_date_valid:
  assumes "host_zone lo hi z" "calendar_time t"
  shows "valid_date (local_date z t)" "dayNumberOf (local_date z t) = local_day z t"
  using dayNumberOf_civilFromDays [of "local_day z t"] local_day_bounds [OF assms]
  by (auto simp: local_date_def)

lemma valid_year_day:
  assumes "valid_date d" "0 \<le> year d"
  shows "365 * year d - 719834 \<le> dayNumberOf d" "dayNumberOf d \<le> 366 * year d"
proof -
  have m: "1 \<le> month d" "month d \<le> 12" using assms by (auto simp: valid_date_def)
  note v = valid_date_shifted [OF assms(1)]
  have y: "- 1 \<le> shifted_year d" "year d - 1 \<le> shifted_year d" "shifted_year d \<le> year d"
    using assms(2) by (auto simp: shifted_year_def)
  have doy: "(153 * month_index d + 2) div 5 + day d - 1 \<le> 365" "0 \<le> (153 * month_index d + 2) div 5 + day d - 1"
    using v by (auto simp: pos_imp_zdiv_nonneg_iff split: if_splits)
  let ?y = "shifted_year d"
  have "- 1 \<le> ?y div 4 - ?y div 100 + ?y div 400 \<and> ?y div 4 - ?y div 100 + ?y div 400 \<le> ?y + 1"
    using y(1) by linarith
  then show "365 * year d - 719834 \<le> dayNumberOf d" "dayNumberOf d \<le> 366 * year d"
    using dayNumberOf_linear [OF m] doy y unfolding year_start_day_def by linarith+
qed

subsection \<open>Two zones\<close>

lemma offset_wall_time: "\<bar>off\<bar> \<le> 86400 \<Longrightarrow> \<bar>t\<bar> \<le> 9 * 10 ^ 13 \<Longrightarrow> wall_time (offset_zone off) t = t + off"
  by (simp add: wall_time_def offset_zone_def wall_seconds_winter)

lemma offset_mktime: "mktime (offset_zone off) (tm_for d s) = dayNumberOf d * 86400 + s - off"
  by (simp add: offset_zone_def wall_seconds_for)

lemma date_seconds_bound:
  assumes "valid_date d" "0 \<le> year d" "year d \<le> 100000" "0 \<le> s" "s < 86400"
  shows "\<bar>dayNumberOf d * 86400 + s\<bar> \<le> 5 * 10 ^ 12"
  unfolding abs_le_iff using valid_year_day [OF assms(1,2)] assms(2-5) by simp

lemma offset_zone_host:
  assumes "\<bar>off\<bar> \<le> 86400"
  shows "host_zone off off (offset_zone off)"
proof -
  have wall: "wall_time (offset_zone off) t = t + off" if "calendar_time t" for t
    using offset_wall_time [OF assms, of t] that by (simp add: calendar_time_def)
  have "\<exists>o' dst. off \<le> o' \<and> o' \<le> off \<and> localtime_r (offset_zone off) t = Some ((tm_at (t + o'))\<lparr>tm_isdst := dst\<rparr>)" for t
    by (intro exI [of _ off] exI [of _ 0]) (simp add: offset_zone_def)
  moreover have "local_day (offset_zone off) t \<le> local_day (offset_zone off) t'"
    if "calendar_time t" "calendar_time t'" "t \<le> t'" for t t'
    using that by (simp add: local_day_def wall zdiv_mono1)
  moreover note offset_mktime [of off]
  moreover have "wall_time (offset_zone off) (dayNumberOf d * 86400 + s - off) = dayNumberOf d * 86400 + s"
    if "valid_date d" "0 \<le> year d" "year d \<le> 100000" "0 \<le> s" "s < 86400" for d s
    using offset_wall_time [OF assms, of "dayNumberOf d * 86400 + s - off"] date_seconds_bound [OF that] assms
    by (simp add: abs_le_iff)
  ultimately show ?thesis
    using assms unfolding host_zone_def by (simp add: abs_le_iff local_day_def)
qed

lemma eastern_wall_time:
  "\<bar>t\<bar> \<le> 9 * 10 ^ 13 \<Longrightarrow> wall_time eastern_zone t = (if eastern_dst t then t - 14400 else t - 18000)"
  by (simp add: wall_time_def eastern_zone_def wall_seconds_at wall_seconds_winter)

lemma eastern_mktime:
  "mktime eastern_zone (tm_for d s)
    = (let w = dayNumberOf d * 86400 + s in if eastern_dst (w + 14400) then w + 14400 else w + 18000)"
  by (simp add: eastern_zone_def wall_seconds_for Let_def)

lemma eastern_zone_host: "host_zone (- 18000) (- 14400) eastern_zone"
proof -
  have wall: "wall_time eastern_zone t = (if eastern_dst t then t - 14400 else t - 18000)" if "calendar_time t" for t
    using eastern_wall_time [of t] that by (simp add: calendar_time_def)
  have local: "\<exists>off dst. - 18000 \<le> off \<and> off \<le> - 14400
      \<and> localtime_r eastern_zone t = Some ((tm_at (t + off))\<lparr>tm_isdst := dst\<rparr>)" for t
  proof (cases "eastern_dst t")
    case True
    then show ?thesis by (intro exI [of _ "- 14400"] exI [of _ 1]) (simp add: eastern_zone_def)
  next
    case False
    then show ?thesis by (intro exI [of _ "- 18000"] exI [of _ 0]) (simp add: eastern_zone_def)
  qed
  have mono: "local_day eastern_zone t \<le> local_day eastern_zone t'"
    if "calendar_time t" "calendar_time t'" "t \<le> t'" for t t'
  proof (cases "t < 1793512800 \<and> 1793512800 \<le> t'")
    case True
    then have "(t - 14400) div 86400 \<le> 1793498399 div 86400" "1793494800 div 86400 \<le> (t' - 18000) div 86400"
      by (intro zdiv_mono1; simp)+
    moreover have "(t - 18000) div 86400 \<le> (t - 14400) div 86400" by (intro zdiv_mono1) simp_all
    ultimately show ?thesis
      using True by (simp add: local_day_def wall that(1,2) eastern_dst_def)
  next
    case False
    then show ?thesis
      unfolding local_day_def wall [OF that(1)] wall [OF that(2)] using that(3)
      by (intro zdiv_mono1) (auto simp: eastern_dst_def)
  qed
  have made: "local_day eastern_zone (mktime eastern_zone (tm_for d s)) \<le> dayNumberOf d
      \<and> (\<forall>u. calendar_time u \<and> wall_time eastern_zone u = dayNumberOf d * 86400 + s \<longrightarrow>
           wall_time eastern_zone (mktime eastern_zone (tm_for d s)) = dayNumberOf d * 86400 + s)"
    if "valid_date d" "0 \<le> year d" "year d \<le> 100000" "0 \<le> s" "s < 86400" for d s
  proof -
    let ?w = "dayNumberOf d * 86400 + s"
    have "\<bar>?w\<bar> \<le> 5 * 10 ^ 12" by (rule date_seconds_bound [OF that])
    then have w: "wall_time eastern_zone (?w + 14400) = (if eastern_dst (?w + 14400) then ?w else ?w - 3600)"
      "wall_time eastern_zone (?w + 18000) = (if eastern_dst (?w + 18000) then ?w + 3600 else ?w)"
      using eastern_wall_time [of "?w + 14400"] eastern_wall_time [of "?w + 18000"] by (simp_all add: abs_le_iff)
    have day: "dayNumberOf d = ?w div 86400" using that(4,5) by simp
    have skipped: "(v + 3600) div 86400 \<le> v div 86400" if "\<not> eastern_dst (v + 14400)" "eastern_dst (v + 18000)" for v
    proof -
      have "(v + 3600) div 86400 \<le> 1772942399 div 86400" "1772935200 div 86400 \<le> v div 86400"
        using that by (intro zdiv_mono1; simp add: eastern_dst_def)+
      then show ?thesis by simp
    qed
    have "local_day eastern_zone (mktime eastern_zone (tm_for d s)) \<le> ?w div 86400"
      using skipped [of ?w] by (simp add: local_day_def eastern_mktime Let_def w del: div_mult_self3)
    moreover have "wall_time eastern_zone (mktime eastern_zone (tm_for d s)) = ?w"
      if "calendar_time u" "wall_time eastern_zone u = ?w" for u
    proof (cases "eastern_dst (?w + 14400)")
      case False
      have "\<not> eastern_dst u"
      proof
        assume u: "eastern_dst u"
        then have "u = ?w + 14400" using that(2) unfolding wall [OF that(1)] by simp
        with u False show False by simp
      qed
      moreover from this have "u = ?w + 18000" using that(2) unfolding wall [OF that(1)] by simp
      ultimately show ?thesis using False w by (simp add: eastern_mktime)
    qed (simp add: eastern_mktime w)
    ultimately show ?thesis using day by auto
  qed
  have "\<exists>off. - 18000 \<le> off \<and> off \<le> - 14400 \<and> mktime eastern_zone (tm_for d s) = dayNumberOf d * 86400 + s - off" for d s
    by (cases "eastern_dst (dayNumberOf d * 86400 + s + 14400)")
       (auto simp: eastern_mktime intro: exI [of _ "- 14400"] exI [of _ "- 18000"])
  with local mono made show ?thesis
    unfolding host_zone_def by simp
qed

section \<open>Units of the calendar\<close>

lemma year_month_count: "1 \<le> month d \<Longrightarrow> month d \<le> 12 \<Longrightarrow> year d = month_count d div 12"
  by (simp add: date_month_count)

definition calendar_unit :: "frequency \<Rightarrow> civil_date \<Rightarrow> int" where
  "calendar_unit f d =
     (case f of Daily \<Rightarrow> dayNumberOf d | Weekly \<Rightarrow> dayNumberOf d | Monthly \<Rightarrow> month_count d | Yearly \<Rightarrow> year d)"

lemma calendar_unit_mono:
  assumes "valid_date d" "valid_date d'" "dayNumberOf d \<le> dayNumberOf d'"
  shows "calendar_unit f d \<le> calendar_unit f d'"
proof -
  have "month_count d \<le> month_count d'" using assms by (rule month_count_mono)
  moreover have "year d \<le> year d'"
    using assms calculation year_month_count [of d] year_month_count [of d']
    by (simp add: valid_date_def zdiv_mono1)
  ultimately show ?thesis
    using assms(3) by (cases f) (simp_all add: calendar_unit_def)
qed

lemma daysInMonth_bounds: "1 \<le> month d \<Longrightarrow> month d \<le> 12 \<Longrightarrow> 28 \<le> daysInMonth d \<and> daysInMonth d \<le> 31"
  using month_days_pos [of "month_count d"] date_month_count(3) [of d] by simp

lemma unit_less_days:
  assumes "valid_date d" "valid_date d'" "calendar_unit f d < calendar_unit f d'"
  shows "dayNumberOf d < dayNumberOf d'"
  using calendar_unit_mono [OF assms(2,1), of f] assms(3) by linarith

text \<open>Two units apart means two days apart.\<close>

lemma unit_gap_days:
  assumes "valid_date d" "valid_date d'" "calendar_unit f d + 2 \<le> calendar_unit f d'"
  shows "dayNumberOf d + 2 \<le> dayNumberOf d'"
proof -
  have month: "1 \<le> month d" "month d \<le> 12" using assms(1) by (auto simp: valid_date_def)
  have between: ?thesis if "valid_date x" "calendar_unit f d < calendar_unit f x" "calendar_unit f x < calendar_unit f d'" for x
    using unit_less_days [OF assms(1) that(1,2)] unit_less_days [OF that(1) assms(2) that(3)] by simp
  have first: "valid_date \<lparr>year = y, month = n, day = 1\<rparr>" if "1 \<le> n" "n \<le> 12" for y n
    using daysInMonth_bounds [of "\<lparr>year = y, month = n, day = 1\<rparr>"] that by (simp add: valid_date_def)
  show ?thesis
  proof (cases f)
    case Monthly
    let ?m = "month_count d + 1"
    have "month_count \<lparr>year = ?m div 12, month = ?m mod 12 + 1, day = 1\<rparr> = ?m"
      by (simp add: month_count_def)
    moreover have "?m mod 12 + 1 \<le> 12" by presburger
    ultimately show ?thesis
      using between [OF first, of "?m mod 12 + 1" "?m div 12"] Monthly assms(3) by (simp add: calendar_unit_def)
  next
    case Yearly
    then show ?thesis
      using between [OF first, of 1 "year d + 1"] assms(3) by (simp add: calendar_unit_def)
  qed (use assms(3) in \<open>simp_all add: calendar_unit_def\<close>)
qed

section \<open>Positions of a series\<close>

definition series_pos :: "zone \<Rightarrow> recurrence_rule \<Rightarrow> int \<Rightarrow> int" where
  "series_pos z rule t = calendar_unit (frequency rule) (local_date z t)"

definition series_step :: "recurrence_rule \<Rightarrow> int" where
  "series_step rule = max 1 (case frequency rule of Weekly \<Rightarrow> 7 * interval rule | _ \<Rightarrow> interval rule)"

definition series_base :: "zone \<Rightarrow> recurrence_rule \<Rightarrow> int \<Rightarrow> int" where
  "series_base z rule a =
     series_pos z rule a + (case frequency rule of Monthly \<Rightarrow> late_start rule (local_date z a) | _ \<Rightarrow> 0)"

text \<open>What is asked of a series: an anchor and a moment within 30,000 years, the anchor so far after
  the start of 1970 that \<open>mktime\<close> cannot answer \<open>- 1\<close>, which the code takes for a failure.\<close>

definition series_ok :: "int \<Rightarrow> int \<Rightarrow> zone \<Rightarrow> recurrence_rule \<Rightarrow> int \<Rightarrow> int \<Rightarrow> bool" where
  "series_ok lo hi z rule a m \<longleftrightarrow>
     valid_rule rule \<and> host_zone lo hi z \<and> hi - lo \<le> a \<and> a \<le> 10 ^ 12 \<and> \<bar>m\<bar> \<le> 10 ^ 12"

text \<open>The last index the search looks at.\<close>

definition series_bound :: "zone \<Rightarrow> recurrence_rule \<Rightarrow> int \<Rightarrow> int \<Rightarrow> int" where
  "series_bound z rule a m = max (tdiv (series_pos z rule m - series_pos z rule a) (series_step rule)) 0 + 2"

lemma series_ok_zone:
  assumes "series_ok lo hi z rule a m"
  shows "host_zone lo hi z" "calendar_time a" "calendar_time m" "0 \<le> a" "valid_rule rule"
  using assms host_zone_offsets [of lo hi z] by (auto simp: series_ok_def calendar_time_def abs_le_iff)

lemma series_step_eq:
  "valid_rule rule \<Longrightarrow> series_step rule = (case frequency rule of Weekly \<Rightarrow> 7 * interval rule | _ \<Rightarrow> interval rule)"
  by (cases "frequency rule") (simp_all add: series_step_def valid_rule_def)

lemma end_of_1969:
  "dayNumberOf \<lparr>year = 1969, month = 12, day = 31\<rparr> = - 1 \<and> valid_date \<lparr>year = 1969, month = 12, day = 31\<rparr>"
  by code_simp

lemma local_year_bounds:
  assumes "host_zone lo hi z" "\<bar>t\<bar> \<le> 10 ^ 12"
  shows "local_day z t \<le> 11574076" "year (local_date z t) \<le> 40000"
    "0 \<le> t \<Longrightarrow> 0 \<le> year (local_date z t) \<and> - 1 \<le> local_day z t"
proof -
  have ok: "calendar_time t" using assms by (simp add: calendar_time_def)
  obtain off where off: "lo \<le> off" "off \<le> hi" "wall_time z t = t + off"
    using host_wall_time [OF assms(1) ok] .
  note v = local_date_valid [OF assms(1) ok] and o = off host_zone_offsets [OF assms(1)]
  show d: "local_day z t \<le> 11574076"
    using assms(2) o by (auto simp: local_day_def abs_le_iff)
  show "year (local_date z t) \<le> 40000"
    using valid_year_day [OF v(1)] d v(2) by linarith
  assume t: "0 \<le> t"
  have "- 86400 div 86400 \<le> (t + off) div 86400" using t o by (intro zdiv_mono1) simp_all
  then have n: "- 1 \<le> local_day z t" using off(3) by (simp add: local_day_def)
  moreover have "0 \<le> year (local_date z t)"
  proof -
    have "month_count \<lparr>year = 1969, month = 12, day = 31\<rparr> \<le> month_count (local_date z t)"
      using n v end_of_1969 by (intro month_count_mono) simp_all
    then show ?thesis
      using v(1) by (simp add: month_count_def valid_date_def)
  qed
  ultimately show "0 \<le> year (local_date z t) \<and> - 1 \<le> local_day z t" by blast
qed

lemma series_start:
  assumes "series_ok lo hi z rule a m"
  shows "valid_date (local_date z a)" "dayNumberOf (local_date z a) = local_day z a"
    "0 \<le> year (local_date z a)" "year (local_date z a) \<le> 40000"
    "- 1 \<le> local_day z a" "local_day z a \<le> 11574076" "1 \<le> interval rule" "interval rule \<le> 999"
proof -
  note z = series_ok_zone [OF assms]
  have "\<bar>a\<bar> \<le> 10 ^ 12" using assms z(4) by (simp add: series_ok_def)
  then show "0 \<le> year (local_date z a)" "year (local_date z a) \<le> 40000" "- 1 \<le> local_day z a" "local_day z a \<le> 11574076"
    using local_year_bounds [OF z(1), of a] z(4) by simp_all
qed (use series_ok_zone [OF assms] local_date_valid [of lo hi z a] in \<open>auto simp: valid_rule_def\<close>)

fun unit_span :: "frequency \<Rightarrow> int" where
  "unit_span Daily = 11600000"
| "unit_span Weekly = 11600000"
| "unit_span Monthly = 490000"
| "unit_span Yearly = 42000"

lemma unit_bounds:
  assumes "series_ok lo hi z rule a m"
  shows "series_pos z rule m - series_pos z rule a + 2 * series_step rule \<le> unit_span (frequency rule)"
    "2 * series_step rule \<le> unit_span (frequency rule)"
proof -
  note ok = series_ok_zone [OF assms]
  have m: "\<bar>m\<bar> \<le> 10 ^ 12" using assms by (simp add: series_ok_def)
  have v: "1 \<le> month (local_date z m)" "month (local_date z m) \<le> 12"
      "1 \<le> month (local_date z a)" "month (local_date z a) \<le> 12"
    using local_date_valid(1) [OF ok(1,3)] series_start(1) [OF assms] by (auto simp: valid_date_def)
  note b = local_year_bounds(1,2) [OF ok(1) m] local_date_valid(2) [OF ok(1,3)] series_start [OF assms]
  show "series_pos z rule m - series_pos z rule a + 2 * series_step rule \<le> unit_span (frequency rule)"
    using b v by (cases "frequency rule")
      (simp_all add: series_pos_def calendar_unit_def series_step_eq [OF ok(5)] month_count_def)
  show "2 * series_step rule \<le> unit_span (frequency rule)"
    using b by (cases "frequency rule") (simp_all add: series_step_eq [OF ok(5)])
qed

lemma series_index_bound:
  assumes "series_ok lo hi z rule a m" "0 \<le> k" "k \<le> series_bound z rule a m"
  shows "0 \<le> k * series_step rule" "k * series_step rule \<le> unit_span (frequency rule)"
proof -
  let ?s = "series_step rule" and ?d = "series_pos z rule m - series_pos z rule a"
  have s: "1 \<le> ?s" by (simp add: series_step_def)
  then show "0 \<le> k * ?s" using assms(2) by simp
  have k: "k \<le> max (tdiv ?d ?s) 0 + 2" using assms by (simp add: series_bound_def)
  show "k * ?s \<le> unit_span (frequency rule)"
  proof (cases "0 \<le> ?d")
    case True
    have "?d div ?s * ?s \<le> ?d"
      using s div_mult_mod_eq [of ?d ?s] pos_mod_sign [of ?s ?d] by linarith
    moreover have "0 \<le> ?d div ?s" using True s by (simp add: pos_imp_zdiv_nonneg_iff)
    then have "k \<le> ?d div ?s + 2"
      using k True s by (simp add: tdiv_nonneg)
    then have "k * ?s \<le> (?d div ?s + 2) * ?s" using s by (intro mult_right_mono) auto
    ultimately show ?thesis
      using unit_bounds(1) [OF assms(1)] by (simp add: distrib_right)
  next
    case False
    then have "tdiv ?d ?s \<le> 0" using s by (simp add: tdiv_neg pos_imp_zdiv_nonneg_iff)
    then have "k \<le> 2" using k by simp
    then have "k * ?s \<le> 2 * ?s" using s by (intro mult_right_mono) auto
    then show ?thesis using unit_bounds(2) [OF assms(1)] by simp
  qed
qed

text \<open>Where an occurrence lies: on a date that exists, in its unit, and not before the start.\<close>

definition target_ok :: "civil_date \<Rightarrow> civil_date \<Rightarrow> frequency \<Rightarrow> int \<Rightarrow> bool" where
  "target_ok start d f u \<longleftrightarrow> valid_date d \<and> calendar_unit f d = u
     \<and> dayNumberOf start \<le> dayNumberOf d \<and> dayNumberOf d \<le> 100000000 \<and> 0 \<le> year d \<and> year d \<le> 100000"

lemma day_number_year_bounds:
  assumes "valid_date d" "- 1 \<le> dayNumberOf d" "dayNumberOf d \<le> 30000000"
  shows "0 \<le> year d \<and> year d \<le> 100000"
proof -
  have "month_count \<lparr>year = 1969, month = 12, day = 31\<rparr> \<le> month_count d"
    using assms end_of_1969 by (intro month_count_mono) simp_all
  then have "0 \<le> year d"
    using assms(1) by (simp add: month_count_def valid_date_def)
  then show ?thesis using valid_year_day [OF assms(1)] assms(3) by linarith
qed

lemma target_days:
  assumes "valid_date start" "- 1 \<le> dayNumberOf start" "dayNumberOf start \<le> 11574076"
    "0 \<le> n" "n \<le> 11600000" "f = Daily \<or> f = Weekly"
  shows "target_ok start (civilFromDays (dayNumberOf start + n)) f (calendar_unit f start + n)"
proof -
  have "dayNumberOf (civilFromDays (dayNumberOf start + n)) = dayNumberOf start + n
      \<and> valid_date (civilFromDays (dayNumberOf start + n))"
    using assms by (intro dayNumberOf_civilFromDays) auto
  then show ?thesis
    using assms day_number_year_bounds [of "civilFromDays (dayNumberOf start + n)"]
    by (auto simp: target_ok_def calendar_unit_def)
qed

lemma target_later_month:
  assumes "valid_date start" "valid_date d" "month_count start < month_count d" "0 \<le> year d" "year d \<le> 100000"
  shows "target_ok start d f (calendar_unit f d)"
  using month_count_less [OF assms(1-3)] valid_year_day [OF assms(2,4)] assms
  by (simp add: target_ok_def)

lemma target_same_month:
  assumes "valid_date d" "month d = month start" "year d = year start"
    "day start \<le> day d" "0 \<le> year d" "year d \<le> 100000"
  shows "target_ok start d f (calendar_unit f d)"
proof -
  have m: "1 \<le> month d" "month d \<le> 12" using assms(1) by (auto simp: valid_date_def)
  have "month_count start = month_count d" using assms by (simp add: month_count_def)
  then have "dayNumberOf start \<le> dayNumberOf d"
    using date_month_count(4) [of start] date_month_count(4) [OF m] m assms by simp
  then show ?thesis
    using valid_year_day [OF assms(1,5)] assms by (simp add: target_ok_def)
qed

lemma target_monthly:
  assumes "valid_date start" "0 \<le> year start" "year start \<le> 40000" "valid_rule rule" "frequency rule = Monthly"
    "0 \<le> n" "n \<le> 490000"
  shows "target_ok start (occurrence_date rule start n) Monthly (month_count start + late_start rule start + n)"
proof -
  let ?late = "late_start rule start" and ?md = "monthly_day rule start"
  define M where "M = month_count start + ?late + n"
  define d where "d = occurrence_date rule start n"
  have v: "1 \<le> month start" "month start \<le> 12" "1 \<le> day start" "day start \<le> daysInMonth start"
    using assms(1) by (auto simp: valid_date_def)
  have late: "0 \<le> ?late" "?late \<le> 1" by (auto simp: late_start_def)
  have md: "1 \<le> ?md" using assms(4) v(3) by (auto simp: monthly_day_def valid_rule_def split: option.splits)
  have M: "0 \<le> M" "M \<le> 1000000"
    using assms(2,3,6,7) v late by (auto simp: M_def month_count_def)
  have "year start * 12 + (month start - 1) + ?late + n = M" by (simp add: M_def month_count_def)
  then have d: "year d = M div 12" "month d = M mod 12 + 1" "day d = min ?md (daysInMonth d)"
    using M assms(5)
    by (auto simp: d_def occurrence_date_def Let_def tdiv_nonneg tmod_nonneg to_int32_id daysInMonth_def)
  have vd: "valid_date d"
  proof -
    have "M mod 12 \<le> 11" by simp
    then show ?thesis using d md daysInMonth_bounds [of d] by (auto simp: valid_date_def)
  qed
  have mc: "month_count d = M" by (simp add: month_count_def d)
  have yd: "0 \<le> year d" "year d \<le> 100000" using M by (auto simp: d(1))
  have "target_ok start d Monthly (calendar_unit Monthly d)"
  proof (cases "month_count start < M")
    case True
    then show ?thesis using target_later_month [OF assms(1) vd] yd mc by simp
  next
    case False
    then have M0: "M = month_count start" "?late = 0" using late assms(6) by (auto simp: M_def)
    then have same: "month d = month start" "year d = year start"
      using date_month_count(1,2) [OF v(1,2)] d by simp_all
    then have "daysInMonth d = daysInMonth start" by (simp add: daysInMonth_def)
    then have "day start \<le> day d" using M0(2) d(3) by (auto simp: late_start_def split: if_splits)
    then show ?thesis using target_same_month [OF vd same] yd by blast
  qed
  then show ?thesis by (simp add: calendar_unit_def mc flip: d_def M_def)
qed

lemma target_yearly:
  assumes "valid_date start" "0 \<le> year start" "year start \<le> 40000" "frequency rule = Yearly" "0 \<le> n" "n \<le> 42000"
  shows "target_ok start (occurrence_date rule start n) Yearly (year start + n)"
proof -
  define d where "d = occurrence_date rule start n"
  have v: "1 \<le> month start" "month start \<le> 12" "1 \<le> day start" "day start \<le> daysInMonth start"
    using assms(1) by (auto simp: valid_date_def)
  have d: "year d = year start + n" "month d = month start" "day d = min (day start) (daysInMonth d)"
    using assms by (auto simp: d_def occurrence_date_def Let_def to_int32_id daysInMonth_def)
  have vd: "valid_date d"
    using d v daysInMonth_bounds [of d] by (auto simp: valid_date_def)
  have "target_ok start d Yearly (calendar_unit Yearly d)"
  proof (cases "n = 0")
    case True
    have "daysInMonth d = daysInMonth start" using True d by (simp add: daysInMonth_def)
    then show ?thesis using target_same_month [OF vd d(2)] True d v assms by simp
  next
    case False
    then have "month_count start < month_count d" using assms(5) d by (simp add: month_count_def)
    then show ?thesis using target_later_month [OF assms(1) vd] d assms by simp
  qed
  then show ?thesis using d(1) by (simp add: calendar_unit_def flip: d_def)
qed

lemma series_target:
  assumes "series_ok lo hi z rule a m" "0 \<le> k" "k \<le> series_bound z rule a m"
  shows "target_ok (local_date z a) (occurrence_date rule (local_date z a) (k * interval rule))
    (frequency rule) (series_base z rule a + k * series_step rule)"
proof -
  note s = series_start [OF assms(1)] and i = series_index_bound [OF assms]
  have rule: "valid_rule rule" using assms by (simp add: series_ok_def)
  show ?thesis
  proof (cases "frequency rule")
    case Daily
    then show ?thesis
      using target_days [of "local_date z a" "k * interval rule" Daily] s i rule
      by (simp add: occurrence_date_def series_step_eq series_base_def series_pos_def)
  next
    case Weekly
    then show ?thesis
      using target_days [of "local_date z a" "7 * (k * interval rule)" Weekly] s i rule
      by (simp add: occurrence_date_def series_step_eq series_base_def series_pos_def algebra_simps)
  next
    case Monthly
    then show ?thesis
      using target_monthly [OF s(1,3,4) rule Monthly, of "k * interval rule"] i rule
      by (simp add: series_step_eq series_base_def series_pos_def calendar_unit_def)
  next
    case Yearly
    then show ?thesis
      using target_yearly [OF s(1,3,4) Yearly, of "k * interval rule"] i rule
      by (simp add: series_step_eq series_base_def series_pos_def calendar_unit_def)
  qed
qed

section \<open>Occurrences on the calendar\<close>

definition occurrence_day :: "zone \<Rightarrow> recurrence_rule \<Rightarrow> int \<Rightarrow> int \<Rightarrow> civil_date" where
  "occurrence_day z rule a k = occurrence_date rule (local_date z a) (k * interval rule)"

text \<open>What \<open>mktime\<close> makes of the date of an occurrence and the time of day of the anchor.\<close>

lemma series_occurrence:
  assumes "series_ok lo hi z rule a m" "0 \<le> k" "k \<le> series_bound z rule a m"
  defines "d \<equiv> occurrence_day z rule a k" and "s \<equiv> wall_time z a mod 86400"
  obtains off where "lo \<le> off" "off \<le> hi" "occurrenceAt z rule a k = Some (dayNumberOf d * 86400 + s - off)"
    "mktime z (tm_for d s) = dayNumberOf d * 86400 + s - off"
    "calendar_time (dayNumberOf d * 86400 + s - off)" "a - (hi - lo) \<le> dayNumberOf d * 86400 + s - off"
    "local_day z (dayNumberOf d * 86400 + s - off) \<le> dayNumberOf d"
    "valid_date d" "0 \<le> year d" "year d \<le> 100000" "local_day z a \<le> dayNumberOf d"
    "calendar_unit (frequency rule) d = series_base z rule a + k * series_step rule"
proof -
  note ok = series_ok_zone [OF assms(1)] and st = series_start [OF assms(1)]
  have d: "valid_date d" "calendar_unit (frequency rule) d = series_base z rule a + k * series_step rule"
      "local_day z a \<le> dayNumberOf d" "dayNumberOf d \<le> 100000000" "0 \<le> year d" "year d \<le> 100000"
    using series_target [OF assms(1-3)] st(2) by (auto simp: target_ok_def d_def occurrence_day_def)
  have s: "0 \<le> s" "s < 86400" by (simp_all add: s_def)
  note mk = host_mktime [OF ok(1) d(1,5,6) s]
  obtain off where off: "lo \<le> off" "off \<le> hi" "mktime z (tm_for d s) = dayNumberOf d * 86400 + s - off"
    using mk(1) by blast
  obtain off' where off': "lo \<le> off'" "off' \<le> hi" "wall_time z a = a + off'"
    using host_wall_time [OF ok(1,2)] .
  have "wall_time z a = local_day z a * 86400 + s"
    by (simp add: local_day_def s_def)
  then have ge: "a - (hi - lo) \<le> dayNumberOf d * 86400 + s - off"
    using d(3) off off' by linarith
  then have nonneg: "0 \<le> dayNumberOf d * 86400 + s - off"
    using assms(1) by (simp add: series_ok_def)
  have "dayNumberOf d * 86400 + s - off \<le> 10 ^ 13"
    using d(4) s off host_zone_offsets [OF ok(1)] by simp
  with nonneg have "calendar_time (dayNumberOf d * 86400 + s - off)" by (simp add: calendar_time_def)
  moreover have "occurrenceAt z rule a k = Some (dayNumberOf d * 86400 + s - off)"
    using off(3) nonneg by (simp add: occurrenceAt_host [OF ok(1,2)] Let_def d_def [unfolded occurrence_day_def] s_def)
  ultimately show ?thesis
    using that off ge mk(2) d by simp
qed

lemma series_increasing:
  assumes "series_ok lo hi z rule a m" "0 \<le> k" "k < l" "l \<le> series_bound z rule a m"
    "occurrenceAt z rule a k = Some t" "occurrenceAt z rule a l = Some t'"
  shows "t < t'"
proof -
  have kb: "k \<le> series_bound z rule a m" and l: "0 \<le> l" using assms by simp_all
  obtain o1 where k: "lo \<le> o1" "o1 \<le> hi"
      "occurrenceAt z rule a k = Some (dayNumberOf (occurrence_day z rule a k) * 86400 + wall_time z a mod 86400 - o1)"
      "valid_date (occurrence_day z rule a k)"
      "calendar_unit (frequency rule) (occurrence_day z rule a k) = series_base z rule a + k * series_step rule"
    using series_occurrence [OF assms(1,2) kb] by blast
  obtain o2 where l: "lo \<le> o2" "o2 \<le> hi"
      "occurrenceAt z rule a l = Some (dayNumberOf (occurrence_day z rule a l) * 86400 + wall_time z a mod 86400 - o2)"
      "valid_date (occurrence_day z rule a l)"
      "calendar_unit (frequency rule) (occurrence_day z rule a l) = series_base z rule a + l * series_step rule"
    using series_occurrence [OF assms(1) l assms(4)] by blast
  have "k * series_step rule < l * series_step rule"
    using assms(3) by (intro mult_strict_right_mono) (simp_all add: series_step_def)
  then have "dayNumberOf (occurrence_day z rule a k) < dayNumberOf (occurrence_day z rule a l)"
    using k(5) l(5) by (intro unit_less_days [OF k(4) l(4), of "frequency rule"]) simp
  then show ?thesis
    using k(1-3) l(1-3) assms(5,6) host_zone_offsets [OF series_ok_zone(1) [OF assms(1)]] by simp
qed

lemma series_earlier_unit:
  assumes "series_ok lo hi z rule a m" "0 \<le> k" "k \<le> series_bound z rule a m" "calendar_time u"
    "series_base z rule a + k * series_step rule < series_pos z rule u" "occurrenceAt z rule a k = Some t"
  shows "t < u"
proof (rule ccontr)
  assume "\<not> t < u"
  note ok = series_ok_zone [OF assms(1)]
  obtain off where k:
      "occurrenceAt z rule a k = Some (dayNumberOf (occurrence_day z rule a k) * 86400 + wall_time z a mod 86400 - off)"
      "calendar_time (dayNumberOf (occurrence_day z rule a k) * 86400 + wall_time z a mod 86400 - off)"
      "local_day z (dayNumberOf (occurrence_day z rule a k) * 86400 + wall_time z a mod 86400 - off)
        \<le> dayNumberOf (occurrence_day z rule a k)"
      "valid_date (occurrence_day z rule a k)"
      "calendar_unit (frequency rule) (occurrence_day z rule a k) = series_base z rule a + k * series_step rule"
    using series_occurrence [OF assms(1-3)] by blast
  note u = local_date_valid [OF ok(1) assms(4)]
  have "dayNumberOf (occurrence_day z rule a k) < local_day z u"
    using unit_less_days [OF k(4) u(1), of "frequency rule"] k(5) assms(5) u(2) by (simp add: series_pos_def)
  moreover have "local_day z u \<le> local_day z t"
    using \<open>\<not> t < u\<close> k(1,2) assms(6) by (intro local_day_mono [OF ok(1) assms(4)]) simp_all
  ultimately show False
    using k(1,3) assms(6) by simp
qed

lemma series_later_unit:
  assumes "series_ok lo hi z rule a m" "0 \<le> k" "k \<le> series_bound z rule a m" "calendar_time u"
    "series_pos z rule u + 2 \<le> series_base z rule a + k * series_step rule" "occurrenceAt z rule a k = Some t"
  shows "u < t"
proof -
  note ok = series_ok_zone [OF assms(1)]
  obtain off where k: "lo \<le> off" "off \<le> hi"
      "occurrenceAt z rule a k = Some (dayNumberOf (occurrence_day z rule a k) * 86400 + wall_time z a mod 86400 - off)"
      "valid_date (occurrence_day z rule a k)"
      "calendar_unit (frequency rule) (occurrence_day z rule a k) = series_base z rule a + k * series_step rule"
    using series_occurrence [OF assms(1-3)] by blast
  note u = local_date_valid [OF ok(1) assms(4)]
  have "local_day z u + 2 \<le> dayNumberOf (occurrence_day z rule a k)"
    using unit_gap_days [OF u(1) k(4), of "frequency rule"] k(5) assms(5) u(2) by (simp add: series_pos_def)
  moreover obtain o' where "lo \<le> o'" "wall_time z u = u + o'"
    using host_wall_time [OF ok(1) assms(4)] .
  moreover have "wall_time z u < local_day z u * 86400 + 86400"
    using div_mult_mod_eq [of "wall_time z u" 86400] pos_mod_bound [of 86400 "wall_time z u"] by (simp add: local_day_def)
  moreover have "0 \<le> wall_time z a mod 86400" by simp
  ultimately show ?thesis
    using k(1-3) assms(6) host_zone_offsets [OF ok(1)] by (simp; linarith)
qed

text \<open>
  The series of a rule in the zone of the host is a \<open>calendar_series\<close>, up to the last index of the search,
  and the empty series where the zone, the anchor or the moment are out of bounds.
\<close>

definition searched :: "int \<Rightarrow> int \<Rightarrow> zone \<Rightarrow> recurrence_rule \<Rightarrow> int \<Rightarrow> int \<Rightarrow> int" where
  "searched lo hi z rule a m = (if series_ok lo hi z rule a m then series_bound z rule a m else - 1)"

interpretation host_series: calendar_series "occurrenceAt z rule a" "series_pos z rule"
  "series_base z rule a" "series_step rule" "searched lo hi z rule a m" calendar_time for lo hi z rule a m
proof
  show "0 < series_step rule" by (simp add: series_step_def)
  show "\<exists>t. occurrenceAt z rule a k = Some t" if "0 \<le> k" "k \<le> searched lo hi z rule a m" for k
    using series_occurrence [of lo hi z rule a m k] that by (auto simp: searched_def split: if_splits)
  show "t < t'" if "0 \<le> k" "k < l" "l \<le> searched lo hi z rule a m"
    "occurrenceAt z rule a k = Some t" "occurrenceAt z rule a l = Some t'" for k l t t'
    using series_increasing [OF _ that(1,2) _ that(4,5)] that by (auto simp: searched_def split: if_splits)
  show "t < u" if "0 \<le> k" "k \<le> searched lo hi z rule a m" "calendar_time u"
    "series_base z rule a + k * series_step rule < series_pos z rule u" "occurrenceAt z rule a k = Some t" for k u t
    using series_earlier_unit [OF _ that(1) _ that(3-5)] that(1,2) by (auto simp: searched_def split: if_splits)
  show "u < t" if "0 \<le> k" "k \<le> searched lo hi z rule a m" "calendar_time u"
    "series_pos z rule u + 2 \<le> series_base z rule a + k * series_step rule" "occurrenceAt z rule a k = Some t" for k u t
    using series_later_unit [OF _ that(1) _ that(3-5)] that(1,2) by (auto simp: searched_def split: if_splits)
qed

lemma searchStart_host:
  assumes "series_ok lo hi z rule a m"
  shows "searchStart z rule a m
    = Some (max (tdiv (series_pos z rule m - series_pos z rule a) (series_step rule) - 1) 0)"
proof -
  note ok = series_ok_zone [OF assms]
  have "search_estimate rule (local_date z a) (local_date z m)
      = tdiv (series_pos z rule m - series_pos z rule a) (series_step rule)"
    using local_date_valid [OF ok(1,2)] local_date_valid [OF ok(1,3)]
    by (cases "frequency rule")
       (simp_all add: search_estimate_def Let_def series_step_eq [OF ok(5)] series_pos_def calendar_unit_def
          month_count_def algebra_simps)
  then show ?thesis
    by (simp add: searchStart_def wallOf_host [OF ok(1,2)] wallOf_host [OF ok(1,3)])
qed

lemma late_start_bounds: "0 \<le> late_start rule d \<and> late_start rule d \<le> 1"
  by (simp add: late_start_def)

lemma series_base_bounds:
  "series_pos z rule a \<le> series_base z rule a" "series_base z rule a \<le> series_pos z rule a + 1"
  using late_start_bounds [of rule "local_date z a"]
  by (cases "frequency rule"; simp add: series_base_def)+

lemma firstOccurrenceAfter_host:
  assumes "series_ok lo hi z rule a m"
  shows "\<exists>k t. 0 \<le> k \<and> k \<le> series_bound z rule a m \<and> firstOccurrenceAfter z rule a m = Some t
    \<and> occurrenceAt z rule a k = Some t \<and> t > m
    \<and> (\<forall>j. 0 \<le> j \<and> j < k \<longrightarrow> (\<exists>c. occurrenceAt z rule a j = Some c \<and> c \<le> m))"
proof -
  have b: "searched lo hi z rule a m = max (tdiv (series_pos z rule m - series_pos z rule a) (series_step rule)) 0 + 2"
      "series_bound z rule a m = searched lo hi z rule a m"
    using assms by (simp_all add: searched_def series_bound_def)
  have "4 \<le> kMaxSearch" by (simp add: kMaxSearch_def)
  from host_series.search_least [OF series_ok_zone(3) [OF assms] series_base_bounds refl _ this, of z rule a lo hi m]
  show ?thesis
    using b by (simp add: firstOccurrenceAfter_def searchStart_host [OF assms])
qed

lemma occurrenceIndex_search:
  assumes "series_ok lo hi z rule a m"
  defines "e \<equiv> tdiv (series_pos z rule m - series_pos z rule a) (series_step rule)"
  shows "occurrenceIndex z rule a m
    = (if m < a then None else search_index kMaxSearch (occurrenceAt z rule a) m (max (e - 1) 0))"
  by (simp add: occurrenceIndex_def searchStart_host [OF assms(1)] e_def)

lemma occurrenceIndex_sound:
  assumes "series_ok lo hi z rule a m" "occurrenceIndex z rule a m = Some k"
  shows "0 \<le> k \<and> k \<le> series_bound z rule a m \<and> a \<le> m \<and> occurrenceAt z rule a k = Some m"
proof -
  let ?occ = "occurrenceAt z rule a"
  let ?e = "tdiv (series_pos z rule m - series_pos z rule a) (series_step rule)"
  have b: "max ?e 0 + 2 \<le> searched lo hi z rule a m" "series_bound z rule a m = max ?e 0 + 2"
    using assms by (simp_all add: searched_def series_bound_def)
  have am: "a \<le> m" and "search_index kMaxSearch ?occ m (max (?e - 1) 0) = Some k"
    using assms(2) by (simp_all add: occurrenceIndex_search [OF assms(1)] split: if_splits)
  from search_index_Some [OF this(2)] have k: "max (?e - 1) 0 \<le> k" "?occ k = Some m"
      "\<And>j. max (?e - 1) 0 \<le> j \<Longrightarrow> j < k \<Longrightarrow> \<exists>c. ?occ j = Some c \<and> c < m"
    by blast+
  obtain t where t: "?occ (max ?e 0 + 2) = Some t" "m < t"
    using host_series.estimate_beyond [OF series_ok_zone(3) [OF assms(1)] series_base_bounds(1) refl b(1)] .
  have "k \<le> max ?e 0 + 2"
  proof (rule ccontr)
    assume "\<not> ?thesis"
    moreover have "max (?e - 1) 0 \<le> max ?e 0 + 2" by (simp add: max_def)
    ultimately show False using k(3) [of "max ?e 0 + 2"] t by simp
  qed
  moreover have "0 \<le> k" using k(1) by simp
  ultimately show ?thesis using k(2) b(2) am by simp
qed

lemma occurrenceIndex_complete:
  assumes "series_ok lo hi z rule a m" "0 \<le> k" "k \<le> series_bound z rule a m" "a \<le> m"
    "occurrenceAt z rule a k = Some m"
  shows "occurrenceIndex z rule a m = Some k"
proof -
  let ?occ = "occurrenceAt z rule a"
  let ?e = "tdiv (series_pos z rule m - series_pos z rule a) (series_step rule)"
  let ?i = "max (?e - 1) 0"
  have b: "series_bound z rule a m = max ?e 0 + 2" "searched lo hi z rule a m = series_bound z rule a m"
    using assms(1) by (simp_all add: searched_def series_bound_def)
  have ik: "?i \<le> k"
  proof (rule ccontr)
    assume "\<not> ?thesis"
    then have "k < ?e - 1" using assms(2) by simp
    moreover have "k \<le> searched lo hi z rule a m" using assms(3) b(2) by simp
    ultimately obtain t where "?occ k = Some t" "t < m"
      using host_series.estimate_before [OF series_ok_zone(3) [OF assms(1)] series_base_bounds(2) assms(2)] by blast
    then show False using assms(5) by simp
  qed
  have earlier: "\<exists>c. ?occ (?i + int j) = Some c \<and> c < m" if "j < nat (k - ?i)" for j
  proof -
    have j: "0 \<le> ?i + int j" "?i + int j < k" using that by linarith+
    then obtain c where "?occ (?i + int j) = Some c"
      using series_occurrence [OF assms(1), of "?i + int j"] assms(3) by fastforce
    then show ?thesis
      using series_increasing [OF assms(1) j assms(3) _ assms(5)] by blast
  qed
  have "nat (k - ?i) < kMaxSearch"
    using assms(3) b by (auto simp: kMaxSearch_def)
  from search_index_finds [of "nat (k - ?i)" ?occ ?i m, OF earlier _ this] show ?thesis
    using ik assms(4,5) by (simp add: occurrenceIndex_search [OF assms(1)])
qed

lemma firstOccurrenceAfter_Some:
  assumes "firstOccurrenceAfter z rule a m = Some t"
  obtains k where "0 \<le> k" "occurrenceAt z rule a k = Some t" "t > m"
proof -
  obtain i where i: "searchStart z rule a m = Some i" "search_after kMaxSearch (occurrenceAt z rule a) m i = Some t"
    using assms by (auto simp: firstOccurrenceAfter_def split: option.splits)
  have "0 \<le> i" using i(1) by (auto simp: searchStart_def split: option.splits)
  moreover obtain k where "occurrenceAt z rule a (i + int k) = Some t" "t > m"
    using search_after_Some [OF i(2)] by metis
  ultimately show ?thesis using that [of "i + int k"] by simp
qed

text \<open>The day of the month of an occurrence: that of the rule or of the anchor, or the last one of a shorter month.\<close>

lemma occurrence_day_of_month:
  "(frequency rule = Monthly \<longrightarrow> day (occurrence_day z rule a k)
       = min (monthly_day rule (local_date z a)) (daysInMonth (occurrence_day z rule a k)))
   \<and> (frequency rule = Yearly \<longrightarrow> month (occurrence_day z rule a k) = month (local_date z a)
       \<and> day (occurrence_day z rule a k) = min (day (local_date z a)) (daysInMonth (occurrence_day z rule a k)))"
  by (simp add: occurrence_day_def occurrence_date_def Let_def daysInMonth_def)

section \<open>Properties\<close>

text \<open>C23. The search for the next occurrence always finds it, in every zone that keeps the
  documented behaviour of \<open>localtime_r\<close> and \<open>mktime\<close> with at most half a day between its offsets and a
  date that never goes backwards, changes between winter and summer time included. For a rule, an
  anchor after the first \<open>hi - lo\<close> seconds of 1970 and a moment, both within \<open>10 ^ 12\<close> seconds of 1970, it
  returns an occurrence of the series after the moment, and every occurrence of a smaller index
  is at or before the moment. The estimate it starts from never skips one, and the bound of the
  search is never reached.\<close>

theorem next_occurrence_least:
  assumes "valid_rule rule" "host_zone lo hi z" "hi - lo \<le> a" "a \<le> 10 ^ 12" "\<bar>m\<bar> \<le> 10 ^ 12"
  shows "\<exists>k t. 0 \<le> k \<and> firstOccurrenceAfter z rule a m = Some t
    \<and> occurrenceAt z rule a k = Some t \<and> t > m
    \<and> (\<forall>j. 0 \<le> j \<and> j < k \<longrightarrow> (\<exists>c. occurrenceAt z rule a j = Some c \<and> c \<le> m))"
proof -
  have "series_ok lo hi z rule a m" using assms by (simp add: series_ok_def)
  from firstOccurrenceAfter_host [OF this] show ?thesis by blast
qed

text \<open>The witness is a daily reminder at 02:30 in New York, asked for on the day on which 02:30 is skipped.\<close>

theorem next_occurrence_least_witness:
  "\<exists>k t. 0 \<le> k \<and> firstOccurrenceAfter eastern_zone \<lparr>frequency = Daily, interval = 1, monthDay = None\<rparr>
       1772436600 1772953200 = Some t
    \<and> occurrenceAt eastern_zone \<lparr>frequency = Daily, interval = 1, monthDay = None\<rparr> 1772436600 k = Some t
    \<and> t > 1772953200
    \<and> (\<forall>j. 0 \<le> j \<and> j < k \<longrightarrow>
        (\<exists>c. occurrenceAt eastern_zone \<lparr>frequency = Daily, interval = 1, monthDay = None\<rparr>
           1772436600 j = Some c \<and> c \<le> 1772953200))"
  by (rule next_occurrence_least [OF _ eastern_zone_host]) (simp_all add: valid_rule_def)

text \<open>C40. The occurrence \<open>k\<close> lies exactly \<open>k\<close> intervals of the rule after the first: it is what
  \<open>mktime\<close> makes of a date that is as many days, weeks, months or years later, never before the date of the
  anchor, on the day of the month the rule asks for or the last one of a shorter month, and of the time of day the
  clocks showed at the anchor. The clocks show that time of day at the occurrence whenever there is a moment of
  that date at which they do; a time that is skipped when the clocks are set forward becomes one at an offset of the
  zone. The zone, the anchor and the moment are those of the search, and \<open>k\<close> goes up to the last index it looks at.\<close>

theorem occurrence_on_schedule:
  assumes "valid_rule rule" "host_zone lo hi z" "hi - lo \<le> a" "a \<le> 10 ^ 12" "\<bar>m\<bar> \<le> 10 ^ 12"
    "0 \<le> k" "k \<le> series_bound z rule a m"
  shows "\<exists>t d off. occurrenceAt z rule a k = Some t \<and> valid_date d
    \<and> calendar_unit (frequency rule) d
        = series_base z rule a + k * (case frequency rule of Weekly \<Rightarrow> 7 * interval rule | _ \<Rightarrow> interval rule)
    \<and> local_day z a \<le> dayNumberOf d
    \<and> (frequency rule = Monthly \<longrightarrow> day d = min (monthly_day rule (local_date z a)) (daysInMonth d))
    \<and> (frequency rule = Yearly \<longrightarrow>
         month d = month (local_date z a) \<and> day d = min (day (local_date z a)) (daysInMonth d))
    \<and> lo \<le> off \<and> off \<le> hi \<and> t + off = dayNumberOf d * 86400 + wall_time z a mod 86400
    \<and> ((\<exists>u. calendar_time u \<and> wall_time z u = dayNumberOf d * 86400 + wall_time z a mod 86400) \<longrightarrow>
         wall_time z t = dayNumberOf d * 86400 + wall_time z a mod 86400)"
proof -
  have ok: "series_ok lo hi z rule a m" using assms by (simp add: series_ok_def)
  let ?d = "occurrence_day z rule a k" and ?s = "wall_time z a mod 86400"
  obtain off where off: "lo \<le> off" "off \<le> hi" "occurrenceAt z rule a k = Some (dayNumberOf ?d * 86400 + ?s - off)"
      "mktime z (tm_for ?d ?s) = dayNumberOf ?d * 86400 + ?s - off" "valid_date ?d" "0 \<le> year ?d" "year ?d \<le> 100000"
      "local_day z a \<le> dayNumberOf ?d" "calendar_unit (frequency rule) ?d = series_base z rule a + k * series_step rule"
    using series_occurrence [OF ok assms(6,7)] by blast
  have "wall_time z (dayNumberOf ?d * 86400 + ?s - off) = dayNumberOf ?d * 86400 + ?s"
    if "calendar_time u" "wall_time z u = dayNumberOf ?d * 86400 + ?s" for u
    using host_mktime(3) [OF assms(2) off(5-7) _ _ that] off(4) by simp
  then show ?thesis
    using off occurrence_day_of_month [of rule z a k] series_step_eq [OF assms(1)]
    by (intro exI [of _ "dayNumberOf ?d * 86400 + ?s - off"] exI [of _ ?d] exI [of _ off]) auto
qed

theorem occurrence_on_schedule_witness:
  "\<exists>t d off. occurrenceAt eastern_zone \<lparr>frequency = Weekly, interval = 2, monthDay = None\<rparr> 1772436600 1 = Some t
    \<and> valid_date d
    \<and> calendar_unit Weekly d
        = series_base eastern_zone \<lparr>frequency = Weekly, interval = 2, monthDay = None\<rparr> 1772436600 + 14
    \<and> - 18000 \<le> off \<and> off \<le> - 14400 \<and> t + off = dayNumberOf d * 86400 + wall_time eastern_zone 1772436600 mod 86400"
proof -
  let ?rule = "\<lparr>frequency = Weekly, interval = 2, monthDay = None\<rparr>"
  have "valid_rule ?rule" "- 14400 - - 18000 \<le> (1772436600 :: int)" "(1772436600 :: int) \<le> 10 ^ 12" "\<bar>0 :: int\<bar> \<le> 10 ^ 12"
    "(0 :: int) \<le> 1" "1 \<le> series_bound eastern_zone ?rule 1772436600 0"
    by (simp_all add: valid_rule_def series_bound_def)
  from occurrence_on_schedule [OF this(1) eastern_zone_host this(2-6)] show ?thesis
    by auto
qed

text \<open>The index of a time is found exactly when the time is an occurrence at or after the anchor: no other time gets an
  index, and the index is that of the occurrence.\<close>

theorem occurrence_index_exact:
  assumes "valid_rule rule" "host_zone lo hi z" "hi - lo \<le> a" "a \<le> 10 ^ 12" "\<bar>m\<bar> \<le> 10 ^ 12"
  shows "occurrenceIndex z rule a m = Some k \<longleftrightarrow>
    0 \<le> k \<and> k \<le> series_bound z rule a m \<and> a \<le> m \<and> occurrenceAt z rule a k = Some m"
proof -
  have "series_ok lo hi z rule a m" using assms by (simp add: series_ok_def)
  then show ?thesis using occurrenceIndex_sound occurrenceIndex_complete by blast
qed

theorem occurrence_index_exact_witness:
  "occurrenceIndex eastern_zone \<lparr>frequency = Yearly, interval = 1, monthDay = None\<rparr> 1700000000 1800000000 = Some 5 \<longleftrightarrow>
    (5 :: int) \<le> series_bound eastern_zone \<lparr>frequency = Yearly, interval = 1, monthDay = None\<rparr> 1700000000 1800000000
    \<and> occurrenceAt eastern_zone \<lparr>frequency = Yearly, interval = 1, monthDay = None\<rparr> 1700000000 5 = Some 1800000000"
  using occurrence_index_exact [OF _ eastern_zone_host, of "\<lparr>frequency = Yearly, interval = 1, monthDay = None\<rparr>" 1700000000 1800000000 5]
  by (simp add: valid_rule_def)

end
