(* ===== verification/Occurrences.thy ===== *)
theory Occurrences
  imports Recurrence_Series "HOL-Library.Countable" "HOL-Library.Multiset"
begin

text \<open>
  Single occurrences of a series that were cancelled or moved, \<open>occurrence-exceptions.cc\<close>, and
  the next time a series fires. jsoncpp is a library: its values have the type \<open>'j\<close>, the
  operations the code calls are the fields of \<open>json_lib\<close>, and \<open>json_laws\<close> is what their
  documentation says. \<open>parse\<close> is \<open>None\<close> where the reader fails or throws. \<open>std::ranges::sort\<close> is
  \<open>sort_key\<close>, which also fixes the order of equal keys, where the code leaves it open.
\<close>

section \<open>Exceptions\<close>

record occurrence_exception =
  occurrence :: int
  cancelled :: bool
  ex_startsAt :: "int option"
  ex_endsAt :: "int option"
  ex_title :: "string option"
  ex_location :: "string option"

definition restores :: "occurrence_exception \<Rightarrow> bool" where
  "restores e \<longleftrightarrow> \<not> cancelled e \<and> ex_startsAt e = None \<and> ex_endsAt e = None \<and> ex_title e = None \<and> ex_location e = None"

record 'j json_lib =
  isInt64 :: "'j \<Rightarrow> bool"
  asInt64 :: "'j \<Rightarrow> int"
  isString :: "'j \<Rightarrow> bool"
  asString :: "'j \<Rightarrow> string"
  isBool :: "'j \<Rightarrow> bool"
  asBool :: "'j \<Rightarrow> bool"
  isObject :: "'j \<Rightarrow> bool"
  isArray :: "'j \<Rightarrow> bool"
  member :: "'j \<Rightarrow> string \<Rightarrow> 'j"
  elements :: "'j \<Rightarrow> 'j list"
  ofInt64 :: "int \<Rightarrow> 'j"
  ofBool :: "bool \<Rightarrow> 'j"
  ofString :: "string \<Rightarrow> 'j"
  objectValue :: 'j
  arrayValue :: 'j
  assign :: "'j \<Rightarrow> string \<Rightarrow> 'j \<Rightarrow> 'j"
  append_value :: "'j \<Rightarrow> 'j \<Rightarrow> 'j"
  parse_json :: "string \<Rightarrow> 'j option"
  writeString :: "'j \<Rightarrow> string"

definition integerOf :: "'j json_lib \<Rightarrow> 'j \<Rightarrow> int option" where
  "integerOf J v = (if \<not> isInt64 J v then None else Some (asInt64 J v))"

definition textOf :: "'j json_lib \<Rightarrow> 'j \<Rightarrow> string option" where
  "textOf J v = (if \<not> isString J v then None else Some (asString J v))"

definition exceptionOf :: "'j json_lib \<Rightarrow> 'j \<Rightarrow> occurrence_exception option" where
  "exceptionOf J item =
     (if \<not> isObject J item then None
      else case integerOf J (member J item ''occurrence'') of
             None \<Rightarrow> None
           | Some at \<Rightarrow>
               if at \<le> 0 then None
               else let e = \<lparr>occurrence = at,
                       cancelled = isBool J (member J item ''cancelled'') \<and> asBool J (member J item ''cancelled''),
                       ex_startsAt = integerOf J (member J item ''startsAt''),
                       ex_endsAt = integerOf J (member J item ''endsAt''),
                       ex_title = textOf J (member J item ''title''),
                       ex_location = textOf J (member J item ''location'')\<rparr>;
                     e' = (if cancelled e
                           then e\<lparr>ex_startsAt := None, ex_endsAt := None, ex_title := None, ex_location := None\<rparr>
                           else e)
                 in if restores e' then None else Some e')"

definition assign_opt :: "'j json_lib \<Rightarrow> string \<Rightarrow> 'j option \<Rightarrow> 'j \<Rightarrow> 'j" where
  "assign_opt J key v item = (case v of None \<Rightarrow> item | Some x \<Rightarrow> assign J item key x)"

definition jsonOf :: "'j json_lib \<Rightarrow> occurrence_exception \<Rightarrow> 'j" where
  "jsonOf J e =
     (let item = assign J (objectValue J) ''occurrence'' (ofInt64 J (occurrence e));
          item = assign J item ''cancelled'' (ofBool J (cancelled e));
          item = assign_opt J ''startsAt'' (map_option (ofInt64 J) (ex_startsAt e)) item;
          item = assign_opt J ''endsAt'' (map_option (ofInt64 J) (ex_endsAt e)) item;
          item = assign_opt J ''title'' (map_option (ofString J) (ex_title e)) item
      in assign_opt J ''location'' (map_option (ofString J) (ex_location e)) item)"

definition sortByOccurrence :: "occurrence_exception list \<Rightarrow> occurrence_exception list" where
  "sortByOccurrence exs = sort_key occurrence exs"

text \<open>\<open>std::erase_if\<close> of the exceptions of one occurrence.\<close>

definition erase_occurrence :: "int \<Rightarrow> occurrence_exception list \<Rightarrow> occurrence_exception list" where
  "erase_occurrence at exs = filter (\<lambda>known. occurrence known \<noteq> at) exs"

definition read_item :: "'j json_lib \<Rightarrow> occurrence_exception list \<Rightarrow> 'j \<Rightarrow> occurrence_exception list" where
  "read_item J exs item =
     (case exceptionOf J item of
        None \<Rightarrow> exs
      | Some e \<Rightarrow> erase_occurrence (occurrence e) exs @ [e])"

definition parseOccurrenceExceptions :: "'j json_lib \<Rightarrow> string \<Rightarrow> occurrence_exception list" where
  "parseOccurrenceExceptions J s =
     (if s = [] then []
      else case parse_json J s of
             None \<Rightarrow> []
           | Some root \<Rightarrow>
               if \<not> isArray J root then []
               else sortByOccurrence (foldl (read_item J) [] (elements J root)))"

definition serializeOccurrenceExceptions :: "'j json_lib \<Rightarrow> occurrence_exception list \<Rightarrow> string" where
  "serializeOccurrenceExceptions J exs =
     writeString J (foldl (append_value J) (arrayValue J) (map (jsonOf J) exs))"

record occurrence_slot =
  slot_index :: int
  previous :: "int option"
  next_at :: "int option"

definition occurrenceSlot :: "zone \<Rightarrow> recurrence_rule \<Rightarrow> int \<Rightarrow> int \<Rightarrow> occurrence_slot option" where
  "occurrenceSlot z rule anchor moment =
     (case occurrenceIndex z rule anchor moment of
        None \<Rightarrow> None
      | Some index \<Rightarrow>
          Some \<lparr>slot_index = index,
                previous = (if index > 0 then occurrenceAt z rule anchor (index - 1) else None),
                next_at = occurrenceAt z rule anchor (index + 1)\<rparr>)"

definition exceptionAt :: "occurrence_exception list \<Rightarrow> int \<Rightarrow> occurrence_exception option" where
  "exceptionAt exs at = find (\<lambda>e. occurrence e = at) exs"

definition scheduledOccurrence :: "occurrence_exception list \<Rightarrow> int \<Rightarrow> int" where
  "scheduledOccurrence exs scheduledAt =
     (case find (\<lambda>e. \<not> cancelled e \<and> ex_startsAt e = Some scheduledAt) exs of
        None \<Rightarrow> scheduledAt
      | Some moved \<Rightarrow> occurrence moved)"

definition withException :: "occurrence_exception list \<Rightarrow> occurrence_exception \<Rightarrow> occurrence_exception list" where
  "withException exs change =
     sortByOccurrence (erase_occurrence (occurrence change) exs @ (if \<not> restores change then [change] else []))"

definition exceptionsFrom :: "occurrence_exception list \<Rightarrow> int \<Rightarrow> occurrence_exception list" where
  "exceptionsFrom exs at = filter (\<lambda>known. \<not> occurrence known < at) exs"

section \<open>The next firing\<close>

record next_firing =
  f_occurrence :: int
  f_at :: int

text \<open>The first loop of \<open>nextFiring\<close>: occurrences already behind that were moved past the moment.\<close>

definition behind_step :: "int \<Rightarrow> int \<Rightarrow> next_firing option \<Rightarrow> occurrence_exception \<Rightarrow> next_firing option" where
  "behind_step after moment behind e =
     (case ex_startsAt e of
        None \<Rightarrow> behind
      | Some start \<Rightarrow>
          if cancelled e then behind
          else if occurrence e \<le> after \<or> occurrence e > moment then behind
          else if start \<le> moment then behind
          else case behind of
                 None \<Rightarrow> Some \<lparr>f_occurrence = occurrence e, f_at = start\<rparr>
               | Some b \<Rightarrow> if start < f_at b then Some \<lparr>f_occurrence = occurrence e, f_at = start\<rparr> else behind)"

text \<open>The second loop; its first argument counts the steps left.\<close>

fun firing_loop :: "nat \<Rightarrow> zone \<Rightarrow> recurrence_rule \<Rightarrow> int \<Rightarrow> int \<Rightarrow> occurrence_exception list \<Rightarrow> int \<Rightarrow> next_firing option" where
  "firing_loop 0 z rule anchor moment exs cursor = None"
| "firing_loop (Suc n) z rule anchor moment exs cursor =
     (case firstOccurrenceAfter z rule anchor cursor of
        None \<Rightarrow> None
      | Some nxt \<Rightarrow>
          (case exceptionAt exs nxt of
             None \<Rightarrow> Some \<lparr>f_occurrence = nxt, f_at = nxt\<rparr>
           | Some e \<Rightarrow>
               if \<not> cancelled e \<and> ex_startsAt e = None then Some \<lparr>f_occurrence = nxt, f_at = nxt\<rparr>
               else case ex_startsAt e of
                      Some start \<Rightarrow>
                        if \<not> cancelled e \<and> start > moment then Some \<lparr>f_occurrence = nxt, f_at = start\<rparr>
                        else firing_loop n z rule anchor moment exs nxt
                    | None \<Rightarrow> firing_loop n z rule anchor moment exs nxt))"

definition nextFiring ::
  "zone \<Rightarrow> recurrence_rule \<Rightarrow> int \<Rightarrow> int \<Rightarrow> int \<Rightarrow> occurrence_exception list \<Rightarrow> next_firing option" where
  "nextFiring z rule anchor after moment exs =
     (case foldl (behind_step after moment) None exs of
        Some b \<Rightarrow> Some b
      | None \<Rightarrow> firing_loop (length exs + 1) z rule anchor moment exs (max after moment))"

section \<open>Snoozing\<close>

record snoozed_series =
  s_scheduledAt :: int
  s_exceptions :: "occurrence_exception list"
  folded :: bool

definition snoozeSeries ::
  "zone \<Rightarrow> recurrence_rule \<Rightarrow> int \<Rightarrow> int \<Rightarrow> occurrence_exception list \<Rightarrow> int \<Rightarrow> snoozed_series option" where
  "snoozeSeries z rule anchor scheduledAt exs target =
     (let current = scheduledOccurrence exs scheduledAt
      in case occurrenceSlot z rule anchor current of
           None \<Rightarrow> None
         | Some slot \<Rightarrow>
             if (case next_at slot of None \<Rightarrow> True | Some n \<Rightarrow> target < n)
             then Some \<lparr>s_scheduledAt = target,
                        s_exceptions = withException exs
                          \<lparr>occurrence = current, cancelled = False,
                           ex_startsAt = (if target = current then None else Some target),
                           ex_endsAt = None, ex_title = None, ex_location = None\<rparr>,
                        folded = False\<rparr>
             else let skipped = withException exs
                        \<lparr>occurrence = current, cancelled = True, ex_startsAt = None, ex_endsAt = None,
                         ex_title = None, ex_location = None\<rparr>
                  in case nextFiring z rule anchor (current - 1)
                            (case previous slot of None \<Rightarrow> 0 | Some p \<Rightarrow> p) skipped of
                       None \<Rightarrow> None
                     | Some fire \<Rightarrow> Some \<lparr>s_scheduledAt = f_at fire, s_exceptions = skipped, folded = True\<rparr>)"

section \<open>Exceptions as a map\<close>

definition wf_exceptions :: "occurrence_exception list \<Rightarrow> bool" where
  "wf_exceptions exs \<longleftrightarrow> sorted (map occurrence exs) \<and> distinct (map occurrence exs) \<and> (\<forall>e \<in> set exs. \<not> restores e)"

lemma exceptionAt_Some:
  "distinct (map occurrence exs) \<Longrightarrow> exceptionAt exs k = Some e \<longleftrightarrow> e \<in> set exs \<and> occurrence e = k"
  by (induction exs) (auto simp: exceptionAt_def)

lemma exceptionAt_SomeD: "exceptionAt exs k = Some e \<Longrightarrow> e \<in> set exs \<and> occurrence e = k"
  by (induction exs) (auto simp: exceptionAt_def split: if_splits)

lemma exceptionAt_None: "exceptionAt exs k = None \<longleftrightarrow> k \<notin> occurrence ` set exs"
  by (auto simp: exceptionAt_def find_None_iff)

lemma distinct_map_sort: "distinct (map f (sort_key f xs)) = distinct (map f xs)"
  by (metis distinct_sort distinct_map mset_map mset_sort mset_eq_imp_distinct_iff set_sort)

lemma erase_occurrence_map:
  "distinct (map occurrence exs) \<Longrightarrow> distinct (map occurrence (erase_occurrence k exs))"
  by (simp add: erase_occurrence_def distinct_map_filter)

lemma wf_withException:
  assumes "wf_exceptions exs"
  shows "wf_exceptions (withException exs c)"
proof -
  have "distinct (map occurrence (erase_occurrence (occurrence c) exs @ (if \<not> restores c then [c] else [])))"
    using assms by (auto simp: wf_exceptions_def erase_occurrence_map) (auto simp: erase_occurrence_def)
  then show ?thesis
    using assms by (auto simp: wf_exceptions_def withException_def sortByOccurrence_def distinct_map_sort
        erase_occurrence_def)
qed

lemma lookup_withException:
  assumes "wf_exceptions exs"
  shows "exceptionAt (withException exs c) k
    = (if k = occurrence c then (if restores c then None else Some c) else exceptionAt exs k)"
proof -
  have d: "distinct (map occurrence exs)" "distinct (map occurrence (withException exs c))"
    using assms wf_withException [OF assms] by (auto simp: wf_exceptions_def)
  have s: "set (withException exs c) = {e \<in> set exs. occurrence e \<noteq> occurrence c} \<union> (if restores c then {} else {c})"
    by (auto simp: withException_def sortByOccurrence_def erase_occurrence_def)
  have "exceptionAt (withException exs c) k = Some e \<longleftrightarrow>
      (if k = occurrence c then (if restores c then None else Some c) else exceptionAt exs k) = Some e" for e
    unfolding exceptionAt_Some [OF d(2)] s using exceptionAt_Some [OF d(1), of k e] by auto
  then show ?thesis by (metis option.exhaust)
qed

lemma exceptions_ext:
  assumes "wf_exceptions xs" "wf_exceptions ys" "\<And>k. exceptionAt xs k = exceptionAt ys k"
  shows "xs = ys"
proof -
  have d: "distinct (map occurrence xs)" "distinct (map occurrence ys)" "sorted (map occurrence xs)" "sorted (map occurrence ys)"
    using assms by (auto simp: wf_exceptions_def)
  have s: "set xs = set ys"
  proof -
    have "e \<in> set xs \<longleftrightarrow> e \<in> set ys" for e
      using exceptionAt_Some [OF d(1), of "occurrence e" e] exceptionAt_Some [OF d(2), of "occurrence e" e]
      by (simp add: assms(3))
    then show ?thesis by blast
  qed
  then have "map occurrence xs = map occurrence ys"
    using d by (intro sorted_distinct_set_unique) auto
  then show ?thesis
    using d(1) s by (intro map_inj_on [of occurrence]) (auto simp: distinct_map)
qed

text \<open>
  The contract of the exceptions of a series: a map from occurrences to changes with one
  representation per map, in which writing a neutral change deletes.
\<close>

locale change_map =
  fixes lookup :: "'s \<Rightarrow> 'k \<Rightarrow> 'v option" and update :: "'s \<Rightarrow> 'v \<Rightarrow> 's"
    and key :: "'v \<Rightarrow> 'k" and neutral :: "'v \<Rightarrow> bool" and invar :: "'s \<Rightarrow> bool"
  assumes lookup_update: "invar s \<Longrightarrow>
      lookup (update s v) k = (if k = key v then (if neutral v then None else Some v) else lookup s k)"
    and invar_update: "invar s \<Longrightarrow> invar (update s v)"
    and canonical: "invar s \<Longrightarrow> invar t \<Longrightarrow> (\<And>k. lookup s k = lookup t k) \<Longrightarrow> s = t"
begin

lemma update_overwrites: "invar s \<Longrightarrow> key v = key w \<Longrightarrow> update (update s v) w = update s w"
  by (rule canonical) (simp_all add: lookup_update invar_update)

lemma update_commutes: "invar s \<Longrightarrow> key v \<noteq> key w \<Longrightarrow> update (update s v) w = update (update s w) v"
  by (rule canonical) (auto simp: lookup_update invar_update)

lemma update_neutral: "invar s \<Longrightarrow> neutral v \<Longrightarrow> lookup s (key v) = None \<Longrightarrow> update s v = s"
  by (rule canonical) (auto simp: lookup_update invar_update)

lemma update_same: "invar s \<Longrightarrow> lookup s (key v) = Some v \<Longrightarrow> \<not> neutral v \<Longrightarrow> update s v = s"
  by (rule canonical) (auto simp: lookup_update invar_update)

end

interpretation exceptions: change_map exceptionAt withException occurrence restores wf_exceptions
  by unfold_locales (simp_all add: lookup_withException wf_withException exceptions_ext)

lemma wf_exceptionsFrom: "wf_exceptions exs \<Longrightarrow> wf_exceptions (exceptionsFrom exs at)"
  by (auto simp: wf_exceptions_def exceptionsFrom_def distinct_map_filter sorted_filter)

lemma lookup_exceptionsFrom:
  "exceptionAt (exceptionsFrom exs at) k = (if k < at then None else exceptionAt exs k)"
  by (induction exs) (auto simp: exceptionAt_def exceptionsFrom_def)

section \<open>The next firing\<close>

definition firing_ok :: "int \<Rightarrow> int \<Rightarrow> occurrence_exception list \<Rightarrow> next_firing \<Rightarrow> bool" where
  "firing_ok after moment exs f \<longleftrightarrow> f_at f > moment \<and> f_occurrence f > after
     \<and> (case exceptionAt exs (f_occurrence f) of
          None \<Rightarrow> f_at f = f_occurrence f
        | Some e \<Rightarrow> \<not> cancelled e \<and> f_at f = (case ex_startsAt e of None \<Rightarrow> f_occurrence f | Some s \<Rightarrow> s))"

lemma behind_fold:
  assumes "foldl (behind_step after moment) b xs = Some f"
    "\<And>f. b = Some f \<Longrightarrow> firing_ok after moment exs f"
    "set xs \<subseteq> set exs" "distinct (map occurrence exs)"
  shows "firing_ok after moment exs f"
  using assms
proof (induction xs arbitrary: b)
  case (Cons e xs)
  have e: "exceptionAt exs (occurrence e) = Some e" using Cons.prems by (simp add: exceptionAt_Some)
  have "firing_ok after moment exs g" if "behind_step after moment b e = Some g" for g
    using that Cons.prems(2) e
    by (auto simp: behind_step_def firing_ok_def split: option.splits if_splits)
  then show ?case using Cons by simp
qed simp

lemma firing_loop_ok:
  assumes "firing_loop n z rule a moment exs cursor = Some f" "after \<le> cursor" "moment \<le> cursor"
  shows "firing_ok after moment exs f"
  using assms
proof (induction n arbitrary: cursor)
  case (Suc n)
  obtain nxt where nxt: "firstOccurrenceAfter z rule a cursor = Some nxt"
    using Suc.prems(1) by (auto split: option.splits)
  then have later: "nxt > cursor" by (rule firstOccurrenceAfter_Some)
  show ?case
  proof (cases "exceptionAt exs nxt")
    case None
    then show ?thesis using Suc.prems nxt later by (auto simp: firing_ok_def)
  next
    case (Some e)
    show ?thesis
    proof (cases "firing_loop (Suc n) z rule a moment exs cursor = firing_loop n z rule a moment exs nxt")
      case True
      then show ?thesis using Suc.IH [of nxt] Suc.prems later by simp
    next
      case False
      then show ?thesis
        using Suc.prems nxt later Some
        by (auto simp: firing_ok_def split: option.splits if_splits)
    qed
  qed
qed simp

lemma nextFiring_ok:
  assumes "nextFiring z rule a after moment exs = Some f" "distinct (map occurrence exs)"
  shows "firing_ok after moment exs f"
proof (cases "foldl (behind_step after moment) None exs")
  case None
  then show ?thesis
    using assms(1) firing_loop_ok [of "length exs + 1" z rule a moment exs "max after moment" f after]
    by (simp add: nextFiring_def del: firing_loop.simps)
next
  case (Some b)
  then show ?thesis
    using assms behind_fold [OF Some, of exs] by (simp add: nextFiring_def)
qed

text \<open>Every step of the loop that goes on passes an exception, so it has steps enough.\<close>

definition ahead :: "occurrence_exception list \<Rightarrow> int \<Rightarrow> int set" where
  "ahead exs cursor = {k \<in> occurrence ` set exs. k > cursor}"

lemma ahead_step: "e \<in> set exs \<Longrightarrow> occurrence e > cursor \<Longrightarrow> card (ahead exs (occurrence e)) < card (ahead exs cursor)"
  by (intro psubset_card_mono) (auto simp: ahead_def)

lemma firing_loop_finds:
  assumes "\<And>c. c = cursor \<or> c \<in> occurrence ` set exs \<Longrightarrow> \<exists>t. firstOccurrenceAfter z rule a c = Some t"
    "card (ahead exs cursor) < n"
  shows "\<exists>f. firing_loop n z rule a moment exs cursor = Some f"
  using assms
proof (induction n arbitrary: cursor)
  case (Suc n)
  obtain nxt where nxt: "firstOccurrenceAfter z rule a cursor = Some nxt"
    using Suc.prems(1) by blast
  then have later: "nxt > cursor" by (rule firstOccurrenceAfter_Some)
  show ?case
  proof (cases "exceptionAt exs nxt")
    case None
    then show ?thesis using nxt by simp
  next
    case (Some e)
    then have e: "e \<in> set exs" "occurrence e = nxt" by (auto dest: exceptionAt_SomeD)
    have "card (ahead exs nxt) < n"
      using ahead_step [OF e(1)] e(2) later Suc.prems(2) by fastforce
    then have "\<exists>f. firing_loop n z rule a moment exs nxt = Some f"
      using Suc.prems(1) e by (intro Suc.IH) auto
    then show ?thesis using nxt Some by (auto split: option.split)
  qed
qed simp

lemma nextFiring_finds:
  assumes "\<And>c. c = max after moment \<or> c \<in> occurrence ` set exs \<Longrightarrow> \<exists>t. firstOccurrenceAfter z rule a c = Some t"
  shows "\<exists>f. nextFiring z rule a after moment exs = Some f"
proof -
  have "card (ahead exs (max after moment)) \<le> card (set exs)"
    by (intro surj_card_le [where f = occurrence]) (auto simp: ahead_def)
  also have "\<dots> < length exs + 1" using card_length [of exs] by linarith
  finally have "\<exists>f. firing_loop (length exs + 1) z rule a moment exs (max after moment) = Some f"
    using assms by (intro firing_loop_finds)
  then show ?thesis
    by (cases "foldl (behind_step after moment) None exs") (simp_all add: nextFiring_def)
qed

section \<open>Exceptions as JSON\<close>

text \<open>What the documentation of jsoncpp says of the operations the code calls.\<close>

definition int64 :: "int \<Rightarrow> bool" where
  "int64 i \<longleftrightarrow> - (2 ^ 63) \<le> i \<and> i < 2 ^ 63"

definition json_values :: "'j json_lib \<Rightarrow> bool" where
  "json_values J \<longleftrightarrow>
     (\<forall>i. int64 i \<longrightarrow> isInt64 J (ofInt64 J i) \<and> asInt64 J (ofInt64 J i) = i)
     \<and> (\<forall>b. isBool J (ofBool J b) \<and> asBool J (ofBool J b) = b)
     \<and> (\<forall>s. isString J (ofString J s) \<and> asString J (ofString J s) = s)"

definition json_objects :: "'j json_lib \<Rightarrow> bool" where
  "json_objects J \<longleftrightarrow>
     isObject J (objectValue J)
     \<and> (\<forall>k. \<not> isInt64 J (member J (objectValue J) k) \<and> \<not> isString J (member J (objectValue J) k))
     \<and> (\<forall>j k v. isObject J j \<longrightarrow> isObject J (assign J j k v)
          \<and> (\<forall>k'. member J (assign J j k v) k' = (if k' = k then v else member J j k')))"

definition json_arrays :: "'j json_lib \<Rightarrow> bool" where
  "json_arrays J \<longleftrightarrow>
     isArray J (arrayValue J) \<and> elements J (arrayValue J) = []
     \<and> (\<forall>a v. isArray J a \<longrightarrow> isArray J (append_value J a v) \<and> elements J (append_value J a v) = elements J a @ [v])
     \<and> (\<forall>a. isArray J a \<longrightarrow> writeString J a \<noteq> [] \<and> parse_json J (writeString J a) = Some a)"

definition json_laws :: "'j json_lib \<Rightarrow> bool" where
  "json_laws J \<longleftrightarrow> json_values J \<and> json_objects J \<and> json_arrays J"

definition storable :: "occurrence_exception \<Rightarrow> bool" where
  "storable e \<longleftrightarrow> 0 < occurrence e \<and> int64 (occurrence e) \<and> pred_option int64 (ex_startsAt e) \<and> pred_option int64 (ex_endsAt e)
     \<and> \<not> restores e
     \<and> (cancelled e \<longrightarrow> ex_startsAt e = None \<and> ex_endsAt e = None \<and> ex_title e = None \<and> ex_location e = None)"

lemma member_assign_opt:
  assumes "json_objects J" "isObject J item"
  shows "isObject J (assign_opt J key v item)
    \<and> member J (assign_opt J key v item) k = (if k = key then (case v of None \<Rightarrow> member J item k | Some x \<Rightarrow> x) else member J item k)"
  using assms by (auto simp: assign_opt_def json_objects_def split: option.split)

lemma member_assign:
  assumes "json_objects J" "isObject J item"
  shows "isObject J (assign J item key v) \<and> member J (assign J item key v) k = (if k = key then v else member J item k)"
  using assms by (auto simp: json_objects_def)

lemma jsonOf_members:
  assumes "json_objects J"
  shows "isObject J (jsonOf J e)"
    "member J (jsonOf J e) ''occurrence'' = ofInt64 J (occurrence e)"
    "member J (jsonOf J e) ''cancelled'' = ofBool J (cancelled e)"
    "member J (jsonOf J e) ''startsAt'' = (case ex_startsAt e of None \<Rightarrow> member J (objectValue J) ''startsAt'' | Some i \<Rightarrow> ofInt64 J i)"
    "member J (jsonOf J e) ''endsAt'' = (case ex_endsAt e of None \<Rightarrow> member J (objectValue J) ''endsAt'' | Some i \<Rightarrow> ofInt64 J i)"
    "member J (jsonOf J e) ''title'' = (case ex_title e of None \<Rightarrow> member J (objectValue J) ''title'' | Some s \<Rightarrow> ofString J s)"
    "member J (jsonOf J e) ''location'' = (case ex_location e of None \<Rightarrow> member J (objectValue J) ''location'' | Some s \<Rightarrow> ofString J s)"
proof -
  have o: "isObject J (objectValue J)" using assms by (simp add: json_objects_def)
  note m = member_assign [OF assms] member_assign_opt [OF assms]
  show "isObject J (jsonOf J e)"
    "member J (jsonOf J e) ''occurrence'' = ofInt64 J (occurrence e)"
    "member J (jsonOf J e) ''cancelled'' = ofBool J (cancelled e)"
    "member J (jsonOf J e) ''startsAt'' = (case ex_startsAt e of None \<Rightarrow> member J (objectValue J) ''startsAt'' | Some i \<Rightarrow> ofInt64 J i)"
    "member J (jsonOf J e) ''endsAt'' = (case ex_endsAt e of None \<Rightarrow> member J (objectValue J) ''endsAt'' | Some i \<Rightarrow> ofInt64 J i)"
    "member J (jsonOf J e) ''title'' = (case ex_title e of None \<Rightarrow> member J (objectValue J) ''title'' | Some s \<Rightarrow> ofString J s)"
    "member J (jsonOf J e) ''location'' = (case ex_location e of None \<Rightarrow> member J (objectValue J) ''location'' | Some s \<Rightarrow> ofString J s)"
    by (simp_all add: jsonOf_def Let_def m o comp_def cong: option.case_cong)
qed

lemma read_back:
  assumes "json_values J" "json_objects J"
  shows "pred_option int64 v \<Longrightarrow> integerOf J (case v of None \<Rightarrow> member J (objectValue J) k | Some i \<Rightarrow> ofInt64 J i) = v"
    "textOf J (case t of None \<Rightarrow> member J (objectValue J) k | Some s \<Rightarrow> ofString J s) = t"
  using assms by (auto simp: integerOf_def textOf_def json_values_def json_objects_def split: option.splits)

lemma exceptionOf_jsonOf:
  assumes "json_laws J" "storable e"
  shows "exceptionOf J (jsonOf J e) = Some e"
proof (cases e)
  case (fields at c starts ends title loc)
  have J: "json_values J" "json_objects J" using assms by (auto simp: json_laws_def)
  let ?j = "jsonOf J e"
  have st: "int64 at" "pred_option int64 starts" "pred_option int64 ends"
    using assms(2) by (simp_all add: storable_def fields)
  have "integerOf J (ofInt64 J at) = Some at" "isBool J (ofBool J c)" "asBool J (ofBool J c) = c"
    using J(1) st(1) by (simp_all add: integerOf_def json_values_def)
  then have i: "isObject J ?j" "integerOf J (member J ?j ''occurrence'') = Some at"
      "isBool J (member J ?j ''cancelled'')" "asBool J (member J ?j ''cancelled'') = c"
    using jsonOf_members(1) [OF J(2), of e] unfolding jsonOf_members(2,3) [OF J(2)] by (simp_all add: fields)
  have o: "integerOf J (member J ?j ''startsAt'') = starts" "integerOf J (member J ?j ''endsAt'') = ends"
      "textOf J (member J ?j ''title'') = title" "textOf J (member J ?j ''location'') = loc"
    unfolding jsonOf_members [OF J(2)]
    by (simp_all add: fields st read_back [OF J])
  have "exceptionOf J ?j = Some \<lparr>occurrence = at, cancelled = c, ex_startsAt = starts, ex_endsAt = ends,
      ex_title = title, ex_location = loc\<rparr>"
  proof (cases c)
    case True
    then have "0 < at" "starts = None" "ends = None" "title = None" "loc = None"
      using assms(2) by (auto simp: storable_def fields)
    then show ?thesis
      using True by (simp add: exceptionOf_def i o Let_def restores_def)
  next
    case False
    have "0 < at" "\<not> (starts = None \<and> ends = None \<and> title = None \<and> loc = None)"
      using assms(2) False by (auto simp: storable_def fields restores_def)
    then show ?thesis
      using False by (simp add: exceptionOf_def i o Let_def restores_def)
  qed
  then show ?thesis by (simp add: fields)
qed

lemma read_item_distinct:
  "distinct (map occurrence exs) \<Longrightarrow> distinct (map occurrence (read_item J exs item))"
  by (auto simp: read_item_def erase_occurrence_map split: option.split) (auto simp: erase_occurrence_def)

lemma read_items_distinct:
  "distinct (map occurrence exs) \<Longrightarrow> distinct (map occurrence (foldl (read_item J) exs items))"
  by (induction items arbitrary: exs) (simp_all add: read_item_distinct)

lemma exceptionOf_ok: "exceptionOf J item = Some e \<Longrightarrow> \<not> restores e \<and> 0 < occurrence e"
  by (auto simp: exceptionOf_def Let_def split: option.splits if_splits)

lemma read_item_ok:
  assumes "\<forall>e \<in> set exs. \<not> restores e \<and> 0 < occurrence e"
  shows "\<forall>e \<in> set (read_item J exs item). \<not> restores e \<and> 0 < occurrence e"
proof (cases "exceptionOf J item")
  case None
  then show ?thesis using assms by (simp add: read_item_def)
next
  case (Some e)
  then show ?thesis using assms exceptionOf_ok [OF Some] by (simp add: read_item_def erase_occurrence_def)
qed

lemma read_items_ok:
  "\<forall>e \<in> set exs. \<not> restores e \<and> 0 < occurrence e \<Longrightarrow>
   \<forall>e \<in> set (foldl (read_item J) exs items). \<not> restores e \<and> 0 < occurrence e"
proof (induction items arbitrary: exs)
  case (Cons item items)
  show ?case unfolding foldl_Cons by (rule Cons.IH [OF read_item_ok [OF Cons.prems]])
qed simp

lemma parse_wf: "wf_exceptions (parseOccurrenceExceptions J s)"
  using read_items_distinct [of "[]" J] read_items_ok [of "[]" J]
  by (auto simp: parseOccurrenceExceptions_def wf_exceptions_def sortByOccurrence_def distinct_map_sort
      split: option.split)

lemma read_items_append:
  assumes "json_laws J" "\<forall>e \<in> set ys. storable e" "distinct (map occurrence (xs @ ys))"
  shows "foldl (read_item J) xs (map (jsonOf J) ys) = xs @ ys"
  using assms(2,3)
proof (induction ys arbitrary: xs)
  case (Cons y ys)
  have "erase_occurrence (occurrence y) xs = xs"
    using Cons.prems(2) by (auto simp: erase_occurrence_def filter_id_conv image_iff)
  then have "read_item J xs (jsonOf J y) = xs @ [y]"
    using Cons.prems(1) by (simp add: read_item_def exceptionOf_jsonOf [OF assms(1)])
  then show ?case using Cons.IH [of "xs @ [y]"] Cons.prems by simp
qed simp

lemma append_values:
  assumes "json_arrays J" "isArray J a"
  shows "isArray J (foldl (append_value J) a vs) \<and> elements J (foldl (append_value J) a vs) = elements J a @ vs"
  using assms(2)
proof (induction vs arbitrary: a)
  case (Cons v vs)
  have "isArray J (append_value J a v)" "elements J (append_value J a v) = elements J a @ [v]"
    using assms(1) Cons.prems by (auto simp: json_arrays_def)
  then show ?case using Cons.IH by simp
qed simp

lemma parse_serialize:
  assumes "json_laws J" "wf_exceptions exs" "\<forall>e \<in> set exs. storable e"
  shows "parseOccurrenceExceptions J (serializeOccurrenceExceptions J exs) = exs"
proof -
  have A: "json_arrays J" using assms by (simp add: json_laws_def)
  let ?root = "foldl (append_value J) (arrayValue J) (map (jsonOf J) exs)"
  have r: "isArray J ?root" "elements J ?root = map (jsonOf J) exs"
    using append_values [OF A, of "arrayValue J"] A by (auto simp: json_arrays_def)
  have w: "writeString J ?root \<noteq> []" "parse_json J (writeString J ?root) = Some ?root"
    using A r(1) by (auto simp: json_arrays_def)
  have "foldl (read_item J) [] (map (jsonOf J) exs) = exs"
    using read_items_append [OF assms(1,3), of "[]"] assms(2) by (simp add: wf_exceptions_def)
  moreover have "sort_key occurrence exs = exs"
    using assms(2) by (simp add: wf_exceptions_def sort_key_id_if_sorted)
  ultimately show ?thesis
    using r w by (simp add: parseOccurrenceExceptions_def serializeOccurrenceExceptions_def sortByOccurrence_def)
qed

text \<open>A concrete library, for the laws: texts are numbers of values, in unary.\<close>

datatype plain_json =
  PNull | PInt int | PBool bool | PString string | PArray "plain_json list" | PObject "(string \<times> plain_json) list"

instance plain_json :: countable
  by countable_datatype

definition plain_lib :: "plain_json json_lib" where
  "plain_lib =
     \<lparr>isInt64 = \<lambda>j. case j of PInt i \<Rightarrow> int64 i | _ \<Rightarrow> False,
      asInt64 = \<lambda>j. case j of PInt i \<Rightarrow> i | _ \<Rightarrow> 0,
      isString = \<lambda>j. case j of PString s \<Rightarrow> True | _ \<Rightarrow> False,
      asString = \<lambda>j. case j of PString s \<Rightarrow> s | _ \<Rightarrow> [],
      isBool = \<lambda>j. case j of PBool b \<Rightarrow> True | _ \<Rightarrow> False,
      asBool = \<lambda>j. case j of PBool b \<Rightarrow> b | _ \<Rightarrow> False,
      isObject = \<lambda>j. case j of PObject ms \<Rightarrow> True | _ \<Rightarrow> False,
      isArray = \<lambda>j. case j of PArray vs \<Rightarrow> True | _ \<Rightarrow> False,
      member = \<lambda>j k. case j of PObject ms \<Rightarrow> (case map_of ms k of None \<Rightarrow> PNull | Some v \<Rightarrow> v) | _ \<Rightarrow> PNull,
      elements = \<lambda>j. case j of PArray vs \<Rightarrow> vs | _ \<Rightarrow> [],
      ofInt64 = PInt, ofBool = PBool, ofString = PString, objectValue = PObject [], arrayValue = PArray [],
      assign = \<lambda>j k v. case j of PObject ms \<Rightarrow> PObject ((k, v) # ms) | _ \<Rightarrow> j,
      append_value = \<lambda>j v. case j of PArray vs \<Rightarrow> PArray (vs @ [v]) | _ \<Rightarrow> j,
      parse_json = \<lambda>s. Some (from_nat (length s - 1)),
      writeString = \<lambda>j. replicate (Suc (to_nat j)) CHR ''1''\<rparr>"

lemma plain_lib_laws: "json_laws plain_lib"
  by (auto simp: json_laws_def json_values_def json_objects_def json_arrays_def plain_lib_def
      split: plain_json.splits)

section \<open>Snoozing\<close>

lemma snoozeSeries_wf:
  "snoozeSeries z rule a sched exs target = Some r \<Longrightarrow> wf_exceptions exs \<Longrightarrow> wf_exceptions (s_exceptions r)"
  by (auto simp: snoozeSeries_def Let_def wf_withException split: option.splits if_splits)

lemma snoozeSeries_cases:
  assumes "snoozeSeries z rule a sched exs target = Some r" "wf_exceptions exs"
  defines "c \<equiv> scheduledOccurrence exs sched"
  obtains (moved) slot where "occurrenceSlot z rule a c = Some slot" "\<not> folded r" "s_scheduledAt r = target"
      "\<And>n. next_at slot = Some n \<Longrightarrow> target < n"
      "exceptionAt (s_exceptions r) c = (if target = c then None else Some
         \<lparr>occurrence = c, cancelled = False, ex_startsAt = Some target, ex_endsAt = None, ex_title = None, ex_location = None\<rparr>)"
      "\<And>k. k \<noteq> c \<Longrightarrow> exceptionAt (s_exceptions r) k = exceptionAt exs k"
  | (skipped) slot n fire where "occurrenceSlot z rule a c = Some slot" "folded r" "next_at slot = Some n" "n \<le> target"
      "nextFiring z rule a (c - 1) (case previous slot of None \<Rightarrow> 0 | Some p \<Rightarrow> p) (s_exceptions r) = Some fire"
      "s_scheduledAt r = f_at fire"
      "exceptionAt (s_exceptions r) c = Some
         \<lparr>occurrence = c, cancelled = True, ex_startsAt = None, ex_endsAt = None, ex_title = None, ex_location = None\<rparr>"
      "\<And>k. k \<noteq> c \<Longrightarrow> exceptionAt (s_exceptions r) k = exceptionAt exs k"
proof -
  obtain slot where slot: "occurrenceSlot z rule a c = Some slot"
    using assms(1) by (auto simp: snoozeSeries_def Let_def c_def split: option.splits)
  show ?thesis
  proof (cases "case next_at slot of None \<Rightarrow> True | Some n \<Rightarrow> target < n")
    case True
    then have r: "r = \<lparr>s_scheduledAt = target, s_exceptions = withException exs
        \<lparr>occurrence = c, cancelled = False, ex_startsAt = (if target = c then None else Some target),
         ex_endsAt = None, ex_title = None, ex_location = None\<rparr>, folded = False\<rparr>"
      using assms(1) slot by (simp add: snoozeSeries_def Let_def flip: c_def)
    show ?thesis
      by (rule moved [OF slot]) (use True in \<open>auto simp: r lookup_withException [OF assms(2)] restores_def split: option.splits\<close>)
  next
    case False
    then obtain n fire where nf: "next_at slot = Some n" "n \<le> target"
        "nextFiring z rule a (c - 1) (case previous slot of None \<Rightarrow> 0 | Some p \<Rightarrow> p) (withException exs
        \<lparr>occurrence = c, cancelled = True, ex_startsAt = None, ex_endsAt = None, ex_title = None, ex_location = None\<rparr>) = Some fire"
        "r = \<lparr>s_scheduledAt = f_at fire, s_exceptions = withException exs
        \<lparr>occurrence = c, cancelled = True, ex_startsAt = None, ex_endsAt = None, ex_title = None, ex_location = None\<rparr>, folded = True\<rparr>"
      using assms(1) slot by (auto simp: snoozeSeries_def Let_def simp flip: c_def split: option.splits)
    show ?thesis
      by (rule skipped [OF slot _ nf(1,2)]) (use nf in \<open>auto simp: lookup_withException [OF assms(2)] restores_def\<close>)
  qed
qed

lemma snooze_effects:
  assumes "snoozeSeries z rule a sched exs target = Some r" "wf_exceptions exs"
  shows "wf_exceptions (s_exceptions r)
    \<and> (\<forall>k. k \<noteq> scheduledOccurrence exs sched \<longrightarrow> exceptionAt (s_exceptions r) k = exceptionAt exs k)
    \<and> (\<not> folded r \<longrightarrow> s_scheduledAt r = target
        \<and> (target \<noteq> scheduledOccurrence exs sched \<longrightarrow> map_option ex_startsAt
             (exceptionAt (s_exceptions r) (scheduledOccurrence exs sched)) = Some (Some target)))
    \<and> (folded r \<longrightarrow> map_option cancelled (exceptionAt (s_exceptions r) (scheduledOccurrence exs sched)) = Some True
        \<and> (\<exists>f :: next_firing. s_scheduledAt r = f_at f \<and> f_occurrence f > scheduledOccurrence exs sched
             \<and> (\<forall>e. exceptionAt (s_exceptions r) (f_occurrence f) = Some e \<longrightarrow> \<not> cancelled e)))"
  using assms
proof (cases rule: snoozeSeries_cases)
  case (moved slot)
  then show ?thesis using snoozeSeries_wf [OF assms] by auto
next
  case (skipped slot n fire)
  let ?c = "scheduledOccurrence exs sched"
  have wf: "wf_exceptions (s_exceptions r)" using snoozeSeries_wf [OF assms] .
  then have "firing_ok (?c - 1) (case previous slot of None \<Rightarrow> 0 | Some p \<Rightarrow> p) (s_exceptions r) fire"
    using nextFiring_ok [OF skipped(5)] by (simp add: wf_exceptions_def)
  then have fire: "f_occurrence fire > ?c - 1"
      "\<forall>e. exceptionAt (s_exceptions r) (f_occurrence fire) = Some e \<longrightarrow> \<not> cancelled e"
    by (auto simp: firing_ok_def)
  then have "f_occurrence fire \<noteq> ?c" using skipped(7) by auto
  then have "\<exists>f :: next_firing. s_scheduledAt r = f_at f \<and> f_occurrence f > ?c
      \<and> (\<forall>e. exceptionAt (s_exceptions r) (f_occurrence f) = Some e \<longrightarrow> \<not> cancelled e)"
    using fire skipped(6) by (intro exI [of _ fire]) simp
  then show ?thesis
    using skipped(2,7,8) wf by simp
qed

lemma snoozeSeries_folded:
  assumes "snoozeSeries z rule a sched exs target = Some r"
    "occurrenceSlot z rule a (scheduledOccurrence exs sched) = Some slot"
  shows "folded r \<longleftrightarrow> (case next_at slot of None \<Rightarrow> False | Some n \<Rightarrow> n \<le> target)"
  using assms by (auto simp: snoozeSeries_def Let_def split: option.splits if_splits)

text \<open>The search for a firing in place of the snoozed one asks for times within the range of the
  calendar, so it finds one.\<close>

lemma snooze_fires:
  assumes "valid_rule rule" "host_zone lo hi z" "hi - lo \<le> a" "a \<le> 10 ^ 12"
    "\<forall>e \<in> set exs. \<bar>occurrence e\<bar> \<le> 10 ^ 12" "0 \<le> c" "c \<le> 10 ^ 12" "moment \<le> c"
  shows "\<exists>f. nextFiring z rule a (c - 1) moment exs = Some f"
proof (rule nextFiring_finds)
  fix d assume "d = max (c - 1) moment \<or> d \<in> occurrence ` set exs"
  then have "\<bar>d\<bar> \<le> 10 ^ 12" using assms(5-8) by (auto simp: max_def)
  then have "series_ok lo hi z rule a d" using assms by (simp add: series_ok_def)
  then show "\<exists>t. firstOccurrenceAfter z rule a d = Some t"
    using firstOccurrenceAfter_host by blast
qed

lemma previous_before:
  assumes "series_ok lo hi z rule a c" "occurrenceIndex z rule a c = Some k" "occurrenceSlot z rule a c = Some slot"
  shows "0 \<le> c \<and> (case previous slot of None \<Rightarrow> 0 | Some p \<Rightarrow> p) \<le> c"
proof -
  note k = occurrenceIndex_sound [OF assms(1,2)]
  then have c: "0 \<le> c" using series_ok_zone(4) [OF assms(1)] by simp
  have "p \<le> c" if "0 < k" "occurrenceAt z rule a (k - 1) = Some p" for p
    using series_increasing [OF assms(1), of "k - 1" k p c] k that by simp
  then show ?thesis
    using assms(2,3) c by (auto simp: occurrenceSlot_def split: option.split if_splits)
qed

lemma snoozeSeries_finds:
  assumes "series_ok lo hi z rule a (scheduledOccurrence exs sched)" "wf_exceptions exs"
    "\<forall>e \<in> set exs. \<bar>occurrence e\<bar> \<le> 10 ^ 12"
    "occurrenceIndex z rule a (scheduledOccurrence exs sched) = Some k"
  shows "\<exists>r. snoozeSeries z rule a sched exs target = Some r"
proof -
  let ?c = "scheduledOccurrence exs sched"
  obtain slot where slot: "occurrenceSlot z rule a ?c = Some slot"
    using assms(4) by (simp add: occurrenceSlot_def)
  let ?skip = "\<lparr>occurrence = ?c, cancelled = True, ex_startsAt = None, ex_endsAt = None, ex_title = None, ex_location = None\<rparr>"
  note p = previous_before [OF assms(1,4) slot]
  have c: "?c \<le> 10 ^ 12" using assms(1) by (simp add: series_ok_def abs_le_iff)
  have "\<forall>e \<in> set (withException exs ?skip). \<bar>occurrence e\<bar> \<le> 10 ^ 12"
    using assms(3) p c by (auto simp: withException_def sortByOccurrence_def erase_occurrence_def)
  then obtain f where "nextFiring z rule a (?c - 1) (case previous slot of None \<Rightarrow> 0 | Some p \<Rightarrow> p)
      (withException exs ?skip) = Some f"
    using snooze_fires [of rule lo hi z a "withException exs ?skip" ?c] assms(1) p c
    by (auto simp: series_ok_def)
  then show ?thesis
    using slot by (simp add: snoozeSeries_def Let_def)
qed

section \<open>Properties\<close>

text \<open>C24. The exceptions of a series behave as a map from occurrences to changes: writing a change is
  read back at its occurrence and nowhere else, a change that changes nothing deletes, the
  order in which changes to different occurrences are made does not matter, and the list stays
  sorted with one entry per occurrence.\<close>

theorem exceptions_map:
  assumes "wf_exceptions exs"
  shows "wf_exceptions (withException exs c)
    \<and> exceptionAt (withException exs c) =
        (exceptionAt exs)(occurrence c := (if restores c then None else Some c))
    \<and> (occurrence c \<noteq> occurrence d \<longrightarrow>
        withException (withException exs c) d = withException (withException exs d) c)
    \<and> (occurrence c = occurrence d \<longrightarrow> withException (withException exs c) d = withException exs d)
    \<and> exceptionAt (exceptionsFrom exs k) = (\<lambda>j. if j < k then None else exceptionAt exs j)"
  using exceptions.update_commutes [OF assms, of c d] exceptions.update_overwrites [OF assms, of c d]
    exceptions.invar_update [OF assms] exceptions.lookup_update [OF assms] lookup_exceptionsFrom
  by (auto simp: fun_eq_iff)

definition example_exceptions :: "occurrence_exception list" where
  "example_exceptions =
     [\<lparr>occurrence = 86400, cancelled = True, ex_startsAt = None, ex_endsAt = None, ex_title = None, ex_location = None\<rparr>,
      \<lparr>occurrence = 172800, cancelled = False, ex_startsAt = Some 180000, ex_endsAt = None, ex_title = Some ''late'', ex_location = None\<rparr>]"

lemma example_exceptions_wf: "wf_exceptions example_exceptions \<and> (\<forall>e \<in> set example_exceptions. storable e)"
  by (simp add: example_exceptions_def wf_exceptions_def storable_def restores_def int64_def)

theorem exceptions_map_witness:
  "wf_exceptions (withException example_exceptions (example_exceptions ! 0))
   \<and> withException (withException example_exceptions (example_exceptions ! 0)) (example_exceptions ! 0)
     = withException example_exceptions (example_exceptions ! 0)"
  using exceptions_map [of example_exceptions "example_exceptions ! 0" "example_exceptions ! 0"] example_exceptions_wf
  by simp

text \<open>What is stored is what is read: for any library that keeps the documented laws of jsoncpp,
  parsing the serialized exceptions gives them back, and whatever text is parsed, the result is
  sorted, has one entry per occurrence and none that changes nothing.\<close>

theorem exceptions_stored:
  assumes "json_laws J"
  shows "(wf_exceptions exs \<and> (\<forall>e \<in> set exs. storable e) \<longrightarrow>
      parseOccurrenceExceptions J (serializeOccurrenceExceptions J exs) = exs)
    \<and> wf_exceptions (parseOccurrenceExceptions J s)"
  using parse_serialize [OF assms] parse_wf by blast

theorem exceptions_stored_witness:
  "json_laws plain_lib
   \<and> parseOccurrenceExceptions plain_lib (serializeOccurrenceExceptions plain_lib example_exceptions) = example_exceptions"
  using exceptions_stored [OF plain_lib_laws, of example_exceptions] example_exceptions_wf plain_lib_laws by blast



text \<open>Snoozing changes the current occurrence and no other, and always succeeds while the series
  stands at one of its occurrences, in the zones of \<open>host_zone\<close> and for times within \<open>10 ^ 12\<close> seconds of 1970. A target before the next occurrence moves it there, and nothing
  else is changed; a later target cancels it, and the series is scheduled at a firing that is not
  cancelled and comes after it.\<close>

theorem snooze_exact:
  assumes "valid_rule rule" "host_zone lo hi z" "hi - lo \<le> a" "a \<le> 10 ^ 12" "wf_exceptions exs"
    "\<forall>e \<in> set exs. \<bar>occurrence e\<bar> \<le> 10 ^ 12" "\<bar>scheduledOccurrence exs sched\<bar> \<le> 10 ^ 12"
    "occurrenceIndex z rule a (scheduledOccurrence exs sched) = Some k"
  shows "\<exists>r. snoozeSeries z rule a sched exs target = Some r \<and> wf_exceptions (s_exceptions r)
    \<and> (folded r \<longleftrightarrow> (case occurrenceAt z rule a (k + 1) of None \<Rightarrow> False | Some n \<Rightarrow> n \<le> target))
    \<and> (\<forall>j. j \<noteq> scheduledOccurrence exs sched \<longrightarrow> exceptionAt (s_exceptions r) j = exceptionAt exs j)
    \<and> (\<not> folded r \<longrightarrow> s_scheduledAt r = target
        \<and> (target \<noteq> scheduledOccurrence exs sched \<longrightarrow> map_option ex_startsAt
             (exceptionAt (s_exceptions r) (scheduledOccurrence exs sched)) = Some (Some target)))
    \<and> (folded r \<longrightarrow> map_option cancelled (exceptionAt (s_exceptions r) (scheduledOccurrence exs sched)) = Some True
        \<and> (\<exists>f :: next_firing. s_scheduledAt r = f_at f \<and> f_occurrence f > scheduledOccurrence exs sched
             \<and> (\<forall>e. exceptionAt (s_exceptions r) (f_occurrence f) = Some e \<longrightarrow> \<not> cancelled e)))"
proof -
  have "series_ok lo hi z rule a (scheduledOccurrence exs sched)" using assms by (simp add: series_ok_def)
  from snoozeSeries_finds [OF this assms(5,6,8)]
  obtain r where r: "snoozeSeries z rule a sched exs target = Some r" by blast
  have "folded r \<longleftrightarrow> (case occurrenceAt z rule a (k + 1) of None \<Rightarrow> False | Some n \<Rightarrow> n \<le> target)"
    using snoozeSeries_folded [OF r] assms(8) by (simp add: occurrenceSlot_def)
  then show ?thesis
    using snooze_effects [OF r assms(5)] r by (intro exI [of _ r]) simp
qed

theorem snooze_exact_witness:
  "\<exists>r. snoozeSeries (offset_zone 0) \<lparr>frequency = Daily, interval = 1, monthDay = None\<rparr> 43200 43200 example_exceptions 50000 = Some r
    \<and> \<not> folded r \<and> s_scheduledAt r = 50000"
proof -
  let ?rule = "\<lparr>frequency = Daily, interval = 1, monthDay = None\<rparr>"
  let ?c = "scheduledOccurrence example_exceptions 43200"
  have c: "?c = 43200" by (simp add: scheduledOccurrence_def example_exceptions_def)
  have zone: "host_zone 0 0 (offset_zone 0)" by (rule offset_zone_host) simp
  have occ: "occurrenceAt (offset_zone 0) ?rule 43200 0 = Some 43200"
      "occurrenceAt (offset_zone 0) ?rule 43200 (0 + 1) = Some 129600"
    by (simp_all add: occurrenceAt_host [OF zone] calendar_time_def offset_mktime offset_wall_time local_date_def local_day_def
        occurrence_date_def dayNumberOf_civilFromDays)
  have rule: "valid_rule ?rule" "host_zone 0 0 (offset_zone 0)" "0 - 0 \<le> (43200 :: int)" "(43200 :: int) \<le> 10 ^ 12"
    by (simp_all add: valid_rule_def zone)
  have exs: "wf_exceptions example_exceptions" "\<forall>e \<in> set example_exceptions. \<bar>occurrence e\<bar> \<le> 10 ^ 12" "\<bar>?c\<bar> \<le> 10 ^ 12"
    using example_exceptions_wf by (simp_all add: example_exceptions_def scheduledOccurrence_def)
  have "occurrenceIndex (offset_zone 0) ?rule 43200 ?c = Some 0"
    unfolding c using occ(1) rule by (intro occurrenceIndex_complete [of 0 0]) (simp_all add: series_ok_def series_bound_def)
  from snooze_exact [OF rule exs this, of 50000]
  obtain r where "snoozeSeries (offset_zone 0) ?rule 43200 43200 example_exceptions 50000 = Some r"
      "folded r \<longleftrightarrow> (129600 :: int) \<le> 50000" "\<not> folded r \<longrightarrow> s_scheduledAt r = 50000"
    unfolding occ(2) option.case by blast
  then show ?thesis by (intro exI [of _ r]) simp
qed

end
