(* ===== verification/Series_Window.thy ===== *)
theory Series_Window
  imports Occurrences
begin

text \<open>
  The occurrences of a series within a window of time, \<open>series-window.cc\<close>, and the step a
  reminder series takes when one of its occurrences has fired, \<open>reminder-series.cc\<close>. The
  repository and the sink of changes are parameters.
\<close>

section \<open>Occurrences within a window\<close>

record series_window_input =
  w_rule :: "string option"
  w_startsAt :: int
  w_endsAt :: "int option"
  w_exceptions :: string
  w_from :: int
  w_to :: int

record series_occurrence =
  o_occurrence :: int
  o_startsAt :: int
  o_endsAt :: "int option"
  o_title :: "string option"
  o_location :: "string option"
  o_repeats :: bool

definition kMaxSeriesOccurrences :: nat where "kMaxSeriesOccurrences = 512"

definition shaped :: "series_window_input \<Rightarrow> int \<Rightarrow> occurrence_exception option \<Rightarrow> series_occurrence" where
  "shaped series at exception =
     (let startsAt = (case exception of
                        Some e \<Rightarrow> (case ex_startsAt e of Some s \<Rightarrow> s | None \<Rightarrow> at)
                      | None \<Rightarrow> at);
          moved_end = (case exception of Some e \<Rightarrow> ex_endsAt e | None \<Rightarrow> None);
          endsAt = (case moved_end of
                      Some t \<Rightarrow> Some t
                    | None \<Rightarrow> (case w_endsAt series of
                                None \<Rightarrow> None
                              | Some t \<Rightarrow> Some (startsAt + (t - w_startsAt series))))
      in \<lparr>o_occurrence = at, o_startsAt = startsAt, o_endsAt = endsAt,
          o_title = (case exception of Some e \<Rightarrow> ex_title e | None \<Rightarrow> None),
          o_location = (case exception of Some e \<Rightarrow> ex_location e | None \<Rightarrow> None),
          o_repeats = True\<rparr>)"

definition in_window :: "int \<Rightarrow> series_window_input \<Rightarrow> bool" where
  "in_window at series \<longleftrightarrow> at \<ge> w_from series \<and> at \<le> w_to series"

text \<open>The loop of \<open>startsWithin\<close>; its first argument is the room left below \<open>kMaxSeriesOccurrences\<close>.\<close>

fun starts_loop :: "nat \<Rightarrow> zone \<Rightarrow> recurrence_rule \<Rightarrow> series_window_input \<Rightarrow> int option \<Rightarrow> int list" where
  "starts_loop 0 z rule series nxt = []"
| "starts_loop (Suc n) z rule series None = []"
| "starts_loop (Suc n) z rule series (Some t) =
     (if t \<le> w_to series
      then t # starts_loop n z rule series (firstOccurrenceAfter z rule (w_startsAt series) t)
      else [])"

definition startsWithin :: "zone \<Rightarrow> recurrence_rule \<Rightarrow> series_window_input \<Rightarrow> int list" where
  "startsWithin z rule series =
     (if w_startsAt series > w_to series then []
      else starts_loop kMaxSeriesOccurrences z rule series
             (if w_startsAt series \<ge> w_from series then occurrenceAt z rule (w_startsAt series) 0
              else firstOccurrenceAfter z rule (w_startsAt series) (w_from series - 1)))"

text \<open>
  The first loop of \<open>occurrencesWithin\<close>: the exceptions it meets are erased from the list, so
  that the second loop sees the others.
\<close>

definition visit_start ::
  "series_window_input \<Rightarrow> series_occurrence list \<times> occurrence_exception list \<Rightarrow> int
     \<Rightarrow> series_occurrence list \<times> occurrence_exception list" where
  "visit_start series = (\<lambda>(found, exs) at.
     case exceptionAt exs at of
       None \<Rightarrow> (found @ [shaped series at None], exs)
     | Some e \<Rightarrow>
         (let exs' = remove1 e exs
          in if cancelled e then (found, exs')
             else let entry = shaped series at (Some e)
                  in (if in_window (o_startsAt entry) series then found @ [entry] else found, exs')))"

definition visit_moved ::
  "series_window_input \<Rightarrow> series_occurrence list \<Rightarrow> occurrence_exception \<Rightarrow> series_occurrence list" where
  "visit_moved series found e =
     (case ex_startsAt e of
        None \<Rightarrow> found
      | Some s \<Rightarrow>
          if cancelled e \<or> occurrence e < w_startsAt series then found
          else if \<not> in_window s series \<or> length found \<ge> kMaxSeriesOccurrences then found
          else found @ [shaped series (occurrence e) (Some e)])"

definition occurrencesWithin :: "'j json_lib \<Rightarrow> zone \<Rightarrow> series_window_input \<Rightarrow> series_occurrence list" where
  "occurrencesWithin J z series =
     (if w_from series > w_to series then []
      else case (case w_rule series of None \<Rightarrow> None | Some s \<Rightarrow> parseRecurrenceRule s) of
             None \<Rightarrow>
               (if in_window (w_startsAt series) series
                then [\<lparr>o_occurrence = w_startsAt series, o_startsAt = w_startsAt series, o_endsAt = w_endsAt series,
                       o_title = None, o_location = None, o_repeats = False\<rparr>]
                else [])
           | Some rule \<Rightarrow>
               (let (found, rest) = foldl (visit_start series) ([], parseOccurrenceExceptions J (w_exceptions series))
                                     (startsWithin z rule series)
                in sort_key o_startsAt (foldl (visit_moved series) found rest)))"

section \<open>Advancing a reminder\<close>

text \<open>The columns of a reminder the step reads, and the update it writes.\<close>

record reminder =
  r_id :: int
  r_targetUserId :: int
  scheduledAt :: int
  recurrenceRule :: "string option"
  recurrenceAnchor :: "int option"
  recurrenceExceptions :: string

record reminder_update =
  u_id :: int
  u_targetUserId :: int
  u_scheduledAt :: "int option"
  u_recurrenceExceptions :: "string option"

record audit =
  before :: reminder
  after_row :: reminder

record 'db reminder_repository =
  findOwned :: "'db \<Rightarrow> int \<Rightarrow> int \<Rightarrow> reminder option"
  update_row :: "'db \<Rightarrow> reminder_update \<Rightarrow> 'db \<times> reminder"

text \<open>
  The decision of \<open>ReminderSeries::advance\<close>: the firing and the update it leads to.
\<close>

definition advance_firing :: "'j json_lib \<Rightarrow> zone \<Rightarrow> reminder \<Rightarrow> int \<Rightarrow> next_firing option" where
  "advance_firing J z row moment =
     (case recurrenceRule row of
        None \<Rightarrow> None
      | Some s \<Rightarrow>
          (case parseRecurrenceRule s of
             None \<Rightarrow> None
           | Some rule \<Rightarrow>
               (let anchor = (case recurrenceAnchor row of None \<Rightarrow> scheduledAt row | Some t \<Rightarrow> t);
                    exs = parseOccurrenceExceptions J (recurrenceExceptions row)
                in nextFiring z rule anchor (scheduledOccurrence exs (scheduledAt row))
                     (max (scheduledAt row) moment) exs)))"

definition advance_update :: "'j json_lib \<Rightarrow> int \<Rightarrow> int \<Rightarrow> reminder \<Rightarrow> next_firing \<Rightarrow> reminder_update" where
  "advance_update J reminderId user row fire =
     (let exs = parseOccurrenceExceptions J (recurrenceExceptions row);
          kept = exceptionsFrom exs (f_occurrence fire)
      in \<lparr>u_id = reminderId, u_targetUserId = user, u_scheduledAt = Some (f_at fire),
          u_recurrenceExceptions =
            (if length kept = length exs then None else Some (serializeOccurrenceExceptions J kept))\<rparr>)"

definition advance ::
  "'j json_lib \<Rightarrow> zone \<Rightarrow> 'db reminder_repository \<Rightarrow> bool \<Rightarrow> 'db \<Rightarrow> int \<Rightarrow> int \<Rightarrow> int
     \<Rightarrow> 'db \<times> audit list \<times> int option" where
  "advance J z repo sink db reminderId user moment =
     (case findOwned repo db reminderId user of
        None \<Rightarrow> (db, [], None)
      | Some existing \<Rightarrow>
          (case advance_firing J z existing moment of
             None \<Rightarrow> (db, [], None)
           | Some fire \<Rightarrow>
               (let (db', row) = update_row repo db (advance_update J reminderId user existing fire)
                in if r_id row = 0 then (db', [], None)
                   else (db', if sink then [\<lparr>before = existing, after_row = row\<rparr>] else [], Some (f_at fire)))))"

section \<open>Lemmas\<close>

lemma starts_loop_length: "length (starts_loop n z rule series nxt) \<le> n"
  by (induction n z rule series nxt rule: starts_loop.induct) auto

lemma startsWithin_length: "length (startsWithin z rule series) \<le> kMaxSeriesOccurrences"
  by (simp add: startsWithin_def starts_loop_length)

lemma starts_loop_bounds:
  "t \<in> set (starts_loop n z rule series (Some u)) \<Longrightarrow> u \<le> t \<and> t \<le> w_to series"
proof (induction n arbitrary: u)
  case (Suc n)
  show ?case
  proof (cases "t = u")
    case True
    then show ?thesis using Suc.prems by (auto split: if_splits)
  next
    case False
    obtain v where v: "firstOccurrenceAfter z rule (w_startsAt series) u = Some v"
        "t \<in> set (starts_loop n z rule series (Some v))"
      using Suc.prems False
      by (cases "firstOccurrenceAfter z rule (w_startsAt series) u"; cases n) (auto split: if_splits)
    have "v > u" using v(1) by (rule firstOccurrenceAfter_Some)
    then show ?thesis using Suc.IH [OF v(2)] by simp
  qed
qed simp

lemma starts_loop_increasing: "sorted_wrt (<) (starts_loop n z rule series nxt)"
proof (induction n arbitrary: nxt)
  case (Suc n)
  show ?case
  proof (cases nxt)
    case (Some u)
    have "u < t" if "t \<in> set (starts_loop n z rule series (firstOccurrenceAfter z rule (w_startsAt series) u))" for t
    proof -
      note t = that
      obtain v where v: "firstOccurrenceAfter z rule (w_startsAt series) u = Some v"
        using t by (cases "firstOccurrenceAfter z rule (w_startsAt series) u"; cases n) auto
      have "v > u" using v by (rule firstOccurrenceAfter_Some)
      then show ?thesis using starts_loop_bounds [of t n z rule series v] t v by simp
    qed
    then show ?thesis using Some Suc.IH by simp
  qed simp
qed simp

lemma startsWithin_increasing: "sorted_wrt (<) (startsWithin z rule series)"
  by (simp add: startsWithin_def starts_loop_increasing)

lemma shaped_simps [simp]:
  "o_occurrence (shaped series at e) = at" "o_startsAt (shaped series at None) = at"
  by (simp_all add: shaped_def Let_def)

text \<open>
  What the two loops keep: the exceptions left are some of those there were, and every entry
  found so far is an occurrence that is not cancelled, shaped by its exception if it has one.
\<close>

definition entry_ok :: "series_window_input \<Rightarrow> occurrence_exception list \<Rightarrow> series_occurrence \<Rightarrow> bool" where
  "entry_ok series exs entry \<longleftrightarrow> entry = shaped series (o_occurrence entry) (exceptionAt exs (o_occurrence entry))
     \<and> (\<forall>e. exceptionAt exs (o_occurrence entry) = Some e \<longrightarrow> \<not> cancelled e)"

definition window_inv ::
  "series_window_input \<Rightarrow> occurrence_exception list \<Rightarrow> int set \<Rightarrow> series_occurrence list \<times> occurrence_exception list \<Rightarrow> bool" where
  "window_inv series exs seen st \<longleftrightarrow> (\<forall>entry \<in> set (fst st). entry_ok series exs entry \<and> o_occurrence entry \<in> seen)
     \<and> distinct (map o_occurrence (fst st))
     \<and> snd st = filter (\<lambda>e. occurrence e \<notin> seen) exs"

lemma exceptionAt_filter:
  "exceptionAt (filter (\<lambda>e. occurrence e \<notin> S) exs) k = (if k \<in> S then None else exceptionAt exs k)"
  by (induction exs) (auto simp: exceptionAt_def)

lemma remove1_filter:
  assumes "distinct (map occurrence exs)" "exceptionAt exs at = Some e" "at \<notin> S"
  shows "remove1 e (filter (\<lambda>e. occurrence e \<notin> S) exs) = filter (\<lambda>e. occurrence e \<notin> insert at S) exs"
proof -
  have e: "e \<in> set exs" "occurrence e = at" using assms exceptionAt_SomeD by auto
  have d: "distinct (filter (\<lambda>e. occurrence e \<notin> S) exs)" using assms(1) by (simp add: distinct_map)
  have "x \<in> set exs \<Longrightarrow> x \<noteq> e \<longleftrightarrow> occurrence x \<noteq> at" for x
    using assms(1) e by (auto simp: distinct_map inj_on_def)
  then show ?thesis
    unfolding distinct_remove1_removeAll [OF d] removeAll_filter_not_eq filter_filter
    by (intro filter_cong) auto
qed

lemma visit_start_inv:
  assumes "window_inv series exs seen st" "distinct (map occurrence exs)" "at \<notin> seen"
  shows "window_inv series exs (insert at seen) (visit_start series st at)"
proof -
  obtain found rest where st: "st = (found, rest)" by (cases st)
  have rest: "rest = filter (\<lambda>e. occurrence e \<notin> seen) exs"
    and found: "\<forall>entry \<in> set found. entry_ok series exs entry \<and> o_occurrence entry \<in> seen"
      "distinct (map o_occurrence found)"
    using assms(1) by (auto simp: window_inv_def st)
  have lookup: "exceptionAt rest at = exceptionAt exs at" using assms(3) by (simp add: rest exceptionAt_filter)
  have fresh: "at \<notin> o_occurrence ` set found" using found(1) assms(3) by auto
  show ?thesis
  proof (cases "exceptionAt exs at")
    case None
    then have "at \<notin> occurrence ` set exs" by (simp add: exceptionAt_None)
    then have "rest = filter (\<lambda>e. occurrence e \<notin> insert at seen) exs"
      unfolding rest by (intro filter_cong) auto
    moreover have "visit_start series st at = (found @ [shaped series at None], rest)"
      using None lookup by (simp add: st visit_start_def)
    ultimately show ?thesis
      using None found fresh by (auto simp: window_inv_def entry_ok_def)
  next
    case (Some e)
    have rem: "remove1 e rest = filter (\<lambda>e. occurrence e \<notin> insert at seen) exs"
      unfolding rest by (rule remove1_filter [OF assms(2) Some assms(3)])
    have "visit_start series st at
        = (if \<not> cancelled e \<and> in_window (o_startsAt (shaped series at (Some e))) series
           then found @ [shaped series at (Some e)] else found, remove1 e rest)"
      using Some lookup by (simp add: st visit_start_def Let_def)
    then show ?thesis
      using Some found fresh rem by (auto simp: window_inv_def entry_ok_def)
  qed
qed

lemma visit_starts_inv:
  assumes "window_inv series exs seen st" "distinct (map occurrence exs)" "distinct ats" "set ats \<inter> seen = {}"
  shows "window_inv series exs (seen \<union> set ats) (foldl (visit_start series) st ats)"
  using assms
proof (induction ats arbitrary: seen st)
  case (Cons at ats)
  have "window_inv series exs (insert at seen \<union> set ats) (foldl (visit_start series) (visit_start series st at) ats)"
    using Cons.prems visit_start_inv [OF Cons.prems(1,2), of at] by (intro Cons.IH) auto
  then show ?case by simp
qed simp

lemma visit_start_length:
  "length (fst (visit_start series st at)) \<le> Suc (length (fst st))"
  by (cases st) (auto simp: visit_start_def Let_def split: option.split)

lemma visit_starts_length:
  "length (fst (foldl (visit_start series) st ats)) \<le> length (fst st) + length ats"
proof (induction ats arbitrary: st)
  case (Cons at ats)
  show ?case using Cons.IH [of "visit_start series st at"] visit_start_length [of series st at] by simp
qed simp

definition moved_inv :: "series_window_input \<Rightarrow> occurrence_exception list \<Rightarrow> series_occurrence list \<Rightarrow> bool" where
  "moved_inv series exs found \<longleftrightarrow> (\<forall>entry \<in> set found. entry_ok series exs entry)
     \<and> distinct (map o_occurrence found) \<and> length found \<le> kMaxSeriesOccurrences"

lemma visit_moved_inv:
  assumes "moved_inv series exs found" "e \<in> set exs" "distinct (map occurrence exs)"
    "occurrence e \<notin> o_occurrence ` set found"
  shows "moved_inv series exs (visit_moved series found e)"
proof -
  have "exceptionAt exs (occurrence e) = Some e" using assms by (simp add: exceptionAt_Some)
  then show ?thesis
    using assms by (auto simp: visit_moved_def moved_inv_def entry_ok_def split: option.split)
qed

lemma visit_moved_occurrences:
  "o_occurrence ` set (visit_moved series found e) \<subseteq> insert (occurrence e) (o_occurrence ` set found)"
  by (auto simp: visit_moved_def split: option.split)

lemma disjoint_grown: "A \<inter> F = {} \<Longrightarrow> x \<notin> A \<Longrightarrow> V \<subseteq> insert x F \<Longrightarrow> A \<inter> V = {}"
  by blast

lemma visit_all_moved_inv:
  assumes "moved_inv series exs found" "set es \<subseteq> set exs" "distinct (map occurrence exs)" "distinct (map occurrence es)"
    "occurrence ` set es \<inter> o_occurrence ` set found = {}"
  shows "moved_inv series exs (foldl (visit_moved series) found es)"
  using assms
proof (induction es arbitrary: found)
  case (Cons e es)
  have e: "e \<in> set exs" "occurrence e \<notin> o_occurrence ` set found" "set es \<subseteq> set exs"
      "distinct (map occurrence es)" "occurrence e \<notin> occurrence ` set es"
      "occurrence ` set es \<inter> o_occurrence ` set found = {}"
    using Cons.prems(2,4,5) by simp_all
  have inv: "moved_inv series exs (visit_moved series found e)"
    by (rule visit_moved_inv [OF Cons.prems(1) e(1) Cons.prems(3) e(2)])
  have "occurrence ` set es \<inter> o_occurrence ` set (visit_moved series found e) = {}"
    by (rule disjoint_grown [OF e(6,5) visit_moved_occurrences])
  then have "moved_inv series exs (foldl (visit_moved series) (visit_moved series found e) es)"
    by (rule Cons.IH [OF inv e(3) Cons.prems(3) e(4)])
  then show ?case by simp
next
  case Nil
  then show ?case by simp
qed

lemma occurrencesWithin_series:
  fixes J :: "'j json_lib"
  assumes "w_rule series = Some s" "parseRecurrenceRule s = Some rule" "w_from series \<le> w_to series"
  defines "exs \<equiv> parseOccurrenceExceptions J (w_exceptions series)"
  obtains found where "occurrencesWithin J z series = sort_key o_startsAt found" "moved_inv series exs found"
proof -
  have d: "distinct (map occurrence exs)"
    using parse_wf [of J] by (simp add: exs_def wf_exceptions_def)
  let ?ats = "startsWithin z rule series"
  have ats: "distinct ?ats" using startsWithin_increasing [of z rule series] by (simp add: strict_sorted_iff)
  obtain found rest where st: "foldl (visit_start series) ([], exs) ?ats = (found, rest)"
    by fastforce
  have "window_inv series exs (set ?ats) (found, rest)"
    using visit_starts_inv [of series exs "{}" "([], exs)" ?ats] d ats st by (simp add: window_inv_def)
  then have f: "\<forall>entry \<in> set found. entry_ok series exs entry \<and> o_occurrence entry \<in> set ?ats"
      "distinct (map o_occurrence found)" "rest = filter (\<lambda>e. occurrence e \<notin> set ?ats) exs"
    by (auto simp: window_inv_def)
  have "length found \<le> kMaxSeriesOccurrences"
    using visit_starts_length [of series "([], exs)" ?ats] startsWithin_length [of z rule series] st by simp
  then have "moved_inv series exs found" using f by (simp add: moved_inv_def)
  then have "moved_inv series exs (foldl (visit_moved series) found rest)"
    using f d by (intro visit_all_moved_inv) (auto simp: distinct_map_filter)
  moreover have "occurrencesWithin J z series = sort_key o_startsAt (foldl (visit_moved series) found rest)"
    using assms(1-3) st by (simp add: occurrencesWithin_def exs_def)
  ultimately show ?thesis using that by blast
qed

lemma sort_key_sorted: "sorted (map f (sort_key f xs))"
  by simp

lemma startsWithin_bounds:
  assumes "series_ok off off (offset_zone off) rule (w_startsAt series) (w_from series - 1)" "t \<in> set (startsWithin (offset_zone off) rule series)"
  shows "in_window t series"
proof -
  let ?z = "offset_zone off"
  obtain u where u: "w_from series \<le> u" "t \<in> set (starts_loop kMaxSeriesOccurrences ?z rule series (Some u))"
  proof (cases "w_startsAt series \<ge> w_from series")
    case True
    have "0 \<le> series_bound ?z rule (w_startsAt series) (w_from series - 1)"
      by (simp add: series_bound_def)
    then obtain u where "occurrenceAt ?z rule (w_startsAt series) 0 = Some u" "w_startsAt series \<le> u"
      using series_occurrence [OF assms(1), of 0] by auto
    then show ?thesis
      using assms(2) True that [of u] by (auto simp: startsWithin_def split: if_splits)
  next
    case False
    obtain u where "firstOccurrenceAfter ?z rule (w_startsAt series) (w_from series - 1) = Some u" "u > w_from series - 1"
      using firstOccurrenceAfter_host [OF assms(1)] by blast
    then show ?thesis
      using assms(2) False that [of u] by (auto simp: startsWithin_def split: if_splits)
  qed
  then show ?thesis using starts_loop_bounds [OF u(2)] by (simp add: in_window_def)
qed

lemma visit_start_window:
  assumes "\<forall>entry \<in> set (fst st). in_window (o_startsAt entry) series" "in_window at series"
  shows "\<forall>entry \<in> set (fst (visit_start series st at)). in_window (o_startsAt entry) series"
  using assms by (cases st) (auto simp: visit_start_def Let_def split: option.split)

lemma visit_starts_window:
  assumes "\<forall>entry \<in> set (fst st). in_window (o_startsAt entry) series" "\<forall>at \<in> set ats. in_window at series"
  shows "\<forall>entry \<in> set (fst (foldl (visit_start series) st ats)). in_window (o_startsAt entry) series"
  using assms
proof (induction ats arbitrary: st)
  case (Cons at ats)
  have "\<forall>entry \<in> set (fst (visit_start series st at)). in_window (o_startsAt entry) series"
    using Cons.prems by (intro visit_start_window) auto
  then show ?case using Cons.IH [of "visit_start series st at"] Cons.prems(2) by simp
qed simp

lemma visit_moved_window:
  assumes "\<forall>entry \<in> set found. in_window (o_startsAt entry) series"
  shows "\<forall>entry \<in> set (visit_moved series found e). in_window (o_startsAt entry) series"
  using assms by (auto simp: visit_moved_def shaped_def Let_def split: option.split)

lemma visit_all_moved_window:
  "\<forall>entry \<in> set found. in_window (o_startsAt entry) series \<Longrightarrow>
   \<forall>entry \<in> set (foldl (visit_moved series) found es). in_window (o_startsAt entry) series"
proof (induction es arbitrary: found)
  case (Cons e es)
  show ?case unfolding foldl_Cons by (rule Cons.IH [OF visit_moved_window [OF Cons.prems]])
qed simp

lemma occurrencesWithin_window:
  assumes "\<And>s rule t. w_rule series = Some s \<Longrightarrow> parseRecurrenceRule s = Some rule \<Longrightarrow>
      t \<in> set (startsWithin z rule series) \<Longrightarrow> in_window t series"
    "entry \<in> set (occurrencesWithin J z series)"
  shows "in_window (o_startsAt entry) series"
proof (cases "case w_rule series of None \<Rightarrow> None | Some s \<Rightarrow> parseRecurrenceRule s")
  case None
  then show ?thesis using assms(2) by (auto simp: occurrencesWithin_def split: if_splits)
next
  case (Some rule)
  then have starts: "\<forall>t \<in> set (startsWithin z rule series). in_window t series"
    using assms(1) by (auto split: option.splits)
  obtain found rest where st: "foldl (visit_start series) ([], parseOccurrenceExceptions J (w_exceptions series))
      (startsWithin z rule series) = (found, rest)"
    by fastforce
  have "\<forall>entry \<in> set found. in_window (o_startsAt entry) series"
    using visit_starts_window [of "([], parseOccurrenceExceptions J (w_exceptions series))" series
        "startsWithin z rule series"] starts st by simp
  then have "\<forall>entry \<in> set (foldl (visit_moved series) found rest). in_window (o_startsAt entry) series"
    by (rule visit_all_moved_window)
  then show ?thesis
    using assms(2) Some st by (auto simp: occurrencesWithin_def split: if_splits)
qed

lemma advance_firing_later:
  assumes "advance_firing J z row moment = Some fire"
  shows "f_at fire > scheduledAt row \<and> f_at fire > moment"
proof -
  let ?exs = "parseOccurrenceExceptions J (recurrenceExceptions row)"
  obtain rule a where f: "nextFiring z rule a (scheduledOccurrence ?exs (scheduledAt row))
      (max (scheduledAt row) moment) ?exs = Some fire"
    using assms by (auto simp: advance_firing_def Let_def split: option.splits)
  have "distinct (map occurrence ?exs)" using parse_wf [of J "recurrenceExceptions row"] by (simp add: wf_exceptions_def)
  from nextFiring_ok [OF f this] show ?thesis by (simp add: firing_ok_def)
qed

section \<open>Properties\<close>

text \<open>C26. A window of a series is bounded, ordered and honest: it has at most 512 entries, sorted by
  their start, at most one per occurrence; each is its occurrence as its exception shapes it,
  and no cancelled occurrence is in it.\<close>

theorem window_exact:
  assumes "w_rule series = Some s" "parseRecurrenceRule s = Some rule"
  shows "length (occurrencesWithin J z series) \<le> 512
    \<and> sorted (map o_startsAt (occurrencesWithin J z series))
    \<and> distinct (map o_occurrence (occurrencesWithin J z series))
    \<and> (\<forall>entry \<in> set (occurrencesWithin J z series).
         (case exceptionAt (parseOccurrenceExceptions J (w_exceptions series)) (o_occurrence entry) of
            None \<Rightarrow> entry = shaped series (o_occurrence entry) None
          | Some e \<Rightarrow> \<not> cancelled e \<and> entry = shaped series (o_occurrence entry) (Some e)))"
proof (cases "w_from series \<le> w_to series")
  case True
  obtain found where f: "occurrencesWithin J z series = sort_key o_startsAt found"
      "moved_inv series (parseOccurrenceExceptions J (w_exceptions series)) found"
    using occurrencesWithin_series [OF assms True] .
  have "distinct (map o_occurrence (sort_key o_startsAt found)) = distinct (map o_occurrence found)"
    by (metis mset_map mset_sort mset_eq_imp_distinct_iff)
  then show ?thesis
    unfolding f(1) using f(2)
    by (auto simp: moved_inv_def kMaxSeriesOccurrences_def entry_ok_def split: option.split)
next
  case False
  then show ?thesis by (simp add: occurrencesWithin_def)
qed

theorem window_exact_witness:
  "length (occurrencesWithin plain_lib (offset_zone 0)
     \<lparr>w_rule = Some (rule_text \<lparr>frequency = Daily, interval = 1, monthDay = None\<rparr>), w_startsAt = 43200,
      w_endsAt = None, w_exceptions = [], w_from = 0, w_to = 10 ^ 9\<rparr>) \<le> 512"
  using window_exact [of "\<lparr>w_rule = Some (rule_text \<lparr>frequency = Daily, interval = 1, monthDay = None\<rparr>), w_startsAt = 43200,
      w_endsAt = None, w_exceptions = [], w_from = 0, w_to = 10 ^ 9\<rparr>" _ _ plain_lib "offset_zone 0"]
    parse_rule_text [of "\<lparr>frequency = Daily, interval = 1, monthDay = None\<rparr>"]
  by (simp add: valid_rule_def)

text \<open>Everything a window lists starts inside it, for a series and a window within 30,000 years of
  1970 in a zone of a fixed offset: moved occurrences at their new time, the others at their own.\<close>

theorem window_inside:
  assumes "\<bar>off\<bar> \<le> 86400" "0 \<le> w_startsAt series" "w_startsAt series \<le> 10 ^ 12" "\<bar>w_from series - 1\<bar> \<le> 10 ^ 12"
  shows "\<forall>entry \<in> set (occurrencesWithin J (offset_zone off) series).
    w_from series \<le> o_startsAt entry \<and> o_startsAt entry \<le> w_to series"
proof
  fix entry
  assume entry: "entry \<in> set (occurrencesWithin J (offset_zone off) series)"
  have "in_window t series" if "parseRecurrenceRule s = Some rule" "t \<in> set (startsWithin (offset_zone off) rule series)"
    for s rule t
  proof (rule startsWithin_bounds [OF _ that(2)])
    show "series_ok off off (offset_zone off) rule (w_startsAt series) (w_from series - 1)"
      using assms parse_rule_valid [OF that(1)] offset_zone_host by (simp add: series_ok_def)
  qed
  then have "in_window (o_startsAt entry) series"
    using occurrencesWithin_window [OF _ entry] by blast
  then show "w_from series \<le> o_startsAt entry \<and> o_startsAt entry \<le> w_to series"
    by (simp add: in_window_def)
qed

theorem window_inside_witness:
  "list_all (\<lambda>entry. 0 \<le> o_startsAt entry \<and> o_startsAt entry \<le> 10 ^ 9)
     (occurrencesWithin plain_lib (offset_zone 3600)
      \<lparr>w_rule = Some ''FREQ=WEEKLY'', w_startsAt = 86400, w_endsAt = None, w_exceptions = [], w_from = 0, w_to = 10 ^ 9\<rparr>)"
  using window_inside [of 3600 "\<lparr>w_rule = Some ''FREQ=WEEKLY'', w_startsAt = 86400, w_endsAt = None,
      w_exceptions = [], w_from = 0, w_to = 10 ^ 9\<rparr>" plain_lib] by (simp add: list_all_iff)

text \<open>Advancing a reminder moves it forward: when it returns a time, the reminder was found and
  owned, the time is later than its schedule and than the moment, exactly that time is written
  with the exceptions from the new occurrence on, and the change is audited once if there is a
  sink. When the row has no series or nothing fires, the repository is left alone.\<close>

theorem advance_forward:
  assumes "advance J z repo sink db i user moment = (db', audits, result)"
  shows "(case result of
       Some t \<Rightarrow> \<exists>row fire. findOwned repo db i user = Some row \<and> f_at fire = t \<and> scheduledAt row < t \<and> moment < t
         \<and> db' = fst (update_row repo db (advance_update J i user row fire))
         \<and> u_scheduledAt (advance_update J i user row fire) = Some t
         \<and> length audits = (if sink then 1 else 0)
     | None \<Rightarrow> audits = [])
    \<and> ((\<forall>row. findOwned repo db i user = Some row \<longrightarrow> recurrenceRule row = None) \<longrightarrow> db' = db \<and> result = None)"
proof (cases "findOwned repo db i user")
  case None
  then show ?thesis using assms by (auto simp: advance_def)
next
  case (Some row)
  show ?thesis
  proof (cases "advance_firing J z row moment")
    case None
    then show ?thesis using assms Some by (auto simp: advance_def)
  next
    case fire: (Some fire)
    have rule: "recurrenceRule row \<noteq> None" using fire by (auto simp: advance_firing_def split: option.splits)
    obtain db1 row' where u: "update_row repo db (advance_update J i user row fire) = (db1, row')"
      by fastforce
    have "u_scheduledAt (advance_update J i user row fire) = Some (f_at fire)"
      by (simp add: advance_update_def Let_def)
    note w = this
    have adv: "advance J z repo sink db i user moment
        = (if r_id row' = 0 then (db1, [], None)
           else (db1, if sink then [\<lparr>before = row, after_row = row'\<rparr>] else [], Some (f_at fire)))"
      using Some fire u by (simp add: advance_def)
    show ?thesis
    proof (cases "r_id row' = 0")
      case True
      then show ?thesis using assms Some rule adv by auto
    next
      case False
      then have "db' = db1" "audits = (if sink then [\<lparr>before = row, after_row = row'\<rparr>] else [])" "result = Some (f_at fire)"
        using assms adv by auto
      then show ?thesis
        using Some rule u w advance_firing_later [OF fire] by auto
    qed
  qed
qed

definition example_reminder :: reminder where
  "example_reminder = \<lparr>r_id = 7, r_targetUserId = 3, scheduledAt = 43200, recurrenceRule = Some ''FREQ=DAILY'',
     recurrenceAnchor = None, recurrenceExceptions = []\<rparr>"

definition example_repository :: "reminder reminder_repository" where
  "example_repository =
     \<lparr>findOwned = \<lambda>db i user. if r_id db = i \<and> r_targetUserId db = user then Some db else None,
      update_row = \<lambda>db u. (let row = db\<lparr>scheduledAt := (case u_scheduledAt u of None \<Rightarrow> scheduledAt db | Some t \<Rightarrow> t)\<rparr> in (row, row))\<rparr>"

theorem advance_forward_witness:
  "\<exists>db' audits result. advance plain_lib (offset_zone 0) example_repository True example_reminder 7 3 50000 = (db', audits, result)
    \<and> (case result of
         Some t \<Rightarrow> \<exists>row fire. findOwned example_repository example_reminder 7 3 = Some row \<and> f_at fire = t
           \<and> scheduledAt row < t \<and> 50000 < t
           \<and> db' = fst (update_row example_repository example_reminder (advance_update plain_lib 7 3 row fire))
           \<and> u_scheduledAt (advance_update plain_lib 7 3 row fire) = Some t
           \<and> length audits = (if True then 1 else 0)
       | None \<Rightarrow> audits = [])"
proof -
  obtain db' audits result where a: "advance plain_lib (offset_zone 0) example_repository True example_reminder 7 3 50000 = (db', audits, result)"
    by (cases "advance plain_lib (offset_zone 0) example_repository True example_reminder 7 3 50000") auto
  show ?thesis using advance_forward [OF a] a by blast
qed

end
