(* ===== verification/Guard_Vocabulary.thy ===== *)
theory Guard_Vocabulary
  imports Prelude
begin

text \<open>
  The enumerations the guard's decisions are made of, with their names on the wire:
  \<open>guard-danger.hxx\<close>, \<open>guard-mode.hxx\<close>, \<open>guard-reason.hxx\<close>, \<open>guard-action-kind.hxx\<close>,
  \<open>quiet-policy.hxx\<close>, \<open>belief-gate-scope.hxx\<close> and \<open>camera/identity-state.hxx\<close>. The order of
  the danger levels, which the code compares with \<open><\<close> and \<open>std::max\<close>, is an instance of
  \<open>linorder\<close>.
\<close>

section \<open>Danger\<close>

datatype guard_danger = NoDanger | Low | Medium | High | Critical

fun guardDangerRank :: "guard_danger \<Rightarrow> int" where
  "guardDangerRank NoDanger = 0"
| "guardDangerRank Low = 1"
| "guardDangerRank Medium = 2"
| "guardDangerRank High = 3"
| "guardDangerRank Critical = 4"

definition guardDangerFromRank :: "int \<Rightarrow> guard_danger" where
  "guardDangerFromRank rank =
     (if rank \<le> 0 then NoDanger
      else if rank \<ge> guardDangerRank Critical then Critical
      else if rank = 1 then Low else if rank = 2 then Medium else High)"

fun guardDangerToString :: "guard_danger \<Rightarrow> string" where
  "guardDangerToString NoDanger = ''none''"
| "guardDangerToString Low = ''low''"
| "guardDangerToString Medium = ''medium''"
| "guardDangerToString High = ''high''"
| "guardDangerToString Critical = ''critical''"

definition guardDangerFromString :: "string \<Rightarrow> guard_danger" where
  "guardDangerFromString value =
     (if value = ''low'' then Low else if value = ''medium'' then Medium
      else if value = ''high'' then High else if value = ''critical'' then Critical else NoDanger)"

lemma guardDangerRank_inj: "guardDangerRank a = guardDangerRank b \<longleftrightarrow> a = b"
  by (cases a; cases b) auto

instantiation guard_danger :: linorder
begin

definition less_eq_guard_danger :: "guard_danger \<Rightarrow> guard_danger \<Rightarrow> bool" where
  "less_eq_guard_danger a b \<longleftrightarrow> guardDangerRank a \<le> guardDangerRank b"

definition less_guard_danger :: "guard_danger \<Rightarrow> guard_danger \<Rightarrow> bool" where
  "less_guard_danger a b \<longleftrightarrow> guardDangerRank a < guardDangerRank b"

instance
  by standard (auto simp: less_eq_guard_danger_def less_guard_danger_def guardDangerRank_inj)

end

lemmas danger_order = less_eq_guard_danger_def less_guard_danger_def

lemma danger_le_simps [simp]:
  "NoDanger \<le> d" "d \<le> Critical" "(Critical \<le> d) = (d = Critical)" "(d \<le> NoDanger) = (d = NoDanger)"
  by (cases d; simp add: danger_order)+

section \<open>Modes, identities, scopes and policies\<close>

datatype guard_mode = Home | Away | Night | Armed

fun guardModeToString :: "guard_mode \<Rightarrow> string" where
  "guardModeToString Home = ''home''"
| "guardModeToString Away = ''away''"
| "guardModeToString Night = ''night''"
| "guardModeToString Armed = ''armed''"

definition guardModeFromString :: "string \<Rightarrow> guard_mode" where
  "guardModeFromString value =
     (if value = ''away'' then Away else if value = ''night'' then Night
      else if value = ''armed'' then Armed else Home)"

datatype identity_state = Known | Unrecognized | Unobservable

fun identityStateToString :: "identity_state \<Rightarrow> string" where
  "identityStateToString Known = ''known''"
| "identityStateToString Unrecognized = ''unrecognized''"
| "identityStateToString Unobservable = ''unobservable''"

definition identityStateFromString :: "string \<Rightarrow> identity_state" where
  "identityStateFromString s =
     (if s = ''known'' then Known else if s = ''unobservable'' then Unobservable else Unrecognized)"

datatype belief_gate_scope = ScopeNotify | ScopeCommunication | ScopeAll

definition beliefGateScopeFromString :: "string \<Rightarrow> belief_gate_scope option" where
  "beliefGateScopeFromString value =
     (if value = ''notify'' then Some ScopeNotify
      else if value = ''communication'' then Some ScopeCommunication
      else if value = ''all'' then Some ScopeAll else None)"

fun beliefGateScopeToString :: "belief_gate_scope \<Rightarrow> string" where
  "beliefGateScopeToString ScopeNotify = ''notify''"
| "beliefGateScopeToString ScopeCommunication = ''communication''"
| "beliefGateScopeToString ScopeAll = ''all''"

datatype quiet_policy = QuietInherit | QuietCustom | QuietOff

fun quietPolicyToString :: "quiet_policy \<Rightarrow> string" where
  "quietPolicyToString QuietInherit = ''inherit''"
| "quietPolicyToString QuietCustom = ''custom''"
| "quietPolicyToString QuietOff = ''off''"

definition quietPolicyFromString :: "string \<Rightarrow> quiet_policy option" where
  "quietPolicyFromString value =
     (if value = ''inherit'' then Some QuietInherit
      else if value = ''custom'' then Some QuietCustom
      else if value = ''off'' then Some QuietOff else None)"

section \<open>Actions\<close>

datatype guard_action_kind =
  Greet | Listen | Reply | Announce | Alarm | SirenArm | SirenDisarm | Notify

fun guardActionKindToString :: "guard_action_kind \<Rightarrow> string" where
  "guardActionKindToString Greet = ''greet''"
| "guardActionKindToString Listen = ''greet_listen''"
| "guardActionKindToString Reply = ''greet_reply''"
| "guardActionKindToString Announce = ''announce''"
| "guardActionKindToString Alarm = ''alarm''"
| "guardActionKindToString SirenArm = ''siren_arm''"
| "guardActionKindToString SirenDisarm = ''siren_disarm''"
| "guardActionKindToString Notify = ''notify''"

definition kActionMap :: "(string \<times> guard_action_kind) list" where
  "kActionMap =
     [(''greet'', Greet), (''greet_listen'', Listen), (''greet_reply'', Reply),
      (''announce'', Announce), (''alarm'', Alarm), (''siren_arm'', SirenArm),
      (''siren_disarm'', SirenDisarm), (''notify'', Notify)]"

definition guardActionKindFromString :: "string \<Rightarrow> guard_action_kind" where
  "guardActionKindFromString value =
     (case map_of kActionMap value of None \<Rightarrow> Notify | Some kind \<Rightarrow> kind)"

section \<open>Reasons\<close>

datatype guard_reason =
  RWeapon | RAfterHours | RNobodyHome | RArmed | RNight | RAlertZone | RSeveralStrangers
  | RRepeatVisits | REscalating | RLingering | RFaceHidden | RExpectedGuest | RWithResident
  | RWithGuest | RPublicHours | RStaffHours | RAreaInUse | RPasserby | RBrief | RWatchlist

definition kGuardReasonNames :: "(guard_reason \<times> string) list" where
  "kGuardReasonNames =
     [(RWeapon, ''weapon''), (RAfterHours, ''after_hours''), (RNobodyHome, ''nobody_home''),
      (RArmed, ''armed''), (RNight, ''night''), (RAlertZone, ''alert_zone''),
      (RSeveralStrangers, ''several_strangers''), (RRepeatVisits, ''repeat_visits''),
      (REscalating, ''escalating''), (RLingering, ''lingering''), (RFaceHidden, ''face_hidden''),
      (RExpectedGuest, ''expected_guest''), (RWithResident, ''with_resident''),
      (RWithGuest, ''with_guest''), (RPublicHours, ''public_hours''),
      (RStaffHours, ''staff_hours''), (RAreaInUse, ''area_in_use''), (RPasserby, ''passerby''),
      (RBrief, ''brief''), (RWatchlist, ''watchlist'')]"

definition guardReasonToString :: "guard_reason \<Rightarrow> string" where
  "guardReasonToString reason =
     (case map_of kGuardReasonNames reason of None \<Rightarrow> ''brief'' | Some name \<Rightarrow> name)"

fun guardReasonFromNames :: "(guard_reason \<times> string) list \<Rightarrow> string \<Rightarrow> guard_reason option" where
  "guardReasonFromNames [] value = None"
| "guardReasonFromNames ((reason, name) # rest) value =
     (if name = value then Some reason else guardReasonFromNames rest value)"

definition guardReasonFromString :: "string \<Rightarrow> guard_reason option" where
  "guardReasonFromString value = guardReasonFromNames kGuardReasonNames value"

text \<open>The underlying number of a reason is its position in the enumeration.\<close>

fun guard_reason_code :: "guard_reason \<Rightarrow> nat" where
  "guard_reason_code RWeapon = 0"
| "guard_reason_code RAfterHours = 1"
| "guard_reason_code RNobodyHome = 2"
| "guard_reason_code RArmed = 3"
| "guard_reason_code RNight = 4"
| "guard_reason_code RAlertZone = 5"
| "guard_reason_code RSeveralStrangers = 6"
| "guard_reason_code RRepeatVisits = 7"
| "guard_reason_code REscalating = 8"
| "guard_reason_code RLingering = 9"
| "guard_reason_code RFaceHidden = 10"
| "guard_reason_code RExpectedGuest = 11"
| "guard_reason_code RWithResident = 12"
| "guard_reason_code RWithGuest = 13"
| "guard_reason_code RPublicHours = 14"
| "guard_reason_code RStaffHours = 15"
| "guard_reason_code RAreaInUse = 16"
| "guard_reason_code RPasserby = 17"
| "guard_reason_code RBrief = 18"
| "guard_reason_code RWatchlist = 19"

definition guardReasonRaises :: "guard_reason \<Rightarrow> bool" where
  "guardReasonRaises reason \<longleftrightarrow>
     reason = RWatchlist \<or> guard_reason_code reason \<le> guard_reason_code RFaceHidden"

section \<open>The contract of a named enumeration\<close>

text \<open>
  Every enumeration above has a printer and a reader; what their users rely on is that the
  reader undoes the printer, which makes the names unambiguous.
\<close>

locale named_enum =
  fixes to_name :: "'a \<Rightarrow> string" and of_name :: "string \<Rightarrow> 'a option"
  assumes of_to: "of_name (to_name x) = Some x"
begin

lemma to_name_inj: "to_name x = to_name y \<longleftrightarrow> x = y"
  by (metis of_to option.inject)

lemma of_name_canonical: "of_name s = Some x \<Longrightarrow> s \<in> range to_name \<Longrightarrow> s = to_name x"
  using of_to by fastforce

end

interpretation danger_names: named_enum guardDangerToString "\<lambda>s. Some (guardDangerFromString s)"
proof
  fix x show "Some (guardDangerFromString (guardDangerToString x)) = Some x"
    by (cases x) (simp_all add: guardDangerFromString_def)
qed

interpretation mode_names: named_enum guardModeToString "\<lambda>s. Some (guardModeFromString s)"
proof
  fix x show "Some (guardModeFromString (guardModeToString x)) = Some x"
    by (cases x) (simp_all add: guardModeFromString_def)
qed

interpretation identity_names: named_enum identityStateToString "\<lambda>s. Some (identityStateFromString s)"
proof
  fix x show "Some (identityStateFromString (identityStateToString x)) = Some x"
    by (cases x) (simp_all add: identityStateFromString_def)
qed

interpretation scope_names: named_enum beliefGateScopeToString beliefGateScopeFromString
proof
  fix x show "beliefGateScopeFromString (beliefGateScopeToString x) = Some x"
    by (cases x) (simp_all add: beliefGateScopeFromString_def)
qed

interpretation quiet_names: named_enum quietPolicyToString quietPolicyFromString
proof
  fix x show "quietPolicyFromString (quietPolicyToString x) = Some x"
    by (cases x) (simp_all add: quietPolicyFromString_def)
qed

interpretation action_names: named_enum guardActionKindToString "\<lambda>s. Some (guardActionKindFromString s)"
proof
  fix x show "Some (guardActionKindFromString (guardActionKindToString x)) = Some x"
    by (cases x) (simp_all add: guardActionKindFromString_def kActionMap_def)
qed

interpretation reason_names: named_enum guardReasonToString guardReasonFromString
proof
  fix x show "guardReasonFromString (guardReasonToString x) = Some x"
    by (cases x) (simp_all add: guardReasonFromString_def guardReasonToString_def kGuardReasonNames_def)
qed

section \<open>Properties\<close>

text \<open>
  The names the guard writes for dangers, modes, identities, gate scopes, quiet policies,
  actions and reasons read back as the value they were written for, so no two values of an
  enumeration share a name.
\<close>

theorem guard_names_roundtrip:
  "guardDangerFromString (guardDangerToString d) = d
   \<and> guardModeFromString (guardModeToString m) = m
   \<and> identityStateFromString (identityStateToString i) = i
   \<and> beliefGateScopeFromString (beliefGateScopeToString g) = Some g
   \<and> quietPolicyFromString (quietPolicyToString q) = Some q
   \<and> guardActionKindFromString (guardActionKindToString k) = k
   \<and> guardReasonFromString (guardReasonToString r) = Some r
   \<and> guardDangerFromRank (guardDangerRank d) = d"
  using danger_names.of_to [of d] mode_names.of_to [of m] identity_names.of_to [of i]
    scope_names.of_to quiet_names.of_to action_names.of_to [of k] reason_names.of_to
  by (cases d) (simp_all add: guardDangerFromRank_def)

end
