(* ===== verification/Guard_Belief.thy ===== *)
theory Guard_Belief
  imports Guard_Vocabulary Complex_Main
begin

text \<open>
  The belief score of \<open>guard-belief.cc\<close>: how much the signals of a track support that somebody
  is really there, the threshold a verdict has to reach, and which actions a low belief holds
  back. A \<open>double\<close> is a \<open>real\<close>; the rounding of the one product of the code is the argument
  \<open>fl\<close>, and the conversion to \<open>int64_t\<close> truncates. Scores add at most six weights and stay far
  from the bounds of \<open>int\<close>.
\<close>

datatype belief_signal =
  DetectorStrong | DetectorWeak | PersistenceMet | PersistenceShort | TrackStable | TrackJitter
  | IdentityUnrecognized | IdentityUnobservable | IdentityUnavailable | IdentityKnown
  | CameraHealthDegraded

fun beliefSignalToString :: "belief_signal \<Rightarrow> string" where
  "beliefSignalToString DetectorStrong = ''detector_strong''"
| "beliefSignalToString DetectorWeak = ''detector_weak''"
| "beliefSignalToString PersistenceMet = ''persistence_met''"
| "beliefSignalToString PersistenceShort = ''persistence_short''"
| "beliefSignalToString TrackStable = ''track_stable''"
| "beliefSignalToString TrackJitter = ''track_jitter''"
| "beliefSignalToString IdentityUnrecognized = ''identity_unrecognized''"
| "beliefSignalToString IdentityUnobservable = ''identity_unobservable''"
| "beliefSignalToString IdentityUnavailable = ''identity_unavailable''"
| "beliefSignalToString IdentityKnown = ''identity_known''"
| "beliefSignalToString CameraHealthDegraded = ''camera_health_degraded''"

definition beliefSignalPhrase :: "string \<Rightarrow> string" where
  "beliefSignalPhrase signal =
     (if signal = ''detector_strong'' then ''strong detection''
      else if signal = ''detector_weak'' then ''weak detection''
      else if signal = ''persistence_met'' then ''lingering''
      else if signal = ''persistence_short'' then ''brief presence''
      else if signal = ''track_stable'' then ''steady track''
      else if signal = ''track_jitter'' then ''unstable track''
      else if signal = ''camera_health_degraded'' then ''poor visibility''
      else if signal = ''identity_unrecognized'' then ''unrecognized person''
      else if signal = ''identity_unobservable'' then ''unidentified person''
      else if signal = ''identity_known'' then ''known person''
      else [])"

record belief_config =
  weightDetectorStrong :: int
  weightDetectorWeak :: int
  weightPersistenceMet :: int
  weightPersistenceShort :: int
  weightTrackStable :: int
  weightTrackJitter :: int
  weightIdentityUnrecognized :: int
  weightIdentityUnobservable :: int
  weightIdentityUnavailable :: int
  weightIdentityKnown :: int
  weightCameraHealthDegraded :: int
  detectorStrong :: real
  detectorWeak :: real
  minScoreSamples :: int
  persistenceWindows :: int
  persistenceDwellFraction :: real
  zoneDwellAlertMs :: int
  zoneDwellMonitorMs :: int
  trackStableAgeMs :: int
  trackJitterDwellMs :: int
  areaSpreadRatio :: real
  thresholdCritical :: int
  thresholdHigh :: int
  thresholdMedium :: int
  thresholdLow :: int

definition default_belief_config :: belief_config where
  "default_belief_config =
     \<lparr>weightDetectorStrong = 2, weightDetectorWeak = - 2, weightPersistenceMet = 2,
      weightPersistenceShort = - 2, weightTrackStable = 1, weightTrackJitter = - 2,
      weightIdentityUnrecognized = 2, weightIdentityUnobservable = - 2,
      weightIdentityUnavailable = 0, weightIdentityKnown = - 3, weightCameraHealthDegraded = - 2,
      detectorStrong = 3 / 4, detectorWeak = 35 / 100, minScoreSamples = 1, persistenceWindows = 2,
      persistenceDwellFraction = 1 / 2, zoneDwellAlertMs = 3000, zoneDwellMonitorMs = 12000,
      trackStableAgeMs = 4000, trackJitterDwellMs = 1500, areaSpreadRatio = 2,
      thresholdCritical = 1, thresholdHigh = 3, thresholdMedium = 5, thresholdLow = 7\<rparr>"

record belief_input =
  scoreMedian :: real
  scoreSamples :: int
  dwellMs :: int
  zoneWindows :: int
  trackWindows :: int
  zoneKind :: string
  trackAgeMs :: int
  areaSpread :: real
  identity :: identity_state
  identityAvailable :: bool
  healthDegraded :: bool
  config :: belief_config

record belief_result =
  score :: int
  signals :: "belief_signal list"

record gate_scope_input =
  scope :: belief_gate_scope
  gate_kind :: guard_action_kind
  gate_hardFloor :: bool

definition clamp :: "real \<Rightarrow> real \<Rightarrow> real \<Rightarrow> real" where
  "clamp x lo hi = (if x < lo then lo else if hi < x then hi else x)"

definition to_int64 :: "real \<Rightarrow> int" where
  "to_int64 x = (if x < 0 then \<lceil>x\<rceil> else \<lfloor>x\<rfloor>)"

definition apply_signal :: "bool \<Rightarrow> belief_signal \<Rightarrow> int \<Rightarrow> belief_result \<Rightarrow> belief_result" where
  "apply_signal applies signal weight result =
     (if applies then \<lparr>score = score result + weight, signals = signals result @ [signal]\<rparr>
      else result)"

text \<open>
  The signals in the order the code applies them. The conditions are the arguments: the branch
  of an \<open>else if\<close> carries the negation of the conditions before it.
\<close>

definition apply_signals ::
  "belief_config \<Rightarrow> bool \<Rightarrow> bool \<Rightarrow> bool \<Rightarrow> bool \<Rightarrow> bool \<Rightarrow> bool \<Rightarrow> belief_signal \<times> int \<Rightarrow> bool
     \<Rightarrow> belief_result" where
  "apply_signals cfg strong weak met short steady jitter who degraded =
     (let r0 = \<lparr>score = 0, signals = []\<rparr>;
          r1 = apply_signal strong DetectorStrong (weightDetectorStrong cfg) r0;
          r2 = apply_signal weak DetectorWeak (weightDetectorWeak cfg) r1;
          r3 = apply_signal met PersistenceMet (weightPersistenceMet cfg) r2;
          r4 = apply_signal short PersistenceShort (weightPersistenceShort cfg) r3;
          r5 = apply_signal steady TrackStable (weightTrackStable cfg) r4;
          r6 = apply_signal jitter TrackJitter (weightTrackJitter cfg) r5;
          r7 = apply_signal True (fst who) (snd who) r6
      in apply_signal degraded CameraHealthDegraded (weightCameraHealthDegraded cfg) r7)"

definition identity_branch :: "belief_input \<Rightarrow> belief_signal \<times> int" where
  "identity_branch input =
     (if \<not> identityAvailable input
      then (IdentityUnavailable, weightIdentityUnavailable (config input))
      else if identity input = Unrecognized
      then (IdentityUnrecognized, weightIdentityUnrecognized (config input))
      else if identity input = Unobservable
      then (IdentityUnobservable, weightIdentityUnobservable (config input))
      else (IdentityKnown, weightIdentityKnown (config input)))"

definition evaluateBelief :: "(real \<Rightarrow> real) \<Rightarrow> belief_input \<Rightarrow> belief_result" where
  "evaluateBelief fl input =
     (let cfg = config input;
          median = clamp (scoreMedian input) 0 1;
          samples = max 0 (scoreSamples input);
          dwell = max 0 (dwellMs input);
          zones = max 0 (zoneWindows input);
          tracks = max 0 (trackWindows input);
          age = max 0 (trackAgeMs input);
          spread = (if areaSpread input < 1 then 1 else areaSpread input);
          zoneThreshold = max 1 (if zoneKind input = ''alert'' then zoneDwellAlertMs cfg
                                 else zoneDwellMonitorMs cfg);
          strong = samples \<ge> minScoreSamples cfg \<and> median \<ge> detectorStrong cfg;
          weak = \<not> strong \<and> samples \<ge> minScoreSamples cfg \<and> median < detectorWeak cfg;
          met = zones \<ge> persistenceWindows cfg \<and> dwell \<ge> zoneThreshold;
          short = \<not> met \<and> dwell < to_int64 (fl (persistenceDwellFraction cfg * of_int zoneThreshold));
          steady = age \<ge> trackStableAgeMs cfg \<and> tracks \<ge> 2;
          jitter = tracks < 2 \<or> dwell < trackJitterDwellMs cfg \<or> spread > areaSpreadRatio cfg
      in apply_signals cfg strong weak met short steady jitter (identity_branch input)
           (healthDegraded input))"

text \<open>\<open>std::numeric_limits<int>::max()\<close>: no score reaches it.\<close>

definition int_max :: int where
  "int_max = 2147483647"

fun beliefThreshold :: "guard_danger \<Rightarrow> belief_config \<Rightarrow> int" where
  "beliefThreshold Critical cfg = thresholdCritical cfg"
| "beliefThreshold High cfg = thresholdHigh cfg"
| "beliefThreshold Medium cfg = thresholdMedium cfg"
| "beliefThreshold Low cfg = thresholdLow cfg"
| "beliefThreshold NoDanger cfg = int_max"

definition beliefSuppressesKind :: "gate_scope_input \<Rightarrow> bool" where
  "beliefSuppressesKind input =
     (case gate_kind input of
        Notify \<Rightarrow> True
      | Announce \<Rightarrow> scope input = ScopeCommunication \<or> scope input = ScopeAll
      | Alarm \<Rightarrow> scope input = ScopeAll \<and> \<not> gate_hardFloor input
      | SirenArm \<Rightarrow> scope input = ScopeAll \<and> \<not> gate_hardFloor input
      | _ \<Rightarrow> False)"

section \<open>Lemmas\<close>

fun signal_weight :: "belief_config \<Rightarrow> belief_signal \<Rightarrow> int" where
  "signal_weight cfg DetectorStrong = weightDetectorStrong cfg"
| "signal_weight cfg DetectorWeak = weightDetectorWeak cfg"
| "signal_weight cfg PersistenceMet = weightPersistenceMet cfg"
| "signal_weight cfg PersistenceShort = weightPersistenceShort cfg"
| "signal_weight cfg TrackStable = weightTrackStable cfg"
| "signal_weight cfg TrackJitter = weightTrackJitter cfg"
| "signal_weight cfg IdentityUnrecognized = weightIdentityUnrecognized cfg"
| "signal_weight cfg IdentityUnobservable = weightIdentityUnobservable cfg"
| "signal_weight cfg IdentityUnavailable = weightIdentityUnavailable cfg"
| "signal_weight cfg IdentityKnown = weightIdentityKnown cfg"
| "signal_weight cfg CameraHealthDegraded = weightCameraHealthDegraded cfg"

definition weighed :: "belief_config \<Rightarrow> belief_result \<Rightarrow> bool" where
  "weighed cfg r \<longleftrightarrow> score r = sum_list (map (signal_weight cfg) (signals r))"

lemma weighed_apply: "weighed cfg r \<Longrightarrow> weighed cfg (apply_signal b s (signal_weight cfg s) r)"
  by (simp add: weighed_def apply_signal_def)

lemma mem_signals_apply [simp]:
  "x \<in> set (signals (apply_signal b s w r)) \<longleftrightarrow> (b \<and> x = s) \<or> x \<in> set (signals r)"
  by (auto simp: apply_signal_def)

lemma distinct_apply [simp]:
  "s \<notin> set (signals r) \<Longrightarrow> distinct (signals (apply_signal b s w r)) = distinct (signals r)"
  by (simp add: apply_signal_def)

lemma score_apply [simp]: "score (apply_signal b s w r) = score r + (if b then w else 0)"
  by (simp add: apply_signal_def)

definition identity_signals :: "belief_signal set" where
  "identity_signals = {IdentityUnrecognized, IdentityUnobservable, IdentityUnavailable, IdentityKnown}"

lemma identity_branch_ok:
  "fst (identity_branch i) \<in> identity_signals
   \<and> snd (identity_branch i) = signal_weight (config i) (fst (identity_branch i))"
  by (simp add: identity_branch_def identity_signals_def)

text \<open>\<open>evaluateBelief\<close> applies exclusive signals; which ones is all that the lemmas below need.\<close>

lemma evaluateBelief_signals:
  obtains strong weak met short steady jitter where
    "evaluateBelief fl i = apply_signals (config i) strong weak met short steady jitter
       (identity_branch i) (healthDegraded i)" "\<not> (strong \<and> weak)" "\<not> (met \<and> short)"
  by (rule that [unfolded evaluateBelief_def Let_def], rule refl) blast+

lemma weighed_evaluateBelief: "weighed (config i) (evaluateBelief fl i)"
proof (rule evaluateBelief_signals [of fl i])
  fix strong weak met short steady jitter
  assume e: "evaluateBelief fl i = apply_signals (config i) strong weak met short steady jitter
     (identity_branch i) (healthDegraded i)"
  have "weighed (config i) \<lparr>score = 0, signals = []\<rparr>"
    by (simp add: weighed_def)
  then show ?thesis
    using identity_branch_ok [of i]
    unfolding e apply_signals_def Let_def signal_weight.simps [of "config i", symmetric]
    by (simp add: weighed_apply del: signal_weight.simps)
qed

text \<open>What the signals of a result may be together.\<close>

definition signals_ok :: "belief_signal list \<Rightarrow> bool" where
  "signals_ok ss \<longleftrightarrow> distinct ss
     \<and> \<not> (DetectorStrong \<in> set ss \<and> DetectorWeak \<in> set ss)
     \<and> \<not> (PersistenceMet \<in> set ss \<and> PersistenceShort \<in> set ss)
     \<and> (\<exists>!x. x \<in> set ss \<and> x \<in> identity_signals)"

lemma mem_apply_signals:
  "x \<in> set (signals (apply_signals cfg strong weak met short steady jitter who degraded)) \<longleftrightarrow>
      (degraded \<and> x = CameraHealthDegraded) \<or> x = fst who \<or> (jitter \<and> x = TrackJitter)
      \<or> (steady \<and> x = TrackStable) \<or> (short \<and> x = PersistenceShort) \<or> (met \<and> x = PersistenceMet)
      \<or> (weak \<and> x = DetectorWeak) \<or> (strong \<and> x = DetectorStrong)"
  by (simp add: apply_signals_def Let_def)

lemma distinct_apply_signals:
  assumes "fst who \<in> identity_signals"
  shows "distinct (signals (apply_signals cfg strong weak met short steady jitter who degraded))"
proof -
  obtain s w where "who = (s, w)" by (cases who)
  then show ?thesis
    using assms by (cases s) (simp_all add: apply_signals_def Let_def identity_signals_def)
qed

lemma signals_apply_signals:
  assumes "fst who \<in> identity_signals" "\<not> (strong \<and> weak)" "\<not> (met \<and> short)"
  shows "signals_ok (signals (apply_signals cfg strong weak met short steady jitter who degraded))"
proof -
  have who: "(DetectorStrong = fst who) = False" "(DetectorWeak = fst who) = False"
    "(PersistenceMet = fst who) = False" "(PersistenceShort = fst who) = False"
    using assms(1) by (auto simp: identity_signals_def)
  have "\<exists>!x. x \<in> set (signals (apply_signals cfg strong weak met short steady jitter who degraded)) \<and> x \<in> identity_signals"
    by (rule ex1I [of _ "fst who"]) (use assms(1) in \<open>auto simp: mem_apply_signals identity_signals_def\<close>)
  then show ?thesis
    using assms(2,3) distinct_apply_signals [OF assms(1)]
    by (simp add: signals_ok_def mem_apply_signals who)
qed

lemma signals_evaluateBelief: "signals_ok (signals (evaluateBelief fl i))"
  by (rule evaluateBelief_signals [of fl i])
     (use identity_branch_ok [of i] in \<open>simp add: signals_apply_signals\<close>)

lemma score_default:
  assumes "config i = default_belief_config"
  shows "- 11 \<le> score (evaluateBelief fl i) \<and> score (evaluateBelief fl i) \<le> 7"
proof (rule evaluateBelief_signals [of fl i])
  fix strong weak met short steady jitter
  assume e: "evaluateBelief fl i = apply_signals (config i) strong weak met short steady jitter
     (identity_branch i) (healthDegraded i)"
  have "- 3 \<le> snd (identity_branch i)" "snd (identity_branch i) \<le> 2"
    by (simp_all add: identity_branch_def assms default_belief_config_def)
  then show ?thesis
    unfolding e assms apply_signals_def Let_def by (simp add: default_belief_config_def)
qed

section \<open>Properties\<close>

text \<open>
  C39. The score is accounted for by the signals the result names: it is the sum of their
  weights, each is named once, a detector is not both strong and weak nor a presence both met
  and short, and exactly one signal speaks of the identity.
\<close>

theorem belief_score_accounted:
  "score (evaluateBelief fl i)
     = sum_list (map (signal_weight (config i)) (signals (evaluateBelief fl i)))
   \<and> signals_ok (signals (evaluateBelief fl i))"
  using weighed_evaluateBelief [of i fl] signals_evaluateBelief by (simp add: weighed_def)

text \<open>
  With the default weights a score lies between -11 and 7, the threshold falls as the
  danger grows, and a sighting without danger never reaches its threshold.
\<close>

theorem belief_default_bounds:
  assumes "config i = default_belief_config"
  shows "- 11 \<le> score (evaluateBelief fl i) \<and> score (evaluateBelief fl i) \<le> beliefThreshold Low (config i)
    \<and> (d \<le> e \<longrightarrow> beliefThreshold e (config i) \<le> beliefThreshold d (config i))
    \<and> score (evaluateBelief fl i) < beliefThreshold NoDanger (config i)"
proof -
  have "d \<le> e \<longrightarrow> beliefThreshold e (config i) \<le> beliefThreshold d (config i)"
    by (cases d; cases e) (simp_all add: assms default_belief_config_def danger_order int_max_def)
  then show ?thesis
    using score_default [OF assms, of fl]
    by (simp add: assms default_belief_config_def int_max_def)
qed

definition witness_input :: belief_input where
  "witness_input =
     \<lparr>scoreMedian = 9 / 10, scoreSamples = 4, dwellMs = 5000, zoneWindows = 3, trackWindows = 3,
      zoneKind = ''alert'', trackAgeMs = 6000, areaSpread = 1, identity = Unrecognized,
      identityAvailable = True, healthDegraded = False, config = default_belief_config\<rparr>"

theorem belief_default_bounds_witness:
  "- 11 \<le> score (evaluateBelief id witness_input)
   \<and> beliefThreshold Critical default_belief_config \<le> beliefThreshold Low default_belief_config"
  using belief_default_bounds [of witness_input id Low Critical]
  by (simp add: witness_input_def danger_order)

text \<open>
  A low belief never holds back the disarming of the siren nor the dialogue, never an
  alarm or the siren when the danger is a hard floor, and a wider gate scope holds back at
  least as much.
\<close>

theorem belief_gate_safe:
  "\<not> beliefSuppressesKind \<lparr>scope = s, gate_kind = SirenDisarm, gate_hardFloor = f\<rparr>
   \<and> \<not> beliefSuppressesKind \<lparr>scope = s, gate_kind = Alarm, gate_hardFloor = True\<rparr>
   \<and> \<not> beliefSuppressesKind \<lparr>scope = s, gate_kind = SirenArm, gate_hardFloor = True\<rparr>
   \<and> (beliefSuppressesKind \<lparr>scope = ScopeNotify, gate_kind = k, gate_hardFloor = f\<rparr>
        \<longrightarrow> beliefSuppressesKind \<lparr>scope = ScopeCommunication, gate_kind = k, gate_hardFloor = f\<rparr>)
   \<and> (beliefSuppressesKind \<lparr>scope = ScopeCommunication, gate_kind = k, gate_hardFloor = f\<rparr>
        \<longrightarrow> beliefSuppressesKind \<lparr>scope = ScopeAll, gate_kind = k, gate_hardFloor = f\<rparr>)"
  by (cases k) (simp_all add: beliefSuppressesKind_def)

theorem belief_gate_safe_witness:
  "beliefSuppressesKind \<lparr>scope = ScopeAll, gate_kind = Announce, gate_hardFloor = True\<rparr>"
  using belief_gate_safe [where k = Announce and f = True]
  by (simp add: beliefSuppressesKind_def)

end
