(* ===== verification/Guard_Events.thy ===== *)
theory Guard_Events
  imports Guard_Vocabulary Base64 Complex_Main "HOL-Library.Monad_Syntax"
begin

text \<open>
  Camera events and encounters, the second half of \<open>guard-policy.cc\<close>: reading the persons of an
  event, choosing its subject, comparing appearance signatures and matching a sighting with an
  open encounter. jsoncpp is a library: its accessors are the fields of \<open>json_api\<close>, which
  return \<open>None\<close> where the library throws. A \<open>double\<close> is a \<open>real\<close>; \<open>fl\<close> rounds a product or a
  quotient.
\<close>

section \<open>Signals\<close>

record 'j json_api =
  get_int64 :: "'j \<Rightarrow> string \<Rightarrow> int \<Rightarrow> int option"
  get_int :: "'j \<Rightarrow> string \<Rightarrow> int \<Rightarrow> int option"
  get_double :: "'j \<Rightarrow> string \<Rightarrow> real \<Rightarrow> real option"
  get_float :: "'j \<Rightarrow> string \<Rightarrow> real \<Rightarrow> real option"
  get_string :: "'j \<Rightarrow> string \<Rightarrow> string \<Rightarrow> string option"
  get_bool :: "'j \<Rightarrow> string \<Rightarrow> bool \<Rightarrow> bool option"
  is_member :: "'j \<Rightarrow> string \<Rightarrow> bool option"
  child :: "'j \<Rightarrow> string \<Rightarrow> 'j option"
  elements :: "'j \<Rightarrow> 'j list option"

record guard_person_signals =
  ps_trackId :: int
  ps_personId :: int
  ps_known :: bool
  ps_identityState :: identity_state
  ps_identityAvailable :: bool
  ps_identityConfidence :: real
  ps_identifyAttempts :: int
  ps_scoreMedian :: real
  ps_scoreSamples :: int
  ps_area :: real
  ps_zoneWindows :: int
  ps_trackWindows :: int
  ps_areaSpread :: real
  ps_zoneKind :: string
  ps_zoneName :: string
  ps_signature :: string
  ps_observationId :: string
  ps_firstSeenMs :: int
  ps_dwellMs :: int

record guard_event_signals =
  cameraId :: int
  cameraName :: string
  rule :: string
  severity :: string
  escalated :: bool
  night :: bool
  hasKnown :: bool
  hasUnknown :: bool
  unknownCount :: int
  knownCount :: int
  strangerCount :: int
  persons :: "guard_person_signals list"
  personId :: int
  knownPersonId :: int
  trackId :: int
  firstSeenMs :: int
  publishedAtMs :: int
  dwellMs :: int
  viewScore :: real
  identityConfidence :: real
  identityState :: identity_state
  identityAvailable :: bool
  identifyAttempts :: int
  scoreMedian :: real
  scoreSamples :: int
  zoneWindows :: int
  trackWindows :: int
  areaSpread :: real
  signature :: string
  observationId :: string
  zoneKind :: string
  zoneName :: string

definition default_signals :: guard_event_signals where
  "default_signals =
     \<lparr>cameraId = 0, cameraName = [], rule = [], severity = [], escalated = False, night = False,
      hasKnown = False, hasUnknown = False, unknownCount = 0, knownCount = 0, strangerCount = 0,
      persons = [], personId = 0, knownPersonId = 0, trackId = 0, firstSeenMs = 0,
      publishedAtMs = 0, dwellMs = 0, viewScore = 0, identityConfidence = 0,
      identityState = Unrecognized, identityAvailable = False, identifyAttempts = 0,
      scoreMedian = 0, scoreSamples = 0, zoneWindows = 0, trackWindows = 0, areaSpread = 1,
      signature = [], observationId = [], zoneKind = [], zoneName = []\<rparr>"

definition parsePerson :: "'j json_api \<Rightarrow> (real \<Rightarrow> real) \<Rightarrow> 'j \<Rightarrow> guard_person_signals option" where
  "parsePerson api fl object = do {
     track \<leftarrow> get_int64 api object ''trackId'' 0;
     person \<leftarrow> get_int64 api object ''personId'' 0;
     legacyIdentity \<leftarrow> get_string api object ''identity'' [];
     stateName \<leftarrow> get_string api object ''identityState'' [];
     let state = identityStateFromString stateName;
     let known = (legacyIdentity = ''known'' \<and> person > 0 \<and> (stateName = [] \<or> state = Known));
     available \<leftarrow> is_member api object ''identityState'';
     confidence \<leftarrow> get_float api object ''identityConfidence'' 0;
     attempts \<leftarrow> get_int api object ''identifyAttempts'' 0;
     median \<leftarrow> get_double api object ''scoreMedian'' 0;
     samples \<leftarrow> get_int api object ''scoreSamples'' 0;
     bbox \<leftarrow> child api object ''bbox'';
     w \<leftarrow> get_double api bbox ''w'' 0;
     h \<leftarrow> get_double api bbox ''h'' 0;
     zones \<leftarrow> get_int api object ''zoneWindows'' 0;
     tracks \<leftarrow> get_int api object ''trackWindows'' 0;
     spread \<leftarrow> get_double api object ''areaSpread'' 1;
     zkind \<leftarrow> get_string api object ''zoneKind'' [];
     zname \<leftarrow> get_string api object ''zoneName'' [];
     sig \<leftarrow> get_string api object ''signature'' [];
     observation \<leftarrow> get_string api object ''observationId'' [];
     firstSeen \<leftarrow> get_int64 api object ''firstSeenMs'' 0;
     dwell \<leftarrow> get_int64 api object ''dwellMs'' 0;
     Some \<lparr>ps_trackId = track, ps_personId = person, ps_known = known,
       ps_identityState = (if known then Known else state), ps_identityAvailable = available,
       ps_identityConfidence = confidence, ps_identifyAttempts = attempts,
       ps_scoreMedian = median, ps_scoreSamples = samples, ps_area = fl (w * h),
       ps_zoneWindows = zones, ps_trackWindows = tracks, ps_areaSpread = spread,
       ps_zoneKind = zkind, ps_zoneName = zname, ps_signature = sig,
       ps_observationId = observation, ps_firstSeenMs = firstSeen, ps_dwellMs = dwell\<rparr>
   }"

definition adoptSubject :: "guard_event_signals \<Rightarrow> guard_person_signals \<Rightarrow> guard_event_signals" where
  "adoptSubject signals person =
     signals\<lparr>personId := ps_personId person, trackId := ps_trackId person,
       identityState := ps_identityState person, identityAvailable := ps_identityAvailable person,
       identityConfidence := ps_identityConfidence person,
       identifyAttempts := ps_identifyAttempts person, scoreMedian := ps_scoreMedian person,
       scoreSamples := ps_scoreSamples person, zoneWindows := ps_zoneWindows person,
       trackWindows := ps_trackWindows person, areaSpread := ps_areaSpread person,
       zoneKind := ps_zoneKind person, zoneName := ps_zoneName person,
       observationId := ps_observationId person, firstSeenMs := ps_firstSeenMs person,
       dwellMs := ps_dwellMs person,
       signature := if ps_signature person \<noteq> [] then ps_signature person else signature signals\<rparr>"

text \<open>The loop that reads the objects, which throws when one of them does.\<close>

fun read_persons :: "'j json_api \<Rightarrow> (real \<Rightarrow> real) \<Rightarrow> 'j list \<Rightarrow> guard_person_signals list option" where
  "read_persons api fl [] = Some []"
| "read_persons api fl (object # objects) = do {
     cls \<leftarrow> get_string api object ''class'' [];
     if cls \<noteq> ''person'' then read_persons api fl objects
     else do {
       person \<leftarrow> parsePerson api fl object;
       rest \<leftarrow> read_persons api fl objects;
       Some (person # rest)
     }
   }"

definition is_stranger :: "guard_person_signals \<Rightarrow> bool" where
  "is_stranger person \<longleftrightarrow> \<not> ps_known person \<and> ps_identityAvailable person
     \<and> ps_identityState person = Unrecognized"

definition count_person :: "guard_event_signals \<Rightarrow> guard_person_signals \<Rightarrow> guard_event_signals" where
  "count_person signals person =
     (let s1 = (if ps_known person then signals\<lparr>knownCount := knownCount signals + 1\<rparr>
                else signals\<lparr>unknownCount := unknownCount signals + 1\<rparr>);
          s2 = (if is_stranger person then s1\<lparr>strangerCount := strangerCount s1 + 1\<rparr> else s1)
      in s2\<lparr>viewScore := max (viewScore s2) (ps_area person)\<rparr>)"

text \<open>The pointers of the second loop; \<open>None\<close> is \<open>nullptr\<close>.\<close>

record subject_candidates =
  primaryUnknown :: "guard_person_signals option"
  firstUnknown :: "guard_person_signals option"
  primaryPerson :: "guard_person_signals option"
  largest :: "guard_person_signals option"

definition consider_subject ::
  "int \<Rightarrow> subject_candidates \<Rightarrow> guard_person_signals \<Rightarrow> subject_candidates" where
  "consider_subject primaryTrackId c person =
     \<lparr>primaryUnknown =
        (if \<not> ps_known person \<and> primaryTrackId > 0 \<and> ps_trackId person = primaryTrackId
            \<and> primaryUnknown c = None
         then Some person else primaryUnknown c),
      firstUnknown =
        (if \<not> ps_known person \<and> firstUnknown c = None then Some person else firstUnknown c),
      primaryPerson =
        (if primaryTrackId > 0 \<and> ps_trackId person = primaryTrackId \<and> primaryPerson c = None
         then Some person else primaryPerson c),
      largest =
        (case largest c of
           None \<Rightarrow> Some person
         | Some big \<Rightarrow> if ps_area person > ps_area big then Some person else largest c)\<rparr>"

definition choose_subject :: "int \<Rightarrow> guard_person_signals list \<Rightarrow> guard_person_signals option" where
  "choose_subject primaryTrackId ps =
     (let c = foldl (consider_subject primaryTrackId)
            \<lparr>primaryUnknown = None, firstUnknown = None, primaryPerson = None, largest = None\<rparr> ps
      in case primaryUnknown c of Some p \<Rightarrow> Some p
         | None \<Rightarrow> (case firstUnknown c of Some p \<Rightarrow> Some p
           | None \<Rightarrow> (case primaryPerson c of Some p \<Rightarrow> Some p | None \<Rightarrow> largest c)))"

definition adopt_known :: "guard_event_signals \<Rightarrow> guard_event_signals" where
  "adopt_known signals =
     (if knownPersonId signals = 0 then
        (case List.find ps_known (persons signals) of
           None \<Rightarrow> signals
         | Some person \<Rightarrow> signals\<lparr>knownPersonId := ps_personId person\<rparr>)
      else signals)"

definition subject_signals :: "int \<Rightarrow> guard_event_signals \<Rightarrow> guard_event_signals" where
  "subject_signals primaryTrackId signals =
     (case choose_subject primaryTrackId (persons signals) of
        None \<Rightarrow> signals
      | Some subject \<Rightarrow>
          (let s = adoptSubject signals subject
           in if ps_known subject then s\<lparr>knownPersonId := ps_personId subject\<rparr> else s))"

definition event_signals :: "guard_event_signals \<Rightarrow> int \<Rightarrow> guard_event_signals" where
  "event_signals s0 primaryTrackId =
     (let s1 = foldl count_person s0 (persons s0);
          s2 = s1\<lparr>hasKnown := knownCount s1 > 0, hasUnknown := unknownCount s1 > 0\<rparr>;
          s3 = adopt_known (subject_signals primaryTrackId s2)
      in if trackId s3 = 0 then s3\<lparr>trackId := primaryTrackId\<rparr> else s3)"

text \<open>The fields that fall back on the event's own: dwell, publication, capture and night.\<close>

definition fill_from_event :: "'j json_api \<Rightarrow> 'j \<Rightarrow> guard_event_signals \<Rightarrow> guard_event_signals option" where
  "fill_from_event api event s4 = do {
     dwell \<leftarrow> (if dwellMs s4 = 0 then get_int64 api event ''dwellMs'' 0 else Some (dwellMs s4));
     published \<leftarrow> get_int64 api event ''publishedAt'' 0;
     seen \<leftarrow> (if firstSeenMs s4 = 0 then get_int64 api event ''capturedAt'' 0 else Some (firstSeenMs s4));
     dark \<leftarrow> get_bool api event ''night'' False;
     Some (s4\<lparr>dwellMs := dwell, publishedAtMs := published, firstSeenMs := seen, night := dark\<rparr>)
   }"

text \<open>\<open>rule.rfind("person", 0) == 0\<close>: the rule starts with it.\<close>

definition parseObjectEvent :: "'j json_api \<Rightarrow> (real \<Rightarrow> real) \<Rightarrow> 'j \<Rightarrow> guard_event_signals option" where
  "parseObjectEvent api fl event = do {
     camera \<leftarrow> get_int64 api event ''cameraId'' 0;
     cname \<leftarrow> get_string api event ''cameraName'' [];
     rl \<leftarrow> get_string api event ''rule'' [];
     sev \<leftarrow> get_string api event ''severity'' [];
     esc \<leftarrow> get_bool api event ''escalated'' False;
     primaryTrackId \<leftarrow> get_int64 api event ''trackId'' 0;
     objects \<leftarrow> child api event ''objects'';
     ps \<leftarrow> (case elements api objects of None \<Rightarrow> Some [] | Some objs \<Rightarrow> read_persons api fl objs);
     let s0 = default_signals\<lparr>cameraId := camera, cameraName := cname, rule := rl, severity := sev,
           escalated := esc, persons := ps\<rparr>;
     s \<leftarrow> fill_from_event api event (event_signals s0 primaryTrackId);
     let personPresent = (ps \<noteq> [] \<or> take 6 rl = ''person'');
     Some (if ps = [] then s\<lparr>hasUnknown := personPresent\<rparr> else s)
   }"

section \<open>Encounters\<close>

definition signatureSimilarity :: "(real \<Rightarrow> real) \<Rightarrow> string \<Rightarrow> string \<Rightarrow> real" where
  "signatureSimilarity fl left right =
     (case (base64_decode left, base64_decode right) of
        (Some l, Some r) \<Rightarrow>
          if l = [] \<or> length l \<noteq> length r then 0
          else
            (let shared = sum_list (map2 (\<lambda>a b. min (uint a) (uint b)) l r);
                 total = max (sum_list (map uint l)) (sum_list (map uint r))
             in if total > 0 then fl (of_int shared / of_int total) else 0)
      | _ \<Rightarrow> 0)"

record encounter_candidate =
  c_id :: int
  c_personId :: int
  c_signature :: string
  c_lastCameraId :: int
  c_lastSeen :: int

record encounter_match_input =
  m_personId :: int
  m_signature :: string
  m_cameraId :: int
  now :: int
  windowS :: int
  continuityWindowS :: int
  minSimilarity :: real

record match_state =
  best :: "int option"
  bestSimilarity :: real
  continuity :: "int option"
  continuitySeen :: int

text \<open>The loop body; \<open>Inl\<close> is the early \<open>return\<close> of a candidate of the same person.\<close>

definition match_candidate ::
  "(string \<Rightarrow> string \<Rightarrow> real) \<Rightarrow> encounter_match_input \<Rightarrow> match_state \<Rightarrow> encounter_candidate
     \<Rightarrow> int + match_state" where
  "match_candidate similarity input st cand =
     (if now input - c_lastSeen cand > windowS input then Inr st
      else if m_personId input > 0 then
        (if c_personId cand = m_personId input then Inl (c_id cand) else Inr st)
      else
        (let sim = similarity (m_signature input) (c_signature cand);
             st1 = (if m_signature input \<noteq> [] \<and> sim \<ge> bestSimilarity st
                    then st\<lparr>bestSimilarity := sim, best := Some (c_id cand)\<rparr> else st);
             st2 = (if m_cameraId input > 0 \<and> c_lastCameraId cand = m_cameraId input
                      \<and> now input - c_lastSeen cand \<le> continuityWindowS input
                      \<and> c_lastSeen cand \<ge> continuitySeen st1
                    then st1\<lparr>continuitySeen := c_lastSeen cand, continuity := Some (c_id cand)\<rparr> else st1)
         in Inr st2))"

fun match_loop ::
  "(string \<Rightarrow> string \<Rightarrow> real) \<Rightarrow> encounter_match_input \<Rightarrow> match_state \<Rightarrow> encounter_candidate list
     \<Rightarrow> int option" where
  "match_loop similarity input st [] =
     (case best st of Some b \<Rightarrow> Some b | None \<Rightarrow> continuity st)"
| "match_loop similarity input st (cand # rest) =
     (case match_candidate similarity input st cand of
        Inl found \<Rightarrow> Some found
      | Inr st' \<Rightarrow> match_loop similarity input st' rest)"

definition matchEncounter ::
  "(real \<Rightarrow> real) \<Rightarrow> encounter_match_input \<Rightarrow> encounter_candidate list \<Rightarrow> int option" where
  "matchEncounter fl input candidates =
     match_loop (signatureSimilarity fl) input
       \<lparr>best = None, bestSimilarity = minSimilarity input, continuity = None, continuitySeen = 0\<rparr> candidates"

text \<open>
  The baseline of a place decays with a half-life of seven days. These two are the real
  functions that the code computes in \<open>double\<close>.
\<close>

definition kBaselineHalfLifeS :: real where
  "kBaselineHalfLifeS = 7 * 24 * 3600"

definition decayBaseline :: "real \<Rightarrow> int \<Rightarrow> real" where
  "decayBaseline stored elapsedS =
     (if stored \<le> 0 then 0
      else stored * exp (- ln 2 * of_int (max 0 elapsedS) / kBaselineHalfLifeS))"

definition baselineNovelty :: "real \<Rightarrow> real" where
  "baselineNovelty decayed = 1 / (1 + max 0 decayed)"

section \<open>Lemmas\<close>

subsection \<open>Counting\<close>

lemma foldl_count_person:
  "knownCount (foldl count_person s ps) = knownCount s + int (length (filter ps_known ps))
   \<and> unknownCount (foldl count_person s ps) = unknownCount s + int (length (filter (\<lambda>p. \<not> ps_known p) ps))
   \<and> strangerCount (foldl count_person s ps) = strangerCount s + int (length (filter is_stranger ps))
   \<and> persons (foldl count_person s ps) = persons s \<and> rule (foldl count_person s ps) = rule s
   \<and> personId (foldl count_person s ps) = personId s"
  by (induction ps arbitrary: s) (auto simp: count_person_def Let_def is_stranger_def)

lemma adoptSubject_keeps [simp]:
  "knownCount (adoptSubject s p) = knownCount s" "unknownCount (adoptSubject s p) = unknownCount s"
  "strangerCount (adoptSubject s p) = strangerCount s" "persons (adoptSubject s p) = persons s"
  "hasKnown (adoptSubject s p) = hasKnown s" "hasUnknown (adoptSubject s p) = hasUnknown s"
  "rule (adoptSubject s p) = rule s" "personId (adoptSubject s p) = ps_personId p"
  "identityState (adoptSubject s p) = ps_identityState p"
  by (simp_all add: adoptSubject_def)

lemma subject_signals_keeps [simp]:
  "knownCount (subject_signals t s) = knownCount s" "unknownCount (subject_signals t s) = unknownCount s"
  "strangerCount (subject_signals t s) = strangerCount s" "persons (subject_signals t s) = persons s"
  "hasKnown (subject_signals t s) = hasKnown s" "hasUnknown (subject_signals t s) = hasUnknown s"
  "rule (subject_signals t s) = rule s"
  by (auto simp: subject_signals_def Let_def split: option.splits)

lemma adopt_known_keeps [simp]:
  "knownCount (adopt_known s) = knownCount s" "unknownCount (adopt_known s) = unknownCount s"
  "strangerCount (adopt_known s) = strangerCount s" "persons (adopt_known s) = persons s"
  "hasKnown (adopt_known s) = hasKnown s" "hasUnknown (adopt_known s) = hasUnknown s"
  "rule (adopt_known s) = rule s" "personId (adopt_known s) = personId s"
  "identityState (adopt_known s) = identityState s"
  by (auto simp: adopt_known_def split: option.splits)

lemma event_signals_fields:
  assumes "knownCount s0 = 0" "unknownCount s0 = 0" "strangerCount s0 = 0"
  shows "persons (event_signals s0 t) = persons s0" "rule (event_signals s0 t) = rule s0"
    "knownCount (event_signals s0 t) = int (length (filter ps_known (persons s0)))"
    "unknownCount (event_signals s0 t) = int (length (filter (\<lambda>p. \<not> ps_known p) (persons s0)))"
    "strangerCount (event_signals s0 t) = int (length (filter is_stranger (persons s0)))"
    "hasKnown (event_signals s0 t) = (knownCount (event_signals s0 t) > 0)"
    "hasUnknown (event_signals s0 t) = (unknownCount (event_signals s0 t) > 0)"
  using assms by (simp_all add: event_signals_def Let_def foldl_count_person)

lemma event_signals_subject:
  assumes "choose_subject t (persons s0) = Some p"
  shows "personId (event_signals s0 t) = ps_personId p" "identityState (event_signals s0 t) = ps_identityState p"
  using assms by (simp_all add: event_signals_def subject_signals_def Let_def foldl_count_person)

lemma fill_from_event_keeps:
  assumes "fill_from_event api event s = Some s'"
  shows "persons s' = persons s" "rule s' = rule s" "knownCount s' = knownCount s"
    "unknownCount s' = unknownCount s" "strangerCount s' = strangerCount s" "hasKnown s' = hasKnown s"
    "hasUnknown s' = hasUnknown s" "personId s' = personId s" "identityState s' = identityState s"
  using assms by (auto simp: fill_from_event_def bind_eq_Some_conv)

lemma parseObjectEvent_parts:
  assumes "parseObjectEvent api fl event = Some s"
  obtains s0 t s' where "knownCount s0 = 0" "unknownCount s0 = 0" "strangerCount s0 = 0"
    "get_int64 api event ''trackId'' 0 = Some t"
    "fill_from_event api event (event_signals s0 t) = Some s'"
    "s = (if persons s0 = [] then s'\<lparr>hasUnknown := take 6 (rule s0) = ''person''\<rparr> else s')"
proof -
  from assms obtain camera cname rl sev esc t ps s' where
    "get_int64 api event ''trackId'' 0 = Some t"
    "fill_from_event api event (event_signals (default_signals\<lparr>cameraId := camera, cameraName := cname,
       rule := rl, severity := sev, escalated := esc, persons := ps\<rparr>) t) = Some s'"
    "Some (if ps = [] then s'\<lparr>hasUnknown := ps \<noteq> [] \<or> take 6 rl = ''person''\<rparr> else s') = Some s"
    unfolding parseObjectEvent_def bind_eq_Some_conv Let_def by blast
  then show ?thesis
    by (intro that [of "default_signals\<lparr>cameraId := camera, cameraName := cname,
       rule := rl, severity := sev, escalated := esc, persons := ps\<rparr>" t s'])
       (simp_all add: default_signals_def split: if_splits)
qed

subsection \<open>The subject\<close>

definition is_primary :: "int \<Rightarrow> guard_person_signals \<Rightarrow> bool" where
  "is_primary t p \<longleftrightarrow> t > 0 \<and> ps_trackId p = t"

definition or_else :: "'a option \<Rightarrow> 'a option \<Rightarrow> 'a option" where
  "or_else a b = (case a of Some x \<Rightarrow> Some x | None \<Rightarrow> b)"

lemma fold_subjects:
  "primaryUnknown (foldl (consider_subject t) c ps)
     = or_else (primaryUnknown c) (List.find (\<lambda>p. \<not> ps_known p \<and> is_primary t p) ps)
   \<and> firstUnknown (foldl (consider_subject t) c ps) = or_else (firstUnknown c) (List.find (\<lambda>p. \<not> ps_known p) ps)
   \<and> primaryPerson (foldl (consider_subject t) c ps) = or_else (primaryPerson c) (List.find (is_primary t) ps)"
proof (induction ps arbitrary: c)
  case Nil
  show ?case by (simp add: or_else_def split: option.splits)
next
  case (Cons p ps)
  have step:
    "primaryUnknown (consider_subject t c p)
       = or_else (primaryUnknown c) (if \<not> ps_known p \<and> is_primary t p then Some p else None)"
    "firstUnknown (consider_subject t c p) = or_else (firstUnknown c) (if \<not> ps_known p then Some p else None)"
    "primaryPerson (consider_subject t c p) = or_else (primaryPerson c) (if is_primary t p then Some p else None)"
    by (simp_all add: consider_subject_def is_primary_def or_else_def split: option.splits)
  show ?case
    using Cons.IH [of "consider_subject t c p"] unfolding step
    by (auto simp: or_else_def split: option.splits)
qed

lemma choose_subject_unknown:
  assumes "\<exists>p \<in> set ps. \<not> ps_known p"
  shows "\<exists>p. choose_subject t ps = Some p \<and> p \<in> set ps \<and> \<not> ps_known p
    \<and> ((\<exists>q \<in> set ps. \<not> ps_known q \<and> is_primary t q) \<longrightarrow> is_primary t p)"
proof -
  let ?prim = "List.find (\<lambda>p. \<not> ps_known p \<and> is_primary t p) ps"
  let ?unk = "List.find (\<lambda>p. \<not> ps_known p) ps"
  obtain u where u: "?unk = Some u"
    using assms by (cases ?unk) (auto simp: find_None_iff)
  have subject: "choose_subject t ps = or_else ?prim ?unk"
    using u by (simp add: choose_subject_def Let_def fold_subjects or_else_def split: option.splits)
  show ?thesis
  proof (cases ?prim)
    case None
    then have "\<not> (\<exists>q \<in> set ps. \<not> ps_known q \<and> is_primary t q)"
      by (auto simp: find_None_iff)
    moreover have "u \<in> set ps" "\<not> ps_known u"
      using u by (auto simp: find_Some_iff)
    ultimately show ?thesis
      using subject None u by (auto simp: or_else_def)
  next
    case (Some p)
    then have "p \<in> set ps" "\<not> ps_known p" "is_primary t p"
      by (auto simp: find_Some_iff)
    then show ?thesis
      using subject Some by (auto simp: or_else_def)
  qed
qed

subsection \<open>Matching\<close>

text \<open>\<open>live\<close>: a candidate within the window, the only ones the loop looks at.\<close>

definition live :: "encounter_match_input \<Rightarrow> encounter_candidate \<Rightarrow> bool" where
  "live i c \<longleftrightarrow> now i - c_lastSeen c \<le> windowS i"

definition match_inv ::
  "(string \<Rightarrow> string \<Rightarrow> real) \<Rightarrow> encounter_match_input \<Rightarrow> encounter_candidate set \<Rightarrow> match_state \<Rightarrow> bool" where
  "match_inv sim i seen st \<longleftrightarrow>
     minSimilarity i \<le> bestSimilarity st
     \<and> (m_signature i \<noteq> [] \<longrightarrow> (\<forall>c \<in> seen. live i c \<longrightarrow> sim (m_signature i) (c_signature c) \<le> bestSimilarity st))
     \<and> (\<forall>b. best st = Some b \<longrightarrow> (\<exists>c \<in> seen. c_id c = b \<and> live i c \<and> m_signature i \<noteq> []
           \<and> sim (m_signature i) (c_signature c) = bestSimilarity st))
     \<and> (\<forall>b. continuity st = Some b \<longrightarrow> (\<exists>c \<in> seen. c_id c = b \<and> live i c
           \<and> c_lastCameraId c = m_cameraId i \<and> now i - c_lastSeen c \<le> continuityWindowS i))"

lemma match_candidate_person:
  "m_personId i > 0 \<Longrightarrow> match_candidate sim i st c =
     (if live i c \<and> c_personId c = m_personId i then Inl (c_id c) else Inr st)"
  by (simp add: match_candidate_def live_def not_le)

lemma match_loop_person:
  assumes "m_personId i > 0" "best st = None" "continuity st = None"
  shows "match_loop sim i st cs = map_option c_id (List.find (\<lambda>c. live i c \<and> c_personId c = m_personId i) cs)"
  using assms by (induction cs) (simp_all add: match_candidate_person)

lemma match_candidate_inv:
  assumes "match_inv sim i seen st" "\<not> m_personId i > 0"
  obtains st' where "match_candidate sim i st c = Inr st'" "match_inv sim i (insert c seen) st'"
proof (cases "live i c")
  case False
  then have "match_candidate sim i st c = Inr st" "match_inv sim i (insert c seen) st"
    using assms by (auto simp: match_candidate_def live_def match_inv_def)
  then show ?thesis by (rule that)
next
  case True
  define s where "s = sim (m_signature i) (c_signature c)"
  define st1 where "st1 = (if m_signature i \<noteq> [] \<and> s \<ge> bestSimilarity st
      then st\<lparr>bestSimilarity := s, best := Some (c_id c)\<rparr> else st)"
  define st2 where "st2 = (if m_cameraId i > 0 \<and> c_lastCameraId c = m_cameraId i
      \<and> now i - c_lastSeen c \<le> continuityWindowS i \<and> c_lastSeen c \<ge> continuitySeen st1
      then st1\<lparr>continuitySeen := c_lastSeen c, continuity := Some (c_id c)\<rparr> else st1)"
  have "match_candidate sim i st c = Inr st2"
    using True assms(2) by (simp add: match_candidate_def live_def st2_def st1_def s_def Let_def)
  moreover have "match_inv sim i (insert c seen) st1"
    using assms(1) True unfolding match_inv_def st1_def s_def
    by (auto intro: order_trans)
  then have "match_inv sim i (insert c seen) st2"
    using True by (auto simp: match_inv_def st2_def)
  ultimately show ?thesis by (rule that)
qed

lemma match_loop_inv:
  assumes "match_inv sim i seen st" "\<not> m_personId i > 0"
  shows "\<exists>st'. match_inv sim i (seen \<union> set cs) st'
    \<and> match_loop sim i st cs = (case best st' of Some b \<Rightarrow> Some b | None \<Rightarrow> continuity st')"
  using assms(1)
proof (induction cs arbitrary: seen st)
  case (Cons c cs)
  obtain st' where st': "match_candidate sim i st c = Inr st'" "match_inv sim i (insert c seen) st'"
    using match_candidate_inv [OF Cons.prems assms(2)] by blast
  with Cons.IH [OF st'(2)] show ?case by simp
qed auto


subsection \<open>Similarity\<close>

lemma shared_bounds:
  "length l = length r \<Longrightarrow>
     0 \<le> sum_list (map2 (\<lambda>a b. min (uint a) (uint b)) l (r :: bytes))
     \<and> sum_list (map2 (\<lambda>a b. min (uint a) (uint b)) l r) \<le> sum_list (map uint (l :: bytes))"
  by (induction l r rule: list_induct2) auto

lemma shared_comm:
  "length l = length r \<Longrightarrow> sum_list (map2 (\<lambda>a b. min (uint a) (uint b)) l (r :: bytes))
     = sum_list (map2 (\<lambda>a b. min (uint a) (uint b)) r (l :: bytes))"
  by (induction l r rule: list_induct2) (auto simp: min.commute)

lemma shared_self: "sum_list (map2 (\<lambda>a b. min (uint a) (uint b)) l l) = sum_list (map uint (l :: bytes))"
  by (induction l) auto

section \<open>Properties\<close>

text \<open>
  The counts of an event are those of its persons: the known, the unknown and the
  strangers (unknown, with an identification that recognised nobody). Somebody unknown is
  reported exactly when one of the persons is unknown, and for an event without persons when
  its rule is about persons. If somebody is unknown, the subject of the event is an unknown
  person, and the tracked one if that person is unknown: a known face never hides a stranger.
\<close>

theorem event_counts_and_subject:
  assumes "parseObjectEvent api fl event = Some s" "get_int64 api event ''trackId'' 0 = Some t"
  shows "knownCount s = int (length (filter ps_known (persons s)))
    \<and> unknownCount s = int (length (filter (\<lambda>p. \<not> ps_known p) (persons s)))
    \<and> strangerCount s = int (length (filter is_stranger (persons s))) \<and> strangerCount s \<le> unknownCount s
    \<and> (hasKnown s \<longleftrightarrow> (\<exists>p \<in> set (persons s). ps_known p))
    \<and> (hasUnknown s \<longleftrightarrow> (if persons s = [] then take 6 (rule s) = ''person''
                          else \<exists>p \<in> set (persons s). \<not> ps_known p))
    \<and> ((\<exists>p \<in> set (persons s). \<not> ps_known p) \<longrightarrow>
         (\<exists>p \<in> set (persons s). \<not> ps_known p \<and> personId s = ps_personId p \<and> identityState s = ps_identityState p
            \<and> ((\<exists>q \<in> set (persons s). \<not> ps_known q \<and> is_primary t q) \<longrightarrow> is_primary t p)))"
proof -
  obtain s0 t' s' where p: "knownCount s0 = 0" "unknownCount s0 = 0" "strangerCount s0 = 0"
    "get_int64 api event ''trackId'' 0 = Some t'"
    "fill_from_event api event (event_signals s0 t') = Some s'"
    "s = (if persons s0 = [] then s'\<lparr>hasUnknown := take 6 (rule s0) = ''person''\<rparr> else s')"
    by (rule parseObjectEvent_parts [OF assms(1)])
  note t = p(4) [unfolded assms(2) option.inject, symmetric]
  note fields = fill_from_event_keeps [OF p(5)] event_signals_fields [OF p(1-3)]
  have ps: "persons s = persons s0" "rule s = rule s0"
    by (simp_all add: p(6) fields)
  have "length (filter is_stranger xs) \<le> length (filter (\<lambda>p. \<not> ps_known p) xs)" for xs
    by (induction xs) (auto simp: is_stranger_def)
  moreover have "\<exists>p \<in> set (persons s). \<not> ps_known p \<and> personId s = ps_personId p \<and> identityState s = ps_identityState p
            \<and> ((\<exists>q \<in> set (persons s). \<not> ps_known q \<and> is_primary t q) \<longrightarrow> is_primary t p)"
    if "\<exists>p \<in> set (persons s). \<not> ps_known p"
  proof -
    note unknown = that [unfolded ps]
    obtain u where u: "choose_subject t (persons s0) = Some u" "u \<in> set (persons s0)" "\<not> ps_known u"
      "(\<exists>q \<in> set (persons s0). \<not> ps_known q \<and> is_primary t q) \<longrightarrow> is_primary t u"
      using choose_subject_unknown [OF unknown, of t] by blast
    have "personId s = ps_personId u" "identityState s = ps_identityState u"
      using event_signals_subject [OF u(1)] by (simp_all add: p(6) fields t)
    with u show ?thesis
      unfolding ps by blast
  qed
  ultimately show ?thesis
    unfolding ps by (simp add: p(6) fields filter_empty_conv)
qed

definition witness_api :: "nat json_api" where
  "witness_api =
     \<lparr>get_int64 = (\<lambda>_ _ d. Some d), get_int = (\<lambda>_ _ d. Some d), get_double = (\<lambda>_ _ d. Some d),
      get_float = (\<lambda>_ _ d. Some d),
      get_string = (\<lambda>j k d. Some (if j = 1 \<and> k = ''class'' then ''person'' else d)),
      get_bool = (\<lambda>_ _ d. Some d), is_member = (\<lambda>_ _. Some True),
      child = (\<lambda>_ k. Some (if k = ''objects'' then 2 else 3)),
      elements = (\<lambda>j. if j = 2 then Some [1] else None)\<rparr>"

theorem event_counts_and_subject_witness:
  "\<exists>s. parseObjectEvent witness_api id 0 = Some s \<and> hasUnknown s \<and> strangerCount s \<le> unknownCount s
     \<and> length (persons s) = 1"
proof -
  have "\<exists>p. parsePerson witness_api id 1 = Some p \<and> \<not> ps_known p"
    by (simp add: witness_api_def parsePerson_def)
  then obtain p where p: "parsePerson witness_api id 1 = Some p" "\<not> ps_known p" by blast
  have "read_persons witness_api id [1] = Some [p]"
    using p by (simp add: witness_api_def)
  moreover have "\<exists>s'. fill_from_event witness_api 0 s = Some s'" for s
    by (simp add: witness_api_def fill_from_event_def)
  ultimately have "\<exists>s. parseObjectEvent witness_api id 0 = Some s \<and> persons s = [p]"
    using fill_from_event_keeps(1) event_signals_fields(1)
    by (fastforce simp: parseObjectEvent_def witness_api_def default_signals_def bind_eq_Some_conv)
  then obtain s where s: "parseObjectEvent witness_api id 0 = Some s" "persons s = [p]"
    by blast
  moreover have "get_int64 witness_api 0 ''trackId'' 0 = Some 0"
    by (simp add: witness_api_def)
  ultimately show ?thesis
    using event_counts_and_subject [OF s(1)] p(2) by fastforce
qed

text \<open>
  A sighting is matched with a candidate seen within the window. With an identified person
  it is the first candidate of that person; without one it is a candidate whose appearance is
  the most similar of all live candidates and similar enough, or else one last seen by the
  same camera within the continuity window.
\<close>

theorem matchEncounter_sound:
  assumes "matchEncounter fl i cs = Some e"
  shows "\<exists>c \<in> set cs. c_id c = e \<and> live i c
    \<and> (if m_personId i > 0 then c_personId c = m_personId i
       else (m_signature i \<noteq> [] \<and> minSimilarity i \<le> signatureSimilarity fl (m_signature i) (c_signature c)
              \<and> (\<forall>c' \<in> set cs. live i c' \<longrightarrow> signatureSimilarity fl (m_signature i) (c_signature c')
                    \<le> signatureSimilarity fl (m_signature i) (c_signature c)))
            \<or> (c_lastCameraId c = m_cameraId i \<and> now i - c_lastSeen c \<le> continuityWindowS i))"
proof (cases "m_personId i > 0")
  case True
  then show ?thesis
    using assms by (auto simp: matchEncounter_def match_loop_person find_Some_iff)
next
  case False
  let ?st = "\<lparr>best = None, bestSimilarity = minSimilarity i, continuity = None, continuitySeen = 0\<rparr>"
  have "match_inv (signatureSimilarity fl) i {} ?st"
    by (simp add: match_inv_def)
  then obtain st where st: "match_inv (signatureSimilarity fl) i (set cs) st"
    "(case best st of Some b \<Rightarrow> Some b | None \<Rightarrow> continuity st) = Some e"
    using match_loop_inv [OF _ False, of "signatureSimilarity fl" "{}" ?st cs] assms
    by (auto simp: matchEncounter_def)
  show ?thesis
  proof (cases "best st")
    case None
    with st show ?thesis
      using False by (auto simp: match_inv_def)
  next
    case (Some b)
    with st show ?thesis
      using False by (fastforce simp: match_inv_def)
  qed
qed

theorem matchEncounter_sound_witness:
  "matchEncounter id \<lparr>m_personId = 0, m_signature = [], m_cameraId = 4, now = 100, windowS = 60,
      continuityWindowS = 45, minSimilarity = 4 / 5\<rparr>
      [\<lparr>c_id = 9, c_personId = 0, c_signature = [], c_lastCameraId = 4, c_lastSeen = 70\<rparr>] = Some 9
   \<and> live \<lparr>m_personId = 0, m_signature = [], m_cameraId = 4, now = 100, windowS = 60,
      continuityWindowS = 45, minSimilarity = 4 / 5\<rparr>
      \<lparr>c_id = 9, c_personId = 0, c_signature = [], c_lastCameraId = 4, c_lastSeen = 70\<rparr>"
proof -
  let ?i = "\<lparr>m_personId = 0, m_signature = [], m_cameraId = 4, now = 100, windowS = 60,
      continuityWindowS = 45, minSimilarity = 4 / 5\<rparr>"
  let ?c = "\<lparr>c_id = 9, c_personId = 0, c_signature = [], c_lastCameraId = 4, c_lastSeen = 70\<rparr>"
  have m: "matchEncounter id ?i [?c] = Some 9"
    by (simp add: matchEncounter_def match_candidate_def Let_def)
  with matchEncounter_sound [OF m] show ?thesis by simp
qed

text \<open>
  Similarity is symmetric and, whatever monotone rounding divides, lies between 0 and 1,
  and a decodable signature with some non-zero byte is fully similar to itself.
\<close>

theorem similarity_bounds:
  assumes "mono fl" "fl 0 = 0" "fl 1 = 1"
  shows "signatureSimilarity fl a b = signatureSimilarity fl b a
    \<and> 0 \<le> signatureSimilarity fl a b \<and> signatureSimilarity fl a b \<le> 1
    \<and> (base64_decode a = Some bs \<and> 0 < sum_list (map uint bs) \<longrightarrow> signatureSimilarity fl a a = 1)"
proof -
  have quotient: "0 \<le> fl (of_int x / of_int y) \<and> fl (of_int x / of_int y) \<le> 1" if "0 \<le> x" "x \<le> y" "0 < y" for x y :: int
    using monoD [OF assms(1), of 0 "of_int x / of_int y"] monoD [OF assms(1), of "of_int x / of_int y" 1] that assms(2,3)
    by simp
  have "0 \<le> signatureSimilarity fl a b \<and> signatureSimilarity fl a b \<le> 1"
    by (auto simp: signatureSimilarity_def Let_def shared_bounds le_max_iff_disj intro!: quotient [THEN conjunct1]
        quotient [THEN conjunct2] split: option.splits)
  moreover have "signatureSimilarity fl a b = signatureSimilarity fl b a"
    by (auto simp: signatureSimilarity_def Let_def max.commute shared_comm split: option.splits)
  moreover have "signatureSimilarity fl a a = 1" if "base64_decode a = Some bs" "0 < sum_list (map uint bs)"
    using that assms(3) by (auto simp: signatureSimilarity_def Let_def shared_self)
  ultimately show ?thesis by blast
qed

theorem similarity_bounds_witness: "signatureSimilarity id ''AQID'' ''AQID'' = 1"
proof -
  have "base64_decode ''AQID'' = Some [1, 2, 3]" by code_simp
  with similarity_bounds [of id "''AQID''" "''AQID''" "[1, 2, 3]"] show ?thesis by (simp add: mono_def)
qed

text \<open>
  A baseline halves in seven days, never grows with time, and novelty lies above 0 and at
  most at 1, with 1 for what was never seen.
\<close>

theorem baseline_half_life:
  "decayBaseline x (7 * 24 * 3600) = max 0 x / 2
   \<and> (s \<le> t \<longrightarrow> decayBaseline x t \<le> decayBaseline x s) \<and> 0 \<le> decayBaseline x t
   \<and> 0 < baselineNovelty x \<and> baselineNovelty x \<le> 1 \<and> baselineNovelty 0 = 1"
proof -
  have "exp (- ln 2) = 1 / (2 :: real)"
    by (simp add: exp_minus inverse_eq_divide)
  then have "decayBaseline x (7 * 24 * 3600) = max 0 x / 2"
    by (simp add: decayBaseline_def kBaselineHalfLifeS_def)
  moreover have "decayBaseline x t \<le> decayBaseline x s" if "s \<le> t"
  proof -
    have "- ln 2 * real_of_int (max 0 t) \<le> - ln 2 * real_of_int (max 0 s)"
      using that by (intro mult_left_mono_neg) auto
    then have "- ln 2 * real_of_int (max 0 t) / kBaselineHalfLifeS \<le> - ln 2 * of_int (max 0 s) / kBaselineHalfLifeS"
      by (rule divide_right_mono) (simp add: kBaselineHalfLifeS_def)
    then have "exp (- ln 2 * of_int (max 0 t) / kBaselineHalfLifeS) \<le> exp (- ln 2 * of_int (max 0 s) / kBaselineHalfLifeS)"
      by (simp only: exp_le_cancel_iff)
    then show ?thesis
      unfolding decayBaseline_def by (auto intro: mult_left_mono)
  qed
  moreover have "0 \<le> decayBaseline x t" "0 < baselineNovelty x" "baselineNovelty x \<le> 1" "baselineNovelty 0 = 1"
    by (simp_all add: decayBaseline_def baselineNovelty_def add_pos_nonneg divide_le_eq)
  ultimately show ?thesis by blast
qed

theorem baseline_half_life_witness: "decayBaseline 8 10 \<le> decayBaseline 8 0"
  using baseline_half_life [of 8 0 10] by simp

end
