(* ===== verification/Guard_Policy.thy ===== *)
theory Guard_Policy
  imports Guard_Vocabulary
begin

text \<open>
  How dangerous a sighting is and what the house does about it:
  \<open>services/guard/src/feature/guard/guard-policy.cc\<close> (\<open>evaluate\<close>, \<open>guestFloor\<close>, \<open>explain\<close>,
  \<open>deterrence\<close>, \<open>pickGreeting\<close>), the action authorizer of \<open>guard-action.cc\<close> and the gate of
  \<open>guard-belief.cc\<close>. Reading camera events is in \<open>Guard_Events\<close>.
\<close>

section \<open>Danger of a sighting\<close>

record guard_context =
  mode :: guard_mode
  rule :: string
  severity :: string
  hasKnown :: bool
  hasUnknown :: bool
  strangerCount :: int
  accompaniedByResident :: bool
  accompaniedByGuest :: bool
  expectedGuest :: bool
  inAlertZone :: bool
  atNight :: bool
  escalated :: bool
  visitCount :: int
  publicPresent :: bool
  staffOnly :: bool
  areaInUse :: bool
  passerby :: bool
  afterHours :: bool
  watchlist :: bool

definition default_context :: guard_context where
  "default_context =
     \<lparr>mode = Home, rule = '''', severity = '''', hasKnown = False, hasUnknown = False,
      strangerCount = 0, accompaniedByResident = False, accompaniedByGuest = False,
      expectedGuest = False, inAlertZone = False, atNight = False, escalated = False,
      visitCount = 0, publicPresent = False, staffOnly = False, areaInUse = False,
      passerby = False, afterHours = False, watchlist = False\<rparr>"

definition companionRelaxation :: "guard_context \<Rightarrow> guard_danger" where
  "companionRelaxation context =
     (if mode context = Away \<or> mode context = Armed then NoDanger
      else if inAlertZone context \<or> atNight context \<or> escalated context then NoDanger
      else if accompaniedByResident context then Low
      else if accompaniedByGuest context then Medium
      else NoDanger)"

definition hardFloor :: "guard_context \<Rightarrow> guard_danger" where
  "hardFloor context =
     (let floor0 = (if mode context = Away \<or> mode context = Armed then Critical else NoDanger);
          floor1 = (if inAlertZone context
                    then (if staffOnly context then High else Critical) else floor0);
          floor2 = (if mode context = Night then max floor1 High else floor1);
          floor3 = (if (atNight context \<and> \<not> staffOnly context) \<or> escalated context
                    then max floor2 High else floor2);
          floor4 = (if strangerCount context \<ge> 2 then max floor3 High else floor3);
          floor5 = (if visitCount context \<ge> 3 then max floor4 High else floor4)
      in floor5)"

definition evaluate :: "guard_context \<Rightarrow> guard_danger" where
  "evaluate context =
     (if watchlist context then
        (let unguarded = mode context = Away \<or> mode context = Armed \<or> mode context = Night
         in if unguarded then Critical else High)
      else if \<not> hasUnknown context then (if hasKnown context then NoDanger else Low)
      else if publicPresent context \<or> areaInUse context then
        (if inAlertZone context then Medium else Low)
      else if passerby context then (if visitCount context \<ge> 3 then Medium else Low)
      else
        (let unattended = mode context = Away \<or> mode context = Armed;
             guestLowers = expectedGuest context \<and> \<not> unattended;
             soft0 = (if guestLowers then Low else Medium);
             companion = companionRelaxation context;
             soft = (if companion \<noteq> NoDanger \<and> companion < soft0 then companion else soft0);
             danger0 = max soft (hardFloor context);
             danger1 = (if severity context = ''critical'' then max danger0 High
                        else if severity context = ''warning'' then max danger0 Medium
                        else danger0)
         in if guestLowers then min danger1 Medium else danger1))"

definition dangerRank :: "guard_danger \<Rightarrow> int" where
  "dangerRank danger = guardDangerRank danger"

definition guestFloor :: "guard_context \<Rightarrow> guard_danger" where
  "guestFloor context =
     (if \<not> expectedGuest context then NoDanger
      else let unguested = context\<lparr>expectedGuest := False\<rparr>;
               floor = evaluate unguested
        in if dangerRank floor < dangerRank High
             \<or> dangerRank floor \<le> dangerRank (evaluate context) then NoDanger
           else floor)"

definition add_reason :: "bool \<Rightarrow> guard_reason \<Rightarrow> guard_reason list \<Rightarrow> guard_reason list" where
  "add_reason applies reason reasons = (if applies then reasons @ [reason] else reasons)"

definition explain :: "guard_context \<Rightarrow> guard_reason list" where
  "explain context =
     (let reasons = add_reason (watchlist context) RWatchlist []
      in if \<not> hasUnknown context then reasons
         else if publicPresent context \<or> areaInUse context \<or> passerby context then
           (add_reason (passerby context \<and> visitCount context \<ge> 3) RRepeatVisits
           (add_reason (inAlertZone context) RAlertZone
           (add_reason (passerby context \<and> \<not> publicPresent context \<and> \<not> areaInUse context) RPasserby
           (add_reason (\<not> publicPresent context \<and> areaInUse context) RAreaInUse
           (add_reason (publicPresent context) RPublicHours reasons)))))
         else
           (add_reason (accompaniedByGuest context \<and> \<not> accompaniedByResident context) RWithGuest
           (add_reason (accompaniedByResident context) RWithResident
           (add_reason (expectedGuest context) RExpectedGuest
           (add_reason (staffOnly context) RStaffHours
           (add_reason (escalated context) REscalating
           (add_reason (visitCount context \<ge> 3) RRepeatVisits
           (add_reason (strangerCount context \<ge> 2) RSeveralStrangers
           (add_reason (inAlertZone context) RAlertZone
           (add_reason (mode context = Night \<or> (atNight context \<and> \<not> staffOnly context)) RNight
           (add_reason (mode context = Armed) RArmed
           (add_reason (mode context = Away \<and> \<not> afterHours context) RNobodyHome
           (add_reason (mode context = Away \<and> afterHours context) RAfterHours reasons)))))))))))))"

section \<open>Deterrence\<close>

record guard_deterrence_input =
  d_mode :: guard_mode
  d_danger :: guard_danger
  d_publicPresent :: bool
  d_staffOnly :: bool
  d_weapon :: bool
  d_inAlertZone :: bool
  d_encounterChecks :: int
  d_quietArea :: bool
  d_familyInside :: bool

record guard_deterrence =
  voice :: bool
  alarm :: bool

definition deterrence :: "guard_deterrence_input \<Rightarrow> guard_deterrence" where
  "deterrence i =
     (let peoplePresent = d_publicPresent i \<or> d_staffOnly i \<or> d_mode i = Home \<or> d_mode i = Night
      in if d_publicPresent i \<or> d_staffOnly i \<or> d_quietArea i \<or> d_familyInside i
            \<or> (d_weapon i \<and> peoplePresent)
         then \<lparr>voice = False, alarm = False\<rparr>
         else let critical = d_danger i = Critical;
                  result = \<lparr>voice = dangerRank (d_danger i) \<ge> dangerRank High, alarm = False\<rparr>
           in (case d_mode i of
                 Home \<Rightarrow> result\<lparr>alarm := False\<rparr>
               | Night \<Rightarrow> result\<lparr>alarm := critical\<rparr>
               | Armed \<Rightarrow> result\<lparr>alarm := critical\<rparr>
               | Away \<Rightarrow> result\<lparr>alarm := critical \<and> (d_weapon i \<or> d_inAlertZone i
                                                      \<or> d_encounterChecks i \<ge> 2)\<rparr>))"

text \<open>
  \<open>pickGreeting\<close>: \<open>size_t\<close> of the absolute value of the seed, modulo the number of variants.
  Negating the most negative \<open>int64_t\<close> is undefined in C++; over \<open>int\<close> it is \<open>2 ^ 63\<close>.
\<close>

definition pickGreeting :: "int \<Rightarrow> string list \<Rightarrow> string" where
  "pickGreeting seed variants =
     (if variants = [] then []
      else variants ! (nat (if seed < 0 then - seed else seed) mod length variants))"

section \<open>Authorization of actions\<close>

record guard_action_request =
  kind :: guard_action_kind
  danger :: guard_danger
  greetingEnabled :: bool
  replyRequested :: bool

record guard_action_decision =
  authorized :: bool
  reason :: string

record authorizer_config =
  notifyLevel :: int
  announceLevel :: int
  alarmLevel :: int
  armSiren :: bool
  dialogueEnabled :: bool

definition decision :: "bool \<Rightarrow> string \<Rightarrow> guard_action_decision" where
  "decision ok why = \<lparr>authorized = ok, reason = why\<rparr>"

definition authorize :: "authorizer_config \<Rightarrow> guard_action_request \<Rightarrow> guard_action_decision" where
  "authorize config request =
     (let rank = guardDangerRank (danger request)
      in case kind request of
           Notify \<Rightarrow>
             if rank < notifyLevel config then decision False ''below_notify_level''
             else decision True ''notify_level''
         | Announce \<Rightarrow>
             if rank < announceLevel config then decision False ''below_announce_level''
             else decision True ''announce_level''
         | Alarm \<Rightarrow>
             if rank < alarmLevel config then decision False ''below_alarm_level''
             else decision True ''alarm_level''
         | SirenArm \<Rightarrow>
             if \<not> armSiren config then decision False ''siren_disabled''
             else if rank < alarmLevel config then decision False ''below_alarm_level''
             else decision True ''siren_lease''
         | SirenDisarm \<Rightarrow> decision True ''safety_disarm''
         | Greet \<Rightarrow>
             if \<not> dialogueEnabled config \<or> \<not> greetingEnabled request
             then decision False ''dialogue_disabled''
             else if guardDangerRank (danger request) \<ge> guardDangerRank High
             then decision False ''hard_floor''
             else decision True ''dialogue''
         | Reply \<Rightarrow>
             if \<not> dialogueEnabled config \<or> \<not> replyRequested request
             then decision False ''dialogue_disabled''
             else if guardDangerRank (danger request) \<ge> guardDangerRank High
             then decision False ''hard_floor''
             else decision True ''dialogue''
         | Listen \<Rightarrow>
             if \<not> dialogueEnabled config then decision False ''dialogue_disabled''
             else decision True ''dialogue'')"

section \<open>Lemmas\<close>

lemmas policy_defs = evaluate_def hardFloor_def companionRelaxation_def Let_def

lemma add_reason_set [simp]:
  "set (add_reason a r rs) = (if a then insert r (set rs) else set rs)"
  by (simp add: add_reason_def)

lemma add_reason_distinct [simp]: "r \<notin> set rs \<Longrightarrow> distinct (add_reason a r rs) = distinct rs"
  by (simp add: add_reason_def)

lemma max_danger [simp]: "max d NoDanger = d" "max NoDanger d = d" "max d Critical = Critical"
  "max Critical d = Critical"
  by (simp_all add: max_def)


lemma hardFloor_high:
  "High \<le> hardFloor c \<longleftrightarrow>
     mode c \<noteq> Home \<or> inAlertZone c \<or> (atNight c \<and> \<not> staffOnly c) \<or> escalated c
     \<or> strangerCount c \<ge> 2 \<or> visitCount c \<ge> 3"
  by (cases "mode c") (auto simp: hardFloor_def Let_def max_def danger_order)

lemma hardFloor_critical:
  "hardFloor c = Critical \<longleftrightarrow>
     (inAlertZone c \<and> \<not> staffOnly c) \<or> (\<not> inAlertZone c \<and> (mode c = Away \<or> mode c = Armed))"
  by (cases "mode c") (auto simp: hardFloor_def Let_def max_def danger_order)

lemma hardFloor_values: "hardFloor c \<in> {NoDanger, High, Critical}"
  by (auto simp: hardFloor_def Let_def max_def danger_order)

lemma danger_ge_High: "High \<le> d \<longleftrightarrow> d = High \<or> d = Critical"
  by (cases d) (auto simp: danger_order)

lemma hardFloor_mono:
  assumes "High \<le> hardFloor c \<Longrightarrow> High \<le> hardFloor d" "hardFloor c = Critical \<Longrightarrow> hardFloor d = Critical"
  shows "hardFloor c \<le> hardFloor d"
  using assms hardFloor_values [of c] hardFloor_values [of d]
  by (auto simp: danger_order)

subsection \<open>The abstract policy\<close>

text \<open>
  \<open>assessed\<close>: the sightings that reach the weighing of floors, where \<open>soft_level\<close> is what the
  severity of the rule, the expected guest and the companions say.
\<close>

definition assessed :: "guard_context \<Rightarrow> bool" where
  "assessed c \<longleftrightarrow> \<not> watchlist c \<and> hasUnknown c \<and> \<not> publicPresent c \<and> \<not> areaInUse c \<and> \<not> passerby c"

definition soft_level :: "guard_context \<Rightarrow> guard_danger" where
  "soft_level c =
     (if severity c = ''critical'' then High
      else if severity c = ''warning'' then Medium
      else if mode c = Away \<or> mode c = Armed then Medium
      else if expectedGuest c then Low
      else if accompaniedByResident c \<and> \<not> inAlertZone c \<and> \<not> atNight c \<and> \<not> escalated c then Low
      else Medium)"

lemma soft_level_high: "High \<le> soft_level c \<longleftrightarrow> severity c = ''critical''"
  by (auto simp: soft_level_def danger_order)

lemma evaluate_assessed:
  assumes "assessed c"
  shows "evaluate c =
    (if expectedGuest c \<and> mode c \<noteq> Away \<and> mode c \<noteq> Armed
     then min (max (soft_level c) (hardFloor c)) Medium
     else max (soft_level c) (hardFloor c))"
  using assms hardFloor_values [of c]
  by (cases "mode c")
     (auto simp: evaluate_def assessed_def soft_level_def companionRelaxation_def Let_def max_def
        min_def danger_order)

lemma explain_members:
  assumes "assessed c"
  shows "RAfterHours \<in> set (explain c) \<longleftrightarrow> mode c = Away \<and> afterHours c"
    "RNobodyHome \<in> set (explain c) \<longleftrightarrow> mode c = Away \<and> \<not> afterHours c"
    "RArmed \<in> set (explain c) \<longleftrightarrow> mode c = Armed"
    "RNight \<in> set (explain c) \<longleftrightarrow> mode c = Night \<or> (atNight c \<and> \<not> staffOnly c)"
    "RAlertZone \<in> set (explain c) \<longleftrightarrow> inAlertZone c"
    "RSeveralStrangers \<in> set (explain c) \<longleftrightarrow> strangerCount c \<ge> 2"
    "RRepeatVisits \<in> set (explain c) \<longleftrightarrow> visitCount c \<ge> 3"
    "REscalating \<in> set (explain c) \<longleftrightarrow> escalated c"
  using assms by (simp_all add: explain_def assessed_def Let_def)

lemma raising_reasons:
  "guardReasonRaises RAfterHours" "guardReasonRaises RNobodyHome" "guardReasonRaises RArmed"
  "guardReasonRaises RNight" "guardReasonRaises RAlertZone" "guardReasonRaises RSeveralStrangers"
  "guardReasonRaises RRepeatVisits" "guardReasonRaises REscalating"
  by (simp_all add: guardReasonRaises_def)

lemma evaluate_not_assessed:
  assumes "\<not> assessed c" "\<not> watchlist c"
  shows "evaluate c \<le> Medium"
  using assms by (auto simp: evaluate_def assessed_def danger_order)

text \<open>
  \<open>riskier c d\<close>: the same sighting with more strangers, more visits, the alert zone, the night
  or an escalation added, and nothing else changed. One case is left out: in staff hours the alert zone
  sets the floor to High, also where the Away or Armed mode had set it to Critical, so a zone
  must not be added there.
\<close>

definition riskier :: "guard_context \<Rightarrow> guard_context \<Rightarrow> bool" where
  "riskier c d \<longleftrightarrow>
     d = c\<lparr>inAlertZone := inAlertZone d, atNight := atNight d, escalated := escalated d,
           strangerCount := strangerCount d, visitCount := visitCount d\<rparr>
     \<and> (inAlertZone c \<longrightarrow> inAlertZone d) \<and> (atNight c \<longrightarrow> atNight d) \<and> (escalated c \<longrightarrow> escalated d)
     \<and> strangerCount c \<le> strangerCount d \<and> visitCount c \<le> visitCount d
     \<and> (staffOnly c \<and> inAlertZone d \<and> \<not> inAlertZone c \<longrightarrow> mode c = Home \<or> mode c = Night)"

lemma riskier_fields:
  assumes "riskier c d"
  shows "mode d = mode c" "severity d = severity c" "hasKnown d = hasKnown c" "hasUnknown d = hasUnknown c"
    "accompaniedByResident d = accompaniedByResident c" "expectedGuest d = expectedGuest c"
    "publicPresent d = publicPresent c" "staffOnly d = staffOnly c" "areaInUse d = areaInUse c"
    "passerby d = passerby c" "watchlist d = watchlist c"
proof -
  obtain z n e s v where "d = c\<lparr>inAlertZone := z, atNight := n, escalated := e,
      strangerCount := s, visitCount := v\<rparr>"
    using assms unfolding riskier_def by blast
  then show "mode d = mode c" "severity d = severity c" "hasKnown d = hasKnown c"
    "hasUnknown d = hasUnknown c" "accompaniedByResident d = accompaniedByResident c"
    "expectedGuest d = expectedGuest c" "publicPresent d = publicPresent c"
    "staffOnly d = staffOnly c" "areaInUse d = areaInUse c" "passerby d = passerby c"
    "watchlist d = watchlist c"
    by simp_all
qed

section \<open>Properties\<close>

text \<open>
  C31. More strangers, more visits, an alert zone, the night or an escalation never lower the
  verdict: a sighting that differs from another in these five alone, and in each of them is not lower, is
  judged at least as dangerous. The mode, the severity of the rule, the company and the
  posture are those of the other, and in staff hours of an Away or Armed house the alert zone too.
\<close>

theorem evaluate_monotone:
  assumes "riskier c d"
  shows "evaluate c \<le> evaluate d"
proof (cases "assessed c")
  case True
  have risk: "inAlertZone c \<longrightarrow> inAlertZone d" "atNight c \<longrightarrow> atNight d" "escalated c \<longrightarrow> escalated d"
    "strangerCount c \<le> strangerCount d" "visitCount c \<le> visitCount d"
    "staffOnly c \<and> inAlertZone d \<and> \<not> inAlertZone c \<longrightarrow> mode c = Home \<or> mode c = Night"
    using assms by (auto simp: riskier_def)
  note same = riskier_fields [OF assms]
  have "hardFloor c \<le> hardFloor d"
    by (rule hardFloor_mono)
       (use risk in \<open>auto simp: same hardFloor_high hardFloor_critical\<close>)
  moreover have "soft_level c \<le> soft_level d"
    using risk by (auto simp: same soft_level_def danger_order)
  moreover have "assessed d"
    using True by (simp add: assessed_def same)
  moreover from calculation(1,2) have "max (soft_level c) (hardFloor c) \<le> max (soft_level d) (hardFloor d)"
    by (intro max.mono)
  ultimately show ?thesis
    using True by (simp add: evaluate_assessed same min.coboundedI1)
next
  case False
  have "visitCount c \<le> visitCount d" "inAlertZone c \<longrightarrow> inAlertZone d"
    using assms by (auto simp: riskier_def)
  with False show ?thesis
    by (cases "watchlist c"; cases "hasUnknown c"; cases "publicPresent c \<or> areaInUse c")
       (auto simp: evaluate_def assessed_def riskier_fields [OF assms] Let_def danger_order)
qed

theorem evaluate_monotone_witness:
  "evaluate (default_context\<lparr>hasUnknown := True\<rparr>) = Medium
   \<and> evaluate (default_context\<lparr>hasUnknown := True\<rparr>)
       \<le> evaluate (default_context\<lparr>hasUnknown := True, inAlertZone := True, visitCount := 4\<rparr>)"
  using evaluate_monotone [of "default_context\<lparr>hasUnknown := True\<rparr>"
      "default_context\<lparr>hasUnknown := True, inAlertZone := True, visitCount := 4\<rparr>"]
  by (simp add: riskier_def default_context_def policy_defs max_def danger_order)

text \<open>
  An expected guest never hides a serious sighting for good: what the guest's pass took
  off a verdict of High or Critical is kept in \<open>guestFloor\<close>, and taking the higher of the two
  gives back the verdict the sighting would have had without the pass.
\<close>

theorem guestFloor_restores:
  assumes "expectedGuest c" "High \<le> evaluate (c\<lparr>expectedGuest := False\<rparr>)"
  shows "evaluate c \<le> evaluate (c\<lparr>expectedGuest := False\<rparr>)
    \<and> max (evaluate c) (guestFloor c) = evaluate (c\<lparr>expectedGuest := False\<rparr>)"
proof -
  let ?u = "c\<lparr>expectedGuest := False\<rparr>"
  have le: "evaluate c \<le> evaluate ?u"
  proof (cases "assessed c")
    case True
    then have "assessed ?u" "hardFloor ?u = hardFloor c" "soft_level c \<le> soft_level ?u"
      by (simp_all add: assessed_def hardFloor_def soft_level_def danger_order)
    with True show ?thesis
      by (auto simp: evaluate_assessed le_max_iff_disj min_le_iff_disj max.coboundedI1)
  next
    case False
    then show ?thesis
      by (cases "watchlist c"; cases "hasUnknown c"; cases "publicPresent c \<or> areaInUse c")
         (simp_all add: evaluate_def assessed_def Let_def)
  qed
  then show ?thesis
    using assms by (auto simp: guestFloor_def Let_def dangerRank_def danger_order max_def guardDangerRank_inj)
qed

theorem guestFloor_restores_witness:
  "max (evaluate (default_context\<lparr>hasUnknown := True, inAlertZone := True, expectedGuest := True\<rparr>))
       (guestFloor (default_context\<lparr>hasUnknown := True, inAlertZone := True, expectedGuest := True\<rparr>))
     = Critical"
  using guestFloor_restores
    [of "default_context\<lparr>hasUnknown := True, inAlertZone := True, expectedGuest := True\<rparr>"]
  by (simp add: default_context_def policy_defs max_def danger_order)


text \<open>
  Every serious verdict is explained: a sighting judged High or worse has, among its
  reasons, one that raises the danger, unless it is the rule's own severity that raised it.
  No reason is given twice.
\<close>

theorem explain_justifies:
  assumes "High \<le> evaluate c"
  shows "distinct (explain c)
    \<and> (severity c = ''critical'' \<or> (\<exists>r. r \<in> set (explain c) \<and> guardReasonRaises r))"
proof
  show "distinct (explain c)"
    by (simp add: explain_def Let_def)
  show "severity c = ''critical'' \<or> (\<exists>r. r \<in> set (explain c) \<and> guardReasonRaises r)"
  proof (cases "watchlist c")
    case True
    then have "RWatchlist \<in> set (explain c)" by (simp add: explain_def Let_def)
    then show ?thesis by (auto simp: guardReasonRaises_def)
  next
    case False
    then have a: "assessed c"
      using assms evaluate_not_assessed [of c] by (cases "assessed c") (auto simp: danger_order)
    have "High \<le> max (soft_level c) (hardFloor c)"
      using assms by (auto simp: evaluate_assessed [OF a] simp del: le_max_iff_disj split: if_splits)
    then have "severity c = ''critical'' \<or> High \<le> hardFloor c"
      unfolding le_max_iff_disj soft_level_high by blast
    then show ?thesis
    proof
      assume "High \<le> hardFloor c"
      then show ?thesis
        unfolding hardFloor_high using explain_members [OF a] raising_reasons
        by (metis (no_types) guard_mode.exhaust)
    qed simp
  qed
qed

theorem explain_justifies_witness:
  "explain (default_context\<lparr>hasUnknown := True, mode := Away\<rparr>) = [RNobodyHome]
   \<and> (\<exists>r. r \<in> set (explain (default_context\<lparr>hasUnknown := True, mode := Away\<rparr>)) \<and> guardReasonRaises r)"
  using explain_justifies [of "default_context\<lparr>hasUnknown := True, mode := Away\<rparr>"]
  by (simp add: default_context_def policy_defs explain_def add_reason_def danger_order)

text \<open>
  C38. The watchlist is not only a floor. At home, a person of the watchlist in an alert zone
  is judged High, where the same stranger who is on no list is judged Critical: the branch
  returns its own level before the floors are looked at.
\<close>

theorem watchlist_lowers_alert_zone:
  "\<exists>c. \<not> watchlist c \<and> evaluate c = Critical \<and> evaluate (c\<lparr>watchlist := True\<rparr>) = High"
proof -
  let ?c = "default_context\<lparr>hasUnknown := True, inAlertZone := True\<rparr>"
  have "\<not> watchlist ?c \<and> evaluate ?c = Critical \<and> evaluate (?c\<lparr>watchlist := True\<rparr>) = High"
    by (simp add: default_context_def policy_defs max_def danger_order)
  then show ?thesis by blast
qed

text \<open>
  C32. Voice and alarm exactly. The house speaks when the danger is High or Critical and nobody
  who should not hear it is there: not the public, not the staff, not the family inside, not
  in a quiet area, and, when a weapon was seen, only in the modes Away and Armed in which nobody is
  at home. The alarm sounds when the house speaks, the danger is Critical and the mode is not Home;
  in the mode Away it needs a weapon, an alert zone or a second check of the encounter besides.
\<close>

theorem deterrence_safe:
  "(voice (deterrence i) \<longleftrightarrow>
      High \<le> d_danger i \<and> \<not> d_publicPresent i \<and> \<not> d_staffOnly i \<and> \<not> d_quietArea i \<and> \<not> d_familyInside i
      \<and> (d_weapon i \<longrightarrow> d_mode i = Away \<or> d_mode i = Armed))
   \<and> (alarm (deterrence i) \<longleftrightarrow>
      voice (deterrence i) \<and> d_danger i = Critical \<and> d_mode i \<noteq> Home
      \<and> (d_mode i = Away \<longrightarrow> d_weapon i \<or> d_inAlertZone i \<or> 2 \<le> d_encounterChecks i))"
  by (cases "d_mode i"; cases "d_danger i") (auto simp: deterrence_def Let_def dangerRank_def danger_order)

theorem deterrence_safe_witness:
  "alarm (deterrence \<lparr>d_mode = Away, d_danger = Critical, d_publicPresent = False, d_staffOnly = False,
      d_weapon = True, d_inAlertZone = False, d_encounterChecks = 0, d_quietArea = False, d_familyInside = False\<rparr>)
   \<and> \<not> voice (deterrence \<lparr>d_mode = Night, d_danger = Critical, d_publicPresent = False, d_staffOnly = False,
      d_weapon = True, d_inAlertZone = False, d_encounterChecks = 0, d_quietArea = False, d_familyInside = False\<rparr>)"
  using deterrence_safe [of "\<lparr>d_mode = Away, d_danger = Critical, d_publicPresent = False, d_staffOnly = False,
      d_weapon = True, d_inAlertZone = False, d_encounterChecks = 0, d_quietArea = False, d_familyInside = False\<rparr>"]
    deterrence_safe [of "\<lparr>d_mode = Night, d_danger = Critical, d_publicPresent = False, d_staffOnly = False,
      d_weapon = True, d_inAlertZone = False, d_encounterChecks = 0, d_quietArea = False, d_familyInside = False\<rparr>"]
  by (simp add: danger_order)

text \<open>
  Authorization follows the danger. Disarming the siren is always allowed; arming it needs
  the configured siren and a danger that would allow the alarm; what warns (notice,
  announcement, alarm, siren) stays authorized when the danger grows; and the house never
  speaks to somebody judged High or worse.
\<close>

theorem authorize_follows_danger:
  "(kind r = SirenDisarm \<longrightarrow> authorized (authorize cfg r))
   \<and> (kind r = SirenArm \<and> authorized (authorize cfg r)
        \<longrightarrow> armSiren cfg \<and> authorized (authorize cfg (r\<lparr>kind := Alarm\<rparr>)))
   \<and> (kind r \<in> {Notify, Announce, Alarm, SirenArm} \<and> authorized (authorize cfg r) \<and> danger r \<le> d
        \<longrightarrow> authorized (authorize cfg (r\<lparr>danger := d\<rparr>)))
   \<and> (kind r \<in> {Greet, Reply} \<and> authorized (authorize cfg r) \<longrightarrow> danger r < High)"
  by (cases "kind r")
     (auto simp: authorize_def decision_def Let_def danger_order split: if_splits)

theorem authorize_follows_danger_witness:
  "authorized (authorize \<lparr>notifyLevel = 2, announceLevel = 3, alarmLevel = 4, armSiren = True, dialogueEnabled = True\<rparr>
      \<lparr>kind = Notify, danger = Critical, greetingEnabled = True, replyRequested = True\<rparr>)"
  using authorize_follows_danger
    [where cfg = "\<lparr>notifyLevel = 2, announceLevel = 3, alarmLevel = 4, armSiren = True, dialogueEnabled = True\<rparr>"
      and r = "\<lparr>kind = Notify, danger = Medium, greetingEnabled = True, replyRequested = True\<rparr>" and d = Critical]
  by (simp add: authorize_def decision_def)

end
