(* ===== verification/Guard_Risk.thy ===== *)
theory Guard_Risk
  imports Guard_Vocabulary Text_Norm
begin

text \<open>
  What the vision model's words do to a verdict: the evidence of \<open>guard-risk.cc\<close> and the
  weapon lexicon of \<open>guard-weapon-lexicon.cc\<close>, which decides whether a caption asserts a weapon
  in somebody's hands. \<open>compose\<close> is the Unicode library behind \<open>text_norm::nfc\<close>.
\<close>

section \<open>Weapon lexicon\<close>

record token =
  word :: string
  sentence :: nat

definition kWeapons :: "string list" where
  "kWeapons =
     [''knife'', ''blade'', ''machete'', ''gun'', ''pistol'', ''rifle'', ''firearm'',
      ''cuchillo'', ''navaja'', ''arma'', ''pistola'', ''revolver'', ''escopeta'', ''fusil'']"

definition kNegations :: "string list" where
  "kNegations =
     [''no'', ''not'', ''never'', ''without'', ''none'', ''neither'', ''nor'',
      ''sin'', ''ni'', ''ningun'', ''ninguna'', ''ninguno'', ''tampoco'', ''jamas'']"

definition kNegationBarriers :: "string list" where
  "kNegationBarriers = [''but'', ''however'', ''although'', ''though'', ''yet'', ''pero'', ''aunque'']"

definition kExamples :: "string list" where
  "kExamples = [''like'', ''such'', ''as'', ''como'']"

definition kHedges :: "string list" where
  "kHedges =
     [''resemble'', ''resembles'', ''resembled'', ''resembling'', ''similar'',
      ''parece'', ''parecen'', ''parecia'', ''parecido'', ''parecida'']"

definition kDeterminers :: "string list" where
  "kDeterminers =
     [''a'', ''an'', ''the'', ''un'', ''una'', ''uno'', ''el'', ''la'', ''los'', ''las'', ''su'',
      ''sus'', ''his'', ''her'', ''their'', ''its'', ''my'', ''our'', ''your'', ''other'',
      ''otro'', ''otra'']"

definition kContactVerbs :: "string list" where
  "kContactVerbs =
     [''hold'', ''holds'', ''holding'', ''held'',
      ''carry'', ''carries'', ''carrying'', ''carried'',
      ''grip'', ''grips'', ''gripping'', ''gripped'',
      ''grasp'', ''grasps'', ''grasping'',
      ''wield'', ''wields'', ''wielding'',
      ''brandish'', ''brandishes'', ''brandishing'',
      ''clutch'', ''clutches'', ''clutching'',
      ''cut'', ''cuts'', ''cutting'',
      ''sostiene'', ''sostener'', ''sosteniendo'',
      ''sujeta'', ''sujetando'',
      ''agarra'', ''agarrando'',
      ''empuna'', ''empunando'',
      ''lleva'', ''llevar'', ''llevaba'', ''llevando'',
      ''porta'', ''portando'',
      ''esgrime'', ''blande'',
      ''corta'', ''cortar'', ''cortando'']"

definition kForwardVerbs :: "string list" where
  "kForwardVerbs = [''held'', ''carried'', ''gripped'', ''grasped'', ''clutched'']"

definition kInstruments :: "string list" where
  "kInstruments = [''with'', ''con'']"

definition kHands :: "string list" where
  "kHands = [''hand'', ''hands'', ''mano'', ''manos'']"

definition kHandPrepositions :: "string list" where
  "kHandPrepositions = [''in'', ''en'']"

fun listed :: "string list \<Rightarrow> string \<Rightarrow> bool" where
  "listed [] w = False"
| "listed (x # xs) w = (x = w \<or> listed xs w)"

definition is_sentence_end :: "char \<Rightarrow> bool" where
  "is_sentence_end c \<longleftrightarrow> c \<in> set ''.!?;:'' \<or> ccode c = 10"

fun tokenize_loop :: "string \<Rightarrow> token list \<Rightarrow> nat \<Rightarrow> bool \<Rightarrow> string \<Rightarrow> token list" where
  "tokenize_loop [] tokens sent boundary current =
     (if current \<noteq> [] then tokens @ [\<lparr>word = current, sentence = sent\<rparr>] else tokens)"
| "tokenize_loop (c # cs) tokens sent boundary current =
     (if ccode c \<ge> 128 \<or> isalnum c then
        tokenize_loop cs tokens (if boundary then sent + 1 else sent) False (current @ [ctolower c])
      else
        let tokens' = (if current \<noteq> [] then tokens @ [\<lparr>word = current, sentence = sent\<rparr>] else tokens)
        in tokenize_loop cs tokens' sent (boundary \<or> is_sentence_end c) [])"

definition tokenize :: "(string \<Rightarrow> string option) \<Rightarrow> string \<Rightarrow> token list" where
  "tokenize compose caption = tokenize_loop (stripAccents (nfc compose caption)) [] 0 False []"

definition ends_with :: "string \<Rightarrow> string \<Rightarrow> bool" where
  "ends_with w suffix \<longleftrightarrow> length suffix \<le> length w \<and> drop (length w - length suffix) w = suffix"

definition isWeaponWord :: "string \<Rightarrow> bool" where
  "isWeaponWord w \<longleftrightarrow>
     w = ''knives'' \<or> listed kWeapons w
     \<or> (ends_with w ''es'' \<and> listed kWeapons (take (length w - 2) w))
     \<or> (ends_with w ''s'' \<and> listed kWeapons (take (length w - 1) w))"

text \<open>The lambda of \<open>assertsWeaponAt\<close>: \<open>limit\<close> is its template argument.\<close>

fun headBeforeDeterminers :: "token list \<Rightarrow> nat \<Rightarrow> nat \<Rightarrow> nat \<Rightarrow> nat" where
  "headBeforeDeterminers tokens sent 0 at = at"
| "headBeforeDeterminers tokens sent (Suc limit) at =
     (if at > 0 \<and> sentence (tokens ! (at - 1)) = sent \<and> listed kDeterminers (word (tokens ! (at - 1)))
      then headBeforeDeterminers tokens sent limit (at - 1) else at)"

text \<open>The loops of \<open>assertsWeaponAt\<close>: a negation before, a hand after, a verb before and after.\<close>

fun negated_before :: "token list \<Rightarrow> nat \<Rightarrow> nat \<Rightarrow> bool" where
  "negated_before tokens sent 0 = False"
| "negated_before tokens sent (Suc at) =
     (if sentence (tokens ! at) \<noteq> sent then False
      else if listed kNegationBarriers (word (tokens ! at)) then False
      else if listed kNegations (word (tokens ! at)) then True
      else negated_before tokens sent at)"

fun hand_among :: "token list \<Rightarrow> nat \<Rightarrow> nat list \<Rightarrow> bool" where
  "hand_among tokens sent [] = False"
| "hand_among tokens sent (hand # rest) =
     (if sentence (tokens ! hand) \<noteq> sent then False
      else if listed kHands (word (tokens ! hand)) then True
      else hand_among tokens sent rest)"

fun in_hand_after :: "token list \<Rightarrow> nat \<Rightarrow> nat list \<Rightarrow> bool" where
  "in_hand_after tokens sent [] = False"
| "in_hand_after tokens sent (at # rest) =
     (if sentence (tokens ! at) \<noteq> sent then False
      else if \<not> listed kHandPrepositions (word (tokens ! at)) then in_hand_after tokens sent rest
      else if hand_among tokens sent rest then True
      else in_hand_after tokens sent rest)"

fun contact_before :: "token list \<Rightarrow> nat \<Rightarrow> nat \<Rightarrow> nat \<Rightarrow> bool" where
  "contact_before tokens sent 0 seen = False"
| "contact_before tokens sent (Suc at) seen =
     (if sentence (tokens ! at) \<noteq> sent \<or> seen \<ge> 5 then False
      else if listed kContactVerbs (word (tokens ! at)) then True
      else contact_before tokens sent at
             (if \<not> listed kDeterminers (word (tokens ! at)) then seen + 1 else seen))"

fun forward_verb :: "token list \<Rightarrow> nat \<Rightarrow> nat list \<Rightarrow> bool" where
  "forward_verb tokens sent [] = False"
| "forward_verb tokens sent (at # rest) =
     (if sentence (tokens ! at) \<noteq> sent then False
      else if listed kForwardVerbs (word (tokens ! at)) then True
      else forward_verb tokens sent rest)"

definition assertsWeaponAt :: "token list \<Rightarrow> nat \<Rightarrow> bool" where
  "assertsWeaponAt tokens index =
     (let sent = sentence (tokens ! index);
          head = headBeforeDeterminers tokens sent 2 index;
          handEnd = min (length tokens) (index + 6);
          instrumentHead = headBeforeDeterminers tokens sent 1 index;
          forwardEnd = min (length tokens) (index + 3)
      in if negated_before tokens sent index then False
         else if head > 0 \<and> sentence (tokens ! (head - 1)) = sent
           \<and> (listed kExamples (word (tokens ! (head - 1))) \<or> listed kHedges (word (tokens ! (head - 1))))
         then False
         else if index + 1 < length tokens \<and> sentence (tokens ! (index + 1)) = sent
           \<and> (word (tokens ! (index + 1)) = ''like'' \<or> word (tokens ! (index + 1)) = ''shaped'')
         then False
         else if in_hand_after tokens sent [index + 1..<handEnd] then True
         else if contact_before tokens sent index 0 then True
         else if instrumentHead > 0 \<and> sentence (tokens ! (instrumentHead - 1)) = sent
           \<and> listed kInstruments (word (tokens ! (instrumentHead - 1)))
         then True
         else forward_verb tokens sent [index + 1..<forwardEnd])"

definition captionAssertsWeapon :: "(string \<Rightarrow> string option) \<Rightarrow> string \<Rightarrow> bool" where
  "captionAssertsWeapon compose caption =
     (let tokens = tokenize compose caption
      in list_ex (\<lambda>index. isWeaponWord (word (tokens ! index)) \<and> assertsWeaponAt tokens index)
           [0..<length tokens])"

section \<open>Evidence\<close>

datatype risk_evidence =
  ConcealedFace | AttemptingDoor | RaisedObject | Aggressive | FollowingResident | CarryingBox
  | Loitering | CalmDeliveryReply | UnintelligibleReply | Weapon

definition kRaiseThreshold :: int where "kRaiseThreshold = 3"
definition kSoftThreshold :: int where "kSoftThreshold = 1"

definition evidenceFromTag :: "string \<Rightarrow> risk_evidence option" where
  "evidenceFromTag tag =
     (if tag = ''concealed_face'' \<or> tag = ''masked'' then Some ConcealedFace
      else if tag = ''attempting_door'' \<or> tag = ''trying_door'' then Some AttemptingDoor
      else if tag = ''weapon'' \<or> tag = ''weapon_like'' \<or> tag = ''knife'' \<or> tag = ''gun''
        \<or> tag = ''firearm'' then Some Weapon
      else if tag = ''raised_object'' then Some RaisedObject
      else if tag = ''aggressive'' \<or> tag = ''aggression'' then Some Aggressive
      else if tag = ''following_resident'' then Some FollowingResident
      else if tag = ''carrying_box'' \<or> tag = ''delivery'' then Some CarryingBox
      else if tag = ''loitering'' then Some Loitering
      else if tag = ''calm_delivery_reply'' \<or> tag = ''delivery_reply'' then Some CalmDeliveryReply
      else if tag = ''unintelligible_reply'' then Some UnintelligibleReply
      else None)"

fun isRaisingEvidence :: "risk_evidence \<Rightarrow> bool" where
  "isRaisingEvidence ConcealedFace = True"
| "isRaisingEvidence AttemptingDoor = True"
| "isRaisingEvidence RaisedObject = True"
| "isRaisingEvidence Aggressive = True"
| "isRaisingEvidence FollowingResident = True"
| "isRaisingEvidence Loitering = True"
| "isRaisingEvidence Weapon = True"
| "isRaisingEvidence CarryingBox = False"
| "isRaisingEvidence CalmDeliveryReply = False"
| "isRaisingEvidence UnintelligibleReply = False"

fun evidenceScore :: "risk_evidence \<Rightarrow> int" where
  "evidenceScore Weapon = 4"
| "evidenceScore AttemptingDoor = 3"
| "evidenceScore RaisedObject = 3"
| "evidenceScore ConcealedFace = 2"
| "evidenceScore Aggressive = 2"
| "evidenceScore FollowingResident = 2"
| "evidenceScore Loitering = 1"
| "evidenceScore CarryingBox = 0"
| "evidenceScore CalmDeliveryReply = 0"
| "evidenceScore UnintelligibleReply = 0"

fun evidenceToString :: "risk_evidence \<Rightarrow> string" where
  "evidenceToString ConcealedFace = ''concealed_face''"
| "evidenceToString AttemptingDoor = ''attempting_door''"
| "evidenceToString RaisedObject = ''raised_object''"
| "evidenceToString Aggressive = ''aggressive''"
| "evidenceToString FollowingResident = ''following_resident''"
| "evidenceToString CarryingBox = ''carrying_box''"
| "evidenceToString Loitering = ''loitering''"
| "evidenceToString CalmDeliveryReply = ''calm_delivery_reply''"
| "evidenceToString UnintelligibleReply = ''unintelligible_reply''"
| "evidenceToString Weapon = ''weapon''"

record guard_risk_input =
  floor_level :: guard_danger
  threat :: string
  tags :: "string list"
  caption :: string
  risk_hardFloor :: bool

record guard_risk_result =
  risk_danger :: guard_danger
  risk_score :: int
  weapon :: bool
  appliedTags :: "string list"

record guest_pass_input =
  pass_threat :: string
  pass_tags :: "string list"

definition applyEvidence :: "guard_risk_result \<Rightarrow> risk_evidence \<Rightarrow> guard_risk_result" where
  "applyEvidence result evidence =
     (let name = evidenceToString evidence
      in if name \<in> set (appliedTags result) then result
         else result\<lparr>appliedTags := appliedTags result @ [name],
                     risk_score := risk_score result + evidenceScore evidence,
                     weapon := weapon result \<or> evidence = Weapon\<rparr>)"

definition apply_tag :: "guard_risk_result \<Rightarrow> string \<Rightarrow> guard_risk_result" where
  "apply_tag result tag =
     (case evidenceFromTag tag of None \<Rightarrow> result | Some evidence \<Rightarrow> applyEvidence result evidence)"

definition gatherEvidence :: "(string \<Rightarrow> string option) \<Rightarrow> guard_risk_input \<Rightarrow> guard_risk_result" where
  "gatherEvidence compose input =
     (let result = foldl apply_tag
            \<lparr>risk_danger = floor_level input, risk_score = 0, weapon = False, appliedTags = []\<rparr>
            (tags input)
      in if captionAssertsWeapon compose (caption input) then applyEvidence result Weapon else result)"

definition sustained_threat :: "string \<Rightarrow> bool" where
  "sustained_threat t \<longleftrightarrow> t = ''medium'' \<or> t = ''high'' \<or> t = ''critical''"

definition mergeEvidence :: "(string \<Rightarrow> string option) \<Rightarrow> guard_risk_input \<Rightarrow> guard_risk_result" where
  "mergeEvidence compose input =
     (let result = gatherEvidence compose input;
          sustainedThreat = sustained_threat (threat input)
      in if weapon result \<and> sustainedThreat then result\<lparr>risk_danger := Critical\<rparr>
         else let result = result\<lparr>weapon := False\<rparr>
           in if risk_hardFloor input \<or> risk_score result \<le> 0 \<or> \<not> sustainedThreat then result
              else let rank = guardDangerRank (risk_danger result)
                in if risk_score result \<ge> kRaiseThreshold \<and> rank < guardDangerRank High
                   then result\<lparr>risk_danger := High\<rparr>
                   else if risk_score result \<ge> kSoftThreshold \<and> rank < guardDangerRank Medium
                   then result\<lparr>risk_danger := Medium\<rparr>
                   else result)"

definition revokesGuestPass :: "guest_pass_input \<Rightarrow> bool" where
  "revokesGuestPass input =
     (if pass_threat input = ''high'' \<or> pass_threat input = ''critical'' then True
      else list_ex (\<lambda>tag. case evidenceFromTag tag of None \<Rightarrow> False
                    | Some evidence \<Rightarrow> evidenceScore evidence \<ge> kRaiseThreshold) (pass_tags input))"

section \<open>Lemmas\<close>

lemma evidenceToString_inj: "evidenceToString a = evidenceToString b \<longleftrightarrow> a = b"
  by (cases a; cases b) simp_all

lemma evidenceScore_nonneg: "0 \<le> evidenceScore e"
  by (cases e) simp_all

text \<open>\<open>gathered E r\<close>: the result \<open>r\<close> accounts for exactly the evidence in \<open>E\<close>.\<close>

definition gathered :: "risk_evidence set \<Rightarrow> guard_risk_result \<Rightarrow> bool" where
  "gathered E r \<longleftrightarrow> finite E \<and> set (appliedTags r) = evidenceToString ` E \<and> distinct (appliedTags r)
     \<and> risk_score r = sum evidenceScore E \<and> (weapon r \<longleftrightarrow> Weapon \<in> E)"

lemma gathered_apply: "gathered E r \<Longrightarrow> gathered (insert e E) (applyEvidence r e)"
proof -
  assume g: "gathered E r"
  have mem: "evidenceToString e \<in> evidenceToString ` E \<longleftrightarrow> e \<in> E"
    by (auto simp: evidenceToString_inj)
  from g mem show ?thesis
    by (cases "e \<in> E") (auto simp: gathered_def applyEvidence_def Let_def insert_absorb)
qed

definition tag_evidence :: "string list \<Rightarrow> risk_evidence set" where
  "tag_evidence ts = {e. Some e \<in> evidenceFromTag ` set ts}"

lemma gathered_tags: "gathered E r \<Longrightarrow> gathered (E \<union> tag_evidence ts) (foldl apply_tag r ts)"
proof (induction ts arbitrary: E r)
  case (Cons t ts)
  show ?case
  proof (cases "evidenceFromTag t")
    case None
    then have "tag_evidence (t # ts) = tag_evidence ts"
      by (auto simp: tag_evidence_def)
    with Cons None show ?thesis by (simp add: apply_tag_def)
  next
    case (Some e)
    then have "E \<union> tag_evidence (t # ts) = insert e E \<union> tag_evidence ts"
      by (auto simp: tag_evidence_def)
    with Cons.IH [OF gathered_apply [OF Cons.prems]] Some show ?thesis
      by (simp add: apply_tag_def)
  qed
qed (simp add: tag_evidence_def)

definition all_evidence :: "(string \<Rightarrow> string option) \<Rightarrow> guard_risk_input \<Rightarrow> risk_evidence set" where
  "all_evidence compose i =
     tag_evidence (tags i) \<union> (if captionAssertsWeapon compose (caption i) then {Weapon} else {})"

lemma gathered_all: "gathered (all_evidence compose i) (gatherEvidence compose i)"
proof -
  have "gathered {} \<lparr>risk_danger = floor_level i, risk_score = 0, weapon = False, appliedTags = []\<rparr>"
    by (simp add: gathered_def)
  from gathered_tags [OF this, of "tags i"] gathered_apply show ?thesis
    by (fastforce simp: all_evidence_def gatherEvidence_def Let_def)
qed

lemma foldl_apply_tag_danger: "risk_danger (foldl apply_tag r ts) = risk_danger r"
  by (induction ts arbitrary: r)
     (auto simp: apply_tag_def applyEvidence_def Let_def split: option.splits)

lemma gatherEvidence_danger: "risk_danger (gatherEvidence compose i) = floor_level i"
  by (simp add: gatherEvidence_def Let_def foldl_apply_tag_danger applyEvidence_def)

text \<open>A negation earlier in the sentence of token \<open>i\<close>, with no barrier from there to it.\<close>

definition negated_at :: "token list \<Rightarrow> nat \<Rightarrow> bool" where
  "negated_at ts i \<longleftrightarrow>
     (\<exists>j < i. listed kNegations (word (ts ! j))
        \<and> (\<forall>k. j \<le> k \<and> k < i \<longrightarrow> sentence (ts ! k) = sentence (ts ! i)
             \<and> \<not> listed kNegationBarriers (word (ts ! k))))"

lemma negated_before_iff:
  assumes "j < n" "sentence (tokens ! j) = sent" "listed kNegations (word (tokens ! j))"
    and "\<And>k. j \<le> k \<Longrightarrow> k < n \<Longrightarrow> sentence (tokens ! k) = sent \<and> \<not> listed kNegationBarriers (word (tokens ! k))"
  shows "negated_before tokens sent n"
  using assms
proof (induction n)
  case (Suc n)
  then show ?case
    by (cases "j = n") (auto simp: less_Suc_eq)
qed simp


section \<open>Properties\<close>

text \<open>
  C33. Evidence only raises a verdict. The result is never below the floor it started from; the
  score is the sum over the distinct pieces of evidence in the tags and the caption, each
  named once; a weapon under a sustained threat makes the verdict Critical, even on a hard
  floor, and is reported only then; strong evidence under a sustained threat makes it at least
  High; and without a sustained threat the verdict is the floor.
\<close>

theorem mergeEvidence_raises:
  "floor_level i \<le> risk_danger (mergeEvidence compose i)
   \<and> risk_score (mergeEvidence compose i) = sum evidenceScore (all_evidence compose i)
   \<and> distinct (appliedTags (mergeEvidence compose i))
   \<and> (weapon (mergeEvidence compose i) \<longleftrightarrow> Weapon \<in> all_evidence compose i \<and> sustained_threat (threat i))
   \<and> (weapon (mergeEvidence compose i) \<longrightarrow> risk_danger (mergeEvidence compose i) = Critical)
   \<and> (\<not> sustained_threat (threat i) \<longrightarrow> risk_danger (mergeEvidence compose i) = floor_level i)
   \<and> (sustained_threat (threat i) \<and> \<not> risk_hardFloor i \<and> 3 \<le> sum evidenceScore (all_evidence compose i)
        \<longrightarrow> High \<le> risk_danger (mergeEvidence compose i))"
  using gathered_all [of compose i] gatherEvidence_danger [of compose i]
  by (cases "floor_level i")
     (auto simp: mergeEvidence_def Let_def gathered_def danger_order kRaiseThreshold_def kSoftThreshold_def)

theorem mergeEvidence_raises_witness:
  "risk_danger (mergeEvidence Some \<lparr>floor_level = Low, threat = ''high'', tags = [''trying_door''],
      caption = [], risk_hardFloor = False\<rparr>) \<ge> High"
proof -
  let ?i = "\<lparr>floor_level = Low, threat = ''high'', tags = [''trying_door''], caption = [], risk_hardFloor = False\<rparr>"
  have "\<not> captionAssertsWeapon Some []"
    by code_simp
  then have "all_evidence Some ?i = {AttemptingDoor}"
    by (auto simp: all_evidence_def tag_evidence_def evidenceFromTag_def)
  then show ?thesis
    using mergeEvidence_raises [of ?i Some] by (simp add: sustained_threat_def)
qed

text \<open>
  The verdict depends on which evidence there is, not on how it is tagged: the order of
  the tags, repeated tags and synonyms of a tag change neither the verdict nor the score.
\<close>

theorem mergeEvidence_order_free:
  assumes "all_evidence compose i = all_evidence compose j" "threat i = threat j"
    "floor_level i = floor_level j" "risk_hardFloor i = risk_hardFloor j"
  shows "risk_danger (mergeEvidence compose i) = risk_danger (mergeEvidence compose j)
    \<and> risk_score (mergeEvidence compose i) = risk_score (mergeEvidence compose j)
    \<and> weapon (mergeEvidence compose i) = weapon (mergeEvidence compose j)"
proof -
  have "risk_score (gatherEvidence compose i) = risk_score (gatherEvidence compose j)"
    "weapon (gatherEvidence compose i) = weapon (gatherEvidence compose j)"
    using gathered_all [of compose i] gathered_all [of compose j] assms(1)
    by (simp_all add: gathered_def)
  then show ?thesis
    using assms(2-) gatherEvidence_danger [of compose i] gatherEvidence_danger [of compose j]
    by (simp add: mergeEvidence_def Let_def)
qed

theorem mergeEvidence_order_free_witness:
  "risk_danger (mergeEvidence Some \<lparr>floor_level = Low, threat = ''high'', tags = [''masked'', ''gun'', ''knife''],
      caption = [], risk_hardFloor = False\<rparr>)
   = risk_danger (mergeEvidence Some \<lparr>floor_level = Low, threat = ''high'', tags = [''weapon'', ''concealed_face''],
      caption = [], risk_hardFloor = False\<rparr>)"
  using mergeEvidence_order_free [of Some
      "\<lparr>floor_level = Low, threat = ''high'', tags = [''masked'', ''gun'', ''knife''], caption = [], risk_hardFloor = False\<rparr>"
      "\<lparr>floor_level = Low, threat = ''high'', tags = [''weapon'', ''concealed_face''], caption = [], risk_hardFloor = False\<rparr>"]
  by (simp add: all_evidence_def tag_evidence_def evidenceFromTag_def insert_commute)

text \<open>
  A negated weapon is no weapon: when every weapon word of a caption has a negation before
  it in its sentence with no "but" in between, the caption asserts no weapon, whatever verbs
  and hands it mentions.
\<close>

theorem negation_wins:
  assumes "\<And>i. i < length (tokenize compose cap) \<Longrightarrow> isWeaponWord (word (tokenize compose cap ! i)) \<Longrightarrow>
    negated_at (tokenize compose cap) i"
  shows "\<not> captionAssertsWeapon compose cap"
proof -
  let ?ts = "tokenize compose cap"
  have "\<not> assertsWeaponAt ?ts i" if "i < length ?ts" "isWeaponWord (word (?ts ! i))" for i
  proof -
    have "negated_at ?ts i" using assms that by blast
    then obtain j where j: "j < i" "listed kNegations (word (?ts ! j))"
      "\<forall>k. j \<le> k \<and> k < i \<longrightarrow> sentence (?ts ! k) = sentence (?ts ! i)
         \<and> \<not> listed kNegationBarriers (word (?ts ! k))"
      unfolding negated_at_def by blast
    have "negated_before ?ts (sentence (?ts ! i)) i"
      by (rule negated_before_iff [of j]) (use j in auto)
    then show ?thesis
      by (simp add: assertsWeaponAt_def Let_def)
  qed
  then show ?thesis
    by (auto simp: captionAssertsWeapon_def Let_def list_ex_iff)
qed

theorem negation_wins_witness:
  "isWeaponWord ''knife'' \<and> \<not> captionAssertsWeapon Some ''No knife in hand''
   \<and> captionAssertsWeapon Some ''A knife in hand''"
proof -
  have t: "tokenize Some ''No knife in hand'' =
      [\<lparr>word = ''no'', sentence = 0\<rparr>, \<lparr>word = ''knife'', sentence = 0\<rparr>,
       \<lparr>word = ''in'', sentence = 0\<rparr>, \<lparr>word = ''hand'', sentence = 0\<rparr>]"
    by code_simp
  have "\<not> isWeaponWord ''no'' \<and> \<not> isWeaponWord ''in'' \<and> \<not> isWeaponWord ''hand''"
    "listed kNegations ''no''" "\<not> listed kNegationBarriers ''no''"
    by code_simp+
  then have "\<not> captionAssertsWeapon Some ''No knife in hand''"
    by (intro negation_wins) (auto simp: t negated_at_def less_Suc_eq numeral_eq_Suc intro!: exI [of _ 0])
  moreover have "isWeaponWord ''knife''" "captionAssertsWeapon Some ''A knife in hand''"
    by code_simp+
  ultimately show ?thesis by blast
qed

end
