(* ===== verification/Guard_Schedule.thy ===== *)
theory Guard_Schedule
  imports Guard_Vocabulary Decimal
begin

text \<open>
  The weekly schedule of a house or shop, \<open>guard-schedule.cc\<close>: the grammar of the windows, the
  posture they give at a local time, and the quiet hours. A \<open>std::tm\<close> is the record of the
  three fields the code reads; a mask of days is the byte the code keeps.
\<close>

section \<open>Data\<close>

record guard_window =
  days :: byte
  startMinute :: int
  endMinute :: int

record guard_schedule =
  enabled :: bool
  asleep :: "guard_window list"
  open_windows :: "guard_window list"
  staffed :: "guard_window list"
  closedMode :: guard_mode

record guard_posture =
  p_mode :: guard_mode
  p_publicPresent :: bool
  p_staffOnly :: bool
  occupancy :: string

record local_time =
  tm_hour :: int
  tm_min :: int
  tm_wday :: int

record guard_schedule_config =
  sc_enabled :: bool
  sc_asleep :: string
  sc_open :: string
  sc_staffed :: string
  sc_closedMode :: string

datatype environment_kind = EHome | EOffice | ECommercial | ERestaurant | EWarehouse | EOutdoor

record guard_environment =
  env_id :: int
  env_name :: string
  env_kind :: environment_kind
  isDefault :: bool
  env_mode :: guard_mode
  modeUpdatedAt :: int
  scheduleEnabled :: bool
  env_asleep :: string
  env_open :: string
  env_staffed :: string
  env_closedMode :: guard_mode
  digestHour :: int
  quietPolicy :: quiet_policy
  quietStartHour :: int
  quietEndHour :: int
  lanPresence :: bool
  createdAt :: int
  updatedAt :: int

text \<open>The fields of \<open>GuardServiceConfig\<close> that the schedule reads.\<close>

record guard_service_config =
  profile :: string
  defaultMode :: guard_mode
  schedule :: guard_schedule_config
  notifyLang :: string
  cfg_digestHour :: int
  quietHoursEnabled :: bool
  cfg_quietStartHour :: int
  cfg_quietEndHour :: int

record quiet_window =
  quiet_enabled :: bool
  startHour :: int
  endHour :: int

section \<open>The grammar of windows\<close>

definition kDays :: "string list" where
  "kDays = [''sun'', ''mon'', ''tue'', ''wed'', ''thu'', ''fri'', ''sat'']"

definition is_trimmed_char :: "char \<Rightarrow> bool" where
  "is_trimmed_char c \<longleftrightarrow> ccode c = 32 \<or> ccode c = 9"

definition trim :: "string \<Rightarrow> string" where
  "trim s = rev (dropWhile is_trimmed_char (rev (dropWhile is_trimmed_char s)))"

fun day_index_from :: "string list \<Rightarrow> string \<Rightarrow> nat \<Rightarrow> nat option" where
  "day_index_from [] name i = None"
| "day_index_from (d # ds) name i = (if d = name then Some i else day_index_from ds name (i + 1))"

definition dayIndex :: "string \<Rightarrow> nat option" where
  "dayIndex name = day_index_from kDays name 0"

text \<open>
  The loop over a range of days. \<open>dayIndex\<close> gives days below 7; the last two tests make the
  recursion total and do not fire on them.
\<close>

function days_loop :: "nat \<Rightarrow> nat \<Rightarrow> byte \<Rightarrow> byte" where
  "days_loop day lastDay dayMask =
     (let dayMask' = dayMask OR push_bit day 1
      in if day = lastDay \<or> 7 \<le> day \<or> 7 \<le> lastDay then dayMask'
         else days_loop ((day + 1) mod 7) lastDay dayMask')"
  by pat_completeness auto
termination
proof (relation "measure (\<lambda>(day, lastDay, _). if day \<le> lastDay then lastDay - day else lastDay + 7 - day)", goal_cases)
  case (2 day lastDay dayMask x)
  then show ?case
    by (cases "day = 6") auto
qed simp

declare days_loop.simps [simp del]

definition parseDays :: "string \<Rightarrow> byte option" where
  "parseDays s =
     (case find_char CHR ''-'' s of
        None \<Rightarrow> (case dayIndex s of None \<Rightarrow> None | Some day \<Rightarrow> Some (push_bit day 1))
      | Some dash \<Rightarrow>
          (case (dayIndex (take dash s), dayIndex (drop (dash + 1) s)) of
             (Some first, Some lastDay) \<Rightarrow> Some (days_loop first lastDay 0)
           | _ \<Rightarrow> None))"

definition parseClock :: "string \<Rightarrow> int option" where
  "parseClock s =
     (if length s \<noteq> 5 \<or> s ! 2 \<noteq> CHR '':'' then None
      else if \<not> is_cdigit (s ! 0) \<or> \<not> is_cdigit (s ! 1) \<or> \<not> is_cdigit (s ! 3) \<or> \<not> is_cdigit (s ! 4)
      then None
      else let hours = digit_value (s ! 0) * 10 + digit_value (s ! 1);
               minutes = digit_value (s ! 3) * 10 + digit_value (s ! 4)
        in if hours > 24 \<or> minutes > 59 \<or> (hours = 24 \<and> minutes \<noteq> 0) then None
           else Some (hours * 60 + minutes))"

definition parse_span :: "byte \<Rightarrow> string \<Rightarrow> guard_window option" where
  "parse_span dayMask s =
     (case find_char CHR ''-'' s of None \<Rightarrow> None
      | Some dash \<Rightarrow>
          (case (parseClock (trim (take dash s)), parseClock (trim (drop (dash + 1) s))) of
             (Some start, Some end') \<Rightarrow>
               if start = end' then None
               else Some \<lparr>days = dayMask, startMinute = start, endMinute = end'\<rparr>
           | _ \<Rightarrow> None))"

definition parseWindow :: "string \<Rightarrow> guard_window option" where
  "parseWindow s =
     (let s' = trim s
      in case find_char CHR '' '' s' of
           None \<Rightarrow> parse_span 0x7F s'
         | Some space \<Rightarrow>
             (case parseDays (trim (take space s')) of None \<Rightarrow> None
              | Some dayMask \<Rightarrow> parse_span dayMask (trim (drop (space + 1) s'))))"

text \<open>\<open>rest.substr(0, comma)\<close> with \<open>npos\<close> is all of it.\<close>

definition first_part :: "string \<Rightarrow> string" where
  "first_part rest = (case find_char CHR '','' rest of None \<Rightarrow> rest | Some comma \<Rightarrow> take comma rest)"

lemma find_char_lt: "find_char c s = Some n \<Longrightarrow> n < length s"
  by (rule find_char_Some)

function parseWindows :: "string \<Rightarrow> guard_window list" where
  "parseWindows rest =
     (if rest = [] then []
      else (case parseWindow (first_part rest) of None \<Rightarrow> [] | Some window \<Rightarrow> [window])
        @ (case find_char CHR '','' rest of None \<Rightarrow> []
           | Some comma \<Rightarrow> parseWindows (drop (comma + 1) rest)))"
  by pat_completeness auto
termination
  by (relation "measure length") (auto dest: find_char_lt)

declare parseWindows.simps [simp del]

function valid_windows_loop :: "string \<Rightarrow> bool" where
  "valid_windows_loop rest =
     (if parseWindow (first_part rest) = None then False
      else case find_char CHR '','' rest of None \<Rightarrow> True
        | Some comma \<Rightarrow> valid_windows_loop (drop (comma + 1) rest))"
  by pat_completeness auto
termination
  by (relation "measure length") (auto dest: find_char_lt)

declare valid_windows_loop.simps [simp del]

definition validWindows :: "string \<Rightarrow> bool" where
  "validWindows spec = (if trim spec = [] then True else valid_windows_loop spec)"

definition parse_schedule :: "guard_schedule_config \<Rightarrow> guard_schedule" where
  "parse_schedule spec =
     \<lparr>enabled = sc_enabled spec, asleep = parseWindows (sc_asleep spec),
      open_windows = parseWindows (sc_open spec), staffed = parseWindows (sc_staffed spec),
      closedMode = if sc_closedMode spec = ''armed'' then Armed else Away\<rparr>"

section \<open>Posture\<close>

definition dayIn :: "byte \<Rightarrow> int \<Rightarrow> bool" where
  "dayIn dayMask day \<longleftrightarrow> (ucast dayMask AND push_bit (nat (tmod (tmod day 7 + 7) 7)) 1 :: u32) \<noteq> 0"

definition window_matches :: "guard_window \<Rightarrow> int \<Rightarrow> int \<Rightarrow> bool" where
  "window_matches window day minute =
     (if startMinute window < endMinute window
      then dayIn (days window) day \<and> minute \<ge> startMinute window \<and> minute < endMinute window
      else (dayIn (days window) day \<and> minute \<ge> startMinute window)
        \<or> (dayIn (days window) (day - 1) \<and> minute < endMinute window))"

definition inWindows :: "guard_window list \<Rightarrow> local_time \<Rightarrow> bool" where
  "inWindows ws loc =
     (let minute = tm_hour loc * 60 + tm_min loc; day = tm_wday loc
      in list_ex (\<lambda>window. window_matches window day minute) ws)"

definition posture :: "guard_mode \<Rightarrow> bool \<Rightarrow> bool \<Rightarrow> string \<Rightarrow> guard_posture" where
  "posture m public staff occ =
     \<lparr>p_mode = m, p_publicPresent = public, p_staffOnly = staff, occupancy = occ\<rparr>"

definition resolve :: "guard_schedule \<Rightarrow> guard_mode \<Rightarrow> local_time \<Rightarrow> guard_posture" where
  "resolve sched manual loc =
     (if \<not> enabled sched then posture manual False False ''manual''
      else if manual = Armed then posture Armed False False ''armed''
      else if inWindows (open_windows sched) loc then posture Home True False ''open''
      else if inWindows (staffed sched) loc then posture Home False True ''staffed''
      else if open_windows sched \<noteq> [] \<or> staffed sched \<noteq> []
      then posture (closedMode sched) False False ''closed''
      else if manual = Home \<and> inWindows (asleep sched) loc then posture Night False False ''asleep''
      else posture manual False False ''manual'')"

definition kEnvironmentKindNames :: "(string \<times> environment_kind) list" where
  "kEnvironmentKindNames =
     [(''home'', EHome), (''office'', EOffice), (''commercial'', ECommercial),
      (''restaurant'', ERestaurant), (''warehouse'', EWarehouse), (''outdoor'', EOutdoor)]"

definition environmentKindFromString :: "string \<Rightarrow> environment_kind option" where
  "environmentKindFromString value = map_of kEnvironmentKindNames value"

definition lang_prefix :: "string \<Rightarrow> string" where
  "lang_prefix value = map ctolower (take 2 value)"

definition normalizeLang :: "string \<Rightarrow> string \<Rightarrow> string" where
  "normalizeLang requested fallback =
     (let code = lang_prefix requested
      in if code = ''es'' \<or> code = ''en'' then code
         else if lang_prefix fallback = ''en'' then ''en'' else ''es'')"

text \<open>The accented letter of the Spanish warehouse is its two bytes of UTF-8.\<close>

definition environmentDefaultName :: "environment_kind \<Rightarrow> string \<Rightarrow> string" where
  "environmentDefaultName kind lang =
     (let english = normalizeLang lang ''es'' = ''en''
      in case kind of
           EHome \<Rightarrow> if english then ''Home'' else ''Casa''
         | EOffice \<Rightarrow> if english then ''Office'' else ''Oficina''
         | ECommercial \<Rightarrow> if english then ''Shop'' else ''Local''
         | ERestaurant \<Rightarrow> if english then ''Restaurant'' else ''Restaurante''
         | EWarehouse \<Rightarrow> if english then ''Warehouse'' else ''Almac'' @ [CHR 0xC3, CHR 0xA9] @ ''n''
         | EOutdoor \<Rightarrow> if english then ''Outdoors'' else ''Exterior'')"

definition environmentSeed :: "guard_service_config \<Rightarrow> guard_environment" where
  "environmentSeed config =
     (let kind = (case environmentKindFromString (profile config) of None \<Rightarrow> EHome | Some k \<Rightarrow> k)
      in \<lparr>env_id = 0, env_name = environmentDefaultName kind (notifyLang config), env_kind = kind,
          isDefault = True, env_mode = defaultMode config, modeUpdatedAt = 0,
          scheduleEnabled = sc_enabled (schedule config), env_asleep = sc_asleep (schedule config),
          env_open = sc_open (schedule config), env_staffed = sc_staffed (schedule config),
          env_closedMode = (if sc_closedMode (schedule config) = ''armed'' then Armed else Away),
          digestHour = cfg_digestHour config, quietPolicy = QuietInherit,
          quietStartHour = cfg_quietStartHour config, quietEndHour = cfg_quietEndHour config,
          lanPresence = True, createdAt = 0, updatedAt = 0\<rparr>)"

definition fromEnvironment :: "guard_environment \<Rightarrow> guard_schedule" where
  "fromEnvironment env =
     parse_schedule \<lparr>sc_enabled = scheduleEnabled env, sc_asleep = env_asleep env,
       sc_open = env_open env, sc_staffed = env_staffed env,
       sc_closedMode = if env_closedMode env = Armed then ''armed'' else ''away''\<rparr>"

definition fingerprint :: "guard_posture \<Rightarrow> string" where
  "fingerprint p =
     guardModeToString (p_mode p) @ [CHR ''|''] @ occupancy p
       @ (if p_publicPresent p then ''|1'' else ''|0'') @ (if p_staffOnly p then ''|1'' else ''|0'')"

definition stateKey :: "int \<Rightarrow> string" where
  "stateKey environmentId = ''posture.'' @ to_string environmentId"

section \<open>Quiet hours\<close>

definition quietWindow :: "guard_environment \<Rightarrow> guard_service_config \<Rightarrow> quiet_window" where
  "quietWindow env config =
     (case quietPolicy env of
        QuietOff \<Rightarrow> \<lparr>quiet_enabled = False, startHour = 0, endHour = 0\<rparr>
      | QuietCustom \<Rightarrow>
          \<lparr>quiet_enabled = quietStartHour env \<noteq> quietEndHour env,
           startHour = quietStartHour env, endHour = quietEndHour env\<rparr>
      | QuietInherit \<Rightarrow>
          \<lparr>quiet_enabled = quietHoursEnabled config, startHour = cfg_quietStartHour config,
           endHour = cfg_quietEndHour config\<rparr>)"

definition inQuietHours :: "quiet_window \<Rightarrow> int \<Rightarrow> bool" where
  "inQuietHours window hour =
     (if \<not> quiet_enabled window then False
      else if startHour window \<le> endHour window
      then hour \<ge> startHour window \<and> hour < endHour window
      else hour \<ge> startHour window \<or> hour < endHour window)"


section \<open>Lemmas\<close>

subsection \<open>What the parser accepts\<close>

lemma dayIndex_lt: "dayIndex name = Some d \<Longrightarrow> d < 7"
  by (auto simp: dayIndex_def kDays_def split: if_splits)

lemma push_bit_byte_nonzero: "d < 7 \<Longrightarrow> (push_bit d 1 :: byte) \<noteq> 0"
  by (simp add: push_bit_of_1)

lemma days_loop_nonzero: "day < 7 \<Longrightarrow> days_loop day lastDay m \<noteq> 0"
proof (induction day lastDay m rule: days_loop.induct)
  case (1 day lastDay m)
  have "m OR push_bit day 1 \<noteq> 0"
    using push_bit_byte_nonzero [OF 1(2)] by (simp add: or_eq_0_iff)
  with 1 show ?case
    by (subst days_loop.simps) (simp add: Let_def)
qed

lemma parseDays_nonzero: "parseDays s = Some m \<Longrightarrow> m \<noteq> 0"
  by (auto simp: parseDays_def push_bit_byte_nonzero days_loop_nonzero dest: dayIndex_lt
        split: option.splits)

lemma digit_value_range: "is_cdigit c \<Longrightarrow> 0 \<le> digit_value c \<and> digit_value c \<le> 9"
  by (auto simp: is_cdigit_def digit_value_def)

lemma parseClock_range:
  assumes "parseClock s = Some n"
  shows "0 \<le> n \<and> n \<le> 1440"
  using assms digit_value_range [of "s ! 0"] digit_value_range [of "s ! 1"]
    digit_value_range [of "s ! 3"] digit_value_range [of "s ! 4"]
  by (auto simp: parseClock_def Let_def split: if_splits)

definition window_ok :: "guard_window \<Rightarrow> bool" where
  "window_ok w \<longleftrightarrow> days w \<noteq> 0 \<and> 0 \<le> startMinute w \<and> startMinute w \<le> 1440
     \<and> 0 \<le> endMinute w \<and> endMinute w \<le> 1440 \<and> startMinute w \<noteq> endMinute w"

lemma parse_span_ok: "parse_span m s = Some w \<Longrightarrow> m \<noteq> 0 \<Longrightarrow> window_ok w"
  by (auto simp: parse_span_def window_ok_def dest!: parseClock_range split: option.splits if_splits)

lemma parseWindow_ok: "parseWindow s = Some w \<Longrightarrow> window_ok w"
  by (auto simp: parseWindow_def Let_def dest!: parseDays_nonzero intro: parse_span_ok
        split: option.splits)

lemma parseWindows_ok: "list_all window_ok (parseWindows s)"
proof (induction s rule: parseWindows.induct)
  case (1 s)
  then show ?case
    by (subst parseWindows.simps) (auto simp: parseWindow_ok split: option.splits)
qed

text \<open>The comma-separated parts of a specification.\<close>

function parts :: "string \<Rightarrow> string list" where
  "parts s = (case find_char CHR '','' s of None \<Rightarrow> [s] | Some n \<Rightarrow> take n s # parts (drop (n + 1) s))"
  by pat_completeness auto
termination
  by (relation "measure length") (auto dest: find_char_lt)

declare parts.simps [simp del]

lemma valid_windows_loop_parts: "valid_windows_loop s = list_all (\<lambda>p. parseWindow p \<noteq> None) (parts s)"
proof (induction s rule: valid_windows_loop.induct)
  case (1 s)
  then show ?case
    by (subst valid_windows_loop.simps, subst parts.simps)
       (auto simp: first_part_def split: option.splits)
qed

lemma parseWindow_empty: "parseWindow [] = None"
  by (simp add: parseWindow_def trim_def find_char_def parse_span_def)

lemma parseWindows_parts: "parseWindows s = List.map_filter parseWindow (parts s)"
proof (induction s rule: parseWindows.induct)
  case (1 s)
  show ?case
  proof (cases "find_char CHR '','' s")
    case None
    then show ?thesis
      using parseWindow_empty
      by (subst parseWindows.simps, subst parts.simps)
         (auto simp: first_part_def map_filter_simps split: option.splits)
  next
    case (Some n)
    moreover have "s \<noteq> []" using find_char_lt [OF Some] by auto
    ultimately show ?thesis
      using 1 by (subst parseWindows.simps, subst parts.simps)
         (auto simp: first_part_def map_filter_simps split: option.splits)
  qed
qed

subsection \<open>Windows as spans of the week\<close>

text \<open>The length of a window in minutes; one that ends before it starts runs into the next day.\<close>

definition duration :: "guard_window \<Rightarrow> int" where
  "duration w = (if startMinute w < endMinute w then endMinute w - startMinute w
                 else endMinute w + 1440 - startMinute w)"

lemma week_mod:
  "- 10080 \<le> x \<Longrightarrow> x < 10080 \<Longrightarrow> x mod 10080 = (if x < 0 then x + 10080 else (x :: int))"
proof -
  assume x: "- 10080 \<le> x" "x < 10080"
  then show ?thesis
    using mod_add_self2 [of x 10080] mod_pos_pos_trivial [of x 10080] mod_pos_pos_trivial [of "x + 10080" 10080]
    by auto
qed

lemma and_push_bit_1: "(w AND push_bit k 1 \<noteq> (0 :: u32)) = bit w k"
proof
  assume "w AND push_bit k 1 \<noteq> 0"
  then obtain n where "bit (w AND push_bit k 1) n"
    by (auto simp: bit_eq_iff)
  then show "bit w k"
    by (auto simp: bit_simps)
next
  assume b: "bit w k"
  then have "k < 32" using bit_imp_le_length by fastforce
  with b have "bit (w AND push_bit k 1) k"
    by (simp add: bit_simps)
  then show "w AND push_bit k 1 \<noteq> 0" by auto
qed

lemma dayIn_bit: "- 1 \<le> d \<Longrightarrow> d < 7 \<Longrightarrow> dayIn m d = bit m (nat (if d = - 1 then 6 else d))"
proof -
  assume d: "- 1 \<le> d" "d < 7"
  have "tmod (tmod d 7 + 7) 7 = (if d = - 1 then 6 else d)"
    using d by (cases "d = - 1") (simp_all add: tmod_nonneg tmod_def tdiv_def)
  moreover have "bit (ucast m :: u32) k = bit m k" if "k < 7" for k
    using that by (simp add: bit_simps)
  ultimately show ?thesis
    unfolding dayIn_def and_push_bit_1 using d by simp
qed


lemma window_matches_span:
  assumes "window_ok w" "0 \<le> day" "day < 7" "0 \<le> m" "m < 1440"
  shows "window_matches w day m \<longleftrightarrow>
    (\<exists>d. 0 \<le> d \<and> d < 7 \<and> bit (days w) (nat d)
       \<and> (day * 1440 + m - (d * 1440 + startMinute w)) mod 10080 < duration w)"
proof -
  define start where "start = startMinute w"
  define fin where "fin = endMinute w"
  have w: "0 \<le> start" "start \<le> 1440" "0 \<le> fin" "fin \<le> 1440" "start \<noteq> fin"
    using assms(1) by (simp_all add: window_ok_def start_def fin_def)
  define hit where "hit d \<longleftrightarrow> (day * 1440 + m - (d * 1440 + start)) mod 10080 < duration w" for d
  define prev where "prev = (if day = 0 then 6 else day - 1)"
  have dur: "duration w = (if start < fin then fin - start else fin + 1440 - start)"
    by (simp add: duration_def start_def fin_def)
  have hit: "hit d \<longleftrightarrow> (d = day \<and> start \<le> m \<and> (start < fin \<longrightarrow> m < fin)) \<or> (d = prev \<and> \<not> start < fin \<and> m < fin)"
    if "0 \<le> d" "d < 7" for d
  proof -
    define x where "x = (day - d) * 1440 + (m - start)"
    have x: "day * 1440 + m - (d * 1440 + start) = x"
      by (simp add: x_def algebra_simps)
    have "- 10080 \<le> x" "x < 10080"
      using that assms w by (auto simp: x_def)
    then have "hit d \<longleftrightarrow> (if x < 0 then x + 10080 else x) < duration w"
      unfolding hit_def x by (simp add: week_mod)
    moreover have "day - d \<in> {- 6, - 5, - 4, - 3, - 2, - 1, 0, 1, 2, 3, 4, 5, 6}"
      using that assms(2,3) by (simp only: insert_iff empty_iff simp_thms) presburger
    ultimately show ?thesis
      using that assms w unfolding x_def dur prev_def
      by (elim insertE emptyE) auto
  qed
  have prev: "0 \<le> prev" "prev < 7"
    using assms(2,3) by (auto simp: prev_def)
  have "window_matches w day m \<longleftrightarrow>
      (bit (days w) (nat day) \<and> start \<le> m \<and> (start < fin \<longrightarrow> m < fin))
      \<or> (bit (days w) (nat prev) \<and> \<not> start < fin \<and> m < fin)"
    using assms w dayIn_bit [of day "days w"] dayIn_bit [of "day - 1" "days w"]
    by (auto simp: window_matches_def start_def fin_def prev_def)
  also have "\<dots> \<longleftrightarrow> (\<exists>d. 0 \<le> d \<and> d < 7 \<and> bit (days w) (nat d) \<and> hit d)"
    using assms(2,3) prev hit [of day] hit [of prev] hit by (metis (no_types))
  finally show ?thesis
    by (simp add: hit_def start_def)
qed


section \<open>Properties\<close>

text \<open>
  The windows a specification gives are the well-formed parts of it, in order: each has at
  least one day and two different times of at most 24:00. The validator accepts a blank
  specification and otherwise exactly those in which every part is well formed, and then no
  part is lost.
\<close>

theorem windows_parse:
  "list_all window_ok (parseWindows spec)
   \<and> parseWindows spec = List.map_filter parseWindow (parts spec)
   \<and> (validWindows spec \<longleftrightarrow> trim spec = [] \<or> list_all (\<lambda>p. parseWindow p \<noteq> None) (parts spec))
   \<and> (validWindows spec \<and> trim spec \<noteq> [] \<longrightarrow> map Some (parseWindows spec) = map parseWindow (parts spec))"
proof -
  have "map Some (List.map_filter parseWindow ps) = map parseWindow ps"
    if "list_all (\<lambda>p. parseWindow p \<noteq> None) ps" for ps
    using that by (induction ps) (auto simp: map_filter_simps)
  then show ?thesis
    using parseWindows_ok [of spec]
    by (auto simp: parseWindows_parts validWindows_def valid_windows_loop_parts)
qed

theorem windows_parse_witness:
  "validWindows ''mon-fri 22:00-06:00,sat 10:00-14:00''
   \<and> map Some (parseWindows ''mon-fri 22:00-06:00,sat 10:00-14:00'')
       = map parseWindow (parts ''mon-fri 22:00-06:00,sat 10:00-14:00'')"
proof -
  have "validWindows ''mon-fri 22:00-06:00,sat 10:00-14:00''"
    "trim ''mon-fri 22:00-06:00,sat 10:00-14:00'' \<noteq> []"
    by code_simp+
  with windows_parse [of "''mon-fri 22:00-06:00,sat 10:00-14:00''"] show ?thesis
    by blast
qed

text \<open>
  A window is a span of the week. A local time lies in a window exactly when, counting the
  minutes of the week around the clock, it comes less than the window's length after the
  start of the window on one of its days; so a window that ends before it starts runs past
  midnight, from Saturday into Sunday as well.
\<close>

theorem inWindows_span:
  assumes "list_all window_ok ws" "0 \<le> tm_wday t" "tm_wday t < 7" "0 \<le> tm_hour t" "tm_hour t < 24"
    "0 \<le> tm_min t" "tm_min t < 60"
  shows "inWindows ws t \<longleftrightarrow>
    (\<exists>w \<in> set ws. \<exists>d. 0 \<le> d \<and> d < 7 \<and> bit (days w) (nat d)
       \<and> (tm_wday t * 1440 + (tm_hour t * 60 + tm_min t) - (d * 1440 + startMinute w)) mod 10080 < duration w)"
proof -
  have "window_matches w (tm_wday t) (tm_hour t * 60 + tm_min t) \<longleftrightarrow>
    (\<exists>d. 0 \<le> d \<and> d < 7 \<and> bit (days w) (nat d)
       \<and> (tm_wday t * 1440 + (tm_hour t * 60 + tm_min t) - (d * 1440 + startMinute w)) mod 10080 < duration w)"
    if "w \<in> set ws" for w
    using assms that by (intro window_matches_span) (auto simp: list_all_iff)
  then show ?thesis
    by (simp add: inWindows_def Let_def list_ex_iff)
qed

theorem inWindows_span_witness:
  "inWindows [\<lparr>days = 64, startMinute = 1320, endMinute = 360\<rparr>] \<lparr>tm_hour = 5, tm_min = 0, tm_wday = 0\<rparr>"
proof -
  have "bit (64 :: byte) 6" by code_simp
  then show ?thesis
    by (subst inWindows_span) (auto simp: window_ok_def duration_def intro!: exI [of _ 6])
qed

text \<open>
  The posture is consistent. Staff hours and opening hours are always in the Home mode and
  never both; a house armed by hand stays armed whatever the schedule says; the night mode
  never comes with the public or staff; and a schedule that is switched off changes nothing.
\<close>

theorem resolve_consistent:
  "(p_staffOnly (resolve s manual t) \<or> p_publicPresent (resolve s manual t)
      \<longrightarrow> p_mode (resolve s manual t) = Home
          \<and> p_staffOnly (resolve s manual t) \<noteq> p_publicPresent (resolve s manual t))
   \<and> (manual = Armed \<longrightarrow> p_mode (resolve s manual t) = Armed)
   \<and> (\<not> enabled s \<longrightarrow> resolve s manual t = posture manual False False ''manual'')
   \<and> (p_mode (resolve s manual t) = Armed \<longrightarrow> manual = Armed \<or> closedMode s = Armed)"
  by (auto simp: resolve_def posture_def)

theorem resolve_consistent_witness:
  "p_mode (resolve \<lparr>enabled = True, asleep = [], open_windows = [\<lparr>days = 0x7F, startMinute = 0, endMinute = 1440\<rparr>],
      staffed = [], closedMode = Away\<rparr> Armed \<lparr>tm_hour = 5, tm_min = 0, tm_wday = 0\<rparr>) = Armed"
  using resolve_consistent [of "\<lparr>enabled = True, asleep = [], open_windows = [\<lparr>days = 0x7F, startMinute = 0, endMinute = 1440\<rparr>],
      staffed = [], closedMode = Away\<rparr>" Armed "\<lparr>tm_hour = 5, tm_min = 0, tm_wday = 0\<rparr>"]
  by simp

text \<open>
  Quiet hours go around the clock: an hour is quiet exactly when it comes less than the
  length of the quiet window after its start, so equal hours mean no quiet window at all.
\<close>

theorem quiet_hours_around_clock:
  assumes "quiet_enabled w" "0 \<le> startHour w" "startHour w < 24" "0 \<le> endHour w" "endHour w < 24"
    "0 \<le> h" "h < 24"
  shows "inQuietHours w h \<longleftrightarrow> (h - startHour w) mod 24 < (endHour w - startHour w) mod 24"
proof -
  have day: "x mod 24 = (if x < 0 then x + 24 else x)" if "- 24 < x" "x < 24" for x :: int
    using that mod_add_self2 [of x 24] mod_pos_pos_trivial [of x 24] mod_pos_pos_trivial [of "x + 24" 24]
    by auto
  show ?thesis
    using assms by (auto simp: inQuietHours_def day)
qed

theorem quiet_hours_around_clock_witness:
  "inQuietHours \<lparr>quiet_enabled = True, startHour = 22, endHour = 7\<rparr> 3"
  using quiet_hours_around_clock [of "\<lparr>quiet_enabled = True, startHour = 22, endHour = 7\<rparr>" 3] by simp

end
