(* ===== verification/Guard_Tamper.thy ===== *)
theory Guard_Tamper
  imports Guard_Vocabulary Complex_Main "HOL-Library.Multiset"
begin

text \<open>
  Tampering with cameras, \<open>guard-tamper-policy.cc\<close>: which readings indicate it, how long they
  have to last, which cameras were attacked together and what a person seen near them changes.
  Instants are \<open>int\<close>: the code subtracts 64-bit times of the present.
\<close>

section \<open>Policy\<close>

datatype tamper_action = TamperIgnore | TamperAlarm | LensNotice

record tamper_window =
  action :: tamper_action
  afterS :: int

record tamper_windows =
  coverS :: int
  whiteoutS :: int
  blindS :: int
  blindHomeS :: int
  partialS :: int
  defocusS :: int
  reaimS :: int
  darkS :: int
  signalWiredS :: int
  signalWifiS :: int
  lensNoticeS :: int

definition default_tamper_windows :: tamper_windows where
  "default_tamper_windows =
     \<lparr>coverS = 15, whiteoutS = 15, blindS = 10, blindHomeS = 120, partialS = 45, defocusS = 60,
      reaimS = 20, darkS = 45, signalWiredS = 15, signalWifiS = 30, lensNoticeS = 600\<rparr>"

record tamper_window_input =
  status :: string
  sudden :: bool
  link :: string
  protect :: bool
  windows :: tamper_windows
  homeS :: int
  offlineHomeS :: int

definition indicating :: "string \<Rightarrow> bool \<Rightarrow> bool" where
  "indicating st sud =
     (if st = ''blurred'' then sud
      else st = ''moved'' \<or> st = ''covered'' \<or> st = ''whiteout'' \<or> st = ''blinded''
        \<or> st = ''partial_cover'' \<or> st = ''dark_sudden'' \<or> st = ''unreachable'')"

definition windowFor :: "tamper_window_input \<Rightarrow> tamper_window" where
  "windowFor input =
     (let ws = windows input; st = status input
      in if st = ''covered'' then \<lparr>action = TamperAlarm, afterS = if protect input then coverS ws else homeS input\<rparr>
         else if st = ''whiteout'' then
           \<lparr>action = TamperAlarm, afterS = if protect input then whiteoutS ws else homeS input\<rparr>
         else if st = ''blinded'' then
           \<lparr>action = TamperAlarm, afterS = if protect input then blindS ws else blindHomeS ws\<rparr>
         else if st = ''partial_cover'' then
           \<lparr>action = TamperAlarm, afterS = if protect input then partialS ws else homeS input\<rparr>
         else if st = ''moved'' then
           \<lparr>action = TamperAlarm, afterS = if protect input then reaimS ws else homeS input\<rparr>
         else if st = ''dark_sudden'' then
           (if protect input then \<lparr>action = TamperAlarm, afterS = darkS ws\<rparr>
            else \<lparr>action = TamperIgnore, afterS = 0\<rparr>)
         else if st = ''unreachable'' then
           (if \<not> protect input then \<lparr>action = TamperAlarm, afterS = offlineHomeS input\<rparr>
            else \<lparr>action = TamperAlarm,
                  afterS = if link input = ''wired'' then signalWiredS ws else signalWifiS ws\<rparr>)
         else if st = ''blurred'' then
           (if sudden input \<and> protect input then \<lparr>action = TamperAlarm, afterS = defocusS ws\<rparr>
            else \<lparr>action = LensNotice, afterS = lensNoticeS ws\<rparr>)
         else \<lparr>action = TamperIgnore, afterS = 0\<rparr>)"

section \<open>Grouping\<close>

record tamper_reading =
  cameraId :: int
  environmentId :: int
  onsetAt :: int

record tamper_group =
  g_environmentId :: int
  cameraIds :: "int list"
  firstOnset :: int

text \<open>
  The inner loops on the sorted readings of one environment: \<open>end\<close> advances while the onset
  stays within the window of the first reading, then the next window starts there.
\<close>

function group_windows :: "int \<Rightarrow> int \<Rightarrow> tamper_reading list \<Rightarrow> tamper_group list" where
  "group_windows env windowS [] = []"
| "group_windows env windowS (first # rest) =
     (let near = takeWhile (\<lambda>r. onsetAt r - onsetAt first \<le> windowS) rest;
          members = first # near;
          groups = group_windows env windowS (drop (length near) rest)
      in if length members \<ge> 2
         then \<lparr>g_environmentId = env, cameraIds = sort (map cameraId members),
               firstOnset = onsetAt first\<rparr> # groups
         else groups)"
  by pat_completeness auto
termination
  by (relation "measure (\<lambda>(_, _, rs). length rs)") auto

declare group_windows.simps(2) [simp del]

text \<open>
  \<open>byEnvironment\<close> is a \<open>std::map\<close>, so its keys come in ascending order. The sort of the code
  is not stable, which the result does not show: readings with the same onset fall into the same
  window, whose camera identifiers are sorted.
\<close>

definition environments :: "tamper_reading list \<Rightarrow> int list" where
  "environments readings = sort (remdups (map environmentId readings))"

definition members_of :: "tamper_reading list \<Rightarrow> int \<Rightarrow> tamper_reading list" where
  "members_of readings env = sort_key onsetAt (filter (\<lambda>r. environmentId r = env) readings)"

definition groupsOf :: "tamper_reading list \<Rightarrow> int \<Rightarrow> tamper_group list" where
  "groupsOf readings windowS =
     concat (map (\<lambda>env. group_windows env windowS (members_of readings env)) (environments readings))"

section \<open>Verdicts\<close>

definition groupDanger :: "bool \<Rightarrow> bool \<Rightarrow> guard_danger" where
  "groupDanger prot anyoneHome = (if prot \<or> \<not> anyoneHome then Critical else High)"

datatype user_role = Owner | Resident | GuardRole | Guest | UnknownRole

datatype seen_verdict = NotSeen | HomeNotice | Lowered | KeptCritical | GuestNamed

record seen_input =
  found :: bool
  role :: user_role
  onDuty :: bool
  personAway :: bool
  seen_protect :: bool

definition seenVerdict :: "seen_input \<Rightarrow> seen_verdict" where
  "seenVerdict input =
     (if \<not> found input then NotSeen
      else if role input = Guest then GuestNamed
      else let household = role input = Owner \<or> role input = Resident
                 \<or> (role input = GuardRole \<and> onDuty input)
        in if \<not> household then NotSeen
           else if \<not> seen_protect input then HomeNotice
           else if personAway input then KeptCritical else Lowered)"

definition shouldAsk :: "bool \<Rightarrow> seen_verdict \<Rightarrow> bool \<Rightarrow> bool" where
  "shouldAsk prot seen anyoneHome \<longleftrightarrow> \<not> prot \<and> seen = NotSeen \<and> anyoneHome"

definition approachingLens :: "real \<Rightarrow> real \<Rightarrow> real \<Rightarrow> bool" where
  "approachingLens firstShare lastShare nearShare \<longleftrightarrow> lastShare \<ge> nearShare \<and> lastShare \<ge> firstShare"

section \<open>Lemmas\<close>

definition within_group :: "int \<Rightarrow> tamper_reading \<Rightarrow> tamper_group \<Rightarrow> bool" where
  "within_group w r g \<longleftrightarrow> g_environmentId g = environmentId r \<and> cameraId r \<in> set (cameraIds g)
     \<and> firstOnset g \<le> onsetAt r \<and> onsetAt r \<le> firstOnset g + w"

definition group_ok :: "int \<Rightarrow> tamper_reading list \<Rightarrow> tamper_group \<Rightarrow> bool" where
  "group_ok w readings g \<longleftrightarrow> 2 \<le> length (cameraIds g) \<and> sorted (cameraIds g)
     \<and> (\<forall>c \<in> set (cameraIds g). \<exists>r \<in> set readings. cameraId r = c \<and> within_group w r g)"

definition window_group :: "int \<Rightarrow> tamper_reading \<Rightarrow> tamper_reading list \<Rightarrow> tamper_group" where
  "window_group env first near =
     \<lparr>g_environmentId = env, cameraIds = sort (map cameraId (first # near)), firstOnset = onsetAt first\<rparr>"

lemma window_group_fields [simp]:
  "g_environmentId (window_group env first near) = env"
  "set (cameraIds (window_group env first near)) = cameraId ` set (first # near)"
  "sorted (cameraIds (window_group env first near))"
  "length (cameraIds (window_group env first near)) = Suc (length near)"
  "firstOnset (window_group env first near) = onsetAt first"
  by (simp_all add: window_group_def set_insort_key sorted_insort)

text \<open>One step of the outer loop: the readings near the first one, and the rest.\<close>

lemma group_windows_step:
  obtains near later where "rest = near @ later"
    "\<And>x. x \<in> set near \<Longrightarrow> onsetAt x \<le> onsetAt first + w"
    "later \<noteq> [] \<Longrightarrow> onsetAt first + w < onsetAt (hd later)"
    "group_windows env w (first # rest) =
       (if near = [] then [] else [window_group env first near]) @ group_windows env w later"
    "length later \<le> length rest"
    "later = drop (length (takeWhile (\<lambda>r. onsetAt r - onsetAt first \<le> w) rest)) rest"
proof -
  let ?P = "\<lambda>r. onsetAt r - onsetAt first \<le> w"
  define near later where "near = takeWhile ?P rest" and "later = drop (length near) rest"
  have later: "later = dropWhile ?P rest"
    by (simp add: later_def near_def dropWhile_eq_drop)
  show ?thesis
  proof (rule that [of near later])
    show "rest = near @ later"
      by (simp add: near_def later)
    show "onsetAt x \<le> onsetAt first + w" if "x \<in> set near" for x
      using that by (auto simp: near_def dest: set_takeWhileD)
    show "onsetAt first + w < onsetAt (hd later)" if "later \<noteq> []"
      using that hd_dropWhile [of ?P rest] by (simp add: later)
    show "group_windows env w (first # rest) =
       (if near = [] then [] else [window_group env first near]) @ group_windows env w later"
      by (simp add: group_windows.simps(2) Let_def near_def later_def window_group_def Suc_le_eq del: sort_key_simps)
  qed (simp_all add: later_def near_def)
qed

lemma group_ok_mono: "group_ok w rs g \<Longrightarrow> set rs \<subseteq> set rs' \<Longrightarrow> group_ok w rs' g"
  by (fastforce simp: group_ok_def)

lemma group_windows_sound:
  assumes "sorted (map onsetAt rs)" "\<forall>r \<in> set rs. environmentId r = env" "0 \<le> w" "g \<in> set (group_windows env w rs)"
  shows "group_ok w rs g"
  using assms
proof (induction env w rs rule: group_windows.induct)
  case (2 env w first rest)
  obtain near later where step: "rest = near @ later"
    "\<And>x. x \<in> set near \<Longrightarrow> onsetAt x \<le> onsetAt first + w"
    "group_windows env w (first # rest) =
       (if near = [] then [] else [window_group env first near]) @ group_windows env w later"
    "later = drop (length (takeWhile (\<lambda>r. onsetAt r - onsetAt first \<le> w) rest)) rest"
    by (rule group_windows_step [of rest first w env]) blast
  note IH = 2(1) [OF refl refl, folded step(4)]
  consider "g \<in> set (group_windows env w later)" | "near \<noteq> []" "g = window_group env first near"
    using 2(5) step(3) by (auto split: if_splits)
  then show ?case
  proof cases
    case 1
    have "group_ok w later g"
      using 2(2-4) 1 by (intro IH) (auto simp: step(1) sorted_append)
    then show ?thesis
      by (rule group_ok_mono) (auto simp: step(1))
  next
    case 2
    have "within_group w r g" if "r \<in> set (first # near)" for r
      using that 2 step(2) \<open>sorted (map onsetAt (first # rest))\<close> \<open>0 \<le> w\<close>
        \<open>\<forall>r \<in> set (first # rest). environmentId r = env\<close>
      by (auto simp: within_group_def step(1))
    then show ?thesis
      using 2 by (fastforce simp: group_ok_def step(1) Suc_le_eq)
  qed
qed simp

lemma group_windows_complete:
  assumes "sorted (map onsetAt rs)" "\<forall>r \<in> set rs. environmentId r = env" "0 \<le> w"
    "r \<in> set rs" "r' \<in> set rs" "r \<noteq> r'" "onsetAt r \<le> onsetAt r'" "onsetAt r' \<le> onsetAt r + w"
  shows "\<exists>g \<in> set (group_windows env w rs). within_group w r g"
  using assms
proof (induction env w rs rule: group_windows.induct)
  case (2 env w first rest)
  obtain near later where step: "rest = near @ later"
    "\<And>x. x \<in> set near \<Longrightarrow> onsetAt x \<le> onsetAt first + w"
    "later \<noteq> [] \<Longrightarrow> onsetAt first + w < onsetAt (hd later)"
    "group_windows env w (first # rest) =
       (if near = [] then [] else [window_group env first near]) @ group_windows env w later"
    "later = drop (length (takeWhile (\<lambda>r. onsetAt r - onsetAt first \<le> w) rest)) rest"
    by (rule group_windows_step [of rest first w env]) blast
  note IH = 2(1) [OF refl refl, folded step(5)]
  have sorted: "sorted (map onsetAt (first # near @ later))" "\<forall>r \<in> set (first # near @ later). environmentId r = env"
    using 2(2,3) by (simp_all add: step(1))
  have after: "onsetAt first + w < onsetAt x" if "x \<in> set later" for x
  proof -
    have "onsetAt (hd later) \<le> onsetAt x"
      using that sorted(1) by (cases later) (auto simp: sorted_append)
    with step(3) that show ?thesis by fastforce
  qed
  show ?case
  proof (cases "r \<in> set later")
    case True
    then have "onsetAt first + w < onsetAt r'"
      using after 2(8) by fastforce
    then have "r' \<in> set later"
      using 2(6) step(1,2) \<open>0 \<le> w\<close> by fastforce
    then have "\<exists>g \<in> set (group_windows env w later). within_group w r g"
      using 2(4,7-9) True sorted by (intro IH) (auto simp: sorted_append)
    then show ?thesis
      by (auto simp: step(4))
  next
    case False
    then have r: "r \<in> set (first # near)"
      using 2(5) by (auto simp: step(1))
    have "near \<noteq> []"
    proof
      assume "near = []"
      then have "r = first" "r' \<in> set later"
        using r 2(6,7) by (auto simp: step(1))
      then show False
        using after [of r'] 2(9) by simp
    qed
    moreover have "within_group w r (window_group env first near)"
      using r sorted step(2) \<open>0 \<le> w\<close> by (auto simp: within_group_def)
    ultimately show ?thesis
      by (auto simp: step(4))
  qed
qed simp

lemma group_windows_first: "g \<in> set (group_windows env w rs) \<Longrightarrow> firstOnset g \<in> onsetAt ` set rs"
proof (induction env w rs rule: group_windows.induct)
  case (2 env w first rest)
  obtain near later where step: "rest = near @ later"
    "group_windows env w (first # rest) =
       (if near = [] then [] else [window_group env first near]) @ group_windows env w later"
    "later = drop (length (takeWhile (\<lambda>r. onsetAt r - onsetAt first \<le> w) rest)) rest"
    by (rule group_windows_step [of rest first w env]) blast
  from 2(2) [unfolded step(2)] show ?case
    using 2(1) [OF refl refl, folded step(3)] by (auto simp: step(1,2) split: if_splits)
qed simp

lemma group_windows_environment: "g \<in> set (group_windows env w rs) \<Longrightarrow> g_environmentId g = env"
proof (induction env w rs rule: group_windows.induct)
  case (2 env w first rest)
  obtain near later where step: "rest = near @ later"
    "group_windows env w (first # rest) =
       (if near = [] then [] else [window_group env first near]) @ group_windows env w later"
    "later = drop (length (takeWhile (\<lambda>r. onsetAt r - onsetAt first \<le> w) rest)) rest"
    by (rule group_windows_step [of rest first w env]) blast
  from 2(2) [unfolded step(2)] show ?case
    using 2(1) [OF refl refl, folded step(3)] by (auto simp: step(2) split: if_splits)
qed simp

text \<open>A group is full: every reading of the window that starts at its first onset is in it.\<close>

lemma group_windows_full:
  assumes "sorted (map onsetAt rs)" "\<forall>r \<in> set rs. environmentId r = env" "0 \<le> w" "g \<in> set (group_windows env w rs)"
    "r \<in> set rs" "firstOnset g \<le> onsetAt r" "onsetAt r \<le> firstOnset g + w"
  shows "within_group w r g"
  using assms
proof (induction env w rs rule: group_windows.induct)
  case (2 env w first rest)
  obtain near later where step: "rest = near @ later"
    "\<And>x. x \<in> set near \<Longrightarrow> onsetAt x \<le> onsetAt first + w"
    "later \<noteq> [] \<Longrightarrow> onsetAt first + w < onsetAt (hd later)"
    "group_windows env w (first # rest) =
       (if near = [] then [] else [window_group env first near]) @ group_windows env w later"
    "later = drop (length (takeWhile (\<lambda>r. onsetAt r - onsetAt first \<le> w) rest)) rest"
    by (rule group_windows_step [of rest first w env]) blast
  note IH = 2(1) [OF refl refl, folded step(5)]
  have sorted: "sorted (map onsetAt (first # near @ later))" "\<forall>r \<in> set (first # near @ later). environmentId r = env"
    using 2(2,3) by (simp_all add: step(1))
  have after: "onsetAt first + w < onsetAt x" if "x \<in> set later" for x
  proof -
    have "onsetAt (hd later) \<le> onsetAt x"
      using that sorted(1) by (cases later) (auto simp: sorted_append)
    with step(3) that show ?thesis by fastforce
  qed
  consider "g \<in> set (group_windows env w later)" | "near \<noteq> []" "g = window_group env first near"
    using 2(5) step(4) by (auto split: if_splits)
  then show ?case
  proof cases
    case 1
    then have "onsetAt first + w < firstOnset g"
      using group_windows_first [of g env w later] after by auto
    then have "r \<in> set later"
      using 2(6,7) step(1,2) \<open>0 \<le> w\<close> by fastforce
    then show ?thesis
      using 1 2(4,7,8) sorted by (intro IH) (auto simp: sorted_append)
  next
    case own: 2
    then have "r \<in> set (first # near)"
      using 2(6,8) after step(1) by fastforce
    then show ?thesis
      using own sorted step(2) \<open>0 \<le> w\<close> by (auto simp: within_group_def)
  qed
qed simp

lemma members_of_facts:
  "set (members_of rs env) = {r \<in> set rs. environmentId r = env}" "sorted (map onsetAt (members_of rs env))"
  by (auto simp: members_of_def)

lemma set_groupsOf:
  "set (groupsOf rs w) = (\<Union>env \<in> environmentId ` set rs. set (group_windows env w (members_of rs env)))"
  by (simp add: groupsOf_def environments_def)

text \<open>Three cameras, each within the window of the one before.\<close>

definition tamper_chain :: "tamper_reading list" where
  "tamper_chain = map (\<lambda>(c, t). \<lparr>cameraId = c, environmentId = 1, onsetAt = t\<rparr>) [(1, 0), (2, 20), (3, 40)]"

lemma tamper_chain_groups: "groupsOf tamper_chain 30 = [\<lparr>g_environmentId = 1, cameraIds = [1, 2], firstOnset = 0\<rparr>]"
  by code_simp

lemma groupsOf_member:
  "g \<in> set (groupsOf rs w) \<Longrightarrow> g \<in> set (group_windows (g_environmentId g) w (members_of rs (g_environmentId g)))"
  using group_windows_environment by (fastforce simp: set_groupsOf)

lemma groupsOf_full:
  assumes "0 \<le> w" "g \<in> set (groupsOf rs w)" "r \<in> set rs" "environmentId r = g_environmentId g"
    "firstOnset g \<le> onsetAt r" "onsetAt r \<le> firstOnset g + w"
  shows "within_group w r g"
  by (rule group_windows_full [OF _ _ assms(1) groupsOf_member [OF assms(2)]]) (use assms in \<open>auto simp: members_of_facts\<close>)

section \<open>Properties\<close>

text \<open>
  C34. Every group has at least two readings of one environment, its cameras sorted, and its
  cameras are those with an onset in the window that starts at the group's first: none from outside, and
  none of the window left out. Of two readings of an environment within a window of each other the
  earlier is always in a group; the later is in the same group unless its onset lies
  behind the window of that group, which started before the earlier one. Such a later reading can be left without
  a group: of the onsets 0, 20 and 40 with a window of 30 only the first two are grouped, although the
  last two are within the window as well.
\<close>

theorem groupsOf_sound_complete:
  assumes "0 \<le> w"
  shows "(\<forall>g \<in> set (groupsOf rs w). group_ok w rs g
       \<and> (\<forall>r \<in> set rs. environmentId r = g_environmentId g \<and> firstOnset g \<le> onsetAt r \<and> onsetAt r \<le> firstOnset g + w
            \<longrightarrow> cameraId r \<in> set (cameraIds g)))
    \<and> (\<forall>r \<in> set rs. \<forall>r' \<in> set rs. r \<noteq> r' \<and> environmentId r' = environmentId r
         \<and> onsetAt r \<le> onsetAt r' \<and> onsetAt r' \<le> onsetAt r + w
         \<longrightarrow> (\<exists>g \<in> set (groupsOf rs w). within_group w r g
               \<and> (within_group w r' g \<or> firstOnset g + w < onsetAt r' \<and> firstOnset g < onsetAt r)))
    \<and> map cameraIds (groupsOf tamper_chain 30) = [[1, 2]]"
proof (intro conjI ballI impI)
  fix g assume g: "g \<in> set (groupsOf rs w)"
  have "group_ok w (members_of rs (g_environmentId g)) g"
    using assms groupsOf_member [OF g] by (intro group_windows_sound) (auto simp: members_of_facts)
  then show "group_ok w rs g"
    by (rule group_ok_mono) (auto simp: members_of_facts)
  show "cameraId r \<in> set (cameraIds g)" if "r \<in> set rs"
    "environmentId r = g_environmentId g \<and> firstOnset g \<le> onsetAt r \<and> onsetAt r \<le> firstOnset g + w" for r
    using groupsOf_full [OF assms g, of r] that by (simp add: within_group_def)
next
  fix r r' assume r: "r \<in> set rs" "r' \<in> set rs" "r \<noteq> r' \<and> environmentId r' = environmentId r
     \<and> onsetAt r \<le> onsetAt r' \<and> onsetAt r' \<le> onsetAt r + w"
  have "\<exists>g \<in> set (group_windows (environmentId r) w (members_of rs (environmentId r))). within_group w r g"
    by (rule group_windows_complete [where r' = r']) (use r assms in \<open>auto simp: members_of_facts\<close>)
  then obtain g where g: "g \<in> set (groupsOf rs w)" "within_group w r g"
    using r(1) by (auto simp: set_groupsOf)
  then have "within_group w r' g \<or> firstOnset g + w < onsetAt r' \<and> firstOnset g < onsetAt r"
    using groupsOf_full [OF assms g(1) r(2)] r(3) by (auto simp: within_group_def)
  with g show "\<exists>g \<in> set (groupsOf rs w). within_group w r g
      \<and> (within_group w r' g \<or> firstOnset g + w < onsetAt r' \<and> firstOnset g < onsetAt r)"
    by blast
qed (simp add: tamper_chain_groups)

theorem groupsOf_sound_complete_witness:
  "\<exists>g \<in> set (groupsOf [\<lparr>cameraId = 7, environmentId = 1, onsetAt = 100\<rparr>,
       \<lparr>cameraId = 3, environmentId = 1, onsetAt = 120\<rparr>] 30).
     within_group 30 \<lparr>cameraId = 7, environmentId = 1, onsetAt = 100\<rparr> g"
  using groupsOf_sound_complete [of 30 "[\<lparr>cameraId = 7, environmentId = 1, onsetAt = 100\<rparr>,
       \<lparr>cameraId = 3, environmentId = 1, onsetAt = 120\<rparr>]"]
  by fastforce

text \<open>
  A reading raises an alarm only when it indicates tampering, and while the house protects
  itself every indicating reading does; away from protection a sudden darkness is ignored, and
  with the default windows protection never waits longer than the home setting.
\<close>

theorem tamper_alarm_indicating:
  "(action (windowFor i) = TamperAlarm \<longrightarrow> indicating (status i) (sudden i))
   \<and> (protect i \<and> indicating (status i) (sudden i) \<longrightarrow> action (windowFor i) = TamperAlarm)
   \<and> (windows i = default_tamper_windows \<and> homeS i = 300 \<and> offlineHomeS i = 240
        \<and> action (windowFor (i\<lparr>protect := False\<rparr>)) = TamperAlarm
        \<longrightarrow> afterS (windowFor (i\<lparr>protect := True\<rparr>)) \<le> afterS (windowFor (i\<lparr>protect := False\<rparr>)))"
  by (simp add: windowFor_def indicating_def Let_def default_tamper_windows_def)

theorem tamper_alarm_indicating_witness:
  "action (windowFor \<lparr>status = ''blurred'', sudden = True, link = ''wired'', protect = True,
     windows = default_tamper_windows, homeS = 300, offlineHomeS = 240\<rparr>) = TamperAlarm"
  using tamper_alarm_indicating [of "\<lparr>status = ''blurred'', sudden = True, link = ''wired'', protect = True,
     windows = default_tamper_windows, homeS = 300, offlineHomeS = 240\<rparr>"]
  by (simp add: indicating_def)

text \<open>
  A person seen near a tampered camera calms the alert only if the house knows them: a
  verdict that lowers it, or turns it into a notice, is only ever given for an owner, a
  resident or a guard on duty, never for a guest or a stranger, and never lowered for somebody
  whose phone is away. The question to the household is asked only when nobody explains it.
\<close>

theorem seenVerdict_household:
  "(seenVerdict i = Lowered \<or> seenVerdict i = HomeNotice \<longrightarrow>
      found i \<and> (role i = Owner \<or> role i = Resident \<or> (role i = GuardRole \<and> onDuty i)))
   \<and> (seenVerdict i = Lowered \<longrightarrow> seen_protect i \<and> \<not> personAway i)
   \<and> (shouldAsk (seen_protect i) (seenVerdict i) home \<longrightarrow> \<not> seen_protect i \<and> home \<and> role i \<noteq> Owner \<or> \<not> found i)"
  by (cases "role i") (auto simp: seenVerdict_def shouldAsk_def Let_def)

theorem seenVerdict_household_witness:
  "seenVerdict \<lparr>found = True, role = Owner, onDuty = False, personAway = False, seen_protect = True\<rparr> = Lowered
   \<and> \<not> personAway \<lparr>found = True, role = Owner, onDuty = False, personAway = False, seen_protect = True\<rparr>"
  using seenVerdict_household [of "\<lparr>found = True, role = Owner, onDuty = False, personAway = False, seen_protect = True\<rparr>"]
  by (simp add: seenVerdict_def)

end
