(* ===== verification/Guard_Response.thy ===== *)
theory Guard_Response
  imports Guard_Tamper Guard_Schedule "HOL-Library.Product_Lexorder"
begin

text \<open>
  Who is called when the guard raises an alert, \<open>services/guard/src/feature/guard/services/response-plan.cc\<close>:
  the members of an environment with their mode and step, the strategy for the situation, and the plan
  that the call engine follows step by step. Identifiers and steps are integers: the service stores
  steps between 0 and 32 only (\<open>dtos/update-response-dto.cc\<close>), so no addition on them overflows. The order of
  \<open>std::ranges::sort\<close> on members is determined since every user has one row. Left out is the JSON form of a plan.
\<close>

section \<open>Data\<close>

datatype recipient_mode = CallMode | NotifyMode | OffMode
datatype response_strategy = OrderedStrategy | InsideFirst | Everyone | NightQuiet
datatype response_trigger = Intrusion | Escalation | Panic | Duress | TamperTrigger
datatype presence_state = PresenceUnknown | PresenceHome | PresenceAway
datatype presence_source =
  NoSource | LanSession | TunnelSession | AppActivity | CameraSource | TimeoutSource | ConsentSource

record presence_row =
  pr_userId :: int
  pr_environmentId :: int
  pr_state :: presence_state
  pr_source :: presence_source
  pr_since :: int
  pr_lastHomeAt :: int
  pr_lastSignalAt :: int

record response_user =
  ru_userId :: int
  ru_role :: user_role
  ru_active :: bool
  ru_name :: string
  ru_lang :: string

record response_recipient_row =
  rr_environmentId :: int
  rr_userId :: int
  rr_mode :: "recipient_mode option"
  rr_step :: "int option"
  rr_onDuty :: bool

record response_contact =
  rc_id :: int
  rc_environmentId :: int
  rc_position :: int
  rc_name :: string
  rc_phone :: string
  rc_note :: string

record response_member =
  rm_userId :: int
  rm_role :: user_role
  rm_name :: string
  rm_mode :: recipient_mode
  rm_step :: int
  rm_onDuty :: bool
  rm_customized :: bool

record response_plan_input =
  ri_environmentId :: int
  ri_members :: "response_member list"
  ri_presence :: "presence_row list"
  ri_excluded :: "int list"
  ri_trigger :: response_trigger
  ri_indoor :: bool
  ri_night :: bool
  ri_clearThreat :: bool
  ri_staffedNow :: bool
  ri_hasCamera :: bool
  ri_stepSeconds :: int
  ri_emergencyNumber :: string
  ri_contacts :: "response_contact list"

record response_plan_entry =
  pe_userId :: int
  pe_step :: int
  pe_mode :: recipient_mode
  pe_mandatory :: bool
  pe_discreet :: bool

record response_plan =
  rp_environmentId :: int
  rp_strategy :: response_strategy
  rp_entries :: "response_plan_entry list"
  rp_stepCount :: int
  rp_stepSeconds :: int
  rp_offerCamera :: bool
  rp_offerSiren :: bool
  rp_emergencyNumber :: string
  rp_contacts :: "response_contact list"

record presence_summary =
  anyHome :: bool
  allHome :: bool
  confirmedAway :: bool

fun recipientModeToString :: "recipient_mode \<Rightarrow> string" where
  "recipientModeToString CallMode = ''call''"
| "recipientModeToString NotifyMode = ''notify''"
| "recipientModeToString OffMode = ''off''"

definition recipientModeFromString :: "string \<Rightarrow> recipient_mode option" where
  "recipientModeFromString value =
     (if value = ''call'' then Some CallMode else if value = ''notify'' then Some NotifyMode
      else if value = ''off'' then Some OffMode else None)"

fun responseStrategyToString :: "response_strategy \<Rightarrow> string" where
  "responseStrategyToString OrderedStrategy = ''ordered''"
| "responseStrategyToString InsideFirst = ''inside_first''"
| "responseStrategyToString Everyone = ''everyone''"
| "responseStrategyToString NightQuiet = ''night_quiet''"

fun presenceStateToString :: "presence_state \<Rightarrow> string" where
  "presenceStateToString PresenceHome = ''home''"
| "presenceStateToString PresenceAway = ''away''"
| "presenceStateToString PresenceUnknown = ''unknown''"

definition presenceStateFromString :: "string \<Rightarrow> presence_state" where
  "presenceStateFromString value =
     (if value = ''home'' then PresenceHome else if value = ''away'' then PresenceAway else PresenceUnknown)"

fun presenceSourceToString :: "presence_source \<Rightarrow> string" where
  "presenceSourceToString LanSession = ''lan_session''"
| "presenceSourceToString TunnelSession = ''tunnel_session''"
| "presenceSourceToString AppActivity = ''app_activity''"
| "presenceSourceToString CameraSource = ''camera''"
| "presenceSourceToString TimeoutSource = ''timeout''"
| "presenceSourceToString ConsentSource = ''consent''"
| "presenceSourceToString NoSource = ''none''"

definition presenceSourceFromString :: "string \<Rightarrow> presence_source" where
  "presenceSourceFromString value =
     (if value = ''lan_session'' then LanSession
      else if value = ''tunnel_session'' then TunnelSession
      else if value = ''app_activity'' then AppActivity
      else if value = ''camera'' then CameraSource
      else if value = ''timeout'' then TimeoutSource
      else if value = ''consent'' then ConsentSource
      else NoSource)"

definition overall :: "presence_row list \<Rightarrow> presence_state" where
  "overall rows =
     (if rows = [] then PresenceUnknown
      else if list_ex (\<lambda>row. pr_state row = PresenceHome) rows then PresenceHome
      else if list_all (\<lambda>row. pr_state row = PresenceAway) rows then PresenceAway
      else PresenceUnknown)"

section \<open>Members\<close>

definition kMaxStep :: int where "kMaxStep = 32"

fun roleOrder :: "user_role \<Rightarrow> int" where
  "roleOrder Owner = 0"
| "roleOrder GuardRole = 1"
| "roleOrder Resident = 2"
| "roleOrder Guest = 3"
| "roleOrder UnknownRole = 4"

definition defaultMode :: "user_role \<Rightarrow> recipient_mode" where
  "defaultMode r = (if r = Guest \<or> r = UnknownRole then OffMode else CallMode)"

definition maxExplicit :: "response_recipient_row list \<Rightarrow> int" where
  "maxExplicit rows = foldl (\<lambda>m row. case rr_step row of None \<Rightarrow> m | Some s \<Rightarrow> max m s) 0 rows"

text \<open>The loop over the users: a member, and the next step for a resident without one.\<close>

definition member_of :: "response_recipient_row list \<Rightarrow> response_user \<Rightarrow> int \<Rightarrow> response_member \<times> int" where
  "member_of rows user nextResident =
     (let row = find (\<lambda>r. rr_userId r = ru_userId user) rows;
          mode = (case Option.bind row rr_mode of Some m \<Rightarrow> m | None \<Rightarrow> defaultMode (ru_role user));
          (step, next) =
            (case Option.bind row rr_step of
               Some s \<Rightarrow> (min (max s 0) kMaxStep, nextResident)
             | None \<Rightarrow> if ru_role user = Resident then (min nextResident kMaxStep, nextResident + 1) else (0, nextResident))
      in (\<lparr>rm_userId = ru_userId user, rm_role = ru_role user, rm_name = ru_name user, rm_mode = mode, rm_step = step,
           rm_onDuty = (case row of None \<Rightarrow> False | Some r \<Rightarrow> rr_onDuty r),
           rm_customized = (case row of None \<Rightarrow> False | Some r \<Rightarrow> rr_mode r \<noteq> None \<or> rr_step r \<noteq> None)\<rparr>, next))"

fun members_from :: "response_recipient_row list \<Rightarrow> int \<Rightarrow> response_user list \<Rightarrow> response_member list" where
  "members_from rows next [] = []"
| "members_from rows next (user # users) =
     (if \<not> ru_active user \<or> ru_userId user \<le> 0 then members_from rows next users
      else let (m, next) = member_of rows user next in m # members_from rows next users)"

definition member_key :: "response_member \<Rightarrow> int \<times> int \<times> int" where
  "member_key m = (rm_step m, roleOrder (rm_role m), rm_userId m)"

definition members :: "response_user list \<Rightarrow> response_recipient_row list \<Rightarrow> response_member list" where
  "members users rows = sort_key member_key (members_from rows (maxExplicit rows + 1) users)"

section \<open>The plan\<close>

definition presenceOf :: "presence_row list \<Rightarrow> int \<Rightarrow> presence_row option" where
  "presenceOf rows userId = find (\<lambda>r. pr_userId r = userId) rows"

definition state_of :: "presence_row list \<Rightarrow> int \<Rightarrow> presence_state" where
  "state_of rows userId = (case presenceOf rows userId of None \<Rightarrow> PresenceUnknown | Some r \<Rightarrow> pr_state r)"

definition isHome :: "presence_row list \<Rightarrow> int \<Rightarrow> bool" where
  "isHome rows userId = (case presenceOf rows userId of None \<Rightarrow> False | Some r \<Rightarrow> pr_state r = PresenceHome)"

definition compactSteps :: "response_plan_entry list \<Rightarrow> response_plan_entry list" where
  "compactSteps entries =
     (let steps = remdups_adj (sort (map pe_step entries))
      in map (\<lambda>e. e\<lparr>pe_step := int (length (takeWhile (\<lambda>s. s < pe_step e) steps))\<rparr>) entries)"

definition tunnel_away :: "presence_row list \<Rightarrow> int \<Rightarrow> bool" where
  "tunnel_away rows userId =
     (case presenceOf rows userId of None \<Rightarrow> False | Some r \<Rightarrow> pr_state r = PresenceAway \<and> pr_source r = TunnelSession)"

definition summarize :: "response_plan_entry list \<Rightarrow> presence_row list \<Rightarrow> presence_summary" where
  "summarize entries presence =
     (let home = list_ex (\<lambda>e. state_of presence (pe_userId e) = PresenceHome) entries;
          anyAway = list_ex (\<lambda>e. state_of presence (pe_userId e) = PresenceAway) entries;
          everyoneAway = (entries \<noteq> [] \<and> list_all (\<lambda>e. state_of presence (pe_userId e) = PresenceAway) entries);
          tunnel = list_ex (\<lambda>e. tunnel_away presence (pe_userId e)) entries
      in \<lparr>anyHome = home, allHome = (home \<and> \<not> anyAway), confirmedAway = (everyoneAway \<and> tunnel)\<rparr>)"

definition strategyFor :: "response_plan_input \<Rightarrow> presence_summary \<Rightarrow> response_strategy" where
  "strategyFor i summary =
     (case ri_trigger i of
        Panic \<Rightarrow> Everyone
      | Duress \<Rightarrow> Everyone
      | Escalation \<Rightarrow> Everyone
      | TamperTrigger \<Rightarrow> OrderedStrategy
      | Intrusion \<Rightarrow>
          if anyHome summary \<and> ri_indoor i then Everyone
          else if ri_night i \<and> allHome summary \<and> \<not> ri_clearThreat i then NightQuiet
          else if anyHome summary then InsideFirst
          else OrderedStrategy)"

definition takes_part :: "response_plan_input \<Rightarrow> response_member \<Rightarrow> bool" where
  "takes_part i m \<longleftrightarrow> \<not> (rm_mode m = OffMode \<or> rm_userId m \<in> set (ri_excluded i))"

definition plan_entry :: "response_plan_input \<Rightarrow> response_member \<Rightarrow> response_plan_entry" where
  "plan_entry i m =
     (let mandatory = (rm_role m = GuardRole \<and> (rm_onDuty m \<or> ri_staffedNow i))
      in \<lparr>pe_userId = rm_userId m, pe_step = rm_step m, pe_mode = (if mandatory then CallMode else rm_mode m),
          pe_mandatory = mandatory, pe_discreet = False\<rparr>)"

fun apply_strategy :: "response_strategy \<Rightarrow> presence_row list \<Rightarrow> response_plan_entry \<Rightarrow> response_plan_entry" where
  "apply_strategy Everyone presence e = e\<lparr>pe_step := 0\<rparr>"
| "apply_strategy NightQuiet presence e =
     (let e = e\<lparr>pe_step := 0\<rparr> in if pe_mandatory e then e else e\<lparr>pe_mode := NotifyMode\<rparr>)"
| "apply_strategy InsideFirst presence e =
     (if isHome presence (pe_userId e) then e\<lparr>pe_step := 0, pe_discreet := True\<rparr> else e\<lparr>pe_step := pe_step e + 1\<rparr>)"
| "apply_strategy OrderedStrategy presence e = e"

definition build :: "response_plan_input \<Rightarrow> response_plan" where
  "build i =
     (let entries = map (plan_entry i) (filter (takes_part i) (ri_members i));
          summary = summarize entries (ri_presence i);
          strategy = strategyFor i summary;
          entries = map (apply_strategy strategy (ri_presence i)) entries;
          entries = sort_key pe_step (compactSteps entries)
      in \<lparr>rp_environmentId = ri_environmentId i, rp_strategy = strategy, rp_entries = entries,
          rp_stepCount = (if entries = [] then 0 else pe_step (last entries) + 1),
          rp_stepSeconds = ri_stepSeconds i, rp_offerCamera = ri_hasCamera i,
          rp_offerSiren = ((ri_trigger i = Intrusion \<or> ri_trigger i = Escalation) \<and> confirmedAway summary),
          rp_emergencyNumber = ri_emergencyNumber i, rp_contacts = ri_contacts i\<rparr>)"

definition stepUsers :: "response_plan \<Rightarrow> int \<Rightarrow> int list" where
  "stepUsers plan step = map pe_userId (filter (\<lambda>e. pe_step e = step) (rp_entries plan))"

definition audience :: "response_member list \<Rightarrow> int list \<Rightarrow> int list" where
  "audience ms excluded =
     sort (map rm_userId (filter (\<lambda>m. rm_mode m \<noteq> OffMode \<and> rm_userId m \<notin> set excluded) ms))"

definition staffedAt :: "guard_schedule \<Rightarrow> local_time \<Rightarrow> bool" where
  "staffedAt sched loc \<longleftrightarrow>
     enabled sched \<and> (inWindows (staffed sched) loc \<or> inWindows (open_windows sched) loc)"

text \<open>A small house for the examples.\<close>

definition sample_member :: "int \<Rightarrow> user_role \<Rightarrow> int \<Rightarrow> response_member" where
  "sample_member uid r step = \<lparr>rm_userId = uid, rm_role = r, rm_name = [], rm_mode = CallMode, rm_step = step,
     rm_onDuty = False, rm_customized = False\<rparr>"

definition sample_presence :: "int \<Rightarrow> presence_state \<Rightarrow> presence_source \<Rightarrow> presence_row" where
  "sample_presence uid st src = \<lparr>pr_userId = uid, pr_environmentId = 1, pr_state = st, pr_source = src, pr_since = 0,
     pr_lastHomeAt = 0, pr_lastSignalAt = 0\<rparr>"

definition sample_plan_input :: response_plan_input where
  "sample_plan_input = \<lparr>ri_environmentId = 1, ri_members = [sample_member 1 Owner 0, sample_member 2 Resident 3],
     ri_presence = [sample_presence 2 PresenceHome LanSession], ri_excluded = [],
     ri_trigger = Intrusion, ri_indoor = False, ri_night = False, ri_clearThreat = False, ri_staffedNow = False,
     ri_hasCamera = True, ri_stepSeconds = 45, ri_emergencyNumber = [], ri_contacts = []\<rparr>"

section \<open>Lemmas\<close>

text \<open>The position of a step among the steps in use.\<close>

definition step_rank :: "int list \<Rightarrow> int \<Rightarrow> int" where
  "step_rank xs s = int (length (takeWhile (\<lambda>x. x < s) (remdups_adj (sort xs))))"

lemma sorted_remdups_adj_distinct: "sorted xs \<Longrightarrow> sorted (remdups_adj xs) \<and> distinct (remdups_adj xs)"
  by (induction xs rule: remdups_adj.induct) (auto simp: order_le_less)

lemma takeWhile_less_filter: "sorted ys \<Longrightarrow> takeWhile (\<lambda>x. x < s) ys = filter (\<lambda>x. x < (s::int)) ys"
  by (induction ys) (auto simp: filter_empty_conv intro!: filter_False [symmetric])

lemma step_rank_card: "step_rank xs s = int (card {x \<in> set xs. x < s})"
proof -
  let ?ys = "remdups_adj (sort xs)"
  have "step_rank xs s = int (length (filter (\<lambda>x. x < s) ?ys))"
    using sorted_remdups_adj_distinct [of "sort xs"] by (simp add: step_rank_def takeWhile_less_filter)
  also have "\<dots> = int (card (set (filter (\<lambda>x. x < s) ?ys)))"
    using sorted_remdups_adj_distinct [of "sort xs"] by (subst distinct_card) simp_all
  finally show ?thesis by (simp add: Int_def conj_commute)
qed

lemma step_rank_less:
  assumes "a \<in> set xs"
  shows "step_rank xs a < step_rank xs b \<longleftrightarrow> a < b"
proof
  assume "a < b"
  then have "{x \<in> set xs. x < a} \<subset> {x \<in> set xs. x < b}" using assms by auto
  then show "step_rank xs a < step_rank xs b" by (simp add: step_rank_card psubset_card_mono)
next
  assume less: "step_rank xs a < step_rank xs b"
  show "a < b"
  proof (rule ccontr)
    assume "\<not> a < b"
    then have "{x \<in> set xs. x < b} \<subseteq> {x \<in> set xs. x < a}" by auto
    then show False using less by (simp add: step_rank_card card_mono leD)
  qed
qed

lemma step_rank_bounds: "s \<in> set xs \<Longrightarrow> 0 \<le> step_rank xs s \<and> step_rank xs s < int (card (set xs))"
proof -
  assume s: "s \<in> set xs"
  then have "{x \<in> set xs. x < s} \<subset> set xs" by auto
  then show ?thesis by (simp add: step_rank_card psubset_card_mono)
qed

lemma step_rank_onto: "step_rank xs ` set xs = {0..<int (card (set xs))}"
proof (rule card_subset_eq)
  show "finite {0..<int (card (set xs))}" by simp
  show "step_rank xs ` set xs \<subseteq> {0..<int (card (set xs))}" using step_rank_bounds by auto
  have "inj_on (step_rank xs) (set xs)"
    by (rule inj_onI) (metis linorder_neq_iff step_rank_less)
  then show "card (step_rank xs ` set xs) = card {0..<int (card (set xs))}" by (simp add: card_image)
qed

text \<open>The entries of a plan before they are compacted and sorted.\<close>

definition staged_entries :: "response_plan_input \<Rightarrow> response_plan_entry list" where
  "staged_entries i =
     (let entries = map (plan_entry i) (filter (takes_part i) (ri_members i))
      in map (apply_strategy (strategyFor i (summarize entries (ri_presence i))) (ri_presence i)) entries)"

lemma compactSteps_rank:
  "compactSteps es = map (\<lambda>e. e\<lparr>pe_step := step_rank (map pe_step es) (pe_step e)\<rparr>) es"
  by (simp add: compactSteps_def step_rank_def Let_def)

lemma build_entries: "rp_entries (build i) = sort_key pe_step (compactSteps (staged_entries i))"
  by (simp add: build_def staged_entries_def Let_def)

lemma build_set: "set (rp_entries (build i)) = (\<lambda>e. e\<lparr>pe_step := step_rank (map pe_step (staged_entries i)) (pe_step e)\<rparr>) ` set (staged_entries i)"
  by (simp add: build_entries compactSteps_rank)

lemma apply_strategy_frame [simp]:
  "pe_userId (apply_strategy st pres e) = pe_userId e" "pe_mandatory (apply_strategy st pres e) = pe_mandatory e"
  by (cases st; simp add: Let_def)+

lemma compact_steps_onto:
  "pe_step ` set (rp_entries (build i)) = {0..<int (card (pe_step ` set (staged_entries i)))}"
  using step_rank_onto [of "map pe_step (staged_entries i)"] by (simp add: build_set image_image)

lemma sorted_last: "sorted xs \<Longrightarrow> x \<in> set xs \<Longrightarrow> x \<le> last xs"
  by (induction xs) auto

lemma build_stepCount: "rp_stepCount (build i) = int (card (pe_step ` set (staged_entries i)))"
proof (cases "staged_entries i = []")
  case True
  then have "rp_entries (build i) = []" by (simp add: build_entries compactSteps_rank)
  moreover have "rp_stepCount (build i) = (if rp_entries (build i) = [] then 0 else pe_step (last (rp_entries (build i))) + 1)"
    by (simp add: build_def Let_def)
  ultimately show ?thesis using True by simp
next
  case False
  let ?es = "rp_entries (build i)" and ?n = "int (card (pe_step ` set (staged_entries i)))"
  have ne: "?es \<noteq> []" using False build_set [of i] by (metis image_is_empty set_empty)
  have "sorted (map pe_step ?es)" by (simp add: build_entries)
  then have le: "pe_step e \<le> pe_step (last ?es)" if "e \<in> set ?es" for e
    using that ne sorted_last [of "map pe_step ?es" "pe_step e"] by (simp add: last_map)
  have "pe_step (last ?es) \<in> pe_step ` set ?es" using ne last_in_set by blast
  then have "pe_step (last ?es) < ?n" unfolding compact_steps_onto by simp
  moreover have "0 < card (pe_step ` set (staged_entries i))" using False by (simp add: card_gt_0_iff)
  then have "?n - 1 \<in> pe_step ` set ?es" unfolding compact_steps_onto by simp
  then obtain e where "e \<in> set ?es" "pe_step e = ?n - 1" by (metis imageE)
  then have "?n - 1 \<le> pe_step (last ?es)" using le by metis
  ultimately have "pe_step (last ?es) = ?n - 1" by linarith
  moreover have "rp_stepCount (build i) = pe_step (last ?es) + 1" using ne by (simp add: build_def Let_def)
  ultimately show ?thesis by simp
qed

lemma sorted_split_by_key:
  assumes "sorted (map f xs)" "f ` set xs \<subseteq> {0..<int n}"
  shows "concat (map (\<lambda>k. filter (\<lambda>x. f x = k) xs) (map int [0..<n])) = xs"
  using assms
proof (induction n arbitrary: xs)
  case (Suc n)
  let ?low = "filter (\<lambda>x. f x < int n) xs" and ?top = "filter (\<lambda>x. f x = int n) xs"
  have split: "xs = ?low @ ?top"
    using Suc.prems
  proof (induction xs)
    case (Cons x xs)
    show ?case
    proof (cases "f x < int n")
      case False
      then have "f x = int n" using Cons.prems(2) by auto
      moreover have "f y = int n" if "y \<in> set xs" for y using Cons.prems \<open>f x = int n\<close> that by force
      ultimately show ?thesis by (auto simp: filter_empty_conv)
    qed (use Cons in auto)
  qed simp
  have "sorted (map f ?low)" using Suc.prems(1) by (simp add: sorted_filter)
  moreover have "f ` set ?low \<subseteq> {0..<int n}" using Suc.prems(2) by auto
  ultimately have "concat (map (\<lambda>k. filter (\<lambda>x. f x = k) ?low) (map int [0..<n])) = ?low" by (rule Suc.IH)
  moreover have "filter (\<lambda>x. f x = int k) ?low = filter (\<lambda>x. f x = int k) xs" if "k < n" for k
    using that by (auto simp: filter_filter intro: filter_cong)
  then have "concat (map (\<lambda>k. filter (\<lambda>x. f x = k) ?low) (map int [0..<n])) = concat (map (\<lambda>k. filter (\<lambda>x. f x = k) xs) (map int [0..<n]))"
    by (intro arg_cong [where f = concat]) (simp cong: map_cong)
  ultimately show ?case using split by simp
qed simp

lemma staged_users: "map pe_userId (staged_entries i) = map rm_userId (filter (takes_part i) (ri_members i))"
  by (simp add: staged_entries_def Let_def plan_entry_def comp_def)

lemma build_users: "mset (map pe_userId (rp_entries (build i))) = mset (map rm_userId (filter (takes_part i) (ri_members i)))"
proof -
  have "map pe_userId (compactSteps (staged_entries i)) = map pe_userId (staged_entries i)"
    by (simp add: compactSteps_rank)
  then show ?thesis using staged_users [of i] by (metis build_entries mset_map mset_sort)
qed

text \<open>Every entry of a plan comes from a member that takes part, and the steps of the plan are the
  steps of the members after the strategy, closed up.\<close>

definition staged_entry :: "response_plan_input \<Rightarrow> response_member \<Rightarrow> response_plan_entry" where
  "staged_entry i m = apply_strategy (rp_strategy (build i)) (ri_presence i) (plan_entry i m)"

lemma staged_entries_map: "staged_entries i = map (staged_entry i) (filter (takes_part i) (ri_members i))"
  by (simp add: staged_entries_def staged_entry_def[abs_def] build_def Let_def comp_def)

lemma build_origin:
  "set (rp_entries (build i)) = (\<lambda>m. (staged_entry i m)\<lparr>pe_step := step_rank (map pe_step (staged_entries i)) (pe_step (staged_entry i m))\<rparr>)
     ` {m \<in> set (ri_members i). takes_part i m}"
  unfolding build_set by (simp add: staged_entries_map image_image)

lemma build_strategy:
  "rp_strategy (build i) = strategyFor i (summarize (map (plan_entry i) (filter (takes_part i) (ri_members i))) (ri_presence i))"
  by (simp add: build_def Let_def)

lemma step_rank_same: "set xs \<subseteq> {s} \<Longrightarrow> step_rank xs s = 0"
  by (auto simp: step_rank_card)

lemma staged_mode:
  assumes "takes_part i m"
  shows "pe_mode (staged_entry i m) \<noteq> OffMode \<and> (pe_mandatory (staged_entry i m) \<longrightarrow> pe_mode (staged_entry i m) = CallMode)
    \<and> (pe_discreet (staged_entry i m) \<longrightarrow> isHome (ri_presence i) (rm_userId m))"
  using assms by (cases "rp_strategy (build i)") (auto simp: staged_entry_def plan_entry_def takes_part_def Let_def)

lemma urgent_strategy: "ri_trigger i \<in> {Panic, Duress, Escalation} \<Longrightarrow> rp_strategy (build i) = Everyone"
  by (auto simp: build_strategy strategyFor_def)

lemma urgent_steps:
  assumes "ri_trigger i \<in> {Panic, Duress, Escalation}" "e \<in> set (rp_entries (build i))"
  shows "pe_step e = 0"
proof -
  have "pe_step (staged_entry i m) = 0" for m using urgent_strategy [OF assms(1)] by (simp add: staged_entry_def)
  moreover from this have "set (map pe_step (staged_entries i)) \<subseteq> {0}" by (auto simp: staged_entries_map)
  ultimately show ?thesis using assms(2) step_rank_same unfolding build_origin by auto
qed

lemma presence_names_roundtrip:
  "presenceStateFromString (presenceStateToString st) = st" "presenceSourceFromString (presenceSourceToString src) = src"
  "recipientModeFromString (recipientModeToString mode) = Some mode"
  by ((cases st; simp add: presenceStateFromString_def), (cases src; simp add: presenceSourceFromString_def),
    (cases mode; simp add: recipientModeFromString_def))

lemma build_siren:
  "rp_offerSiren (build i) \<longleftrightarrow> ri_trigger i \<in> {Intrusion, Escalation}
     \<and> confirmedAway (summarize (map (plan_entry i) (filter (takes_part i) (ri_members i))) (ri_presence i))"
  by (simp add: build_def Let_def)

lemma build_user_ids: "pe_userId ` set (rp_entries (build i)) = rm_userId ` {m \<in> set (ri_members i). takes_part i m}"
  unfolding build_origin by (simp add: image_image staged_entry_def plan_entry_def Let_def)

definition listed_mode :: "response_recipient_row list \<Rightarrow> response_user \<Rightarrow> recipient_mode" where
  "listed_mode rows user =
     (case Option.bind (find (\<lambda>r. rr_userId r = ru_userId user) rows) rr_mode of Some m \<Rightarrow> m | None \<Rightarrow> defaultMode (ru_role user))"

lemma member_of_fields:
  "rm_userId (fst (member_of rows user n)) = ru_userId user" "rm_mode (fst (member_of rows user n)) = listed_mode rows user"
  "rm_role (fst (member_of rows user n)) = ru_role user"
  "0 \<le> n \<Longrightarrow> 0 \<le> rm_step (fst (member_of rows user n)) \<and> rm_step (fst (member_of rows user n)) \<le> kMaxStep \<and> 0 \<le> snd (member_of rows user n)"
  by (auto simp: member_of_def listed_mode_def kMaxStep_def Let_def split: option.split prod.splits if_splits)

lemma members_from_view:
  "map (\<lambda>m. (rm_userId m, rm_mode m)) (members_from rows n users)
     = map (\<lambda>u. (ru_userId u, listed_mode rows u)) (filter (\<lambda>u. ru_active u \<and> ru_userId u > 0) users)"
proof (induction users arbitrary: n)
  case (Cons u us)
  obtain m n' where m: "member_of rows u n = (m, n')" by (rule prod.exhaust)
  then show ?case using Cons member_of_fields(1,2) [of rows u n] by (auto simp: not_le)
qed simp

lemma members_from_steps: "0 \<le> n \<Longrightarrow> m \<in> set (members_from rows n users) \<Longrightarrow> 0 \<le> rm_step m \<and> rm_step m \<le> kMaxStep"
proof (induction users arbitrary: n)
  case (Cons u us)
  obtain k n' where k: "member_of rows u n = (k, n')" by (rule prod.exhaust)
  then show ?case using Cons member_of_fields(4) [OF Cons.prems(1), of rows u] by (auto split: if_splits)
qed simp

lemma maxExplicit_nonneg: "0 \<le> maxExplicit rows"
proof -
  have "m \<le> foldl (\<lambda>m row. case rr_step row of None \<Rightarrow> m | Some s \<Rightarrow> max m s) m rows" for m :: int
  proof (induction rows arbitrary: m)
    case (Cons r rs)
    have "m \<le> (case rr_step r of None \<Rightarrow> m | Some s \<Rightarrow> max m s)" by (simp split: option.split)
    also have "\<dots> \<le> foldl (\<lambda>m row. case rr_step row of None \<Rightarrow> m | Some s \<Rightarrow> max m s) (case rr_step r of None \<Rightarrow> m | Some s \<Rightarrow> max m s) rs"
      by (rule Cons.IH)
    finally show ?case by simp
  qed simp
  then show ?thesis by (simp add: maxExplicit_def)
qed

lemma members_steps: "m \<in> set (members users rows) \<Longrightarrow> 0 \<le> rm_step m \<and> rm_step m \<le> kMaxStep"
  using members_from_steps [of "maxExplicit rows + 1" m rows users] maxExplicit_nonneg [of rows] by (simp add: members_def)

lemma members_users:
  "mset (map rm_userId (filter (\<lambda>m. rm_mode m \<noteq> OffMode \<and> P (rm_userId m)) (members users rows)))
     = mset (map ru_userId (filter (\<lambda>u. ru_active u \<and> ru_userId u > 0 \<and> listed_mode rows u \<noteq> OffMode \<and> P (ru_userId u)) users))"
proof -
  let ?ms = "members_from rows (maxExplicit rows + 1) users"
  have view: "map rm_userId (filter (\<lambda>m. rm_mode m \<noteq> OffMode \<and> P (rm_userId m)) ms)
      = map fst (filter (\<lambda>x. snd x \<noteq> OffMode \<and> P (fst x)) (map (\<lambda>m. (rm_userId m, rm_mode m)) ms))" for ms
    by (induction ms) auto
  have "map rm_userId (filter (\<lambda>m. rm_mode m \<noteq> OffMode \<and> P (rm_userId m)) ?ms)
      = map ru_userId (filter (\<lambda>u. ru_active u \<and> ru_userId u > 0 \<and> listed_mode rows u \<noteq> OffMode \<and> P (ru_userId u)) users)"
    unfolding view members_from_view by (induction users) auto
  from arg_cong [OF this, of mset] show ?thesis by (simp add: members_def)
qed

section \<open>Properties\<close>

text \<open>A plan reaches everybody who takes part and nobody else, each once, one step after the other: the people of
  its entries are the members that are not switched off and not excluded; the entries are in the order of their
  steps, the steps are the numbers below \<open>stepCount\<close> with somebody in each of them, and calling step after step calls
  everybody in the order of the entries.\<close>

theorem plan_reaches_everyone:
  "mset (map pe_userId (rp_entries (build i)))
     = mset (map rm_userId (filter (\<lambda>m. rm_mode m \<noteq> OffMode \<and> rm_userId m \<notin> set (ri_excluded i)) (ri_members i)))
   \<and> pe_step ` set (rp_entries (build i)) = {0..<rp_stepCount (build i)}
   \<and> concat (map (\<lambda>k. stepUsers (build i) (int k)) [0..<nat (rp_stepCount (build i))]) = map pe_userId (rp_entries (build i))"
proof (intro conjI)
  show "mset (map pe_userId (rp_entries (build i)))
     = mset (map rm_userId (filter (\<lambda>m. rm_mode m \<noteq> OffMode \<and> rm_userId m \<notin> set (ri_excluded i)) (ri_members i)))"
    unfolding build_users by (simp add: takes_part_def)
  show steps: "pe_step ` set (rp_entries (build i)) = {0..<rp_stepCount (build i)}"
    by (simp add: compact_steps_onto build_stepCount)
  let ?n = "nat (rp_stepCount (build i))"
  have "concat (map (\<lambda>k. filter (\<lambda>e. pe_step e = k) (rp_entries (build i))) (map int [0..<?n])) = rp_entries (build i)"
  proof (rule sorted_split_by_key)
    show "sorted (map pe_step (rp_entries (build i)))" by (simp add: build_entries)
    show "pe_step ` set (rp_entries (build i)) \<subseteq> {0..<int ?n}" unfolding steps by (simp add: build_stepCount)
  qed
  then have "map pe_userId (concat (map (\<lambda>k. filter (\<lambda>e. pe_step e = k) (rp_entries (build i))) (map int [0..<?n])))
      = map pe_userId (rp_entries (build i))"
    by simp
  then show "concat (map (\<lambda>k. stepUsers (build i) (int k)) [0..<?n]) = map pe_userId (rp_entries (build i))"
    by (simp add: stepUsers_def map_concat comp_def)
qed

text \<open>The order of a plan: for two entries of members that take part, one is called before the other exactly when the
  configured step is lower, unless the strategy says otherwise; where people inside are called first they are
  alone in the first step they share, ahead of everybody else, and are called discreetly.\<close>

theorem plan_keeps_order:
  assumes "distinct (map rm_userId (ri_members i))" "m \<in> set (ri_members i)" "m' \<in> set (ri_members i)"
    "e \<in> set (rp_entries (build i))" "e' \<in> set (rp_entries (build i))" "pe_userId e = rm_userId m" "pe_userId e' = rm_userId m'"
    "list_all (\<lambda>m. 0 \<le> rm_step m) (ri_members i)"
  shows "(rp_strategy (build i) = OrderedStrategy \<longrightarrow> (pe_step e < pe_step e' \<longleftrightarrow> rm_step m < rm_step m'))
    \<and> (rp_strategy (build i) = InsideFirst \<longrightarrow>
         (pe_step e < pe_step e' \<longleftrightarrow>
            (if isHome (ri_presence i) (rm_userId m') then False
             else isHome (ri_presence i) (rm_userId m) \<or> rm_step m < rm_step m'))
         \<and> (pe_discreet e \<longleftrightarrow> isHome (ri_presence i) (rm_userId m)))"
proof -
  let ?r = "step_rank (map pe_step (staged_entries i))"
  have origin: "pe_step e = ?r (pe_step (staged_entry i m)) \<and> pe_discreet e = pe_discreet (staged_entry i m)
      \<and> pe_step (staged_entry i m) \<in> set (map pe_step (staged_entries i))"
    if e: "e \<in> set (rp_entries (build i))" "pe_userId e = rm_userId m" and m: "m \<in> set (ri_members i)" for e m
  proof -
    obtain k where k: "k \<in> set (ri_members i)" "takes_part i k" "e = (staged_entry i k)\<lparr>pe_step := ?r (pe_step (staged_entry i k))\<rparr>"
      using e(1) unfolding build_origin by blast
    then have "rm_userId k = rm_userId m" using e(2) by (simp add: staged_entry_def plan_entry_def Let_def)
    then have "k = m" using k(1) m assms(1) by (auto simp: distinct_map dest: inj_onD)
    then show ?thesis using k by (auto simp: staged_entries_map)
  qed
  note a = origin [OF assms(4,6,2)] and b = origin [OF assms(5,7,3)]
  then have less: "pe_step e < pe_step e' \<longleftrightarrow> pe_step (staged_entry i m) < pe_step (staged_entry i m')"
    by (simp add: step_rank_less)
  have nonneg: "0 \<le> rm_step m" "0 \<le> rm_step m'" using assms(2,3,8) by (auto simp: list_all_iff)
  show ?thesis
    using less a nonneg by (auto simp: staged_entry_def plan_entry_def Let_def)
qed

lemma sample_plan:
  "rp_strategy (build sample_plan_input) = InsideFirst"
  "rp_entries (build sample_plan_input) =
     [\<lparr>pe_userId = 2, pe_step = 0, pe_mode = CallMode, pe_mandatory = False, pe_discreet = True\<rparr>,
      \<lparr>pe_userId = 1, pe_step = 1, pe_mode = CallMode, pe_mandatory = False, pe_discreet = False\<rparr>]"
  by code_simp+

theorem plan_keeps_order_witness:
  "pe_step (rp_entries (build sample_plan_input) ! 0) < pe_step (rp_entries (build sample_plan_input) ! 1)
   \<and> pe_discreet (rp_entries (build sample_plan_input) ! 0)"
  using plan_keeps_order [of sample_plan_input "sample_member 2 Resident 3" "sample_member 1 Owner 0"
      "rp_entries (build sample_plan_input) ! 0" "rp_entries (build sample_plan_input) ! 1"]
  unfolding sample_plan by (simp add: sample_plan_input_def sample_member_def sample_presence_def isHome_def presenceOf_def)

text \<open>What a plan never does: it does not leave a guard on duty without a call, it makes nobody wait in a panic, under
  duress or in an escalation, it calls discreetly only people who are home, and it offers the siren only against an
  intruder, when every person in the plan is away and one of them was seen leaving through the tunnel.\<close>

theorem plan_respects_situation:
  "list_all (\<lambda>e. pe_mode e \<noteq> OffMode \<and> (pe_mode e = CallMode \<or> \<not> pe_mandatory e)
      \<and> (isHome (ri_presence i) (pe_userId e) \<or> \<not> pe_discreet e)
      \<and> (pe_step e = 0 \<or> ri_trigger i \<in> {Intrusion, TamperTrigger})) (rp_entries (build i))
    \<and> (\<not> rp_offerSiren (build i) \<or> (ri_trigger i \<in> {Intrusion, Escalation}
        \<and> list_all (\<lambda>e. state_of (ri_presence i) (pe_userId e) = PresenceAway) (rp_entries (build i))
        \<and> list_ex (\<lambda>e. tunnel_away (ri_presence i) (pe_userId e)) (rp_entries (build i))))"
proof (intro conjI)
  let ?p = "ri_presence i"
  have "pe_mode e \<noteq> OffMode \<and> (pe_mode e = CallMode \<or> \<not> pe_mandatory e) \<and> (isHome ?p (pe_userId e) \<or> \<not> pe_discreet e)"
    if "e \<in> set (rp_entries (build i))" for e
    using that staged_mode unfolding build_origin by (auto simp: staged_entry_def plan_entry_def Let_def)
  moreover have "pe_step e = 0 \<or> ri_trigger i \<in> {Intrusion, TamperTrigger}" if "e \<in> set (rp_entries (build i))" for e
    using urgent_steps [OF _ that] by (cases "ri_trigger i") auto
  ultimately show "list_all (\<lambda>e. pe_mode e \<noteq> OffMode \<and> (pe_mode e = CallMode \<or> \<not> pe_mandatory e)
      \<and> (isHome ?p (pe_userId e) \<or> \<not> pe_discreet e)
      \<and> (pe_step e = 0 \<or> ri_trigger i \<in> {Intrusion, TamperTrigger})) (rp_entries (build i))"
    by (simp add: list_all_iff)
  have all: "list_all (\<lambda>e. P (pe_userId e)) (rp_entries (build i)) \<longleftrightarrow> (\<forall>m \<in> set (filter (takes_part i) (ri_members i)). P (rm_userId m))" for P
    using build_user_ids [of i] by (auto simp: list_all_iff set_eq_iff image_iff) metis+
  have ex: "list_ex (\<lambda>e. P (pe_userId e)) (rp_entries (build i)) \<longleftrightarrow> (\<exists>m \<in> set (filter (takes_part i) (ri_members i)). P (rm_userId m))" for P
    using all [of "\<lambda>u. \<not> P u"] by (auto simp: list_all_iff list_ex_iff)
  show "\<not> rp_offerSiren (build i) \<or> (ri_trigger i \<in> {Intrusion, Escalation}
        \<and> list_all (\<lambda>e. state_of ?p (pe_userId e) = PresenceAway) (rp_entries (build i))
        \<and> list_ex (\<lambda>e. tunnel_away ?p (pe_userId e)) (rp_entries (build i)))"
    unfolding all [of "\<lambda>u. state_of ?p u = PresenceAway"] ex [of "tunnel_away ?p"] build_siren
    by (auto simp: summarize_def Let_def list_all_iff list_ex_iff plan_entry_def)
qed

theorem plan_respects_situation_witness:
  "list_all (\<lambda>e. pe_mode e = CallMode \<and> state_of (ri_presence (sample_plan_input\<lparr>ri_presence := [sample_presence 1 PresenceAway TunnelSession,
      sample_presence 2 PresenceAway TimeoutSource]\<rparr>)) (pe_userId e) = PresenceAway)
    (rp_entries (build (sample_plan_input\<lparr>ri_presence := [sample_presence 1 PresenceAway TunnelSession,
      sample_presence 2 PresenceAway TimeoutSource]\<rparr>)))"
proof -
  let ?i = "sample_plan_input\<lparr>ri_presence := [sample_presence 1 PresenceAway TunnelSession,
      sample_presence 2 PresenceAway TimeoutSource]\<rparr>"
  have "rp_offerSiren (build ?i)" "list_all (\<lambda>e. pe_mode e = CallMode) (rp_entries (build ?i))" by code_simp+
  then show ?thesis using plan_respects_situation [of ?i] by (simp add: list_all_iff)
qed

text \<open>From the directory to the plan: the plan for an environment reaches exactly the active users that are not
  excluded and are neither switched off by the owner nor, with no choice of the owner, guests or of unknown role; the
  steps of the members lie between 0 and \<open>kMaxStep\<close>.\<close>

theorem directory_reached:
  "mset (map pe_userId (rp_entries (build (i\<lparr>ri_members := members users rows\<rparr>))))
     = mset (map ru_userId (filter (\<lambda>u. ru_active u \<and> ru_userId u > 0 \<and> listed_mode rows u \<noteq> OffMode
         \<and> ru_userId u \<notin> set (ri_excluded i)) users))
   \<and> list_all (\<lambda>m. 0 \<le> rm_step m \<and> rm_step m \<le> kMaxStep) (members users rows)"
  unfolding build_users
  using members_users [of "\<lambda>u. u \<notin> set (ri_excluded i)" users rows] members_steps
  by (simp add: takes_part_def list_all_iff)

end
