(* ===== verification/Rate_Limit.thy ===== *)
theory Rate_Limit
  imports Prelude
begin

text \<open>
  Limits on the number of requests: the limiter of the identity service,
  \<open>services/identity/src/feature/rate-gate/infra/rate-limiter.cc\<close>, and the contract of a sliding window that it shares
  with the gate of the authentication service. A time point is a number of nanoseconds since the epoch of the steady
  clock, the default time point is 0. The table \<open>std::unordered_map\<close> is an association list with one entry a key, in the
  order of iteration; nothing in this limiter depends on that order.
\<close>

section \<open>Entries and tables\<close>

type_synonym time_point = int

definition rate_seconds :: "int \<Rightarrow> int" where "rate_seconds n = n * 1000000000"

record rate_entry =
  hits :: "time_point list"
  consecutiveFailures :: int
  lockedUntil :: time_point

type_synonym rate_table = "(string \<times> rate_entry) list"

definition new_entry :: rate_entry where
  "new_entry = \<lparr>hits = [], consecutiveFailures = 0, lockedUntil = 0\<rparr>"

definition set_entry :: "string \<Rightarrow> rate_entry \<Rightarrow> rate_table \<Rightarrow> rate_table" where
  "set_entry k e es = map (\<lambda>(k', e'). if k' = k then (k', e) else (k', e')) es"

definition kMaxTrackedKeys :: nat where "kMaxTrackedKeys = 4096"

section \<open>The limiter\<close>

record rate_config =
  rl_enabled :: bool
  windowSeconds :: int
  maxRequests :: int
  lockoutThreshold :: int
  lockoutSeconds :: int

definition window_start :: "rate_config \<Rightarrow> time_point \<Rightarrow> time_point" where
  "window_start cfg now = now - rate_seconds (windowSeconds cfg)"

definition rl_idle :: "rate_config \<Rightarrow> time_point \<Rightarrow> rate_entry \<Rightarrow> bool" where
  "rl_idle cfg now e \<longleftrightarrow> (hits e = [] \<or> last (hits e) < window_start cfg now) \<and> \<not> now < lockedUntil e"

definition rl_prune :: "rate_config \<Rightarrow> time_point \<Rightarrow> rate_table \<Rightarrow> rate_table" where
  "rl_prune cfg now es = filter (\<lambda>(k, e). \<not> rl_idle cfg now e) es"

text \<open>The part of \<open>admit\<close> after the entry of the key is found or made.\<close>

definition admit_entry :: "rate_config \<Rightarrow> int \<Rightarrow> time_point \<Rightarrow> rate_entry \<Rightarrow> bool \<times> rate_entry" where
  "admit_entry cfg limit now e =
     (if now < lockedUntil e then (False, e)
      else let e = e\<lparr>hits := dropWhile (\<lambda>h. h < window_start cfg now) (hits e)\<rparr> in
        if int (length (hits e)) \<ge> limit then (False, e)
        else (True, e\<lparr>hits := hits e @ [now]\<rparr>))"

definition rl_admit :: "rate_config \<Rightarrow> string \<Rightarrow> time_point \<Rightarrow> rate_table \<Rightarrow> bool \<times> rate_table" where
  "rl_admit cfg key now es =
     (if \<not> rl_enabled cfg then (True, es)
      else case map_of es key of
        Some e \<Rightarrow> let (ok, e) = admit_entry cfg (maxRequests cfg) now e in (ok, set_entry key e es)
      | None \<Rightarrow>
          let es = (if length es \<ge> kMaxTrackedKeys then rl_prune cfg now es else es) in
          if length es \<ge> kMaxTrackedKeys then (False, es)
          else let (ok, e) = admit_entry cfg (maxRequests cfg) now new_entry in (ok, es @ [(key, e)]))"

definition rl_recordFailure :: "rate_config \<Rightarrow> string \<Rightarrow> time_point \<Rightarrow> rate_table \<Rightarrow> rate_table" where
  "rl_recordFailure cfg key now es =
     (if \<not> rl_enabled cfg then es
      else case map_of es key of
        None \<Rightarrow> es
      | Some e \<Rightarrow>
          let e = e\<lparr>consecutiveFailures := consecutiveFailures e + 1\<rparr> in
          if consecutiveFailures e < lockoutThreshold cfg then set_entry key e es
          else set_entry key (e\<lparr>consecutiveFailures := 0, lockedUntil := now + rate_seconds (lockoutSeconds cfg)\<rparr>) es)"

definition rl_recordSuccess :: "string \<Rightarrow> rate_table \<Rightarrow> rate_table" where
  "rl_recordSuccess key es =
     (case map_of es key of None \<Rightarrow> es | Some e \<Rightarrow> set_entry key (e\<lparr>consecutiveFailures := 0\<rparr>) es)"

definition tracked :: "rate_table \<Rightarrow> nat" where "tracked es = length es"

text \<open>The calls on a limiter, each at its time.\<close>

datatype rate_call = AdmitCall string | FailureCall string | SuccessCall string

fun rl_step :: "rate_config \<Rightarrow> rate_table \<Rightarrow> time_point \<times> rate_call \<Rightarrow> rate_table \<times> bool" where
  "rl_step cfg es (now, AdmitCall k) = (let (ok, es) = rl_admit cfg k now es in (es, ok))"
| "rl_step cfg es (now, FailureCall k) = (rl_recordFailure cfg k now es, False)"
| "rl_step cfg es (now, SuccessCall k) = (rl_recordSuccess k es, False)"

text \<open>Settings and tables for the examples.\<close>

definition sample_limits :: rate_config where
  "sample_limits = \<lparr>rl_enabled = True, windowSeconds = 60, maxRequests = 2, lockoutThreshold = 1, lockoutSeconds = 300\<rparr>"

definition full_table :: rate_table where
  "full_table = map (\<lambda>n. (replicate n (CHR ''a''), new_entry\<lparr>lockedUntil := 1\<rparr>)) [0..<kMaxTrackedKeys]"

section \<open>The contract of a sliding window\<close>

text \<open>The key of a call, what a run admits, and how much of it falls into a window.\<close>

fun call_key :: "rate_call \<Rightarrow> string" where
  "call_key (AdmitCall k) = k"
| "call_key (FailureCall k) = k"
| "call_key (SuccessCall k) = k"

fun admissions :: "('s \<Rightarrow> time_point \<times> rate_call \<Rightarrow> 's \<times> bool) \<Rightarrow> 's \<Rightarrow> (time_point \<times> rate_call) list \<Rightarrow> (string \<times> time_point) list" where
  "admissions step s [] = []"
| "admissions step s (c # cs) =
     (let (s', ok) = step s c in (if ok then [(call_key (snd c), fst c)] else []) @ admissions step s' cs)"

fun run_calls :: "('s \<Rightarrow> time_point \<times> rate_call \<Rightarrow> 's \<times> bool) \<Rightarrow> 's \<Rightarrow> (time_point \<times> rate_call) list \<Rightarrow> 's" where
  "run_calls step s [] = s"
| "run_calls step s (c # cs) = run_calls step (fst (step s c)) cs"

definition in_any_window :: "string \<Rightarrow> time_point \<Rightarrow> int \<Rightarrow> (string \<times> time_point) list \<Rightarrow> nat" where
  "in_any_window k t w log = length (filter (\<lambda>(k', u). k' = k \<and> t \<le> u \<and> u \<le> t + w) log)"

definition since :: "time_point \<Rightarrow> time_point list \<Rightarrow> time_point list" where
  "since t xs = filter (\<lambda>u. t \<le> u) xs"

lemma filter_length_mono: "(\<And>x. P x \<Longrightarrow> Q x) \<Longrightarrow> length (filter P xs) \<le> length (filter Q xs)"
  by (induction xs) auto

lemma in_any_window_mine:
  "in_any_window k u w log = length (filter (\<lambda>v. u \<le> v \<and> v \<le> u + w) (map snd (filter (\<lambda>x. fst x = k) log)))"
  by (induction log) (auto simp: in_any_window_def)

lemma in_any_window_append [simp]: "in_any_window k u w (xs @ ys) = in_any_window k u w xs + in_any_window k u w ys"
  by (simp add: in_any_window_def)

text \<open>A gate: a step on each call, and what holds of its state at a time.\<close>

locale gate =
  fixes step :: "'s \<Rightarrow> time_point \<times> rate_call \<Rightarrow> 's \<times> bool"
    and sound :: "time_point \<Rightarrow> 's \<Rightarrow> bool"
    and allowed_call :: "rate_call \<Rightarrow> bool"
  assumes sound_step: "sound t s \<Longrightarrow> t \<le> fst c \<Longrightarrow> allowed_call (snd c) \<Longrightarrow> sound (fst c) (fst (step s c))"
begin

lemma run_sound:
  "sound t s \<Longrightarrow> sorted (t # map fst cs) \<Longrightarrow> list_all (\<lambda>c. allowed_call (snd c)) cs \<Longrightarrow> \<exists>u \<ge> t. sound u (run_calls step s cs)"
proof (induction cs arbitrary: t s)
  case (Cons c cs)
  then have "\<exists>u \<ge> fst c. sound u (run_calls step (fst (step s c)) cs)"
    using sound_step by simp
  moreover have "t \<le> fst c" using Cons.prems(2) by simp
  ultimately show ?case by (auto intro: order_trans)
qed auto

end

text \<open>A gate that locks a key out until a time.\<close>

locale lockout_gate = gate +
  fixes until :: "'s \<Rightarrow> string \<Rightarrow> time_point"
  assumes keeps: "sound t s \<Longrightarrow> t \<le> fst c \<Longrightarrow> allowed_call (snd c) \<Longrightarrow> fst c < until s k \<Longrightarrow> until s k \<le> until (fst (step s c)) k"
    and refuses: "sound t s \<Longrightarrow> t \<le> fst c \<Longrightarrow> allowed_call (snd c) \<Longrightarrow> fst c < until s (call_key (snd c)) \<Longrightarrow> \<not> snd (step s c)"
begin

lemma locked_out:
  "sound t s \<Longrightarrow> sorted (t # map fst cs) \<Longrightarrow> list_all (\<lambda>c. allowed_call (snd c) \<and> fst c < until s k) cs \<Longrightarrow>
   k \<notin> fst ` set (admissions step s cs)"
proof (induction cs arbitrary: t s)
  case (Cons c cs)
  have c: "t \<le> fst c" "allowed_call (snd c)" "fst c < until s k" "sorted (fst c # map fst cs)" using Cons.prems by auto
  have "until s k \<le> until (fst (step s c)) k" by (rule keeps [OF Cons.prems(1) c(1,2,3)])
  then have "list_all (\<lambda>c'. allowed_call (snd c') \<and> fst c' < until (fst (step s c)) k) cs"
    using Cons.prems(3) by (auto simp: list_all_iff)
  then have "k \<notin> fst ` set (admissions step (fst (step s c)) cs)"
    by (rule Cons.IH [OF sound_step [OF Cons.prems(1) c(1,2)] c(4)])
  then show ?case
    using refuses [OF Cons.prems(1) c(1,2)] c(3) by (auto simp: split_def Let_def)
qed simp

end

text \<open>A gate with a window: what falls into the window is remembered, and a call is admitted only below the bound.\<close>

locale sliding_window = gate +
  fixes recent :: "'s \<Rightarrow> string \<Rightarrow> time_point list"
    and width :: int
    and bound :: "string \<Rightarrow> int"
  assumes remembers: "sound t s \<Longrightarrow> t \<le> fst c \<Longrightarrow> allowed_call (snd c) \<Longrightarrow>
      since (fst c - width) (recent (fst (step s c)) k)
        = since (fst c - width) (recent s k) @ (if snd (step s c) \<and> k = call_key (snd c) then [fst c] else [])"
    and admits_below: "sound t s \<Longrightarrow> t \<le> fst c \<Longrightarrow> allowed_call (snd c) \<Longrightarrow> snd (step s c) \<Longrightarrow>
      int (length (since (fst c - width) (recent s (call_key (snd c))))) < bound (call_key (snd c))"
    and width_nonneg: "0 \<le> width"
begin

text \<open>What the state remembers of the window is what was admitted in it.\<close>

definition agrees :: "time_point \<Rightarrow> 's \<Rightarrow> (string \<times> time_point) list \<Rightarrow> bool" where
  "agrees t s log \<longleftrightarrow> (\<forall>k. since (t - width) (recent s k) = since (t - width) (map snd (filter (\<lambda>x. fst x = k) log)))
     \<and> (\<forall>x \<in> set log. snd x \<le> t)"

lemma since_since: "t \<le> u \<Longrightarrow> since u (since t xs) = since u xs"
  by (auto simp: since_def intro!: filter_cong)

lemma agrees_step:
  assumes "sound t s" "t \<le> fst c" "allowed_call (snd c)" "agrees t s log"
  shows "agrees (fst c) (fst (step s c)) (log @ (if snd (step s c) then [(call_key (snd c), fst c)] else []))"
proof -
  let ?mine = "\<lambda>k l. map snd (filter (\<lambda>x. fst x = k) l)"
  let ?new = "if snd (step s c) then [(call_key (snd c), fst c)] else []"
  have later: "since (fst c - width) (recent s k) = since (fst c - width) (?mine k log)" for k
  proof -
    have "since (t - width) (recent s k) = since (t - width) (?mine k log)" using assms(4) by (simp add: agrees_def)
    then show ?thesis using since_since [of "t - width" "fst c - width"] assms(2) by (metis diff_right_mono)
  qed
  have "since (fst c - width) (?mine k ?new) = (if snd (step s c) \<and> k = call_key (snd c) then [fst c] else [])" for k
    using width_nonneg by (simp add: since_def)
  then have "since (fst c - width) (recent (fst (step s c)) k) = since (fst c - width) (?mine k (log @ ?new))" for k
    using remembers [OF assms(1,2,3), of k] later by (simp add: since_def)
  moreover have "snd x \<le> fst c" if "x \<in> set (log @ ?new)" for x
  proof (cases "x \<in> set log")
    case True
    then have "snd x \<le> t" using assms(4) by (simp add: agrees_def)
    then show ?thesis using assms(2) by simp
  next
    case False
    then show ?thesis using that by (simp split: if_splits)
  qed
  ultimately show ?thesis unfolding agrees_def by blast
qed

lemma window_bound_from:
  assumes "sound t s" "agrees t s log" "sorted (t # map fst cs)" "list_all (\<lambda>c. allowed_call (snd c)) cs" "0 \<le> bound k"
    "\<And>u. int (in_any_window k u width log) \<le> bound k"
  shows "int (in_any_window k u width (log @ admissions step s cs)) \<le> bound k"
  using assms
proof (induction cs arbitrary: t s log)
  case (Cons c cs)
  let ?s = "fst (step s c)" and ?new = "if snd (step s c) then [(call_key (snd c), fst c)] else []"
  have t: "t \<le> fst c" "allowed_call (snd c)" "sorted (fst c # map fst cs)" using Cons.prems(3,4) by auto
  have agree: "agrees (fst c) ?s (log @ ?new)" by (rule agrees_step [OF Cons.prems(1) t(1,2) Cons.prems(2)])
  have "int (in_any_window k u width (log @ ?new)) \<le> bound k" for u
  proof (cases "snd (step s c) \<and> k = call_key (snd c) \<and> u \<le> fst c \<and> fst c \<le> u + width")
    case False
    then have "in_any_window k u width (log @ ?new) = in_any_window k u width log" by (auto simp: in_any_window_def split: if_splits)
    then show ?thesis using Cons.prems(6) by simp
  next
    case True
    let ?mine = "map snd (filter (\<lambda>x. fst x = k) (log @ ?new))"
    have "in_any_window k u width (log @ ?new) = length (filter (\<lambda>v. u \<le> v \<and> v \<le> u + width) ?mine)"
      by (rule in_any_window_mine)
    also have "\<dots> \<le> length (since (fst c - width) ?mine)"
      unfolding since_def by (rule filter_length_mono) (use True in linarith)
    also have "since (fst c - width) ?mine = since (fst c - width) (recent ?s k)" using agree by (simp add: agrees_def)
    also have "int (length \<dots>) \<le> bound k"
      using remembers [OF Cons.prems(1) t(1,2), of k] admits_below [OF Cons.prems(1) t(1,2)] True by simp
    finally show ?thesis by simp
  qed
  then have "int (in_any_window k u width ((log @ ?new) @ admissions step ?s cs)) \<le> bound k"
    using Cons.IH [OF sound_step [OF Cons.prems(1) t(1,2)] agree t(3) _ Cons.prems(5)] Cons.prems(4) by simp
  moreover have "admissions step s (c # cs) = ?new @ admissions step ?s cs" by (simp add: split_def Let_def)
  ultimately show ?case by simp
qed simp

lemma window_bound:
  assumes "sound t s" "\<And>k. recent s k = []" "sorted (t # map fst cs)" "list_all (\<lambda>c. allowed_call (snd c)) cs" "0 \<le> bound k"
  shows "int (in_any_window k u width (admissions step s cs)) \<le> bound k"
proof -
  have "agrees t s []" using assms(2) by (simp add: agrees_def since_def)
  then show ?thesis using window_bound_from [OF assms(1) _ assms(3,4,5), of "[]"] assms(5) by (simp add: in_any_window_def)
qed

end

section \<open>Tables\<close>

lemma set_entry_keys [simp]: "map fst (set_entry k e es) = map fst es"
  by (simp add: set_entry_def comp_def split_def if_distrib cong: if_cong)

lemma set_entry_length [simp]: "length (set_entry k e es) = length es"
  by (simp add: set_entry_def)

lemma map_of_set_entry:
  "map_of (set_entry k e es) j = (if j = k then map_option (\<lambda>_. e) (map_of es k) else map_of es j)"
  by (induction es) (auto simp: set_entry_def)

lemma set_entry_set: "x \<in> set (set_entry k e es) \<Longrightarrow> x = (k, e) \<or> x \<in> set es"
  by (auto simp: set_entry_def split: if_splits)

lemma map_of_filter_entry:
  "distinct (map fst es) \<Longrightarrow>
   map_of (filter (\<lambda>(k, e). P e) es) k = (case map_of es k of None \<Rightarrow> None | Some e \<Rightarrow> if P e then Some e else None)"
proof (induction es)
  case (Cons x es)
  have "map_of (filter (\<lambda>(k, e). P e) es) (fst x) = None"
    using Cons.prems by (auto simp: map_of_eq_None_iff)
  then show ?case using Cons by (auto split: option.split)
qed simp

definition entry_ok :: "rate_config \<Rightarrow> time_point \<Rightarrow> rate_entry \<Rightarrow> bool" where
  "entry_ok cfg t e \<longleftrightarrow> sorted (hits e) \<and> list_all (\<lambda>h. h \<le> t) (hits e) \<and> lockedUntil e \<le> t + rate_seconds (lockoutSeconds cfg)"

definition config_ok :: "rate_config \<Rightarrow> bool" where
  "config_ok cfg \<longleftrightarrow> rl_enabled cfg \<and> 0 \<le> windowSeconds cfg \<and> 0 \<le> lockoutSeconds cfg"

text \<open>What holds of a table at a time: one entry a key, at most \<open>kMaxTrackedKeys\<close> of them, no hit and no lock from later.\<close>

definition table_ok :: "rate_config \<Rightarrow> time_point \<Rightarrow> rate_table \<Rightarrow> bool" where
  "table_ok cfg t es \<longleftrightarrow> config_ok cfg \<and> 0 \<le> t \<and> distinct (map fst es) \<and> length es \<le> kMaxTrackedKeys
     \<and> list_all (\<lambda>(k, e). entry_ok cfg t e) es"

definition hits_of :: "rate_table \<Rightarrow> string \<Rightarrow> time_point list" where
  "hits_of es k = (case map_of es k of None \<Rightarrow> [] | Some e \<Rightarrow> hits e)"

definition locked_until :: "rate_table \<Rightarrow> string \<Rightarrow> time_point" where
  "locked_until es k = (case map_of es k of None \<Rightarrow> 0 | Some e \<Rightarrow> lockedUntil e)"

definition window_width :: "rate_config \<Rightarrow> int" where
  "window_width cfg = max 0 (rate_seconds (windowSeconds cfg))"

lemma window_width_nonneg [simp]: "0 \<le> window_width cfg"
  by (simp add: window_width_def)

lemma window_start_width: "config_ok cfg \<Longrightarrow> window_start cfg t = t - window_width cfg"
  by (simp add: window_start_def window_width_def config_ok_def rate_seconds_def)

lemma entry_ok_later: "entry_ok cfg t e \<Longrightarrow> t \<le> u \<Longrightarrow> entry_ok cfg u e"
  by (auto simp: entry_ok_def list_all_iff intro: order_trans)

lemma table_ok_later: "table_ok cfg t es \<Longrightarrow> t \<le> u \<Longrightarrow> table_ok cfg u es"
  using entry_ok_later by (auto simp: table_ok_def list_all_iff)

lemma new_entry_ok: "config_ok cfg \<Longrightarrow> 0 \<le> t \<Longrightarrow> entry_ok cfg t new_entry"
  by (simp add: entry_ok_def new_entry_def config_ok_def rate_seconds_def)

lemma table_ok_entry: "table_ok cfg t es \<Longrightarrow> map_of es k = Some e \<Longrightarrow> entry_ok cfg t e"
  using map_of_SomeD by (fastforce simp: table_ok_def list_all_iff)

lemma table_ok_set: "table_ok cfg t es \<Longrightarrow> entry_ok cfg t e \<Longrightarrow> table_ok cfg t (set_entry k e es)"
  using set_entry_set by (fastforce simp: table_ok_def list_all_iff)

lemma table_ok_filter: "table_ok cfg t es \<Longrightarrow> table_ok cfg t (filter P es)"
  by (auto simp: table_ok_def list_all_iff distinct_map_filter intro: order_trans [OF length_filter_le])

section \<open>One entry\<close>

lemma since_dropWhile: "since t (dropWhile (\<lambda>h. h < t) xs) = since t xs"
  by (induction xs) (auto simp: since_def)

lemma sorted_dropWhile_ok: "sorted xs \<Longrightarrow> sorted (dropWhile P xs)"
  by (induction xs) auto

lemma since_old: "sorted xs \<Longrightarrow> xs = [] \<or> last xs < t \<Longrightarrow> since t xs = []"
  by (induction xs rule: rev_induct) (auto simp: since_def sorted_append filter_empty_conv)

lemma admit_entry_ok:
  assumes "entry_ok cfg t e" "config_ok cfg"
  shows "entry_ok cfg t (snd (admit_entry cfg limit t e))"
proof -
  let ?xs = "dropWhile (\<lambda>h. h < window_start cfg t) (hits e)"
  have "sorted ?xs" "set ?xs \<subseteq> set (hits e)"
    using assms(1) by (auto simp: entry_ok_def sorted_dropWhile_ok dest: set_dropWhileD)
  then show ?thesis
    using assms by (auto simp: admit_entry_def entry_ok_def Let_def list_all_iff sorted_append)
qed

lemma admit_entry_hits:
  assumes "config_ok cfg"
  shows "since (t - window_width cfg) (hits (snd (admit_entry cfg limit t e)))
    = since (t - window_width cfg) (hits e) @ (if fst (admit_entry cfg limit t e) then [t] else [])"
  using since_dropWhile [of "window_start cfg t" "hits e"] assms
  by (auto simp: admit_entry_def Let_def window_start_width since_def window_width_def)

lemma since_length_dropWhile: "length (since t xs) \<le> length (dropWhile (\<lambda>h. h < t) xs)"
  by (metis length_filter_le since_def since_dropWhile)

lemma admit_entry_below:
  assumes "config_ok cfg" "fst (admit_entry cfg limit t e)"
  shows "int (length (since (t - window_width cfg) (hits e))) < limit"
  using assms since_length_dropWhile [of "window_start cfg t" "hits e"]
  by (auto simp: admit_entry_def Let_def window_start_width split: if_splits)

lemma admit_entry_locked:
  "t < lockedUntil e \<Longrightarrow> \<not> fst (admit_entry cfg limit t e)" "lockedUntil (snd (admit_entry cfg limit t e)) = lockedUntil e"
  by (auto simp: admit_entry_def Let_def)

lemma new_entry_simps [simp]: "hits new_entry = []" "lockedUntil new_entry = 0" "consecutiveFailures new_entry = 0"
  by (simp_all add: new_entry_def)

section \<open>The limiter meets the contracts\<close>

lemma rl_prune_ok: "table_ok cfg t es \<Longrightarrow> table_ok cfg t (rl_prune cfg t es)"
  unfolding rl_prune_def by (rule table_ok_filter)

lemma rl_prune_find:
  assumes "table_ok cfg t es"
  shows "map_of (rl_prune cfg t es) k = (case map_of es k of None \<Rightarrow> None | Some e \<Rightarrow> if rl_idle cfg t e then None else Some e)"
  using map_of_filter_entry [of es "\<lambda>e. \<not> rl_idle cfg t e" k] assms
  by (simp add: rl_prune_def table_ok_def split: option.split)

lemma rl_prune_remembers:
  assumes "table_ok cfg t es"
  shows "since (t - window_width cfg) (hits_of (rl_prune cfg t es) k) = since (t - window_width cfg) (hits_of es k)"
proof (cases "map_of es k")
  case (Some e)
  have "config_ok cfg" using assms by (simp add: table_ok_def)
  moreover have "entry_ok cfg t e" by (rule table_ok_entry [OF assms Some])
  ultimately show ?thesis
    using Some since_old [of "hits e" "t - window_width cfg"]
    by (auto simp: hits_of_def rl_prune_find [OF assms] rl_idle_def window_start_width entry_ok_def since_def)
qed (simp add: hits_of_def rl_prune_find [OF assms])

lemma rl_prune_locked:
  "table_ok cfg t es \<Longrightarrow> t < locked_until es k \<Longrightarrow> locked_until (rl_prune cfg t es) k = locked_until es k"
  by (auto simp: locked_until_def rl_prune_find rl_idle_def split: option.splits if_splits)

text \<open>The table after room was made for a new key.\<close>

definition rl_room :: "rate_config \<Rightarrow> time_point \<Rightarrow> rate_table \<Rightarrow> rate_table" where
  "rl_room cfg now es = (if length es \<ge> kMaxTrackedKeys then rl_prune cfg now es else es)"

lemma rl_admit_cases:
  assumes "rl_enabled cfg"
  obtains e where "map_of es k = Some e"
      "rl_admit cfg k now es = (fst (admit_entry cfg (maxRequests cfg) now e), set_entry k (snd (admit_entry cfg (maxRequests cfg) now e)) es)"
  | "map_of es k = None" "rl_admit cfg k now es = (False, rl_room cfg now es)"
  | "map_of es k = None" "length (rl_room cfg now es) < kMaxTrackedKeys"
      "rl_admit cfg k now es = (fst (admit_entry cfg (maxRequests cfg) now new_entry),
         rl_room cfg now es @ [(k, snd (admit_entry cfg (maxRequests cfg) now new_entry))])"
  using assms by (cases "map_of es k"; cases "length (rl_room cfg now es) < kMaxTrackedKeys")
    (auto simp: rl_admit_def rl_room_def Let_def split_def)

lemma rl_room_facts:
  assumes "table_ok cfg t es"
  shows "table_ok cfg t (rl_room cfg t es)"
    and "since (t - window_width cfg) (hits_of (rl_room cfg t es) k) = since (t - window_width cfg) (hits_of es k)"
    and "t < locked_until es k \<Longrightarrow> locked_until (rl_room cfg t es) k = locked_until es k"
    and "map_of es k = None \<Longrightarrow> map_of (rl_room cfg t es) k = None"
  using assms rl_prune_ok rl_prune_remembers rl_prune_locked by (auto simp: rl_room_def rl_prune_find)

lemma table_ok_append:
  "table_ok cfg t es \<Longrightarrow> length es < kMaxTrackedKeys \<Longrightarrow> map_of es k = None \<Longrightarrow> entry_ok cfg t e \<Longrightarrow> table_ok cfg t (es @ [(k, e)])"
  by (auto simp: table_ok_def map_of_eq_None_iff)

lemma admit_step_facts:
  assumes "table_ok cfg t es"
  shows "table_ok cfg t (snd (rl_admit cfg k t es))"
    and "since (t - window_width cfg) (hits_of (snd (rl_admit cfg k t es)) j)
       = since (t - window_width cfg) (hits_of es j) @ (if fst (rl_admit cfg k t es) \<and> j = k then [t] else [])"
    and "fst (rl_admit cfg k t es) \<Longrightarrow> int (length (since (t - window_width cfg) (hits_of es k))) < maxRequests cfg"
    and "t < locked_until es j \<Longrightarrow> locked_until (snd (rl_admit cfg k t es)) j = locked_until es j"
    and "t < locked_until es k \<Longrightarrow> \<not> fst (rl_admit cfg k t es)"
proof -
  have cfg: "config_ok cfg" "0 \<le> t" using assms by (auto simp: table_ok_def)
  then have en: "rl_enabled cfg" by (simp add: config_ok_def)
  note hits = admit_entry_hits [OF cfg(1)] and room = rl_room_facts [OF assms]
  show "table_ok cfg t (snd (rl_admit cfg k t es))"
    by (rule rl_admit_cases [OF en, of es k t])
      (use assms room(1) room(4) cfg table_ok_entry table_ok_set table_ok_append admit_entry_ok new_entry_ok in auto)
  show "since (t - window_width cfg) (hits_of (snd (rl_admit cfg k t es)) j)
       = since (t - window_width cfg) (hits_of es j) @ (if fst (rl_admit cfg k t es) \<and> j = k then [t] else [])"
    by (rule rl_admit_cases [OF en, of es k t])
      (use room(2) [of j] room(4) [of k] hits in \<open>auto simp: hits_of_def map_of_set_entry map_add_def new_entry_def since_def split: option.splits\<close>)
  show "int (length (since (t - window_width cfg) (hits_of es k))) < maxRequests cfg" if "fst (rl_admit cfg k t es)"
    by (rule rl_admit_cases [OF en, of es k t])
      (use that admit_entry_below [OF cfg(1), of "maxRequests cfg" t] admit_entry_below [OF cfg(1), of "maxRequests cfg" t new_entry]
        in \<open>auto simp: hits_of_def since_def split: option.splits\<close>)
  show "locked_until (snd (rl_admit cfg k t es)) j = locked_until es j" if "t < locked_until es j"
    by (rule rl_admit_cases [OF en, of es k t])
      (use that room(3) [of j] cfg(2) in \<open>auto simp: locked_until_def map_of_set_entry map_add_def admit_entry_locked(2) split: option.splits\<close>)
  show "\<not> fst (rl_admit cfg k t es)" if "t < locked_until es k"
    by (rule rl_admit_cases [OF en, of es k t])
      (use that cfg(2) in \<open>auto simp: locked_until_def admit_entry_locked(1)\<close>)
qed

lemma set_entry_facts:
  assumes "map_of es k = Some e" "hits e' = hits e"
  shows "hits_of (set_entry k e' es) j = hits_of es j"
    and "locked_until (set_entry k e' es) j = (if j = k then lockedUntil e' else locked_until es j)"
  using assms by (auto simp: hits_of_def locked_until_def map_of_set_entry split: option.splits)

lemma failure_facts:
  assumes "table_ok cfg t es"
  shows "table_ok cfg t (rl_recordFailure cfg k t es)"
    and "hits_of (rl_recordFailure cfg k t es) j = hits_of es j"
    and "locked_until es j \<le> locked_until (rl_recordFailure cfg k t es) j"
proof -
  have en: "rl_enabled cfg" using assms by (simp add: table_ok_def config_ok_def)
  have "table_ok cfg t (rl_recordFailure cfg k t es) \<and> hits_of (rl_recordFailure cfg k t es) j = hits_of es j
    \<and> locked_until es j \<le> locked_until (rl_recordFailure cfg k t es) j"
  proof (cases "map_of es k")
    case (Some e)
    have e: "entry_ok cfg t e" by (rule table_ok_entry [OF assms Some])
    then have "entry_ok cfg t (e\<lparr>consecutiveFailures := n\<rparr>)"
      "entry_ok cfg t (e\<lparr>consecutiveFailures := n, lockedUntil := t + rate_seconds (lockoutSeconds cfg)\<rparr>)"
      "lockedUntil e \<le> t + rate_seconds (lockoutSeconds cfg)" for n
      by (simp_all add: entry_ok_def)
    then show ?thesis
      using Some en assms table_ok_set set_entry_facts [OF Some]
      by (auto simp: rl_recordFailure_def Let_def locked_until_def)
  qed (use assms en in \<open>simp add: rl_recordFailure_def\<close>)
  then show "table_ok cfg t (rl_recordFailure cfg k t es)" "hits_of (rl_recordFailure cfg k t es) j = hits_of es j"
    "locked_until es j \<le> locked_until (rl_recordFailure cfg k t es) j"
    by blast+
qed

lemma success_facts:
  assumes "table_ok cfg t es"
  shows "table_ok cfg t (rl_recordSuccess k es)"
    and "hits_of (rl_recordSuccess k es) j = hits_of es j"
    and "locked_until (rl_recordSuccess k es) j = locked_until es j"
proof -
  have "table_ok cfg t (rl_recordSuccess k es) \<and> hits_of (rl_recordSuccess k es) j = hits_of es j
    \<and> locked_until (rl_recordSuccess k es) j = locked_until es j"
  proof (cases "map_of es k")
    case (Some e)
    have "entry_ok cfg t (e\<lparr>consecutiveFailures := 0\<rparr>)" using table_ok_entry [OF assms Some] by (simp add: entry_ok_def)
    then show ?thesis
      using Some assms table_ok_set set_entry_facts [OF Some] by (auto simp: rl_recordSuccess_def locked_until_def)
  qed (use assms in \<open>simp add: rl_recordSuccess_def\<close>)
  then show "table_ok cfg t (rl_recordSuccess k es)" "hits_of (rl_recordSuccess k es) j = hits_of es j"
    "locked_until (rl_recordSuccess k es) j = locked_until es j"
    by blast+
qed

lemma rl_step_facts:
  assumes "table_ok cfg t es" "t \<le> fst c"
  shows "table_ok cfg (fst c) (fst (rl_step cfg es c))"
    and "since (fst c - window_width cfg) (hits_of (fst (rl_step cfg es c)) k)
       = since (fst c - window_width cfg) (hits_of es k) @ (if snd (rl_step cfg es c) \<and> k = call_key (snd c) then [fst c] else [])"
    and "snd (rl_step cfg es c) \<Longrightarrow> int (length (since (fst c - window_width cfg) (hits_of es (call_key (snd c))))) < maxRequests cfg"
    and "fst c < locked_until es k \<Longrightarrow> locked_until es k \<le> locked_until (fst (rl_step cfg es c)) k"
    and "fst c < locked_until es (call_key (snd c)) \<Longrightarrow> \<not> snd (rl_step cfg es c)"
proof -
  obtain now call where c: "c = (now, call)" by (rule prod.exhaust)
  have ok: "table_ok cfg now es" using table_ok_later [OF assms(1)] assms(2) c by simp
  note facts = admit_step_facts [OF ok] failure_facts [OF ok] success_facts [OF ok]
  have "table_ok cfg (fst c) (fst (rl_step cfg es c))
    \<and> since (fst c - window_width cfg) (hits_of (fst (rl_step cfg es c)) k)
       = since (fst c - window_width cfg) (hits_of es k) @ (if snd (rl_step cfg es c) \<and> k = call_key (snd c) then [fst c] else [])
    \<and> (snd (rl_step cfg es c) \<longrightarrow> int (length (since (fst c - window_width cfg) (hits_of es (call_key (snd c))))) < maxRequests cfg)
    \<and> (fst c < locked_until es k \<longrightarrow> locked_until es k \<le> locked_until (fst (rl_step cfg es c)) k)
    \<and> (fst c < locked_until es (call_key (snd c)) \<longrightarrow> \<not> snd (rl_step cfg es c))"
    by (cases call) (use facts in \<open>auto simp: c Let_def split_def\<close>)
  then show "table_ok cfg (fst c) (fst (rl_step cfg es c))"
    "since (fst c - window_width cfg) (hits_of (fst (rl_step cfg es c)) k)
       = since (fst c - window_width cfg) (hits_of es k) @ (if snd (rl_step cfg es c) \<and> k = call_key (snd c) then [fst c] else [])"
    "snd (rl_step cfg es c) \<Longrightarrow> int (length (since (fst c - window_width cfg) (hits_of es (call_key (snd c))))) < maxRequests cfg"
    "fst c < locked_until es k \<Longrightarrow> locked_until es k \<le> locked_until (fst (rl_step cfg es c)) k"
    "fst c < locked_until es (call_key (snd c)) \<Longrightarrow> \<not> snd (rl_step cfg es c)"
    by blast+
qed

interpretation rl: sliding_window "rl_step cfg" "table_ok cfg" "\<lambda>_. True" hits_of "window_width cfg" "\<lambda>_. maxRequests cfg" for cfg
  by unfold_locales (use rl_step_facts in \<open>auto simp: window_width_def\<close>)

interpretation rl_locks: lockout_gate "rl_step cfg" "table_ok cfg" "\<lambda>_. True" locked_until for cfg
  by unfold_locales (use rl_step_facts in auto)

section \<open>Properties\<close>

text \<open>The limiter keeps its promise: whatever calls arrive, with times that do not go back, no key is admitted more than
  \<open>maxRequests\<close> times within any window of \<open>windowSeconds\<close>, also when the table runs full and is pruned.\<close>

theorem window_limit_kept:
  assumes "config_ok cfg" "0 \<le> maxRequests cfg" "sorted (0 # map fst calls)"
  shows "int (in_any_window key t (window_width cfg) (admissions (rl_step cfg) [] calls)) \<le> maxRequests cfg"
proof (rule rl.window_bound [where t = 0 and s = "[]"])
  show "table_ok cfg 0 []" using assms(1) by (simp add: table_ok_def)
  show "hits_of [] k = []" for k by (simp add: hits_of_def)
  show "sorted (0 # map fst calls)" by fact
  show "list_all (\<lambda>c. True) calls" by (simp add: list_all_iff)
  show "0 \<le> maxRequests cfg" by fact
qed

theorem window_limit_kept_witness:
  "int (in_any_window ''k'' 0 (window_width sample_limits)
     (admissions (rl_step sample_limits) [] [(0, AdmitCall ''k''), (1, AdmitCall ''k''), (2, AdmitCall ''k'')])) \<le> 2
   \<and> admissions (rl_step sample_limits) [] [(0, AdmitCall ''k''), (1, AdmitCall ''k''), (2, AdmitCall ''k'')] = [(''k'', 0), (''k'', 1)]"
proof (intro conjI)
  show "int (in_any_window ''k'' 0 (window_width sample_limits)
     (admissions (rl_step sample_limits) [] [(0, AdmitCall ''k''), (1, AdmitCall ''k''), (2, AdmitCall ''k'')])) \<le> 2"
    using window_limit_kept [of sample_limits "[(0, AdmitCall ''k''), (1, AdmitCall ''k''), (2, AdmitCall ''k'')]" "''k''" 0]
    by (simp add: sample_limits_def config_ok_def)
qed (simp add: rl_admit_def admit_entry_def new_entry_def set_entry_def sample_limits_def window_start_def rate_seconds_def kMaxTrackedKeys_def)

text \<open>A lockout lasts: once a failure reaches the threshold, no call for the key is admitted until \<open>lockoutSeconds\<close> have
  passed, whatever else is called in the meantime and however full the table gets.\<close>

theorem lockout_lasts:
  assumes "table_ok cfg now es" "map_of es key = Some e" "lockoutThreshold cfg \<le> consecutiveFailures e + 1"
    "sorted (now # map fst calls)" "list_all (\<lambda>c. fst c < now + rate_seconds (lockoutSeconds cfg)) calls"
  shows "key \<notin> fst ` set (admissions (rl_step cfg) (rl_recordFailure cfg key now es) calls)"
proof (rule rl_locks.locked_out)
  have "rl_enabled cfg" using assms(1) by (simp add: table_ok_def config_ok_def)
  then have "locked_until (rl_recordFailure cfg key now es) key = now + rate_seconds (lockoutSeconds cfg)"
    using assms(2,3) by (simp add: rl_recordFailure_def Let_def locked_until_def map_of_set_entry)
  then show "list_all (\<lambda>c. True \<and> fst c < locked_until (rl_recordFailure cfg key now es) key) calls"
    using assms(5) by simp
qed (use failure_facts(1) assms in auto)

theorem lockout_lasts_witness:
  "''k'' \<notin> fst ` set (admissions (rl_step sample_limits) (rl_recordFailure sample_limits ''k'' 5 [(''k'', new_entry)])
     [(6, AdmitCall ''j''), (7, AdmitCall ''k''), (8, SuccessCall ''k''), (9, AdmitCall ''k'')])"
  by (rule lockout_lasts [where e = new_entry])
    (simp_all add: table_ok_def config_ok_def entry_ok_def sample_limits_def new_entry_def rate_seconds_def kMaxTrackedKeys_def)

text \<open>The table stays bounded and fails closed: it never tracks more than \<open>kMaxTrackedKeys\<close> keys, and a full table in
  which nothing is idle refuses a new key and keeps every entry.\<close>

theorem table_fails_closed:
  assumes "table_ok cfg now es"
  shows "tracked (snd (rl_admit cfg key now es)) \<le> kMaxTrackedKeys
    \<and> (length es = kMaxTrackedKeys \<and> list_all (\<lambda>(k, e). \<not> rl_idle cfg now e) es \<and> map_of es key = None
       \<longrightarrow> rl_admit cfg key now es = (False, es))"
proof (intro conjI impI)
  show "tracked (snd (rl_admit cfg key now es)) \<le> kMaxTrackedKeys"
    using admit_step_facts(1) [OF assms, of key] by (simp add: table_ok_def tracked_def)
  assume full: "length es = kMaxTrackedKeys \<and> list_all (\<lambda>(k, e). \<not> rl_idle cfg now e) es \<and> map_of es key = None"
  have "rl_prune cfg now es = es" unfolding rl_prune_def using full by (intro filter_True) (simp add: list_all_iff)
  then show "rl_admit cfg key now es = (False, es)"
    using assms full by (simp add: rl_admit_def table_ok_def config_ok_def)
qed

theorem table_fails_closed_witness:
  "length full_table = kMaxTrackedKeys \<and> rl_admit sample_limits ''key'' 0 full_table = (False, full_table)"
proof -
  have len: "length full_table = kMaxTrackedKeys" by (simp add: full_table_def)
  have "table_ok sample_limits 0 full_table"
    by (auto simp: table_ok_def full_table_def sample_limits_def config_ok_def entry_ok_def list_all_iff comp_def
        distinct_map inj_on_def rate_seconds_def new_entry_def dest: arg_cong [where f = length])
  moreover have "list_all (\<lambda>(k, e). \<not> rl_idle sample_limits 0 e) full_table"
    by (auto simp: full_table_def rl_idle_def list_all_iff)
  moreover have "map_of full_table ''key'' = None"
    by (auto simp: map_of_eq_None_iff full_table_def list_eq_iff_nth_eq nth_Cons split: nat.splits)
  ultimately show ?thesis using table_fails_closed [of sample_limits 0 full_table "''key''"] len by blast
qed

end
