(* ===== verification/Proxy_Allowlist.thy ===== *)
theory Proxy_Allowlist
  imports Decimal
begin

text \<open>
  Network ranges and the address of a client: \<open>packages/lib/auth/src/auth/details/proxy-allowlist.cc\<close> and the address
  part of \<open>device-filter.cc\<close>. The conversions \<open>inet_pton\<close> and \<open>inet_ntop\<close> of the C library are parameters (record
  \<open>inet_api\<close>), with their documented behaviour as the hypothesis \<open>inet_ok\<close>. \<open>std::array::at\<close> throws out of range: a
  check that would throw is \<open>None\<close>.
\<close>

section \<open>Data\<close>

record inet_api =
  pton4 :: "string \<Rightarrow> bytes option"
  pton6 :: "string \<Rightarrow> bytes option"
  ntop4 :: "bytes \<Rightarrow> string option"
  ntop6 :: "bytes \<Rightarrow> string option"

text \<open>What the code relies on: the sizes of the two families, that the text of an address reads back, that the text
  of an address of the second family is no address of the first, and that no text contains a slash.\<close>

definition inet_ok :: "inet_api \<Rightarrow> bool" where
  "inet_ok net \<longleftrightarrow>
     (\<forall>s b. pton4 net s = Some b \<longrightarrow> length b = 4) \<and> (\<forall>s b. pton6 net s = Some b \<longrightarrow> length b = 16)
     \<and> (\<forall>b. length b = 4 \<longrightarrow> (\<exists>s. ntop4 net b = Some s \<and> pton4 net s = Some b \<and> CHR ''/'' \<notin> set s))
     \<and> (\<forall>b. length b = 16 \<longrightarrow> (\<exists>s. ntop6 net b = Some s \<and> pton6 net s = Some b \<and> pton4 net s = None \<and> CHR ''/'' \<notin> set s))"

definition kIpv4Bits :: int where "kIpv4Bits = 32"
definition kIpv6Bits :: int where "kIpv6Bits = 128"
definition kByteBits :: int where "kByteBits = 8"
definition kMappedPrefixBytes :: nat where "kMappedPrefixBytes = 12"

definition kIpv4MappedPrefix :: bytes where
  "kIpv4MappedPrefix = [0, 0, 0, 0, 0, 0, 0, 0, 0, 0, 0xff, 0xff]"

record address =
  a_bytes :: bytes
  a_bits :: int

record ip_range =
  r_base :: address
  r_prefix :: int

record cached_ranges =
  cr_text :: string
  cr_ranges :: "ip_range list"

section \<open>Parsing\<close>

definition is_trim :: "char \<Rightarrow> bool" where
  "is_trim c \<longleftrightarrow> ccode c = 32 \<or> ccode c = 9"

definition trimmed :: "string \<Rightarrow> string" where
  "trimmed value = rev (dropWhile is_trim (rev (dropWhile is_trim value)))"

definition c_str :: "string \<Rightarrow> string" where
  "c_str text = takeWhile (\<lambda>c. ccode c \<noteq> 0) text"

definition parseAddress :: "inet_api \<Rightarrow> string \<Rightarrow> address option" where
  "parseAddress net text =
     (case pton4 net (c_str text) of
        Some b \<Rightarrow> Some \<lparr>a_bytes = b @ replicate 12 0, a_bits = kIpv4Bits\<rparr>
      | None \<Rightarrow>
          (case pton6 net (c_str text) of
             None \<Rightarrow> None
           | Some b \<Rightarrow>
               if kIpv4MappedPrefix = take kMappedPrefixBytes b
               then Some \<lparr>a_bytes = drop kMappedPrefixBytes b @ replicate 12 0, a_bits = kIpv4Bits\<rparr>
               else Some \<lparr>a_bytes = b, a_bits = kIpv6Bits\<rparr>))"

fun prefix_digits :: "int \<Rightarrow> int \<Rightarrow> string \<Rightarrow> int option" where
  "prefix_digits bits acc [] = Some acc"
| "prefix_digits bits acc (d # ds) =
     (if \<not> is_cdigit d then None
      else let acc = 10 * acc + digit_value d in if acc > bits then None else prefix_digits bits acc ds)"

definition parseRange :: "inet_api \<Rightarrow> string \<Rightarrow> ip_range option" where
  "parseRange net entry =
     (let entry = trimmed entry in
      if entry = [] then None
      else case parseAddress net (takeWhile (\<lambda>c. c \<noteq> CHR ''/'') entry) of
        None \<Rightarrow> None
      | Some a \<Rightarrow>
          if CHR ''/'' \<notin> set entry then Some \<lparr>r_base = a, r_prefix = a_bits a\<rparr>
          else let digits = tl (dropWhile (\<lambda>c. c \<noteq> CHR ''/'') entry) in
            if digits = [] then None
            else map_option (\<lambda>p. \<lparr>r_base = a, r_prefix = p\<rparr>) (prefix_digits (a_bits a) 0 digits))"

function parseRanges :: "inet_api \<Rightarrow> string \<Rightarrow> ip_range list" where
  "parseRanges net configured =
     (if configured = [] then []
      else (case parseRange net (takeWhile (\<lambda>c. c \<noteq> CHR '','') configured) of Some r \<Rightarrow> [r] | None \<Rightarrow> [])
        @ (if CHR '','' \<notin> set configured then []
           else parseRanges net (tl (dropWhile (\<lambda>c. c \<noteq> CHR '','') configured))))"
  by pat_completeness auto

lemma tl_dropWhile_shorter: "x \<in> set xs \<Longrightarrow> length (tl (dropWhile (\<lambda>c. c \<noteq> x) xs)) < length xs"
  by (induction xs) auto

termination parseRanges
  by (relation "measure (\<lambda>(net, s). length s)") (use tl_dropWhile_shorter in \<open>simp_all del: length_tl\<close>)

declare parseRanges.simps [simp del]

section \<open>Membership\<close>

definition byte_mask :: "int \<Rightarrow> byte" where
  "byte_mask taken = ucast (push_bit (nat (8 - taken)) (0xff :: u32))"

fun covers_loop :: "int \<Rightarrow> bytes \<Rightarrow> bytes \<Rightarrow> bool option" where
  "covers_loop remaining bs as =
     (if remaining \<le> 0 then Some True
      else case (bs, as) of
        (b # bs, a # as) \<Rightarrow>
          let taken = min remaining kByteBits; mask = byte_mask taken in
          if b AND mask \<noteq> a AND mask then Some False else covers_loop (remaining - taken) bs as
      | _ \<Rightarrow> None)"

declare covers_loop.simps [simp del]

definition range_covers :: "ip_range \<Rightarrow> address \<Rightarrow> bool option" where
  "range_covers r a = (if a_bits (r_base r) \<noteq> a_bits a then Some False
     else covers_loop (r_prefix r) (a_bytes (r_base r)) (a_bytes a))"

definition kCachedLists :: nat where "kCachedLists = 8"

definition rangesOf :: "inet_api \<Rightarrow> cached_ranges list \<Rightarrow> string \<Rightarrow> ip_range list \<times> cached_ranges list" where
  "rangesOf net cache configured =
     (case find (\<lambda>c. cr_text c = configured) cache of
        Some hit \<Rightarrow> (cr_ranges hit, cache)
      | None \<Rightarrow>
          let cache = (if length cache \<ge> kCachedLists then tl cache else cache);
              ranges = parseRanges net configured
          in (ranges, cache @ [\<lparr>cr_text = configured, cr_ranges = ranges\<rparr>]))"

fun any_covers :: "ip_range list \<Rightarrow> address \<Rightarrow> bool option" where
  "any_covers [] a = Some False"
| "any_covers (r # rs) a =
     (case range_covers r a of None \<Rightarrow> None | Some True \<Rightarrow> Some True | Some False \<Rightarrow> any_covers rs a)"

definition allowlist_contains ::
  "inet_api \<Rightarrow> cached_ranges list \<Rightarrow> string \<Rightarrow> string \<Rightarrow> bool option \<times> cached_ranges list" where
  "allowlist_contains net cache configured addr =
     (case parseAddress net (trimmed addr) of
        None \<Rightarrow> (Some False, cache)
      | Some a \<Rightarrow> let (ranges, cache) = rangesOf net cache configured in (any_covers ranges a, cache))"

fun mask_bytes :: "int \<Rightarrow> bytes \<Rightarrow> bytes" where
  "mask_bytes remaining [] = []"
| "mask_bytes remaining (b # bs) =
     (let kept = min (max remaining 0) kByteBits
      in (if kept = 0 then 0 else ucast ((ucast b :: u32) AND push_bit (nat (kByteBits - kept)) 0xff))
         # mask_bytes (remaining - kept) bs)"

definition prefixOf :: "inet_api \<Rightarrow> string \<Rightarrow> int \<Rightarrow> int \<Rightarrow> string" where
  "prefixOf net addr ipv4Bits ipv6Bits =
     (let text = trimmed addr in
      case parseAddress net text of
        None \<Rightarrow> text
      | Some a \<Rightarrow>
          let prefix = min (max (if a_bits a = kIpv4Bits then ipv4Bits else ipv6Bits) 0) (a_bits a);
              bs = mask_bytes prefix (a_bytes a)
          in case (if a_bits a = kIpv4Bits then ntop4 net (take 4 bs) else ntop6 net bs) of
               None \<Rightarrow> text
             | Some s \<Rightarrow> s @ ''/'' @ to_string prefix)"

section \<open>The address and the origin of a request\<close>

datatype session_origin = OriginUnknown | OriginLan | OriginTunnel | OriginLoopback | OriginExternal

text \<open>The settings \<open>device.trust_forwarded_for\<close> and \<open>device.trusted_proxy_ips\<close>.\<close>

record device_settings =
  trust_forwarded_for :: bool
  trusted_proxy_ips :: string

definition kAnyAddress :: string where "kAnyAddress = ''0.0.0.0/0,::/0''"
definition kLoopbackNetworks :: string where "kLoopbackNetworks = ''127.0.0.0/8,::1''"

definition trustedProxy :: "inet_api \<Rightarrow> device_settings \<Rightarrow> cached_ranges list \<Rightarrow> string \<Rightarrow> bool option \<times> cached_ranges list" where
  "trustedProxy net cfg cache peer = allowlist_contains net cache (trusted_proxy_ips cfg) peer"

definition strip_spaces :: "string \<Rightarrow> string" where
  "strip_spaces hop = rev (dropWhile (\<lambda>c. c = CHR '' '') (rev (dropWhile (\<lambda>c. c = CHR '' '') hop)))"

text \<open>The loop over the hops of the header, from the right. \<open>trusted\<close> is \<open>trustedProxy\<close> with the cache it threads.\<close>

function hops_loop :: "('c \<Rightarrow> string \<Rightarrow> bool option \<times> 'c) \<Rightarrow> 'c \<Rightarrow> string \<Rightarrow> string \<Rightarrow> (string + string) option \<times> 'c" where
  "hops_loop trusted c rest nearest =
     (if rest = [] then (Some (Inl nearest), c)
      else let hop = strip_spaces (rev (takeWhile (\<lambda>x. x \<noteq> CHR '','') (rev rest)));
               rest = (if CHR '','' \<notin> set rest then [] else rev (tl (dropWhile (\<lambda>x. x \<noteq> CHR '','') (rev rest))))
           in if hop = [] then hops_loop trusted c rest nearest
              else case trusted c hop of
                (None, c) \<Rightarrow> (None, c)
              | (Some False, c) \<Rightarrow> (Some (Inr hop), c)
              | (Some True, c) \<Rightarrow> hops_loop trusted c rest hop)"
  by pat_completeness auto

lemma hops_rest_shorter:
  "rest \<noteq> [] \<Longrightarrow> length (if CHR '','' \<notin> set rest then [] else rev (tl (dropWhile (\<lambda>x. x \<noteq> CHR '','') (rev rest)))) < length rest"
  using tl_dropWhile_shorter [of "CHR '',''" "rev rest"] by auto

termination hops_loop
  by (relation "measure (\<lambda>(t, c, rest, n). length rest)") (use hops_rest_shorter in \<open>simp_all del: length_rev length_tl split del: if_split\<close>)

declare hops_loop.simps [simp del]

definition resolveIp ::
  "inet_api \<Rightarrow> device_settings \<Rightarrow> cached_ranges list \<Rightarrow> string \<Rightarrow> string \<Rightarrow> string option \<times> cached_ranges list" where
  "resolveIp net cfg cache peer forwarded =
     (if \<not> trust_forwarded_for cfg then (Some peer, cache)
      else case trustedProxy net cfg cache peer of
        (None, cache) \<Rightarrow> (None, cache)
      | (Some False, cache) \<Rightarrow> (Some peer, cache)
      | (Some True, cache) \<Rightarrow>
          (case hops_loop (trustedProxy net cfg) cache forwarded [] of
             (None, cache) \<Rightarrow> (None, cache)
           | (Some (Inr hop), cache) \<Rightarrow> (Some hop, cache)
           | (Some (Inl nearest), cache) \<Rightarrow> (Some (if nearest \<noteq> [] then nearest else peer), cache)))"

definition classifyOrigin ::
  "inet_api \<Rightarrow> cached_ranges list \<Rightarrow> bool \<Rightarrow> string \<Rightarrow> string \<Rightarrow> session_origin option \<times> cached_ranges list" where
  "classifyOrigin net cache viaTunnel addr lanNetworks =
     (if viaTunnel then (Some OriginTunnel, cache)
      else case allowlist_contains net cache kAnyAddress addr of
        (None, cache) \<Rightarrow> (None, cache)
      | (Some False, cache) \<Rightarrow> (Some OriginUnknown, cache)
      | (Some True, cache) \<Rightarrow>
          (case allowlist_contains net cache kLoopbackNetworks addr of
             (None, cache) \<Rightarrow> (None, cache)
           | (Some True, cache) \<Rightarrow> (Some OriginLoopback, cache)
           | (Some False, cache) \<Rightarrow>
               (case allowlist_contains net cache lanNetworks addr of
                  (None, cache) \<Rightarrow> (None, cache)
                | (Some True, cache) \<Rightarrow> (Some OriginLan, cache)
                | (Some False, cache) \<Rightarrow> (Some OriginExternal, cache))))"

definition networkPrefix :: "inet_api \<Rightarrow> string \<Rightarrow> int \<Rightarrow> int \<Rightarrow> string" where
  "networkPrefix net addr ipv4Bits ipv6Bits = prefixOf net addr ipv4Bits ipv6Bits"

text \<open>An instance of the conversions for the examples: an address is written as two letters a byte.\<close>

definition byte_letters :: "byte \<Rightarrow> string" where
  "byte_letters b = [char_of (65 + unat b div 16), char_of (65 + unat b mod 16)]"

definition sample_text :: "bytes \<Rightarrow> string" where
  "sample_text bs = concat (map byte_letters bs)"

fun sample_bytes :: "string \<Rightarrow> bytes" where
  "sample_bytes (c # d # cs) = of_nat ((ccode c - 65) * 16 + (ccode d - 65)) # sample_bytes cs"
| "sample_bytes _ = []"

definition sample_net :: inet_api where
  "sample_net = \<lparr>pton4 = \<lambda>s. if length s = 8 then Some (sample_bytes s) else None,
     pton6 = \<lambda>s. if length s = 32 then Some (sample_bytes s) else None,
     ntop4 = \<lambda>b. Some (sample_text b), ntop6 = \<lambda>b. Some (sample_text b)\<rparr>"

section \<open>Bits\<close>

text \<open>The reference: an address is the sequence of its bits, most significant first.\<close>

definition byte_bits :: "byte \<Rightarrow> bool list" where
  "byte_bits b = map (\<lambda>i. bit b (7 - i)) [0..<8]"

definition bytes_bits :: "bytes \<Rightarrow> bool list" where
  "bytes_bits bs = concat (map byte_bits bs)"

definition same_network :: "int \<Rightarrow> address \<Rightarrow> address \<Rightarrow> bool" where
  "same_network prefix a b \<longleftrightarrow> a_bits a = a_bits b \<and>
     take (nat prefix) (bytes_bits (a_bytes a)) = take (nat prefix) (bytes_bits (a_bytes b))"

lemma length_byte_bits [simp]: "length (byte_bits b) = 8"
  by (simp add: byte_bits_def)

lemma bytes_bits_Cons [simp]: "bytes_bits (b # bs) = byte_bits b @ bytes_bits bs"
  by (simp add: bytes_bits_def)

lemma bytes_bits_Nil [simp]: "bytes_bits [] = []"
  by (simp add: bytes_bits_def)

lemma length_bytes_bits [simp]: "length (bytes_bits bs) = 8 * length bs"
  by (induction bs) auto

lemma take_byte_bits_eq:
  assumes "t \<le> 8"
  shows "take t (byte_bits a) = take t (byte_bits b) \<longleftrightarrow> (\<forall>n < (8::nat). 8 - t \<le> n \<longrightarrow> bit a n = bit b n)"
proof -
  have "take t (byte_bits a) = take t (byte_bits b) \<longleftrightarrow> (\<forall>i < t. bit a (7 - i) = bit b (7 - i))"
    using assms by (auto simp: byte_bits_def take_map list_eq_iff_nth_eq)
  also have "\<dots> \<longleftrightarrow> (\<forall>n < (8::nat). 8 - t \<le> n \<longrightarrow> bit a n = bit b n)"
  proof (rule iffI; intro allI impI)
    fix n :: nat assume H: "\<forall>i < t. bit a (7 - i) = bit b (7 - i)" "n < 8" "8 - t \<le> n"
    then have "7 - n < t" "7 - (7 - n) = n" using assms by auto
    then show "bit a n = bit b n" using H(1) by metis
  next
    fix i assume H: "\<forall>n < (8::nat). 8 - t \<le> n \<longrightarrow> bit a n = bit b n" "i < t"
    then have "7 - i < 8" "8 - t \<le> 7 - i" by auto
    then show "bit a (7 - i) = bit b (7 - i)" using H(1) by blast
  qed
  finally show ?thesis .
qed

lemma bit_0xff: "bit (0xff :: 'a::len word) n \<longleftrightarrow> n < 8 \<and> n < LENGTH('a)"
proof -
  have eq: "(0xff :: 'a word) = mask 8" by (simp add: mask_eq_exp_minus_1)
  show ?thesis unfolding eq by (auto simp: bit_mask_iff)
qed

lemma bit_byte_mask: "0 \<le> t \<Longrightarrow> t \<le> 8 \<Longrightarrow> bit (byte_mask t) n \<longleftrightarrow> n < 8 \<and> 8 - nat t \<le> n"
  by (auto simp: byte_mask_def bit_simps bit_0xff [where 'a = 32, simplified] nat_diff_distrib)

lemma byte_mask_eq:
  assumes "0 \<le> t" "t \<le> 8"
  shows "a AND byte_mask t = b AND byte_mask t \<longleftrightarrow> take (nat t) (byte_bits a) = take (nat t) (byte_bits b)"
proof -
  have "a AND byte_mask t = b AND byte_mask t \<longleftrightarrow> (\<forall>n < 8. 8 - nat t \<le> n \<longrightarrow> bit a n = bit b n)"
    using assms by (auto simp: bit_eq_iff bit_and_iff bit_byte_mask)
  then show ?thesis using assms by (simp add: take_byte_bits_eq)
qed

lemma take_append_split:
  assumes "length x = length y"
  shows "take n (x @ xs) = take n (y @ ys) \<longleftrightarrow> take n x = take n y \<and> take (n - length x) xs = take (n - length x) ys"
  using assms by (auto simp: append_eq_append_conv)

lemma covers_loop_exact:
  "length bs = length as \<Longrightarrow> nat rem \<le> 8 * length bs \<Longrightarrow>
   covers_loop rem bs as = Some (take (nat rem) (bytes_bits bs) = take (nat rem) (bytes_bits as))"
proof (induction bs as arbitrary: rem rule: list_induct2')
  case 1 then show ?case by (subst covers_loop.simps) simp
next
  case (4 b bs a as)
  show ?case
  proof (cases "rem \<le> 0")
    case False
    let ?t = "min rem 8"
    have t: "0 \<le> ?t" "?t \<le> 8" "nat (rem - ?t) = nat rem - 8" using False by auto
    have "take (nat ?t) (byte_bits x) = take (nat rem) (byte_bits x)" for x
      by (rule nth_equalityI) (auto simp: nat_less_iff)
    then have mask: "b AND byte_mask ?t = a AND byte_mask ?t \<longleftrightarrow> take (nat rem) (byte_bits b) = take (nat rem) (byte_bits a)"
      using byte_mask_eq [OF t(1,2), of b a] by simp
    have IH: "covers_loop (rem - ?t) bs as = Some (take (nat rem - 8) (bytes_bits bs) = take (nat rem - 8) (bytes_bits as))"
      using "4.IH" [of "rem - ?t"] "4.prems" t(3) by simp
    show ?thesis
      using False mask IH by (subst covers_loop.simps) (auto simp: Let_def kByteBits_def take_append_split)
  qed (subst covers_loop.simps, simp)
qed simp_all

text \<open>Masking the bytes behind a prefix.\<close>

definition masked_byte :: "int \<Rightarrow> byte \<Rightarrow> byte" where
  "masked_byte kept b = (if kept = 0 then 0 else ucast ((ucast b :: u32) AND push_bit (nat (kByteBits - kept)) 0xff))"

lemma masked_byte_eq:
  assumes "0 \<le> t" "t \<le> 8"
  shows "masked_byte t b = b AND byte_mask t"
proof (cases "t = 0")
  case False
  show ?thesis
    using assms False
    by (intro bit_eqI) (auto simp: masked_byte_def kByteBits_def byte_mask_def bit_simps bit_0xff [where 'a = 32, simplified])
qed (intro bit_eqI, simp add: masked_byte_def bit_and_iff bit_byte_mask)

lemma mask_bytes_Cons:
  "mask_bytes rem (b # bs) = masked_byte (min (max rem 0) 8) b # mask_bytes (rem - min (max rem 0) 8) bs"
  by (simp add: masked_byte_def kByteBits_def Let_def)

declare mask_bytes.simps(2) [simp del]

lemma length_mask_bytes [simp]: "length (mask_bytes rem bs) = length bs"
  by (induction bs arbitrary: rem) (simp_all add: mask_bytes_Cons)

lemma mask_bytes_eq:
  "length bs = length as \<Longrightarrow> 0 \<le> rem \<Longrightarrow>
   mask_bytes rem bs = mask_bytes rem as \<longleftrightarrow> take (nat rem) (bytes_bits bs) = take (nat rem) (bytes_bits as)"
proof (induction bs as arbitrary: rem rule: list_induct2)
  case (Cons b bs a as)
  let ?t = "min (max rem 0) 8"
  have t: "0 \<le> ?t" "?t \<le> 8" "nat (rem - ?t) = nat rem - 8" "0 \<le> rem - ?t" using Cons.prems by auto
  have "take (nat ?t) (byte_bits x) = take (nat rem) (byte_bits x)" for x
    using Cons.prems by (intro nth_equalityI) (auto simp: nat_less_iff)
  then have "masked_byte ?t b = masked_byte ?t a \<longleftrightarrow> take (nat rem) (byte_bits b) = take (nat rem) (byte_bits a)"
    using byte_mask_eq [OF t(1,2), of b a] by (simp add: masked_byte_eq [OF t(1,2)])
  then show ?case
    using Cons.IH [OF t(4)] by (simp add: mask_bytes_Cons take_append_split t(3))
qed simp

lemma mask_bytes_tail: "mask_bytes rem (bs @ replicate n 0) = mask_bytes rem bs @ replicate n 0"
proof (induction bs arbitrary: rem)
  case Nil
  have "masked_byte t 0 = 0" for t by (simp add: masked_byte_def)
  then show ?case by (induction n arbitrary: rem) (simp_all add: mask_bytes_Cons)
qed (simp add: mask_bytes_Cons)

section \<open>Well-formed addresses and ranges\<close>

definition address_ok :: "address \<Rightarrow> bool" where
  "address_ok a \<longleftrightarrow> length (a_bytes a) = 16 \<and> (a_bits a = 128 \<or> (a_bits a = 32 \<and> drop 4 (a_bytes a) = replicate 12 0))"

definition range_ok :: "ip_range \<Rightarrow> bool" where
  "range_ok r \<longleftrightarrow> address_ok (r_base r) \<and> 0 \<le> r_prefix r \<and> r_prefix r \<le> a_bits (r_base r)"

lemma parseAddress_ok:
  assumes "inet_ok net" "parseAddress net text = Some a"
  shows "address_ok a"
proof -
  have len: "\<And>s b. pton4 net s = Some b \<Longrightarrow> length b = 4" "\<And>s b. pton6 net s = Some b \<Longrightarrow> length b = 16"
    using assms(1) by (auto simp: inet_ok_def)
  show ?thesis
    using assms(2) len
    by (auto simp: parseAddress_def address_ok_def kIpv4Bits_def kIpv6Bits_def kMappedPrefixBytes_def split: option.splits if_splits)
qed

lemma prefix_digits_bounds: "prefix_digits bits acc ds = Some p \<Longrightarrow> 0 \<le> acc \<Longrightarrow> acc \<le> bits \<Longrightarrow> 0 \<le> p \<and> p \<le> bits"
proof (induction ds arbitrary: acc)
  case (Cons d ds)
  have "is_cdigit d \<Longrightarrow> 0 \<le> digit_value d" by (simp add: is_cdigit_def digit_value_def)
  then show ?case using Cons by (auto simp: Let_def split: if_splits)
qed simp

lemma parseRange_ok: "inet_ok net \<Longrightarrow> parseRange net entry = Some r \<Longrightarrow> range_ok r"
  by (auto simp: parseRange_def range_ok_def Let_def split: option.splits if_splits dest!: prefix_digits_bounds)
     (auto dest!: parseAddress_ok simp: address_ok_def)

lemma covers_exact: "range_ok r \<Longrightarrow> address_ok a \<Longrightarrow> range_covers r a = Some (same_network (r_prefix r) (r_base r) a)"
  by (auto simp: range_covers_def same_network_def range_ok_def address_ok_def covers_loop_exact)

text \<open>The list of ranges, as the parts between the commas.\<close>

fun split_commas :: "string \<Rightarrow> string list" where
  "split_commas [] = [[]]"
| "split_commas (c # cs) =
     (let parts = split_commas cs in if c = CHR '','' then [] # parts else (c # hd parts) # tl parts)"

lemma split_commas_ne [simp]: "split_commas s \<noteq> []"
  by (induction s) (auto simp: Let_def)

lemma split_commas_first:
  "split_commas s = takeWhile (\<lambda>c. c \<noteq> CHR '','') s
     # (if CHR '','' \<in> set s then split_commas (tl (dropWhile (\<lambda>c. c \<noteq> CHR '','') s)) else [])"
  by (induction s) (auto simp: Let_def)

lemma parseRange_Nil [simp]: "parseRange net [] = None"
  by (simp add: parseRange_def trimmed_def)

lemma parseRanges_split: "parseRanges net s = List.map_filter (parseRange net) (split_commas s)"
proof (induction net s rule: parseRanges.induct)
  case (1 net s)
  show ?case
  proof (cases "s = []")
    case True
    then show ?thesis by (simp add: parseRanges.simps map_filter_simps)
  next
    case False
    then show ?thesis
      using 1 by (subst parseRanges.simps, subst split_commas_first) (auto simp: map_filter_simps split: option.split)
  qed
qed

lemma parseRanges_ok:
  assumes "inet_ok net" "r \<in> set (parseRanges net s)"
  shows "range_ok r"
  using assms parseRange_ok by (auto simp: parseRanges_split map_filter_def)

lemma any_covers_exact:
  "list_all range_ok rs \<Longrightarrow> address_ok a \<Longrightarrow> any_covers rs a = Some (list_ex (\<lambda>r. same_network (r_prefix r) (r_base r) a) rs)"
  by (induction rs) (auto simp: covers_exact split: bool.split)

section \<open>The cache\<close>

definition cache_ok :: "inet_api \<Rightarrow> cached_ranges list \<Rightarrow> bool" where
  "cache_ok net cache \<longleftrightarrow> length cache \<le> kCachedLists \<and> list_all (\<lambda>c. cr_ranges c = parseRanges net (cr_text c)) cache"

lemma rangesOf_exact:
  assumes "cache_ok net cache"
  shows "fst (rangesOf net cache configured) = parseRanges net configured \<and> cache_ok net (snd (rangesOf net cache configured))"
proof (cases "find (\<lambda>c. cr_text c = configured) cache")
  case None
  have "cache_ok net (tl cache)" using assms by (cases cache) (auto simp: cache_ok_def)
  then show ?thesis using assms None by (auto simp: rangesOf_def Let_def cache_ok_def kCachedLists_def)
next
  case (Some hit)
  then have "hit \<in> set cache" "cr_text hit = configured" by (auto simp: find_Some_iff)
  then show ?thesis using assms Some by (auto simp: rangesOf_def cache_ok_def list_all_iff)
qed

text \<open>The reference: an address is allowed when it lies in the network of one of the listed ranges.\<close>

definition allowed :: "inet_api \<Rightarrow> string \<Rightarrow> string \<Rightarrow> bool" where
  "allowed net configured addr =
     (case parseAddress net (trimmed addr) of
        None \<Rightarrow> False
      | Some a \<Rightarrow> list_ex (\<lambda>r. same_network (r_prefix r) (r_base r) a) (List.map_filter (parseRange net) (split_commas configured)))"

lemma contains_exact:
  assumes "inet_ok net" "cache_ok net cache"
  shows "fst (allowlist_contains net cache configured addr) = Some (allowed net configured addr)
    \<and> cache_ok net (snd (allowlist_contains net cache configured addr))"
proof (cases "parseAddress net (trimmed addr)")
  case (Some a)
  obtain rs c where rs: "rangesOf net cache configured = (rs, c)" by (rule prod.exhaust)
  then have "rs = parseRanges net configured" "cache_ok net c" using rangesOf_exact [OF assms(2), of configured] by auto
  moreover have "list_all range_ok (parseRanges net configured)" using parseRanges_ok [OF assms(1)] by (auto simp: list_all_iff)
  ultimately show ?thesis
    using Some rs parseAddress_ok [OF assms(1) Some]
    by (simp add: allowlist_contains_def allowed_def any_covers_exact parseRanges_split)
qed (use assms in \<open>simp add: allowlist_contains_def allowed_def\<close>)

section \<open>The hops of a forwarded request\<close>

text \<open>The hops of a header, the nearest first.\<close>

definition hop_list :: "string \<Rightarrow> string list" where
  "hop_list header = filter (\<lambda>h. h \<noteq> []) (map strip_spaces (rev (split_commas header)))"

lemma split_commas_append: "split_commas (x @ CHR '','' # y) = split_commas x @ split_commas y"
  by (induction x) (auto simp: Let_def)

lemma split_commas_last:
  "split_commas s = (if CHR '','' \<in> set s then split_commas (rev (tl (dropWhile (\<lambda>c. c \<noteq> CHR '','') (rev s)))) else [])
     @ [rev (takeWhile (\<lambda>c. c \<noteq> CHR '','') (rev s))]"
proof (cases "CHR '','' \<in> set s")
  case True
  then obtain ys zs where s: "s = ys @ CHR '','' # zs" "CHR '','' \<notin> set zs" using split_list_last by metis
  have all: "takeWhile (\<lambda>c. c \<noteq> CHR '','') zs = zs" using s(2) by (auto simp: takeWhile_eq_all_conv)
  have rev: "takeWhile (\<lambda>c. c \<noteq> CHR '','') (rev zs @ CHR '','' # rev ys) = rev zs"
    "dropWhile (\<lambda>c. c \<noteq> CHR '','') (rev zs @ CHR '','' # rev ys) = CHR '','' # rev ys"
    using s(2) by (auto simp: takeWhile_append dropWhile_append)
  have "split_commas zs = [zs]" using s(2) all by (subst split_commas_first) simp
  then show ?thesis by (simp add: s(1) split_commas_append rev)
next
  case False
  then have all: "takeWhile (\<lambda>c. c \<noteq> CHR '','') (rev s) = rev s" "takeWhile (\<lambda>c. c \<noteq> CHR '','') s = s"
    by (auto simp: takeWhile_eq_all_conv)
  show ?thesis using False by (subst split_commas_first) (simp add: all)
qed

lemma hop_list_Nil [simp]: "hop_list [] = []"
  by (simp add: hop_list_def strip_spaces_def)

lemma hop_list_append: "hop_list (x @ CHR '','' # y) = hop_list y @ hop_list x"
  by (simp add: hop_list_def split_commas_append)

lemma hop_list_step:
  "hop_list s = (let hop = strip_spaces (rev (takeWhile (\<lambda>x. x \<noteq> CHR '','') (rev s)));
       rest = (if CHR '','' \<notin> set s then [] else rev (tl (dropWhile (\<lambda>x. x \<noteq> CHR '','') (rev s))))
     in (if hop = [] then [] else [hop]) @ hop_list rest)"
  by (subst hop_list_def, subst split_commas_last) (simp add: Let_def hop_list_def [symmetric] del: set_rev) 

text \<open>The reference: the nearest hop that is not trusted, or else the farthest hop.\<close>

fun nearest_foreign :: "(string \<Rightarrow> bool) \<Rightarrow> string list \<Rightarrow> string \<Rightarrow> string + string" where
  "nearest_foreign trusted [] nearest = Inl nearest"
| "nearest_foreign trusted (hop # hops) nearest =
     (if trusted hop then nearest_foreign trusted hops hop else Inr hop)"

lemma nearest_foreign_append:
  "list_ex (\<lambda>h. \<not> trusted h) hops \<Longrightarrow> nearest_foreign trusted (hops @ rest) n = nearest_foreign trusted hops n"
  by (induction hops arbitrary: n) auto

text \<open>The interface the address of a request relies on: a membership test that answers whatever its cache holds, and
  keeps the cache usable.\<close>

locale membership =
  fixes contains :: "'c \<Rightarrow> string \<Rightarrow> bool option \<times> 'c"
    and usable :: "'c \<Rightarrow> bool"
    and answer :: "string \<Rightarrow> bool"
  assumes contains_answer: "usable c \<Longrightarrow> fst (contains c h) = Some (answer h)"
    and contains_usable: "usable c \<Longrightarrow> usable (snd (contains c h))"
begin

lemma hops_loop_exact:
  "usable c \<Longrightarrow> fst (hops_loop contains c rest nearest) = Some (nearest_foreign answer (hop_list rest) nearest)
     \<and> usable (snd (hops_loop contains c rest nearest))"
proof (induction "length rest" arbitrary: c rest nearest rule: less_induct)
  case less
  let ?hop = "strip_spaces (rev (takeWhile (\<lambda>x. x \<noteq> CHR '','') (rev rest)))"
  let ?rest = "if CHR '','' \<notin> set rest then [] else rev (tl (dropWhile (\<lambda>x. x \<noteq> CHR '','') (rev rest)))"
  have step: "hop_list rest = (if ?hop = [] then [] else [?hop]) @ hop_list ?rest"
    by (subst hop_list_step) (simp add: Let_def)
  have IH: "usable c' \<Longrightarrow> rest \<noteq> [] \<Longrightarrow> fst (hops_loop contains c' ?rest n) = Some (nearest_foreign answer (hop_list ?rest) n)
      \<and> usable (snd (hops_loop contains c' ?rest n))" for c' n
    using less.hyps [OF hops_rest_shorter] by blast
  obtain b c' where b: "contains c ?hop = (b, c')" by (rule prod.exhaust)
  then have b': "b = Some (answer ?hop)" "usable c'"
    using contains_answer [OF less.prems, of ?hop] contains_usable [OF less.prems, of ?hop] by auto
  consider "rest = []" | "rest \<noteq> []" "?hop = []" | "rest \<noteq> []" "?hop \<noteq> []" "answer ?hop" | "rest \<noteq> []" "?hop \<noteq> []" "\<not> answer ?hop"
    by blast
  then show ?case
  proof cases
    case 1
    then show ?thesis using less.prems by (subst (1 2) hops_loop.simps) simp
  next
    case 2
    then have "hops_loop contains c rest nearest = hops_loop contains c ?rest nearest"
      by (subst hops_loop.simps) (simp only: Let_def if_True if_False simp_thms)
    moreover have "nearest_foreign answer (hop_list rest) nearest = nearest_foreign answer (hop_list ?rest) nearest"
      using step 2 by (simp only: if_True append_Nil simp_thms)
    ultimately show ?thesis using IH [OF less.prems 2(1)] by metis
  next
    case 3
    then have "hops_loop contains c rest nearest = hops_loop contains c' ?rest ?hop"
      by (subst hops_loop.simps) (simp only: Let_def if_True if_False simp_thms b b' prod.case option.case bool.case)
    moreover have "nearest_foreign answer (hop_list rest) nearest = nearest_foreign answer (hop_list ?rest) ?hop"
      using step 3 by (simp only: if_False append.simps nearest_foreign.simps if_True simp_thms)
    ultimately show ?thesis using IH [OF b'(2) 3(1)] by metis
  next
    case 4
    then have "hops_loop contains c rest nearest = (Some (Inr ?hop), c')"
      by (subst hops_loop.simps) (simp only: Let_def if_True if_False simp_thms b b' prod.case option.case bool.case)
    moreover have "nearest_foreign answer (hop_list rest) nearest = Inr ?hop"
      unfolding step using 4 by simp
    ultimately show ?thesis using b'(2) by simp
  qed
qed

end

interpretation proxies: membership "trustedProxy net cfg" "\<lambda>c. inet_ok net \<and> cache_ok net c" "allowed net (trusted_proxy_ips cfg)"
  for net cfg
  by unfold_locales (simp_all add: trustedProxy_def contains_exact)

lemma resolveIp_exact:
  assumes "inet_ok net" "cache_ok net cache"
  shows "fst (resolveIp net cfg cache peer forwarded) =
     Some (if trust_forwarded_for cfg \<and> allowed net (trusted_proxy_ips cfg) peer
           then case nearest_foreign (allowed net (trusted_proxy_ips cfg)) (hop_list forwarded) [] of
             Inr h \<Rightarrow> h | Inl n \<Rightarrow> if n \<noteq> [] then n else peer
           else peer)
   \<and> cache_ok net (snd (resolveIp net cfg cache peer forwarded))"
proof -
  obtain b c where b: "trustedProxy net cfg cache peer = (b, c)" by (rule prod.exhaust)
  have b': "b = Some (allowed net (trusted_proxy_ips cfg) peer)" "cache_ok net c"
    using proxies.contains_answer [of net cache cfg peer] proxies.contains_usable [of net cache cfg peer] assms b by auto
  obtain r c' where r: "hops_loop (trustedProxy net cfg) c forwarded [] = (r, c')" by (rule prod.exhaust)
  have r': "r = Some (nearest_foreign (allowed net (trusted_proxy_ips cfg)) (hop_list forwarded) [])" "cache_ok net c'"
    using proxies.hops_loop_exact [of net c cfg forwarded "[]"] assms b' r by auto
  show ?thesis
    using assms b b' r r' by (auto simp: resolveIp_def split: bool.split sum.split)
qed

section \<open>The text of a network\<close>

definition clamped_prefix :: "int \<Rightarrow> int \<Rightarrow> address \<Rightarrow> int" where
  "clamped_prefix ipv4Bits ipv6Bits a = min (max (if a_bits a = 32 then ipv4Bits else ipv6Bits) 0) (a_bits a)"

definition network_text :: "inet_api \<Rightarrow> int \<Rightarrow> address \<Rightarrow> string option" where
  "network_text net prefix a = (let bs = mask_bytes prefix (a_bytes a)
     in if a_bits a = 32 then ntop4 net (take 4 bs) else ntop6 net bs)"

lemma prefixOf_text:
  assumes "parseAddress net (trimmed t) = Some a"
  shows "prefixOf net t p4 p6 = (let p = clamped_prefix p4 p6 a in
     case network_text net p a of None \<Rightarrow> trimmed t | Some s \<Rightarrow> s @ ''/'' @ to_string p)"
  using assms by (simp add: prefixOf_def network_text_def clamped_prefix_def kIpv4Bits_def Let_def)

lemma network_text_total:
  assumes "inet_ok net" "address_ok a"
  obtains s where "network_text net p a = Some s" "CHR ''/'' \<notin> set s" "pton4 net s \<noteq> None \<longleftrightarrow> a_bits a = 32"
proof (cases "a_bits a = 32")
  case True
  have "length (take 4 (mask_bytes p (a_bytes a))) = 4" using assms(2) by (simp add: address_ok_def)
  then obtain s where "ntop4 net (take 4 (mask_bytes p (a_bytes a))) = Some s" "pton4 net s \<noteq> None" "CHR ''/'' \<notin> set s"
    using assms(1) unfolding inet_ok_def by blast
  then show thesis using that True by (simp add: network_text_def Let_def)
next
  case False
  have "length (mask_bytes p (a_bytes a)) = 16" using assms(2) by (simp add: address_ok_def)
  then obtain s where "ntop6 net (mask_bytes p (a_bytes a)) = Some s" "pton4 net s = None" "CHR ''/'' \<notin> set s"
    using assms(1) unfolding inet_ok_def by blast
  then show thesis using that False by (simp add: network_text_def Let_def)
qed

lemma ntop_inject:
  assumes "inet_ok net"
  shows "length a = 4 \<Longrightarrow> length b = 4 \<Longrightarrow> ntop4 net a = ntop4 net b \<longleftrightarrow> a = b"
    "length a = 16 \<Longrightarrow> length b = 16 \<Longrightarrow> ntop6 net a = ntop6 net b \<longleftrightarrow> a = b"
  using assms unfolding inet_ok_def by (metis option.inject)+

lemma network_text_inject:
  assumes "inet_ok net" "address_ok a" "address_ok b" "a_bits a = a_bits b" "0 \<le> p"
  shows "network_text net p a = network_text net p b \<longleftrightarrow> same_network p a b"
proof -
  let ?m = "mask_bytes p"
  have len: "length (a_bytes a) = 16" "length (a_bytes b) = 16" using assms by (auto simp: address_ok_def)
  have full: "?m (a_bytes a) = ?m (a_bytes b) \<longleftrightarrow> same_network p a b"
    using mask_bytes_eq [of "a_bytes a" "a_bytes b" p] len assms(4,5) by (simp add: same_network_def)
  show ?thesis
  proof (cases "a_bits a = 32")
    case True
    have tail: "?m (a_bytes x) = take 4 (?m (a_bytes x)) @ replicate 12 0" if "address_ok x" "a_bits x = 32" for x
    proof -
      have "drop 4 (a_bytes x) = replicate 12 0" using that by (simp add: address_ok_def)
      then have x: "a_bytes x = take 4 (a_bytes x) @ replicate 12 0" by (metis append_take_drop_id)
      have "?m (a_bytes x) = ?m (take 4 (a_bytes x)) @ replicate 12 0" by (subst x) (rule mask_bytes_tail)
      moreover have "length (?m (take 4 (a_bytes x))) = 4" using that by (simp add: address_ok_def)
      ultimately show ?thesis by simp
    qed
    have "take 4 (?m (a_bytes a)) = take 4 (?m (a_bytes b)) \<longleftrightarrow> ?m (a_bytes a) = ?m (a_bytes b)"
      using tail [OF assms(2) True] tail [OF assms(3)] True assms(4) by metis
    then show ?thesis
      using True assms(4) len full ntop_inject(1) [OF assms(1)] by (simp add: network_text_def Let_def)
  next
    case False
    then show ?thesis
      using assms(4) len full ntop_inject(2) [OF assms(1)] by (simp add: network_text_def Let_def)
  qed
qed

lemma append_slash_inject:
  "CHR ''/'' \<notin> set s \<Longrightarrow> CHR ''/'' \<notin> set t \<Longrightarrow> s @ ''/'' @ x = t @ ''/'' @ y \<longleftrightarrow> s = t \<and> x = y"
proof (induction s arbitrary: t)
  case Nil then show ?case by (cases t) auto
next
  case (Cons c s) then show ?case by (cases t) auto
qed

lemma sample_bytes_length: "length (sample_bytes s) = length s div 2"
  by (induction s rule: sample_bytes.induct) auto

lemma sample_text_length [simp]: "length (sample_text bs) = 2 * length bs"
  by (induction bs) (auto simp: sample_text_def byte_letters_def)

lemma sample_text_roundtrip: "sample_bytes (sample_text bs) = bs"
proof (induction bs)
  case (Cons b bs)
  have "unat b div 16 < 16" using unat_byte_lt [of b] by auto
  then have "sample_bytes (sample_text (b # bs)) = of_nat (unat b div 16 * 16 + unat b mod 16) # sample_bytes (sample_text bs)"
    by (simp add: sample_text_def byte_letters_def ccode_char_of)
  then show ?case using Cons by simp
qed (simp add: sample_text_def)

lemma sample_text_no_slash: "CHR ''/'' \<notin> set (sample_text bs)"
proof (induction bs)
  case (Cons b bs)
  have ne: "CHR ''/'' \<noteq> char_of (65 + n)" if "n < 16" for n :: nat
  proof
    assume "CHR ''/'' = char_of (65 + n)"
    then have "ccode (CHR ''/'') = 65 + n" using that by (simp add: ccode_char_of)
    then show False by (simp add: ccode_def)
  qed
  have "unat b div 16 < 16" "unat b mod 16 < 16" using unat_byte_lt [of b] by auto
  then show ?case using Cons ne by (auto simp: sample_text_def byte_letters_def)
qed (simp add: sample_text_def)

lemma sample_net_ok: "inet_ok sample_net"
  by (auto simp: inet_ok_def sample_net_def sample_bytes_length sample_text_roundtrip sample_text_no_slash)

lemma empty_cache_ok: "cache_ok net []"
  by (simp add: cache_ok_def)

section \<open>Properties\<close>

text \<open>The list of ranges decides exactly: an address is contained when it parses and lies in the network of one of the
  ranges between the commas of the list, whatever the cache holds; nothing in the check reads past the end of an
  address, and the cache never holds more than eight lists, all of them parsed right.\<close>

theorem allowlist_exact:
  assumes "inet_ok net" "cache_ok net cache"
  shows "fst (allowlist_contains net cache configured addr) = Some (allowed net configured addr)
    \<and> cache_ok net (snd (allowlist_contains net cache configured addr))"
  using assms by (rule contains_exact)

theorem allowlist_exact_witness:
  "fst (allowlist_contains sample_net [] ''OAAAAAAA/8,AKAAAAAA/8'' ''AKABACAD'') = Some True
   \<and> fst (allowlist_contains sample_net [] ''OAAAAAAA/8,AKAAAAAA/8'' ''ALABACAD'') = Some False"
proof -
  have "allowed sample_net ''OAAAAAAA/8,AKAAAAAA/8'' ''AKABACAD''" "\<not> allowed sample_net ''OAAAAAAA/8,AKAAAAAA/8'' ''ALABACAD''"
    by code_simp+
  then show ?thesis
    using allowlist_exact [OF sample_net_ok empty_cache_ok, of "''OAAAAAAA/8,AKAAAAAA/8''"] by simp
qed

text \<open>The address of a client cannot be forged through the header: without trust in the peer the peer itself counts,
  and behind trusted proxies what stands in the header before a hop that is not trusted makes no difference.\<close>

theorem forwarded_not_forged:
  assumes "inet_ok net" "cache_ok net cache"
  shows "(\<not> (trust_forwarded_for cfg \<and> allowed net (trusted_proxy_ips cfg) peer)
      \<longrightarrow> fst (resolveIp net cfg cache peer header) = Some peer)
    \<and> (list_ex (\<lambda>h. \<not> allowed net (trusted_proxy_ips cfg) h) (hop_list added)
      \<longrightarrow> fst (resolveIp net cfg cache peer (claimed @ '','' @ added)) = fst (resolveIp net cfg cache peer added))"
  using resolveIp_exact [OF assms] nearest_foreign_append [of "allowed net (trusted_proxy_ips cfg)" "hop_list added" "hop_list claimed" "[]"]
  by (auto simp: hop_list_append)

theorem forwarded_not_forged_witness:
  "let cfg = \<lparr>trust_forwarded_for = True, trusted_proxy_ips = ''AKAAAAAA/8''\<rparr>
   in fst (resolveIp sample_net cfg [] ''AKABACAD'' ''AAAAAAAA, BABABABA, AKABACAE'')
      = fst (resolveIp sample_net cfg [] ''AKABACAD'' '' BABABABA, AKABACAE'')
    \<and> fst (resolveIp sample_net cfg [] ''BABABABA'' ''AAAAAAAA'') = Some ''BABABABA''"
proof -
  let ?cfg = "\<lparr>trust_forwarded_for = True, trusted_proxy_ips = ''AKAAAAAA/8''\<rparr>"
  have "list_ex (\<lambda>h. \<not> allowed sample_net (trusted_proxy_ips ?cfg) h) (hop_list '' BABABABA, AKABACAE'')"
    "\<not> allowed sample_net (trusted_proxy_ips ?cfg) ''BABABABA''"
    by code_simp+
  then show ?thesis
    using forwarded_not_forged [OF sample_net_ok empty_cache_ok, of ?cfg "''AKABACAD''" "[]" "'' BABABABA, AKABACAE''" "''AAAAAAAA''"]
      forwarded_not_forged [OF sample_net_ok empty_cache_ok, of ?cfg "''BABABABA''" "''AAAAAAAA''" "[]" "[]"]
    by simp
qed

text \<open>The key of a client is its network: two addresses have the same network text exactly when they are of the same
  family and agree in the bits of the prefix.\<close>

theorem network_prefix_exact:
  assumes "inet_ok net" "parseAddress net (trimmed s) = Some a" "parseAddress net (trimmed t) = Some b"
  shows "networkPrefix net s p4 p6 = networkPrefix net t p4 p6 \<longleftrightarrow> same_network (clamped_prefix p4 p6 a) a b"
proof -
  have ok: "address_ok a" "address_ok b" using assms parseAddress_ok by blast+
  obtain x where x: "network_text net (clamped_prefix p4 p6 a) a = Some x" "CHR ''/'' \<notin> set x" "pton4 net x \<noteq> None \<longleftrightarrow> a_bits a = 32"
    by (rule network_text_total [OF assms(1) ok(1)])
  obtain y where y: "network_text net (clamped_prefix p4 p6 b) b = Some y" "CHR ''/'' \<notin> set y" "pton4 net y \<noteq> None \<longleftrightarrow> a_bits b = 32"
    by (rule network_text_total [OF assms(1) ok(2)])
  have texts: "networkPrefix net s p4 p6 = networkPrefix net t p4 p6 \<longleftrightarrow> x = y \<and> to_string (clamped_prefix p4 p6 a) = to_string (clamped_prefix p4 p6 b)"
    by (simp add: networkPrefix_def prefixOf_text [OF assms(2)] prefixOf_text [OF assms(3)] x y Let_def append_slash_inject [simplified])
  show ?thesis
  proof (cases "a_bits a = a_bits b")
    case True
    then have p: "clamped_prefix p4 p6 b = clamped_prefix p4 p6 a" "0 \<le> clamped_prefix p4 p6 a"
      using ok by (auto simp: clamped_prefix_def address_ok_def)
    show ?thesis
      using network_text_inject [OF assms(1) ok True p(2)] x y texts p by simp
  next
    case False
    then have "x \<noteq> y" using x(3) y(3) ok by (auto simp: address_ok_def)
    then show ?thesis using False texts by (simp add: same_network_def)
  qed
qed

theorem network_prefix_exact_witness:
  "networkPrefix sample_net ''AKABACAD'' 24 64 = networkPrefix sample_net ''AKABACAE'' 24 64"
proof -
  obtain a b where ab: "parseAddress sample_net (trimmed ''AKABACAD'') = Some a" "parseAddress sample_net (trimmed ''AKABACAE'') = Some b"
    "same_network (clamped_prefix 24 64 a) a b"
  proof -
    have "case (parseAddress sample_net (trimmed ''AKABACAD''), parseAddress sample_net (trimmed ''AKABACAE'')) of
        (Some a, Some b) \<Rightarrow> same_network (clamped_prefix 24 64 a) a b | _ \<Rightarrow> False"
      by code_simp
    then show thesis using that by (auto split: option.splits)
  qed
  then show ?thesis using network_prefix_exact [OF sample_net_ok ab(1,2), of 24 64] by simp
qed

end
