(* ===== verification/Auth_Gate.thy ===== *)
theory Auth_Gate
  imports Rate_Limit Proxy_Allowlist "HOL-Library.Multiset"
begin

text \<open>
  The gate in front of the routes that sign in, \<open>services/auth/src/feature/auth/infra/auth-rate-gate.cc\<close>: its keys, the
  admission of a request under all of them, the record of outcomes and the making of room in a full table. The entries,
  tables and the admission of one entry are those of \<open>Rate_Limit\<close>, which the source repeats word for word. Here the
  order of iteration matters: where \<open>emplace\<close> puts a new entry is the parameter \<open>place\<close>, of which only
  \<open>unordered place\<close> is known. The text of a refresh token in the body and the session it belongs to, which JSON and the
  token service decide, are a field of the request and the parameter \<open>sessionOf\<close>.
\<close>

section \<open>Requests and keys\<close>

datatype http_method = GetMethod | PostMethod | HeadMethod | PutMethod | DeleteMethod | OptionsMethod | PatchMethod | InvalidMethod

record auth_request =
  rq_method :: http_method
  rq_path :: string
  rq_peer :: string
  rq_forwarded :: string
  rq_refreshToken :: "string option"

record gate_key =
  gk_key :: string
  gk_maxRequests :: int
  gk_lockoutThreshold :: int

definition kPeerCeilingFactor :: int where "kPeerCeilingFactor = 20"
definition kIpv6GroupBits :: int where "kIpv6GroupBits = 64"

definition kGuardedRoutes :: "(http_method \<times> string \<times> string) list" where
  "kGuardedRoutes =
     [(PatchMethod, ''/auth/refresh-token'', ''refresh''),
      (PostMethod, ''/auth/login'', ''login''),
      (PostMethod, ''/auth/register'', ''register''),
      (PostMethod, ''/auth/device-login'', ''device-login'')]"

definition samePath :: "string \<Rightarrow> string \<Rightarrow> bool" where
  "samePath lhs rhs \<longleftrightarrow> list_all2 (\<lambda>a b. ctolower a = ctolower b) lhs rhs"

definition guardedRoute :: "auth_request \<Rightarrow> string" where
  "guardedRoute req =
     (case find (\<lambda>(m, path, name). rq_method req = m \<and> samePath (rq_path req) path) kGuardedRoutes of
        Some (m, path, name) \<Rightarrow> name
      | None \<Rightarrow> [])"

definition clientKey :: "inet_api \<Rightarrow> string \<Rightarrow> string" where
  "clientKey net addr = networkPrefix net addr 32 kIpv6GroupBits"

definition session_of :: "(string \<Rightarrow> string) option \<Rightarrow> auth_request \<Rightarrow> string" where
  "session_of sessionOf req =
     (case sessionOf of
        None \<Rightarrow> []
      | Some f \<Rightarrow> (case rq_refreshToken req of None \<Rightarrow> [] | Some token \<Rightarrow> if token = [] then [] else f token))"

text \<open>\<open>gateKeys\<close> with the resolved address of the client.\<close>

definition gateKeys ::
  "inet_api \<Rightarrow> rate_config \<Rightarrow> (string \<Rightarrow> string) option \<Rightarrow> string \<Rightarrow> auth_request \<Rightarrow> gate_key list" where
  "gateKeys net cfg sessionOf resolved req =
     (let route = guardedRoute req;
          addr = clientKey net resolved;
          peer = clientKey net (rq_peer req);
          wide = \<lparr>gk_key = route @ ''|peer|'' @ peer, gk_maxRequests = maxRequests cfg * kPeerCeilingFactor,
                  gk_lockoutThreshold = lockoutThreshold cfg * kPeerCeilingFactor\<rparr>;
          session = (if route = ''refresh'' then session_of sessionOf req else [])
      in if session \<noteq> []
         then [\<lparr>gk_key = route @ ''|sid|'' @ session, gk_maxRequests = maxRequests cfg, gk_lockoutThreshold = lockoutThreshold cfg\<rparr>, wide]
         else \<lparr>gk_key = route @ ''|'' @ addr, gk_maxRequests = maxRequests cfg, gk_lockoutThreshold = lockoutThreshold cfg\<rparr>
           # (if peer \<noteq> addr then [wide] else []))"

section \<open>The table\<close>

definition unordered :: "(string \<times> rate_entry \<Rightarrow> rate_table \<Rightarrow> rate_table) \<Rightarrow> bool" where
  "unordered place \<longleftrightarrow> (\<forall>x es. mset (place x es) = add_mset x (mset es))"

definition ag_expired :: "rate_config \<Rightarrow> time_point \<Rightarrow> rate_entry \<Rightarrow> bool" where
  "ag_expired cfg now e \<longleftrightarrow> (hits e = [] \<or> hd (hits e) < window_start cfg now) \<and> \<not> now < lockedUntil e"

definition pruneExpired :: "rate_config \<Rightarrow> time_point \<Rightarrow> rate_table \<Rightarrow> rate_table" where
  "pruneExpired cfg now es = filter (\<lambda>(k, e). \<not> ag_expired cfg now e) es"

definition makeRoom :: "rate_config \<Rightarrow> time_point \<Rightarrow> rate_table \<Rightarrow> bool \<times> rate_table" where
  "makeRoom cfg now es =
     (let es = pruneExpired cfg now es in
      if length es < kMaxTrackedKeys then (True, es)
      else let unlocked = (\<lambda>(k, e). \<not> now < lockedUntil e);
               victim = (case find (\<lambda>x. unlocked x \<and> consecutiveFailures (snd x) = 0) es of
                           Some x \<Rightarrow> Some x | None \<Rightarrow> find unlocked es)
           in case victim of
             None \<Rightarrow> (False, es)
           | Some x \<Rightarrow> (True, filter (\<lambda>y. fst y \<noteq> fst x) es))"

definition ag_admit ::
  "(string \<times> rate_entry \<Rightarrow> rate_table \<Rightarrow> rate_table) \<Rightarrow> rate_config \<Rightarrow> string \<Rightarrow> int \<Rightarrow> time_point \<Rightarrow> rate_table
    \<Rightarrow> bool \<times> rate_table" where
  "ag_admit place cfg key limit now es =
     (case map_of es key of
        Some e \<Rightarrow> let (ok, e) = admit_entry cfg limit now e in (ok, set_entry key e es)
      | None \<Rightarrow>
          let (room, es) = (if length es \<ge> kMaxTrackedKeys then makeRoom cfg now es else (True, es)) in
          if \<not> room then (False, es)
          else let (ok, e) = admit_entry cfg limit now new_entry in (ok, set_entry key e (place (key, new_entry) es)))"

definition ag_recordSuccess :: "string \<Rightarrow> rate_table \<Rightarrow> rate_table" where
  "ag_recordSuccess key es =
     (case map_of es key of None \<Rightarrow> es | Some e \<Rightarrow> set_entry key (e\<lparr>consecutiveFailures := 0\<rparr>) es)"

definition ag_recordFailure :: "rate_config \<Rightarrow> string \<Rightarrow> int \<Rightarrow> time_point \<Rightarrow> rate_table \<Rightarrow> bool \<times> rate_table" where
  "ag_recordFailure cfg key threshold now es =
     (case map_of es key of
        None \<Rightarrow> (False, es)
      | Some e \<Rightarrow>
          if now < lockedUntil e then (False, es)
          else let e = e\<lparr>consecutiveFailures := consecutiveFailures e + 1\<rparr> in
            if consecutiveFailures e < threshold then (False, set_entry key e es)
            else (True, set_entry key (e\<lparr>lockedUntil := now + rate_seconds (lockoutSeconds cfg)\<rparr>) es))"

section \<open>Requests\<close>

text \<open>What a gate is made of, and its state: the table and the cache of the address lists.\<close>

record auth_gate =
  g_net :: inet_api
  g_device :: device_settings
  g_limits :: rate_config
  g_sessionOf :: "(string \<Rightarrow> string) option"
  g_place :: "string \<times> rate_entry \<Rightarrow> rate_table \<Rightarrow> rate_table"

record auth_state =
  s_entries :: rate_table
  s_cache :: "cached_ranges list"

fun admit_all :: "auth_gate \<Rightarrow> time_point \<Rightarrow> gate_key list \<Rightarrow> rate_table \<Rightarrow> bool \<times> rate_table" where
  "admit_all g now [] es = (True, es)"
| "admit_all g now (k # ks) es =
     (let (ok, es) = ag_admit (g_place g) (g_limits g) (gk_key k) (gk_maxRequests k) now es
      in if ok then admit_all g now ks es else (False, es))"

text \<open>Whether a request passes; \<open>None\<close> for an exception while the address is resolved.\<close>

definition auth_check :: "auth_gate \<Rightarrow> auth_request \<Rightarrow> time_point \<Rightarrow> auth_state \<Rightarrow> bool option \<times> auth_state" where
  "auth_check g req now st =
     (if \<not> rl_enabled (g_limits g) \<or> guardedRoute req = [] then (Some True, st)
      else case resolveIp (g_net g) (g_device g) (s_cache st) (rq_peer req) (rq_forwarded req) of
        (None, cache) \<Rightarrow> (None, st\<lparr>s_cache := cache\<rparr>)
      | (Some resolved, cache) \<Rightarrow>
          let (ok, es) = admit_all g now (gateKeys (g_net g) (g_limits g) (g_sessionOf g) resolved req) (s_entries st)
          in (Some ok, st\<lparr>s_entries := es, s_cache := cache\<rparr>))"

definition recordOutcome :: "auth_gate \<Rightarrow> auth_request \<Rightarrow> int \<Rightarrow> time_point \<Rightarrow> auth_state \<Rightarrow> auth_state" where
  "recordOutcome g req status now st =
     (if \<not> rl_enabled (g_limits g) \<or> guardedRoute req = [] then st
      else let succeeded = status < 400 in
        if \<not> succeeded \<and> status \<noteq> 401 \<and> status \<noteq> 403 then st
        else case resolveIp (g_net g) (g_device g) (s_cache st) (rq_peer req) (rq_forwarded req) of
          (None, cache) \<Rightarrow> st\<lparr>s_cache := cache\<rparr>
        | (Some resolved, cache) \<Rightarrow>
            let keys = gateKeys (g_net g) (g_limits g) (g_sessionOf g) resolved req;
                es = (if succeeded then fold (\<lambda>k. ag_recordSuccess (gk_key k)) keys (s_entries st)
                      else fold (\<lambda>k es. snd (ag_recordFailure (g_limits g) (gk_key k) (gk_lockoutThreshold k) now es)) keys
                        (s_entries st))
            in st\<lparr>s_entries := es, s_cache := cache\<rparr>)"

datatype auth_event = CheckEvent auth_request | OutcomeEvent auth_request int

fun auth_step :: "auth_gate \<Rightarrow> auth_state \<Rightarrow> time_point \<times> auth_event \<Rightarrow> bool option \<times> auth_state" where
  "auth_step g st (now, CheckEvent req) = auth_check g req now st"
| "auth_step g st (now, OutcomeEvent req status) = (None, recordOutcome g req status now st)"

fun auth_run :: "auth_gate \<Rightarrow> auth_state \<Rightarrow> (time_point \<times> auth_event) list \<Rightarrow> (bool option \<times> auth_event) list" where
  "auth_run g st [] = []"
| "auth_run g st (ev # evs) = (let (r, st) = auth_step g st ev in (r, snd ev) # auth_run g st evs)"

text \<open>The gate on the keys alone, one call at a time, with the limits of the keys.\<close>

fun ag_step ::
  "(string \<times> rate_entry \<Rightarrow> rate_table \<Rightarrow> rate_table) \<Rightarrow> rate_config \<Rightarrow> (string \<Rightarrow> int) \<Rightarrow> (string \<Rightarrow> int)
    \<Rightarrow> rate_table \<Rightarrow> time_point \<times> rate_call \<Rightarrow> rate_table \<times> bool" where
  "ag_step place cfg limit threshold es (now, AdmitCall k) = (let (ok, es) = ag_admit place cfg k (limit k) now es in (es, ok))"
| "ag_step place cfg limit threshold es (now, FailureCall k) = (snd (ag_recordFailure cfg k (threshold k) now es), False)"
| "ag_step place cfg limit threshold es (now, SuccessCall k) = (ag_recordSuccess k es, False)"

text \<open>A gate, a request and a full table for the examples.\<close>

definition sample_gate :: auth_gate where
  "sample_gate = \<lparr>g_net = sample_net, g_device = \<lparr>trust_forwarded_for = False, trusted_proxy_ips = []\<rparr>,
     g_limits = sample_limits, g_sessionOf = None, g_place = (#)\<rparr>"

definition sample_request :: auth_request where
  "sample_request = \<lparr>rq_method = PostMethod, rq_path = ''/auth/Login'', rq_peer = ''AKABACAD'', rq_forwarded = [],
     rq_refreshToken = None\<rparr>"

definition crowded_table :: rate_table where
  "crowded_table = (''key'', new_entry\<lparr>hits := [0, rate_seconds 61]\<rparr>)
     # map (\<lambda>n. (replicate n (CHR ''a''), new_entry\<lparr>lockedUntil := rate_seconds 62\<rparr>)) [0..<kMaxTrackedKeys - 1]"

section \<open>Lemmas\<close>

lemma place_keys:
  assumes "unordered place"
  shows "set (map fst (place (k, e) es)) = insert k (set (map fst es))" "length (place (k, e) es) = Suc (length es)"
    "distinct (map fst (place (k, e) es)) \<longleftrightarrow> k \<notin> set (map fst es) \<and> distinct (map fst es)"
    "set (place (k, e) es) = insert (k, e) (set es)"
proof -
  have m: "mset (place (k, e) es) = add_mset (k, e) (mset es)" using assms by (simp add: unordered_def)
  then show s: "set (place (k, e) es) = insert (k, e) (set es)" by (metis set_mset_add_mset_insert set_mset_mset)
  show l: "length (place (k, e) es) = Suc (length es)" using m by (metis size_add_mset size_mset)
  show "set (map fst (place (k, e) es)) = insert k (set (map fst es))" using s by simp
  have "mset (map fst (place (k, e) es)) = mset (k # map fst es)" using m by simp
  then have "distinct (map fst (place (k, e) es)) \<longleftrightarrow> distinct (k # map fst es)" by (rule mset_eq_imp_distinct_iff)
  then show "distinct (map fst (place (k, e) es)) \<longleftrightarrow> k \<notin> set (map fst es) \<and> distinct (map fst es)" by simp
qed

lemma place_find:
  assumes "unordered place" "distinct (map fst es)" "map_of es k = None"
  shows "map_of (place (k, e) es) = (map_of es)(k \<mapsto> e)"
proof (rule ext)
  fix j
  have d: "distinct (map fst (place (k, e) es))" using place_keys(3) [OF assms(1)] assms(2,3) by (auto simp: map_of_eq_None_iff)
  show "map_of (place (k, e) es) j = ((map_of es)(k \<mapsto> e)) j"
  proof (cases "map_of (place (k, e) es) j")
    case None
    then have "j \<notin> set (map fst (place (k, e) es))" by (simp add: map_of_eq_None_iff)
    then have "j \<noteq> k" "map_of es j = None" unfolding place_keys(1) [OF assms(1)] by (simp_all add: map_of_eq_None_iff)
    then show ?thesis using None by simp
  next
    case (Some x)
    then have "(j, x) \<in> insert (k, e) (set es)" using map_of_SomeD [OF Some] place_keys(4) [OF assms(1)] by simp
    then show ?thesis using Some d assms(2,3) place_keys(4) [OF assms(1), of k e es]
      by (auto simp: map_of_eq_None_iff image_iff dest: map_of_is_SomeI)
  qed
qed

lemma pruneExpired_find:
  "distinct (map fst es) \<Longrightarrow>
   map_of (pruneExpired cfg t es) k = (case map_of es k of None \<Rightarrow> None | Some e \<Rightarrow> if ag_expired cfg t e then None else Some e)"
  using map_of_filter_entry [of es "\<lambda>e. \<not> ag_expired cfg t e" k] by (simp add: pruneExpired_def split: option.split)

lemma makeRoom_ok: "table_ok cfg t es \<Longrightarrow> table_ok cfg t (snd (makeRoom cfg t es))"
  unfolding makeRoom_def pruneExpired_def Let_def by (auto intro: table_ok_filter split: option.split)

lemma find_SomeD: "find P xs = Some x \<Longrightarrow> x \<in> set xs \<and> P x"
  by (induction xs) (auto split: if_splits)

lemma makeRoom_cases:
  obtains "makeRoom cfg t es = (length (pruneExpired cfg t es) < kMaxTrackedKeys, pruneExpired cfg t es)"
  | x where "x \<in> set (pruneExpired cfg t es)" "\<not> t < lockedUntil (snd x)"
      "makeRoom cfg t es = (True, filter (\<lambda>y. fst y \<noteq> fst x) (pruneExpired cfg t es))"
proof -
  let ?es = "pruneExpired cfg t es"
  let ?one = "find (\<lambda>x. (case x of (k, e) \<Rightarrow> \<not> t < lockedUntil e) \<and> consecutiveFailures (snd x) = 0) ?es"
  let ?any = "find (\<lambda>(k, e). \<not> t < lockedUntil e) ?es"
  have one: "x \<in> set ?es \<and> \<not> t < lockedUntil (snd x)" if "?one = Some x" for x
    using that by (cases x) (auto dest!: find_SomeD)
  have any: "x \<in> set ?es \<and> \<not> t < lockedUntil (snd x)" if "?any = Some x" for x
    using that by (cases x) (auto dest!: find_SomeD)
  show thesis
  proof (cases "length ?es < kMaxTrackedKeys")
    case False
    then have room: "makeRoom cfg t es = (case (case ?one of Some x \<Rightarrow> Some x | None \<Rightarrow> ?any) of
        None \<Rightarrow> (False, ?es) | Some x \<Rightarrow> (True, filter (\<lambda>y. fst y \<noteq> fst x) ?es))"
      by (simp add: makeRoom_def Let_def)
    show thesis
      using that room False one any by (cases ?one; cases ?any) auto
  qed (use that in \<open>simp add: makeRoom_def Let_def\<close>)
qed

lemma makeRoom_room:
  assumes "table_ok cfg t es" "fst (makeRoom cfg t es)"
  shows "length (snd (makeRoom cfg t es)) < kMaxTrackedKeys"
proof -
  let ?es = "pruneExpired cfg t es"
  have le: "length ?es \<le> kMaxTrackedKeys" using table_ok_filter [OF assms(1)] by (simp add: pruneExpired_def table_ok_def)
  have less: "length (filter (\<lambda>y. fst y \<noteq> fst x) ?es) < length ?es" if "x \<in> set ?es" for x
    using that by (intro length_filter_less) auto
  show ?thesis
    by (rule makeRoom_cases [of cfg t es]) (use assms(2) le less in \<open>auto dest: less_le_trans\<close>)
qed

lemma map_of_filter_key: "map_of (filter (\<lambda>y. fst y \<noteq> a) es) k = (if k = a then None else map_of es k)"
  by (induction es) auto

lemma makeRoom_find:
  assumes "table_ok cfg t es"
  shows "map_of (snd (makeRoom cfg t es)) k = None \<or> map_of (snd (makeRoom cfg t es)) k = map_of es k"
    and "t < locked_until es k \<Longrightarrow> map_of (snd (makeRoom cfg t es)) k = map_of es k"
proof -
  let ?es = "pruneExpired cfg t es"
  have d: "distinct (map fst es)" "distinct (map fst ?es)" "0 \<le> t"
    using assms table_ok_filter [OF assms] by (auto simp: table_ok_def pruneExpired_def)
  note prune = pruneExpired_find [OF d(1), of cfg t k]
  show "map_of (snd (makeRoom cfg t es)) k = None \<or> map_of (snd (makeRoom cfg t es)) k = map_of es k"
    by (rule makeRoom_cases [of cfg t es]) (auto simp: prune map_of_filter_key split: option.splits if_splits)
  assume locked: "t < locked_until es k"
  then obtain e where e: "map_of es k = Some e" "t < lockedUntil e" using d(3) by (auto simp: locked_until_def split: option.splits)
  then have kept: "map_of ?es k = Some e" by (simp add: prune ag_expired_def)
  show "map_of (snd (makeRoom cfg t es)) k = map_of es k"
  proof (rule makeRoom_cases [of cfg t es])
    fix x assume x: "x \<in> set ?es" "\<not> t < lockedUntil (snd x)" "makeRoom cfg t es = (True, filter (\<lambda>y. fst y \<noteq> fst x) ?es)"
    have "map_of ?es (fst x) = Some (snd x)" using x(1) d(2) by (simp add: map_of_is_SomeI)
    then have "fst x \<noteq> k" using kept e x(2) by auto
    then show ?thesis using x(3) kept e by (simp add: map_of_filter_key)
  qed (use kept e in simp)
qed

text \<open>The table after room was made, and the admission of one key.\<close>

definition ag_room :: "rate_config \<Rightarrow> time_point \<Rightarrow> rate_table \<Rightarrow> bool \<times> rate_table" where
  "ag_room cfg now es = (if length es \<ge> kMaxTrackedKeys then makeRoom cfg now es else (True, es))"

lemma ag_admit_cases:
  obtains e where "map_of es k = Some e"
      "ag_admit place cfg k limit now es = (fst (admit_entry cfg limit now e), set_entry k (snd (admit_entry cfg limit now e)) es)"
  | "map_of es k = None" "\<not> fst (ag_room cfg now es)" "ag_admit place cfg k limit now es = (False, snd (ag_room cfg now es))"
  | "map_of es k = None" "fst (ag_room cfg now es)"
      "ag_admit place cfg k limit now es = (fst (admit_entry cfg limit now new_entry),
         set_entry k (snd (admit_entry cfg limit now new_entry)) (place (k, new_entry) (snd (ag_room cfg now es))))"
  by (cases "map_of es k"; cases "fst (ag_room cfg now es)") (auto simp: ag_admit_def ag_room_def Let_def split_def)

lemma ag_room_facts:
  assumes "table_ok cfg t es"
  shows "table_ok cfg t (snd (ag_room cfg t es))"
    and "fst (ag_room cfg t es) \<Longrightarrow> length (snd (ag_room cfg t es)) < kMaxTrackedKeys"
    and "map_of (snd (ag_room cfg t es)) k = None \<or> map_of (snd (ag_room cfg t es)) k = map_of es k"
    and "t < locked_until es k \<Longrightarrow> map_of (snd (ag_room cfg t es)) k = map_of es k"
  using makeRoom_ok [OF assms] makeRoom_room [OF assms] makeRoom_find [OF assms] assms by (auto simp: ag_room_def)

lemma table_ok_place:
  assumes "unordered place" "table_ok cfg t es" "length es < kMaxTrackedKeys" "map_of es k = None" "entry_ok cfg t e"
  shows "table_ok cfg t (place (k, e) es)"
  using assms place_keys [OF assms(1), of k e es] by (auto simp: table_ok_def map_of_eq_None_iff list_all_iff)

lemma ag_admit_facts:
  assumes "unordered place" "table_ok cfg t es"
  shows "table_ok cfg t (snd (ag_admit place cfg k limit t es))"
    and "t < locked_until es j \<Longrightarrow> locked_until (snd (ag_admit place cfg k limit t es)) j = locked_until es j"
    and "t < locked_until es k \<Longrightarrow> \<not> fst (ag_admit place cfg k limit t es)"
proof -
  have cfg: "config_ok cfg" "0 \<le> t" using assms(2) by (auto simp: table_ok_def)
  note room = ag_room_facts [OF assms(2)]
  let ?r = "snd (ag_room cfg t es)"
  have new: "table_ok cfg t (place (k, new_entry) ?r)" "map_of (place (k, new_entry) ?r) = (map_of ?r)(k \<mapsto> new_entry)"
    if "map_of es k = None" "fst (ag_room cfg t es)"
  proof -
    have none: "map_of ?r k = None" using room(3) [of k] that(1) by auto
    show "table_ok cfg t (place (k, new_entry) ?r)"
      by (rule table_ok_place [OF assms(1) room(1) room(2) [OF that(2)] none new_entry_ok [OF cfg]])
    show "map_of (place (k, new_entry) ?r) = (map_of ?r)(k \<mapsto> new_entry)"
      using room(1) none by (intro place_find [OF assms(1)]) (simp_all add: table_ok_def)
  qed
  show "table_ok cfg t (snd (ag_admit place cfg k limit t es))"
    by (rule ag_admit_cases [of es k place cfg limit t])
      (use new room(1) assms(2) cfg table_ok_entry table_ok_set admit_entry_ok new_entry_ok in auto)
  show "locked_until (snd (ag_admit place cfg k limit t es)) j = locked_until es j" if "t < locked_until es j"
    by (rule ag_admit_cases [of es k place cfg limit t])
      (use that room(4) [of j] new(2) cfg(2) in \<open>auto simp: locked_until_def map_of_set_entry admit_entry_locked(2) split: option.splits if_splits\<close>)
  show "\<not> fst (ag_admit place cfg k limit t es)" if "t < locked_until es k"
    by (rule ag_admit_cases [of es k place cfg limit t])
      (use that cfg(2) in \<open>auto simp: locked_until_def admit_entry_locked(1)\<close>)
qed

lemma ag_failure_facts:
  assumes "table_ok cfg t es"
  shows "table_ok cfg t (snd (ag_recordFailure cfg k threshold t es))"
    and "hits_of (snd (ag_recordFailure cfg k threshold t es)) j = hits_of es j"
    and "locked_until es j \<le> locked_until (snd (ag_recordFailure cfg k threshold t es)) j"
    and "set (map fst (snd (ag_recordFailure cfg k threshold t es))) = set (map fst es)"
proof -
  have "table_ok cfg t (snd (ag_recordFailure cfg k threshold t es)) \<and> hits_of (snd (ag_recordFailure cfg k threshold t es)) j = hits_of es j
    \<and> locked_until es j \<le> locked_until (snd (ag_recordFailure cfg k threshold t es)) j
    \<and> map fst (snd (ag_recordFailure cfg k threshold t es)) = map fst es"
  proof (cases "map_of es k")
    case (Some e)
    have "entry_ok cfg t e" by (rule table_ok_entry [OF assms Some])
    then have "entry_ok cfg t (e\<lparr>consecutiveFailures := n\<rparr>)"
      "entry_ok cfg t (e\<lparr>consecutiveFailures := n, lockedUntil := t + rate_seconds (lockoutSeconds cfg)\<rparr>)"
      "lockedUntil e \<le> t + rate_seconds (lockoutSeconds cfg)" for n
      by (simp_all add: entry_ok_def)
    then show ?thesis
      using Some assms table_ok_set set_entry_facts [OF Some]
      by (auto simp: ag_recordFailure_def Let_def locked_until_def)
  qed (use assms in \<open>simp add: ag_recordFailure_def\<close>)
  then show "table_ok cfg t (snd (ag_recordFailure cfg k threshold t es))"
    "hits_of (snd (ag_recordFailure cfg k threshold t es)) j = hits_of es j"
    "locked_until es j \<le> locked_until (snd (ag_recordFailure cfg k threshold t es)) j"
    "set (map fst (snd (ag_recordFailure cfg k threshold t es))) = set (map fst es)"
    by simp_all
qed

lemma ag_success_same: "ag_recordSuccess = rl_recordSuccess"
  by (simp add: fun_eq_iff ag_recordSuccess_def rl_recordSuccess_def)

lemma ag_success_keys: "set (map fst (ag_recordSuccess k es)) = set (map fst es)"
  by (simp add: ag_recordSuccess_def del: set_map split: option.split)

lemma ag_step_lock_facts:
  assumes "unordered place" "table_ok cfg t es" "t \<le> fst c"
  shows "table_ok cfg (fst c) (fst (ag_step place cfg limit threshold es c))"
    and "fst c < locked_until es k \<Longrightarrow> locked_until es k \<le> locked_until (fst (ag_step place cfg limit threshold es c)) k"
    and "fst c < locked_until es (call_key (snd c)) \<Longrightarrow> \<not> snd (ag_step place cfg limit threshold es c)"
proof -
  obtain now call where c: "c = (now, call)" by (rule prod.exhaust)
  have ok: "table_ok cfg now es" using table_ok_later [OF assms(2)] assms(3) c by simp
  note facts = ag_admit_facts [OF assms(1) ok] ag_failure_facts [OF ok] success_facts [OF ok]
  have "table_ok cfg (fst c) (fst (ag_step place cfg limit threshold es c))
    \<and> (fst c < locked_until es k \<longrightarrow> locked_until es k \<le> locked_until (fst (ag_step place cfg limit threshold es c)) k)
    \<and> (fst c < locked_until es (call_key (snd c)) \<longrightarrow> \<not> snd (ag_step place cfg limit threshold es c))"
    by (cases call) (use facts in \<open>auto simp: c Let_def split_def ag_success_same\<close>)
  then show "table_ok cfg (fst c) (fst (ag_step place cfg limit threshold es c))"
    "fst c < locked_until es k \<Longrightarrow> locked_until es k \<le> locked_until (fst (ag_step place cfg limit threshold es c)) k"
    "fst c < locked_until es (call_key (snd c)) \<Longrightarrow> \<not> snd (ag_step place cfg limit threshold es c)"
    by blast+
qed

interpretation ag_locks: lockout_gate "ag_step place cfg limit threshold" "\<lambda>t es. unordered place \<and> table_ok cfg t es" "\<lambda>_. True" locked_until
  for place cfg limit threshold
  by unfold_locales (use ag_step_lock_facts in auto)

text \<open>While the keys in use fit into the table, nothing is pruned.\<close>

lemma keys_fit:
  assumes "distinct (map fst es)" "set (map fst es) \<subseteq> set ks" "k \<in> set ks" "map_of es k = None"
  shows "length es < length ks"
proof -
  have "k \<notin> set (map fst es)" using assms(4) by (simp add: map_of_eq_None_iff)
  then have "set (map fst es) \<subset> set ks" using assms(2,3) by auto
  then have "card (set (map fst es)) < card (set ks)" by (intro psubset_card_mono) auto
  also have "card (set ks) \<le> length ks" by (rule card_length)
  finally show ?thesis using distinct_card [OF assms(1)] by simp
qed

lemma ag_admit_window:
  assumes "unordered place" "table_ok cfg t es" "set (map fst es) \<subseteq> set ks" "k \<in> set ks" "length ks \<le> kMaxTrackedKeys"
  shows "set (map fst (snd (ag_admit place cfg k limit t es))) \<subseteq> set ks"
    and "since (t - window_width cfg) (hits_of (snd (ag_admit place cfg k limit t es)) j)
       = since (t - window_width cfg) (hits_of es j) @ (if fst (ag_admit place cfg k limit t es) \<and> j = k then [t] else [])"
    and "fst (ag_admit place cfg k limit t es) \<Longrightarrow> int (length (since (t - window_width cfg) (hits_of es k))) < limit"
proof -
  have cfg: "config_ok cfg" "distinct (map fst es)" using assms(2) by (auto simp: table_ok_def)
  note hits = admit_entry_hits [OF cfg(1)]
  have room: "ag_room cfg t es = (True, es)" if "map_of es k = None"
    using keys_fit [OF cfg(2) assms(3,4) that] assms(5) by (simp add: ag_room_def)
  note placed = place_keys(1) [OF assms(1)] place_find [OF assms(1) cfg(2)]
  show "set (map fst (snd (ag_admit place cfg k limit t es))) \<subseteq> set ks"
    by (rule ag_admit_cases [of es k place cfg limit t]) (use room placed(1) assms(3,4) in \<open>simp_all del: set_map\<close>)
  show "since (t - window_width cfg) (hits_of (snd (ag_admit place cfg k limit t es)) j)
       = since (t - window_width cfg) (hits_of es j) @ (if fst (ag_admit place cfg k limit t es) \<and> j = k then [t] else [])"
    by (rule ag_admit_cases [of es k place cfg limit t])
      (use room placed(2) hits in \<open>auto simp: hits_of_def map_of_set_entry since_def split: option.splits\<close>)
  show "int (length (since (t - window_width cfg) (hits_of es k))) < limit" if "fst (ag_admit place cfg k limit t es)"
    by (rule ag_admit_cases [of es k place cfg limit t])
      (use that admit_entry_below [OF cfg(1), of limit t] admit_entry_below [OF cfg(1), of limit t new_entry]
        in \<open>auto simp: hits_of_def since_def split: option.splits\<close>)
qed

lemma ag_step_window_facts:
  assumes "unordered place" "table_ok cfg t es" "set (map fst es) \<subseteq> set ks" "t \<le> fst c"
    "call_key (snd c) \<in> set ks" "length ks \<le> kMaxTrackedKeys"
  shows "set (map fst (fst (ag_step place cfg limit threshold es c))) \<subseteq> set ks"
    and "since (fst c - window_width cfg) (hits_of (fst (ag_step place cfg limit threshold es c)) k)
       = since (fst c - window_width cfg) (hits_of es k) @ (if snd (ag_step place cfg limit threshold es c) \<and> k = call_key (snd c) then [fst c] else [])"
    and "snd (ag_step place cfg limit threshold es c) \<Longrightarrow>
      int (length (since (fst c - window_width cfg) (hits_of es (call_key (snd c))))) < limit (call_key (snd c))"
proof -
  obtain now call where c: "c = (now, call)" by (rule prod.exhaust)
  have ok: "table_ok cfg now es" using table_ok_later [OF assms(2)] assms(4) c by simp
  note admit = ag_admit_window [OF assms(1) ok assms(3) _ assms(6)]
  note facts = ag_failure_facts [OF ok] success_facts [OF ok] ag_success_keys
  have "set (map fst (fst (ag_step place cfg limit threshold es c))) \<subseteq> set ks
    \<and> since (fst c - window_width cfg) (hits_of (fst (ag_step place cfg limit threshold es c)) k)
       = since (fst c - window_width cfg) (hits_of es k) @ (if snd (ag_step place cfg limit threshold es c) \<and> k = call_key (snd c) then [fst c] else [])
    \<and> (snd (ag_step place cfg limit threshold es c) \<longrightarrow>
      int (length (since (fst c - window_width cfg) (hits_of es (call_key (snd c))))) < limit (call_key (snd c)))"
  proof (cases call)
    case (AdmitCall j)
    then show ?thesis using admit [of j] assms(5) c by (simp add: Let_def split_def del: set_map)
  next
    case (FailureCall j)
    then show ?thesis using facts assms(3) c by (simp del: set_map)
  next
    case (SuccessCall j)
    then show ?thesis using facts assms(3) c by (simp add: ag_success_same del: set_map)
  qed
  then show "set (map fst (fst (ag_step place cfg limit threshold es c))) \<subseteq> set ks"
    "since (fst c - window_width cfg) (hits_of (fst (ag_step place cfg limit threshold es c)) k)
       = since (fst c - window_width cfg) (hits_of es k) @ (if snd (ag_step place cfg limit threshold es c) \<and> k = call_key (snd c) then [fst c] else [])"
    "snd (ag_step place cfg limit threshold es c) \<Longrightarrow>
      int (length (since (fst c - window_width cfg) (hits_of es (call_key (snd c))))) < limit (call_key (snd c))"
    by blast+
qed

interpretation ag: sliding_window "ag_step place cfg limit threshold"
  "\<lambda>t es. unordered place \<and> table_ok cfg t es \<and> set (map fst es) \<subseteq> set ks \<and> length ks \<le> kMaxTrackedKeys"
  "\<lambda>call. call_key call \<in> set ks" hits_of "window_width cfg" limit
  for place cfg limit threshold ks
  by (unfold_locales; (elim conjE)?; (intro conjI)?;
    (assumption | rule ag_step_lock_facts(1) ag_step_window_facts window_width_nonneg)+)

section \<open>Locks across requests\<close>

lemma admit_all_facts:
  assumes "unordered (g_place g)" "table_ok (g_limits g) t es"
  shows "table_ok (g_limits g) t (snd (admit_all g t ks es))
    \<and> (t < locked_until es j \<longrightarrow> locked_until (snd (admit_all g t ks es)) j = locked_until es j
        \<and> (j \<in> set (map gk_key ks) \<longrightarrow> \<not> fst (admit_all g t ks es)))"
  using assms(2)
proof (induction ks arbitrary: es)
  case (Cons k ks)
  note facts = ag_admit_facts [OF assms(1) Cons.prems, where k = "gk_key k" and limit = "gk_maxRequests k"]
  obtain ok es' where a: "ag_admit (g_place g) (g_limits g) (gk_key k) (gk_maxRequests k) t es = (ok, es')" by (rule prod.exhaust)
  then show ?case using Cons.IH [of es'] facts(1) facts(2) [where j = j] facts(3) by auto
qed simp

lemma failures_facts:
  assumes "table_ok cfg t es"
  shows "table_ok cfg t (fold (\<lambda>k es. snd (ag_recordFailure cfg (gk_key k) (gk_lockoutThreshold k) t es)) ks es)
    \<and> locked_until es j \<le> locked_until (fold (\<lambda>k es. snd (ag_recordFailure cfg (gk_key k) (gk_lockoutThreshold k) t es)) ks es) j"
  using assms
proof (induction ks arbitrary: es)
  case (Cons k ks)
  note facts = ag_failure_facts [OF Cons.prems, where k = "gk_key k" and threshold = "gk_lockoutThreshold k"]
  show ?case using Cons.IH [OF facts(1)] facts(3) [where j = j] by (auto intro: order_trans)
qed simp

lemma successes_facts:
  assumes "table_ok cfg t es"
  shows "table_ok cfg t (fold (\<lambda>k. ag_recordSuccess (gk_key k)) ks es)
    \<and> locked_until (fold (\<lambda>k. ag_recordSuccess (gk_key k)) ks es) j = locked_until es j"
  using assms
proof (induction ks arbitrary: es)
  case (Cons k ks)
  then show ?case using success_facts [OF Cons.prems, where k = "gk_key k"] by (simp add: ag_success_same)
qed simp

text \<open>The keys of a request, as \<open>gateKeys\<close> names them for its resolved address.\<close>

definition request_keys :: "auth_gate \<Rightarrow> auth_state \<Rightarrow> auth_request \<Rightarrow> gate_key list" where
  "request_keys g st req =
     (case fst (resolveIp (g_net g) (g_device g) (s_cache st) (rq_peer req) (rq_forwarded req)) of
        None \<Rightarrow> [] | Some resolved \<Rightarrow> gateKeys (g_net g) (g_limits g) (g_sessionOf g) resolved req)"

definition auth_ok :: "auth_gate \<Rightarrow> time_point \<Rightarrow> auth_state \<Rightarrow> bool" where
  "auth_ok g t st \<longleftrightarrow> unordered (g_place g) \<and> inet_ok (g_net g) \<and> cache_ok (g_net g) (s_cache st)
     \<and> table_ok (g_limits g) t (s_entries st)"

lemma resolved:
  assumes "inet_ok net" "cache_ok net cache"
  obtains a c where "\<And>cache'. cache_ok net cache' \<Longrightarrow> fst (resolveIp net dev cache' peer fwd) = Some a"
    "resolveIp net dev cache peer fwd = (Some a, c)" "cache_ok net c"
proof -
  note here = resolveIp_exact [OF assms, of dev peer fwd]
  then obtain a where a: "fst (resolveIp net dev cache peer fwd) = Some a" by blast
  have "fst (resolveIp net dev cache' peer fwd) = Some a" if "cache_ok net cache'" for cache'
    using resolveIp_exact [OF assms(1) that, of dev peer fwd] here a by simp
  moreover have "resolveIp net dev cache peer fwd = (Some a, snd (resolveIp net dev cache peer fwd))" using a by (metis prod.collapse)
  ultimately show thesis using that here by blast
qed

lemma request_keys_cache:
  "auth_ok g t st \<Longrightarrow> cache_ok (g_net g) (s_cache st') \<Longrightarrow> request_keys g st' req = request_keys g st req"
  by (simp add: request_keys_def auth_ok_def resolveIp_exact)

lemma auth_check_eq:
  assumes "auth_ok g t st"
  obtains c where "cache_ok (g_net g) c"
    "auth_check g req now st = (if guardedRoute req = [] then (Some True, st)
       else (Some (fst (admit_all g now (request_keys g st req) (s_entries st))),
             st\<lparr>s_entries := snd (admit_all g now (request_keys g st req) (s_entries st)), s_cache := c\<rparr>))"
proof -
  have ok: "inet_ok (g_net g)" "cache_ok (g_net g) (s_cache st)" "rl_enabled (g_limits g)"
    using assms by (auto simp: auth_ok_def table_ok_def config_ok_def)
  obtain a c where r: "resolveIp (g_net g) (g_device g) (s_cache st) (rq_peer req) (rq_forwarded req) = (Some a, c)" "cache_ok (g_net g) c"
    by (rule resolved [OF ok(1,2)])
  show thesis
    by (rule that [OF r(2)]) (simp add: auth_check_def request_keys_def r ok Let_def split_def)
qed

lemma recordOutcome_eq:
  assumes "auth_ok g t st"
  obtains c where "cache_ok (g_net g) c"
    "recordOutcome g req status now st = (if guardedRoute req = [] \<or> (\<not> status < 400 \<and> status \<noteq> 401 \<and> status \<noteq> 403) then st
       else st\<lparr>s_entries := (if status < 400 then fold (\<lambda>k. ag_recordSuccess (gk_key k)) (request_keys g st req) (s_entries st)
           else fold (\<lambda>k es. snd (ag_recordFailure (g_limits g) (gk_key k) (gk_lockoutThreshold k) now es)) (request_keys g st req) (s_entries st)),
         s_cache := c\<rparr>)"
proof -
  have ok: "inet_ok (g_net g)" "cache_ok (g_net g) (s_cache st)" "rl_enabled (g_limits g)"
    using assms by (auto simp: auth_ok_def table_ok_def config_ok_def)
  obtain a c where r: "resolveIp (g_net g) (g_device g) (s_cache st) (rq_peer req) (rq_forwarded req) = (Some a, c)" "cache_ok (g_net g) c"
    by (rule resolved [OF ok(1,2)])
  show thesis
    by (rule that [OF r(2)]) (simp add: recordOutcome_def request_keys_def r ok Let_def)
qed

lemma auth_step_facts:
  assumes "auth_ok g t st" "t \<le> fst ev"
  shows "auth_ok g (fst ev) (snd (auth_step g st ev))
    \<and> (fst ev < locked_until (s_entries st) k \<longrightarrow>
        locked_until (s_entries st) k \<le> locked_until (s_entries (snd (auth_step g st ev))) k
        \<and> (snd ev = CheckEvent req \<and> guardedRoute req \<noteq> [] \<and> k \<in> set (map gk_key (request_keys g st req))
            \<longrightarrow> fst (auth_step g st ev) = Some False))"
proof -
  obtain now e where ev: "ev = (now, e)" by (rule prod.exhaust)
  have ok: "unordered (g_place g)" "table_ok (g_limits g) now (s_entries st)" and st: "auth_ok g now st"
    using assms ev table_ok_later by (auto simp: auth_ok_def)
  show ?thesis
  proof (cases e)
    case (CheckEvent r)
    let ?all = "admit_all g now (request_keys g st r) (s_entries st)"
    note all = admit_all_facts [OF ok, where j = k and ks = "request_keys g st r"]
    obtain c where c: "cache_ok (g_net g) c" "auth_check g r now st = (if guardedRoute r = [] then (Some True, st)
        else (Some (fst ?all), st\<lparr>s_entries := snd ?all, s_cache := c\<rparr>))"
      by (rule auth_check_eq [OF st])
    show ?thesis
    proof (cases "guardedRoute r = []")
      case True
      then show ?thesis using st by (auto simp: ev CheckEvent c(2))
    next
      case False
      moreover have "auth_ok g now (st\<lparr>s_entries := snd ?all, s_cache := c\<rparr>)"
        using st c(1) all by (simp add: auth_ok_def)
      ultimately show ?thesis using all c(2) by (auto simp: ev CheckEvent)
    qed
  next
    case (OutcomeEvent r status)
    let ?es = "if status < 400 then fold (\<lambda>k. ag_recordSuccess (gk_key k)) (request_keys g st r) (s_entries st)
           else fold (\<lambda>k es. snd (ag_recordFailure (g_limits g) (gk_key k) (gk_lockoutThreshold k) now es)) (request_keys g st r) (s_entries st)"
    have es: "table_ok (g_limits g) now ?es \<and> locked_until (s_entries st) k \<le> locked_until ?es k"
      using failures_facts [OF ok(2), where j = k and ks = "request_keys g st r"]
        successes_facts [OF ok(2), where j = k and ks = "request_keys g st r"]
      by (cases "status < 400") simp_all
    obtain c where c: "cache_ok (g_net g) c" "recordOutcome g r status now st =
        (if guardedRoute r = [] \<or> (\<not> status < 400 \<and> status \<noteq> 401 \<and> status \<noteq> 403) then st else st\<lparr>s_entries := ?es, s_cache := c\<rparr>)"
      by (rule recordOutcome_eq [OF st])
    have "auth_ok g now (st\<lparr>s_entries := ?es, s_cache := c\<rparr>)" using st c(1) es by (simp add: auth_ok_def del: fold_simps)
    moreover have "s_entries (st\<lparr>s_entries := ?es, s_cache := c\<rparr>) = ?es" by simp
    ultimately show ?thesis using st es unfolding ev OutcomeEvent auth_step.simps c(2) by (simp split del: if_split) (simp split: if_split)
  qed
qed

lemma locked_request_refused:
  assumes "auth_ok g t st" "sorted (t # map fst evs)" "list_all (\<lambda>ev. fst ev < locked_until (s_entries st) k) evs"
    "(r, CheckEvent req) \<in> set (auth_run g st evs)" "guardedRoute req \<noteq> []" "k \<in> set (map gk_key (request_keys g st req))"
  shows "r = Some False"
  using assms
proof (induction evs arbitrary: t st)
  case (Cons ev evs)
  let ?st = "snd (auth_step g st ev)"
  have ev: "t \<le> fst ev" "fst ev < locked_until (s_entries st) k" "sorted (fst ev # map fst evs)" using Cons.prems(2,3) by auto
  note facts = auth_step_facts [OF Cons.prems(1) ev(1), of k req]
  have le: "locked_until (s_entries st) k \<le> locked_until (s_entries ?st) k" using facts ev(2) by blast
  consider "r = fst (auth_step g st ev)" "snd ev = CheckEvent req" | "(r, CheckEvent req) \<in> set (auth_run g ?st evs)"
    using Cons.prems(4) by (auto simp: split_def Let_def)
  then show ?case
  proof cases
    case 1
    then show ?thesis using facts ev(2) Cons.prems(5,6) by blast
  next
    case 2
    have ok: "auth_ok g (fst ev) ?st" using facts by blast
    have "list_all (\<lambda>ev. fst ev < locked_until (s_entries ?st) k) evs"
      using Cons.prems(3) le by (auto simp: list_all_iff)
    moreover have "request_keys g ?st req = request_keys g st req"
      using ok by (intro request_keys_cache [OF Cons.prems(1)]) (simp add: auth_ok_def)
    ultimately show ?thesis
      using Cons.IH [OF ok ev(3) _ 2 Cons.prems(5)] Cons.prems(6) by simp
  qed
qed simp

section \<open>A full table\<close>

lemma pruneExpired_length:
  assumes "distinct (map fst es)" "map_of es k = Some e" "ag_expired cfg t e"
  shows "length (pruneExpired cfg t es) < length es"
  unfolding pruneExpired_def using map_of_SomeD [OF assms(2)] assms(3) by (intro length_filter_less) auto

lemma pruneExpired_only:
  assumes "distinct (map fst es)" "map_of es k = Some e" "ag_expired cfg t e"
    "list_all (\<lambda>(j, x). j = k \<or> \<not> ag_expired cfg t x) es"
  shows "Suc (length (pruneExpired cfg t es)) = length es"
  using assms
proof (induction es)
  case (Cons x es)
  show ?case
  proof (cases "fst x = k")
    case True
    then have "\<forall>y \<in> set es. fst y \<noteq> k" using Cons.prems(1) by (auto simp: image_iff)
    then have "pruneExpired cfg t es = es"
      unfolding pruneExpired_def using Cons.prems(4) by (intro filter_True) (fastforce simp: list_all_iff)
    then show ?thesis using True Cons.prems(2,3) by (auto simp: pruneExpired_def split: prod.splits)
  next
    case False
    then show ?thesis using Cons by (auto simp: pruneExpired_def split: prod.splits)
  qed
qed simp

lemma makeRoom_evicts:
  assumes "x \<in> set (pruneExpired cfg t es)" "\<not> t < lockedUntil (snd x)" "consecutiveFailures (snd x) = 0"
  shows "fst (makeRoom cfg t es)"
proof -
  have "find (\<lambda>x. (case x of (k, e) \<Rightarrow> \<not> t < lockedUntil e) \<and> consecutiveFailures (snd x) = 0) (pruneExpired cfg t es) \<noteq> None"
    unfolding find_None_iff using assms by (auto simp: split_def) (metis prod.collapse)
  then show ?thesis by (auto simp: makeRoom_def Let_def)
qed

lemma admit_fresh_entry:
  assumes "config_ok cfg" "0 \<le> t" "1 \<le> limit"
  shows "admit_entry cfg limit t new_entry = (True, new_entry\<lparr>hits := [t]\<rparr>)"
    and "2 \<le> limit \<Longrightarrow> fst (admit_entry cfg limit t (new_entry\<lparr>hits := [t]\<rparr>))"
  using assms window_width_nonneg [of cfg] by (auto simp: admit_entry_def window_start_width Let_def)

section \<open>Properties\<close>

text \<open>A lockout holds across requests: once a refused sign-in brings the first key of a client to its threshold, every
  request under that key is refused until \<open>lockoutSeconds\<close> have passed, whatever other requests and outcomes come in
  between and however many other clients fill the table.\<close>

theorem sign_in_locked_out:
  assumes "auth_ok g now st" "request_keys g st req = k # others" "guardedRoute req \<noteq> []" "status = 401 \<or> status = 403"
    "map_of (s_entries st) (gk_key k) = Some e" "lockedUntil e \<le> now" "gk_lockoutThreshold k \<le> consecutiveFailures e + 1"
    "sorted (now # map fst evs)" "list_all (\<lambda>ev. fst ev < now + rate_seconds (lockoutSeconds (g_limits g))) evs"
    "guardedRoute req' \<noteq> []" "gk_key k \<in> set (map gk_key (request_keys g st req'))"
    "(r, CheckEvent req') \<in> set (auth_run g (recordOutcome g req status now st) evs)"
  shows "r = Some False"
proof -
  let ?st = "recordOutcome g req status now st"
  have ok: "auth_ok g now ?st" using auth_step_facts [OF assms(1), of "(now, OutcomeEvent req status)"] by simp
  have table: "table_ok (g_limits g) now (s_entries st)" using assms(1) by (simp add: auth_ok_def)
  let ?first = "snd (ag_recordFailure (g_limits g) (gk_key k) (gk_lockoutThreshold k) now (s_entries st))"
  let ?rest = "fold (\<lambda>k es. snd (ag_recordFailure (g_limits g) (gk_key k) (gk_lockoutThreshold k) now es)) others ?first"
  have "locked_until ?first (gk_key k) = now + rate_seconds (lockoutSeconds (g_limits g))"
    using assms(5,6,7) by (simp add: ag_recordFailure_def Let_def locked_until_def map_of_set_entry)
  moreover have "locked_until ?first (gk_key k) \<le> locked_until ?rest (gk_key k)"
    using failures_facts [OF ag_failure_facts(1) [OF table]] by blast
  moreover have "s_entries ?st = ?rest"
    by (rule recordOutcome_eq [OF assms(1), of req status now]) (use assms(2,3,4) in auto)
  ultimately have "now + rate_seconds (lockoutSeconds (g_limits g)) \<le> locked_until (s_entries ?st) (gk_key k)" by simp
  then have "list_all (\<lambda>ev. fst ev < locked_until (s_entries ?st) (gk_key k)) evs" using assms(9) by (auto simp: list_all_iff)
  moreover have "request_keys g ?st req' = request_keys g st req'"
    using ok by (intro request_keys_cache [OF assms(1)]) (simp add: auth_ok_def)
  ultimately show ?thesis
    using locked_request_refused [OF ok assms(8) _ assms(12,10)] assms(11) by metis
qed

lemma sample_gate_simps [simp]:
  "g_net sample_gate = sample_net" "g_limits sample_gate = sample_limits" "g_place sample_gate = (#)"
  by (simp_all add: sample_gate_def)

lemma unordered_Cons: "unordered (#)"
  by (simp add: unordered_def)

lemma sample_limits_ok: "config_ok sample_limits"
  by (simp add: config_ok_def sample_limits_def)

theorem sign_in_locked_out_witness:
  "\<exists>st. auth_run sample_gate (recordOutcome sample_gate sample_request 401 5 st) [(6, CheckEvent sample_request)]
     = [(Some False, CheckEvent sample_request)]"
proof -
  let ?st = "\<lparr>s_entries = [(''login|AKABACAD/32'', new_entry)], s_cache = []\<rparr>"
  let ?k = "\<lparr>gk_key = ''login|AKABACAD/32'', gk_maxRequests = 2, gk_lockoutThreshold = 1\<rparr>"
  have ok: "auth_ok sample_gate 5 ?st"
    using sample_limits_ok
    by (simp add: auth_ok_def unordered_Cons sample_net_ok empty_cache_ok table_ok_def new_entry_ok kMaxTrackedKeys_def)
  have keys: "request_keys sample_gate ?st sample_request = [?k]" and route: "guardedRoute sample_request \<noteq> []" by code_simp+
  obtain r where run: "auth_run sample_gate (recordOutcome sample_gate sample_request 401 5 ?st) [(6, CheckEvent sample_request)]
      = [(r, CheckEvent sample_request)]"
    by (simp add: split_def Let_def)
  have "r = Some False"
    by (rule sign_in_locked_out [OF ok keys route, where status = 401 and e = new_entry and evs = "[(6, CheckEvent sample_request)]"
        and req' = sample_request])
      (use keys route run in \<open>simp_all add: sample_limits_def rate_seconds_def\<close>)
  then show ?thesis using run by blast
qed

text \<open>The window holds while the table has room: if the keys in use fit into the table, no key is admitted more often
  than its limit within any window.\<close>

theorem sign_in_window_fits:
  assumes "unordered place" "config_ok cfg" "length ks \<le> kMaxTrackedKeys" "list_all (\<lambda>c. call_key (snd c) \<in> set ks) calls"
    "sorted (0 # map fst calls)" "0 \<le> limit key"
  shows "int (in_any_window key t (window_width cfg) (admissions (ag_step place cfg limit threshold) [] calls)) \<le> limit key"
proof (rule ag.window_bound [where t = 0 and s = "[]" and ks = ks])
  show "unordered place \<and> table_ok cfg 0 [] \<and> set (map fst ([] :: rate_table)) \<subseteq> set ks \<and> length ks \<le> kMaxTrackedKeys"
    using assms(1,2,3) by (simp add: table_ok_def)
qed (use assms in \<open>simp_all add: hits_of_def\<close>)

theorem sign_in_window_fits_witness:
  "int (in_any_window ''k'' 0 (window_width sample_limits) (admissions (ag_step (#) sample_limits (\<lambda>_. 2) (\<lambda>_. 1)) []
     [(0, AdmitCall ''k''), (1, AdmitCall ''k''), (2, AdmitCall ''k'')])) \<le> 2"
  by (rule sign_in_window_fits [where ks = "[''k'']"])
    (simp_all add: unordered_Cons sample_limits_ok kMaxTrackedKeys_def)

text \<open>A full table breaks it: to make room for a new key, the gate drops every key whose oldest hit has left the window,
  even if its other hits have not. A key with a stale hit and as many fresh ones as its limit leaves gets two further requests
  through at once, more than the limit within one window.\<close>

theorem full_table_forgets_hits:
  assumes "unordered place" "table_ok cfg now es" "length es = kMaxTrackedKeys" "map_of es k = Some e" "map_of es k' = None"
    "hits e = old # fresh" "old < window_start cfg now" "list_all (\<lambda>h. window_start cfg now \<le> h) fresh" "lockedUntil e \<le> now"
    "list_all (\<lambda>(j, x). j = k \<or> now < lockedUntil x) es" "2 \<le> limit k" "1 \<le> limit k'" "int (length fresh) + 1 = limit k"
  shows "admissions (ag_step place cfg limit threshold) es [(now, AdmitCall k'), (now, AdmitCall k), (now, AdmitCall k)]
      = [(k', now), (k, now), (k, now)]
    \<and> limit k < int (length (since (now - window_width cfg) (hits e))) + 2"
proof
  have cfg: "config_ok cfg" "0 \<le> now" "distinct (map fst es)" using assms(2) by (auto simp: table_ok_def)
  note start = window_start_width [OF cfg(1)]
  have "since (now - window_width cfg) (hits e) = fresh"
    using assms(6,7,8) by (simp add: since_def start list_all_iff)
  then show "limit k < int (length (since (now - window_width cfg) (hits e))) + 2" using assms(13) by simp
  let ?p = "pruneExpired cfg now es" and ?e = "new_entry\<lparr>hits := [now]\<rparr>"
  have expired: "ag_expired cfg now e" using assms(6,7,9) by (simp add: ag_expired_def)
  have len: "Suc (length ?p) = kMaxTrackedKeys"
    using pruneExpired_only [OF cfg(3) assms(4) expired] assms(3,10) by (auto simp: list_all_iff ag_expired_def)
  have p: "distinct (map fst ?p)" "map_of ?p k = None" "map_of ?p k' = None" "list_all (\<lambda>(j, x). now < lockedUntil x) ?p"
  proof -
    show "distinct (map fst ?p)" using cfg(3) by (simp add: pruneExpired_def distinct_map_filter)
    show "map_of ?p k = None" "map_of ?p k' = None" using pruneExpired_find [OF cfg(3)] assms(4,5) expired by simp_all
    have "x = e" if "(k, x) \<in> set es" for x using that cfg(3) assms(4) by (metis map_of_is_SomeI option.inject)
    then show "list_all (\<lambda>(j, x). now < lockedUntil x) ?p"
      using assms(10) expired by (auto simp: pruneExpired_def list_all_iff)
  qed
  have ne: "k \<noteq> k'" using assms(4,5) by auto
  have first: "ag_room cfg now es = (True, ?p)" using len assms(3) by (simp add: ag_room_def makeRoom_def Let_def)
  define es1 where "es1 = set_entry k' ?e (place (k', new_entry) ?p)"
  have a1: "ag_admit place cfg k' (limit k') now es = (True, es1)"
    by (rule ag_admit_cases [of es k' place cfg "limit k'" now])
      (use assms(5) first admit_fresh_entry(1) [OF cfg(1,2) assms(12)] in \<open>auto simp: es1_def\<close>)
  have m1: "map_of es1 = (map_of ?p)(k' \<mapsto> ?e)"
    unfolding es1_def using place_find [OF assms(1) p(1,3)] by (auto simp: fun_eq_iff map_of_set_entry)
  have t1: "table_ok cfg now es1" using ag_admit_facts(1) [OF assms(1,2), of k' "limit k'"] a1 by simp
  have l1: "length es1 = kMaxTrackedKeys" unfolding es1_def using place_keys(2) [OF assms(1)] len by simp
  have in1: "(k', ?e) \<in> set (pruneExpired cfg now es1)"
  proof -
    have "\<not> now < now - window_width cfg" using window_width_nonneg [of cfg] by linarith
    then show ?thesis using map_of_SomeD [of es1 k' ?e] m1 by (simp add: pruneExpired_def ag_expired_def start)
  qed
  have room: "fst (ag_room cfg now es1)"
    using makeRoom_evicts [OF in1] cfg(2) l1 by (simp add: ag_room_def new_entry_def)
  let ?r = "snd (ag_room cfg now es1)"
  have none: "map_of es1 k = None" using m1 p(2) ne by simp
  then have noner: "map_of ?r k = None" using ag_room_facts(3) [OF t1, of k] by auto
  define es2 where "es2 = set_entry k ?e (place (k, new_entry) ?r)"
  have lk: "1 \<le> limit k" using assms(11) by simp
  have a2: "ag_admit place cfg k (limit k) now es1 = (True, es2)"
    by (rule ag_admit_cases [of es1 k place cfg "limit k" now])
      (use none room admit_fresh_entry(1) [OF cfg(1,2) lk] in \<open>auto simp: es2_def\<close>)
  have "distinct (map fst ?r)" using ag_room_facts(1) [OF t1] by (simp add: table_ok_def)
  then have "map_of es2 k = Some ?e"
    unfolding es2_def using place_find [OF assms(1) _ noner] by (simp add: map_of_set_entry)
  then have a3: "fst (ag_admit place cfg k (limit k) now es2)"
    using admit_fresh_entry(2) [OF cfg(1,2) lk assms(11)] by (simp add: ag_admit_def split_def Let_def)
  show "admissions (ag_step place cfg limit threshold) es [(now, AdmitCall k'), (now, AdmitCall k), (now, AdmitCall k)]
      = [(k', now), (k, now), (k, now)]"
    using a3 by (simp add: a1 a2 split_def Let_def)
qed

theorem full_table_forgets_hits_witness:
  "admissions (ag_step (#) sample_limits (\<lambda>_. 2) (\<lambda>_. 1)) crowded_table
     [(rate_seconds 61, AdmitCall ''new''), (rate_seconds 61, AdmitCall ''key''), (rate_seconds 61, AdmitCall ''key'')]
   = [(''new'', rate_seconds 61), (''key'', rate_seconds 61), (''key'', rate_seconds 61)]"
proof -
  let ?now = "rate_seconds 61"
  have len: "length crowded_table = kMaxTrackedKeys" by (simp add: crowded_table_def kMaxTrackedKeys_def)
  have key: "''key'' \<notin> (\<lambda>n. replicate n (CHR ''a'')) ` A" "''new'' \<notin> (\<lambda>n. replicate n (CHR ''a'')) ` A" for A
    by (auto simp: list_eq_iff_nth_eq nth_Cons split: nat.splits)
  have "table_ok sample_limits ?now crowded_table"
    using key
    by (auto simp: table_ok_def crowded_table_def sample_limits_ok entry_ok_def list_all_iff comp_def image_comp distinct_map inj_on_def
        rate_seconds_def sample_limits_def config_ok_def kMaxTrackedKeys_def dest: arg_cong [where f = length])
  moreover have "map_of crowded_table ''new'' = None"
    using key by (simp add: map_of_eq_None_iff crowded_table_def image_comp comp_def)
  moreover have "map_of crowded_table ''key'' = Some (new_entry\<lparr>hits := [0, rate_seconds 61]\<rparr>)" by (simp add: crowded_table_def)
  moreover have "list_all (\<lambda>(j, x). j = ''key'' \<or> ?now < lockedUntil x) crowded_table"
    by (auto simp: crowded_table_def list_all_iff rate_seconds_def)
  ultimately show ?thesis
    using full_table_forgets_hits [OF unordered_Cons _ len, of sample_limits ?now "''key''" "new_entry\<lparr>hits := [0, rate_seconds 61]\<rparr>" "''new''"
        0 "[rate_seconds 61]" "\<lambda>_. 2" "\<lambda>_. 1"]
    by (simp add: window_start_def sample_limits_def rate_seconds_def)
qed

end
