(* ===== verification/Sealed_Push.thy ===== *)
theory Sealed_Push
  imports Push_Envelope Base64
begin

text \<open>
  The bridge that takes sealed pushes from the message bus to the link, \<open>services/tunnel/src/link/push/sealed-push-bridge.cc\<close>:
  the reading of a delivery, the ledger of the pushes that wait for their result, the memory of the delivered ones and the
  dispatcher over both. A delivery id is the \<open>bytes\<close> of the envelope; the settlement of a message of the bus is a number
  that identifies it, and what the dispatcher does to its surroundings is the list of its effects. The clock and what the
  ports answer are arguments of a step. The hash tables are maps. The capacity is positive (\<open>kLedgerCapacity\<close> is 1024; the
  front of an empty queue would be taken otherwise). The consumer
  asks the bus for one outstanding message at a time (\<open>maxAckPending\<close>); this is a hypothesis where it matters (\<open>one_at_a_time\<close>).
  Logging is left out.
\<close>

section \<open>Deliveries\<close>

text \<open>The JSON library: \<open>asInt64\<close> is \<open>None\<close> where it throws.\<close>

record 'j push_json =
  fromString :: "string \<Rightarrow> 'j"
  isObject :: "'j \<Rightarrow> bool"
  isMember :: "'j \<Rightarrow> string \<Rightarrow> bool"
  isString :: "'j \<Rightarrow> string \<Rightarrow> bool"
  asString :: "'j \<Rightarrow> string \<Rightarrow> string"
  isIntegral :: "'j \<Rightarrow> string \<Rightarrow> bool"
  asInt64 :: "'j \<Rightarrow> string \<Rightarrow> int option"

record durable_delivery =
  envelope :: push_sealed
  expiresAtMs :: int

definition textField :: "'j push_json \<Rightarrow> 'j \<Rightarrow> string \<Rightarrow> string option" where
  "textField api j key = (if \<not> isMember api j key \<or> \<not> isString api j key then None else Some (asString api j key))"

definition bytesField :: "'j push_json \<Rightarrow> 'j \<Rightarrow> string \<Rightarrow> bytes option" where
  "bytesField api j key = (case textField api j key of None \<Rightarrow> None | Some t \<Rightarrow> base64_decode t)"

text \<open>Of the two numbers the outer \<open>None\<close> is an exception, the inner one a field that is not usable.\<close>

definition ttlField :: "'j push_json \<Rightarrow> 'j \<Rightarrow> u32 option option" where
  "ttlField api j =
     (if \<not> isMember api j ''ttlSeconds'' \<or> \<not> isIntegral api j ''ttlSeconds'' then Some None
      else case asInt64 api j ''ttlSeconds'' of
        None \<Rightarrow> None
      | Some ttl \<Rightarrow> Some (if ttl < 0 \<or> ttl > 4294967295 then None else Some (word_of_int ttl)))"

definition expiresAtField :: "'j push_json \<Rightarrow> 'j \<Rightarrow> int option option" where
  "expiresAtField api j =
     (if \<not> isMember api j ''expiresAt'' \<or> \<not> isIntegral api j ''expiresAt'' then Some None
      else case asInt64 api j ''expiresAt'' of
        None \<Rightarrow> None
      | Some at \<Rightarrow> Some (if at < 0 then None else Some at))"

definition deliveryFromJson :: "'j push_json \<Rightarrow> string \<Rightarrow> durable_delivery option option" where
  "deliveryFromJson api text =
     (let j = fromString api text in
      if \<not> isObject api j then Some None
      else do {
        ttl \<leftarrow> ttlField api j;
        at \<leftarrow> expiresAtField api j;
        Some (do {
          prov \<leftarrow> textField api j ''provider'';
          kin \<leftarrow> textField api j ''kind'';
          prio \<leftarrow> textField api j ''priority'';
          ttl \<leftarrow> ttl;
          at \<leftarrow> at;
          did \<leftarrow> bytesField api j ''deliveryId'';
          tok \<leftarrow> textField api j ''token'';
          col \<leftarrow> textField api j ''collapseId'';
          en \<leftarrow> bytesField api j ''enc'';
          ct \<leftarrow> bytesField api j ''ciphertext'';
          p \<leftarrow> pushProviderFromString prov;
          k \<leftarrow> pushKindFromString kin;
          r \<leftarrow> pushPriorityFromString prio;
          let e = \<lparr>deliveryId = did, provider = p, kind = k, priority = r, ttlSeconds = ttl, collapseId = byte_string col,
            token = byte_string tok, enc = en, ciphertext = ct\<rparr>;
          if \<not> wellFormed e then None else Some \<lparr>envelope = e, expiresAtMs = at\<rparr>
        })
      })"

text \<open>The fields of the result document.\<close>

definition resultToJson :: "push_result \<Rightarrow> bytes \<Rightarrow> (string \<times> string) list" where
  "resultToJson r tok =
     [(''deliveryId'', base64_encode (r_deliveryId r)), (''outcome'', pushOutcomeToString (outcome r)),
      (''token'', map (\<lambda>b. char_of (unat b)) tok)]"

section \<open>The ledger\<close>

type_synonym settlement = nat

record pending_push =
  p_token :: bytes
  p_settlement :: settlement

record push_ledger =
  l_capacity :: nat
  l_order :: "bytes list"
  l_pending :: "bytes \<rightharpoonup> pending_push"

definition ledger_contains :: "push_ledger \<Rightarrow> bytes \<Rightarrow> bool" where
  "ledger_contains l d \<longleftrightarrow> l_pending l d \<noteq> None"

text \<open>The loop that makes room: the oldest ids leave until there is space for one more.\<close>

fun evict_pending :: "nat \<Rightarrow> bytes list \<Rightarrow> (bytes \<rightharpoonup> pending_push) \<Rightarrow> bytes list \<times> (bytes \<rightharpoonup> pending_push)" where
  "evict_pending cap [] pending = ([], pending)"
| "evict_pending cap (d # ds) pending =
     (if length (d # ds) \<ge> cap then evict_pending cap ds (pending(d := None)) else (d # ds, pending))"

definition ledger_remember :: "push_ledger \<Rightarrow> bytes \<Rightarrow> pending_push \<Rightarrow> push_ledger" where
  "ledger_remember l d p =
     (if ledger_contains l d then l
      else let (order, pending) = evict_pending (l_capacity l) (l_order l) (l_pending l)
           in l\<lparr>l_order := order @ [d], l_pending := pending(d \<mapsto> p)\<rparr>)"

definition replaceSettlement :: "push_ledger \<Rightarrow> bytes \<Rightarrow> settlement \<Rightarrow> push_ledger" where
  "replaceSettlement l d s =
     (case l_pending l d of None \<Rightarrow> l | Some p \<Rightarrow> l\<lparr>l_pending := (l_pending l)(d \<mapsto> p\<lparr>p_settlement := s\<rparr>)\<rparr>)"

definition ledger_take :: "push_ledger \<Rightarrow> bytes \<Rightarrow> pending_push option \<times> push_ledger" where
  "ledger_take l d =
     (case l_pending l d of None \<Rightarrow> (None, l) | Some p \<Rightarrow> (Some p, l\<lparr>l_pending := (l_pending l)(d := None)\<rparr>))"

record delivered_recently =
  d_capacity :: nat
  d_order :: "bytes list"
  d_seen :: "bytes set"

definition delivered_contains :: "delivered_recently \<Rightarrow> bytes \<Rightarrow> bool" where
  "delivered_contains r d \<longleftrightarrow> d \<in> d_seen r"

fun evict_seen :: "nat \<Rightarrow> bytes list \<Rightarrow> bytes set \<Rightarrow> bytes list \<times> bytes set" where
  "evict_seen cap [] seen = ([], seen)"
| "evict_seen cap (d # ds) seen =
     (if length (d # ds) \<ge> cap then evict_seen cap ds (seen - {d}) else (d # ds, seen))"

definition delivered_remember :: "delivered_recently \<Rightarrow> bytes \<Rightarrow> delivered_recently" where
  "delivered_remember r d =
     (if delivered_contains r d then r
      else let (order, seen) = evict_seen (d_capacity r) (d_order r) (d_seen r)
           in r\<lparr>d_order := order @ [d], d_seen := insert d seen\<rparr>)"

section \<open>The dispatcher\<close>

datatype dispatch_outcome = Sent | ExpiredPush | Duplicate | LinkDown

datatype push_effect =
    SendPush push_sealed bool
  | PublishResult push_result bytes
  | AckMessage settlement
  | NakMessage settlement
  | TermMessage settlement

record push_dispatcher =
  pending :: push_ledger
  delivered :: delivered_recently
  expired :: u64
  attempts :: "bytes \<rightharpoonup> u32"

definition new_dispatcher :: "nat \<Rightarrow> push_dispatcher" where
  "new_dispatcher capacity =
     \<lparr>pending = \<lparr>l_capacity = capacity, l_order = [], l_pending = Map.empty\<rparr>,
      delivered = \<lparr>d_capacity = capacity, d_order = [], d_seen = {}\<rparr>, expired = 0, attempts = Map.empty\<rparr>"

definition attempt_count :: "push_dispatcher \<Rightarrow> bytes \<Rightarrow> u32" where
  "attempt_count st d = (case attempts st d of None \<Rightarrow> 0 | Some n \<Rightarrow> n)"

text \<open>\<open>dispatch\<close> with the time and with what the port \<open>send\<close> answers.\<close>

definition push_dispatch ::
  "int \<Rightarrow> bool \<Rightarrow> durable_delivery \<Rightarrow> settlement \<Rightarrow> push_dispatcher \<Rightarrow> dispatch_outcome \<times> push_effect list \<times> push_dispatcher" where
  "push_dispatch now sent del s st =
     (let d = deliveryId (envelope del) in
      if expiresAtMs del \<le> now then (ExpiredPush, [AckMessage s], st\<lparr>expired := expired st + 1\<rparr>)
      else if delivered_contains (delivered st) d then (Duplicate, [AckMessage s], st)
      else if ledger_contains (pending st) d then (Duplicate, [], st\<lparr>pending := replaceSettlement (pending st) d s\<rparr>)
      else let st = st\<lparr>attempts := (attempts st)(d \<mapsto> attempt_count st d + 1)\<rparr> in
        if \<not> sent then (LinkDown, [SendPush (envelope del) False, NakMessage s], st)
        else (Sent, [SendPush (envelope del) True],
              st\<lparr>pending := ledger_remember (pending st) d \<lparr>p_token = token (envelope del), p_settlement = s\<rparr>\<rparr>))"

text \<open>\<open>result\<close> with what the port \<open>publishResult\<close> answers.\<close>

definition push_result_step :: "bool \<Rightarrow> push_result \<Rightarrow> push_dispatcher \<Rightarrow> push_effect list \<times> push_dispatcher" where
  "push_result_step published r st =
     (let (taken, ledger) = ledger_take (pending st) (r_deliveryId r);
          tok = (case taken of None \<Rightarrow> [] | Some p \<Rightarrow> p_token p);
          st = st\<lparr>pending := ledger, attempts := (attempts st)(r_deliveryId r := None)\<rparr>
      in case taken of
           None \<Rightarrow> ([PublishResult r tok], st)
         | Some p \<Rightarrow>
             if \<not> published then ([PublishResult r tok, NakMessage (p_settlement p)], st)
             else ([PublishResult r tok, AckMessage (p_settlement p)],
                   st\<lparr>delivered := delivered_remember (delivered st) (r_deliveryId r)\<rparr>))"

text \<open>A message of the bus that is not well formed is dropped for good (\<open>onDelivery\<close>), before the dispatcher.\<close>

definition onDelivery ::
  "'j push_json \<Rightarrow> string \<Rightarrow> settlement \<Rightarrow> int \<Rightarrow> bool \<Rightarrow> push_dispatcher \<Rightarrow> (push_effect list \<times> push_dispatcher) option" where
  "onDelivery api payload s now sent st =
     (case deliveryFromJson api payload of
        None \<Rightarrow> None
      | Some None \<Rightarrow> Some ([TermMessage s], st)
      | Some (Some del) \<Rightarrow> let (out, effects, st) = push_dispatch now sent del s st in Some (effects, st))"

text \<open>What happens to a dispatcher: a delivery, or a result.\<close>

datatype push_event =
    Delivery int bool durable_delivery settlement
  | Result bool push_result

fun push_step :: "push_dispatcher \<Rightarrow> push_event \<Rightarrow> push_effect list \<times> push_dispatcher" where
  "push_step st (Delivery now sent del s) = (let (out, effects, st) = push_dispatch now sent del s st in (effects, st))"
| "push_step st (Result published r) = push_result_step published r st"

fun push_run :: "push_dispatcher \<Rightarrow> push_event list \<Rightarrow> push_effect list \<times> push_dispatcher" where
  "push_run st [] = ([], st)"
| "push_run st (ev # evs) =
     (let (effects, st) = push_step st ev; (more_effects, st) = push_run st evs in (effects @ more_effects, st))"

section \<open>The state of the consumer\<close>

datatype consumer_edge = NoEdge | ReadyEdge | LostEdge

definition observe :: "bool \<Rightarrow> bool \<Rightarrow> consumer_edge \<times> bool" where
  "observe ready attached =
     (if attached \<and> \<not> ready then (ReadyEdge, True)
      else if \<not> attached \<and> ready then (LostEdge, False)
      else (NoEdge, ready))"

fun observe_all :: "bool \<Rightarrow> bool list \<Rightarrow> consumer_edge list" where
  "observe_all ready [] = []"
| "observe_all ready (a # as) = (let (e, ready) = observe ready a in e # observe_all ready as)"

section \<open>Settlements\<close>

text \<open>The messages settled by some effects, the new message of an event, and the messages that wait in the ledger.\<close>

definition settled_of :: "push_effect list \<Rightarrow> settlement list" where
  "settled_of es = concat (map (\<lambda>e. case e of AckMessage s \<Rightarrow> [s] | NakMessage s \<Rightarrow> [s] | TermMessage s \<Rightarrow> [s] | _ \<Rightarrow> []) es)"

fun arrived :: "push_event \<Rightarrow> settlement list" where
  "arrived (Delivery now sent del s) = [s]"
| "arrived (Result published r) = []"

definition held :: "push_dispatcher \<Rightarrow> settlement set" where
  "held st = {s. \<exists>d p. l_pending (pending st) d = Some p \<and> p_settlement p = s}"

definition held_once :: "push_dispatcher \<Rightarrow> bool" where
  "held_once st \<longleftrightarrow> (\<forall>d d' p p'. l_pending (pending st) d = Some p \<and> l_pending (pending st) d' = Some p'
     \<and> p_settlement p = p_settlement p' \<longrightarrow> d = d')"

lemma settled_of_simps [simp]:
  "settled_of [] = []" "settled_of (xs @ ys) = settled_of xs @ settled_of ys"
  "settled_of (SendPush e b # xs) = settled_of xs" "settled_of (PublishResult x t # xs) = settled_of xs"
  "settled_of (AckMessage s # xs) = s # settled_of xs" "settled_of (NakMessage s # xs) = s # settled_of xs"
  by (simp_all add: settled_of_def)

lemma evict_pending_sub: "snd (evict_pending cap ds pend) d = Some p \<Longrightarrow> pend d = Some p"
  by (induction cap ds pend rule: evict_pending.induct) (auto split: if_splits)

lemma push_step_settles:
  assumes "held_once st" "held st \<inter> set (arrived ev) = {}"
  shows "held_once (snd (push_step st ev))"
    and "held (snd (push_step st ev)) \<subseteq> (held st \<union> set (arrived ev)) - set (settled_of (fst (push_step st ev)))"
    and "distinct (settled_of (fst (push_step st ev)))"
    and "set (settled_of (fst (push_step st ev))) \<subseteq> held st \<union> set (arrived ev)"
proof -
  have "held_once (snd (push_step st ev))
    \<and> held (snd (push_step st ev)) \<subseteq> (held st \<union> set (arrived ev)) - set (settled_of (fst (push_step st ev)))
    \<and> distinct (settled_of (fst (push_step st ev)))
    \<and> set (settled_of (fst (push_step st ev))) \<subseteq> held st \<union> set (arrived ev)"
  proof (cases ev)
    case (Delivery now sent del s)
    let ?d = "deliveryId (envelope del)"
    have new: "s \<noteq> p_settlement p" if "l_pending (pending st) d = Some p" for d p
      using assms(2) that by (auto simp: Delivery held_def)
    consider "expiresAtMs del \<le> now \<or> delivered_contains (delivered st) ?d"
      | "\<not> expiresAtMs del \<le> now" "\<not> delivered_contains (delivered st) ?d" "ledger_contains (pending st) ?d"
      | "\<not> expiresAtMs del \<le> now" "\<not> delivered_contains (delivered st) ?d" "\<not> ledger_contains (pending st) ?d" "\<not> sent"
      | "\<not> expiresAtMs del \<le> now" "\<not> delivered_contains (delivered st) ?d" "\<not> ledger_contains (pending st) ?d" "sent"
      by blast
    then show ?thesis
    proof cases
      case 1
      then show ?thesis using assms new by (auto simp: Delivery push_dispatch_def Let_def held_def held_once_def)
    next
      case 2
      then obtain p where p: "l_pending (pending st) ?d = Some p" by (auto simp: ledger_contains_def)
      then show ?thesis
        using 2 assms new
        by (auto simp: Delivery push_dispatch_def Let_def held_def held_once_def replaceSettlement_def split: if_splits)
    next
      case 3
      then show ?thesis using assms new by (auto simp: Delivery push_dispatch_def Let_def held_def held_once_def)
    next
      case 4
      obtain order pend where ev: "evict_pending (l_capacity (pending st)) (l_order (pending st)) (l_pending (pending st)) = (order, pend)"
        by (rule prod.exhaust)
      then have sub: "pend d = Some p \<Longrightarrow> l_pending (pending st) d = Some p" for d p
        using evict_pending_sub [of "l_capacity (pending st)" "l_order (pending st)" "l_pending (pending st)" d p] by simp
      have st': "l_pending (pending (snd (push_step st ev))) = pend(?d \<mapsto> \<lparr>p_token = token (envelope del), p_settlement = s\<rparr>)"
        "fst (push_step st ev) = [SendPush (envelope del) True]"
        using 4 ev by (simp_all add: Delivery push_dispatch_def Let_def ledger_remember_def)
      have "held_once (snd (push_step st ev))"
        unfolding held_once_def st' using assms(1) new sub by (auto simp: held_once_def split: if_splits) (metis | blast)+
      moreover have "held (snd (push_step st ev)) \<subseteq> held st \<union> {s}"
        unfolding held_def st' using sub by (auto split: if_splits)
      ultimately show ?thesis using st'(2) by (simp add: Delivery)
    qed
  next
    case (Result published x)
    show ?thesis
    proof (cases "l_pending (pending st) (r_deliveryId x)")
      case None
      then show ?thesis using assms by (simp add: Result push_result_step_def ledger_take_def Let_def held_def held_once_def)
    next
      case (Some p)
      have eff: "settled_of (fst (push_step st ev)) = [p_settlement p]"
        "l_pending (pending (snd (push_step st ev))) = (l_pending (pending st))(r_deliveryId x := None)"
        using Some by (simp_all add: Result push_result_step_def ledger_take_def Let_def)
      have "held_once (snd (push_step st ev))" unfolding held_once_def eff using assms(1) by (auto simp: held_once_def)
      moreover have "held (snd (push_step st ev)) \<subseteq> held st - {p_settlement p}"
        unfolding held_def eff using assms(1) Some by (auto simp: held_once_def split: if_splits)
      ultimately show ?thesis using eff(1) Some by (auto simp: Result held_def)
    qed
  qed
  then show "held_once (snd (push_step st ev))"
    "held (snd (push_step st ev)) \<subseteq> (held st \<union> set (arrived ev)) - set (settled_of (fst (push_step st ev)))"
    "distinct (settled_of (fst (push_step st ev)))"
    "set (settled_of (fst (push_step st ev))) \<subseteq> held st \<union> set (arrived ev)"
    by blast+
qed

lemma push_run_Cons:
  "push_run st (ev # evs) = (fst (push_step st ev) @ fst (push_run (snd (push_step st ev)) evs), snd (push_run (snd (push_step st ev)) evs))"
  by (simp add: split_def Let_def)

lemma push_run_append:
  "push_run st (xs @ ys) = (fst (push_run st xs) @ fst (push_run (snd (push_run st xs)) ys), snd (push_run (snd (push_run st xs)) ys))"
  by (induction xs arbitrary: st) (simp_all add: push_run_Cons del: push_run.simps(2))

lemma push_run_settles:
  "held_once st \<Longrightarrow> held st \<inter> set (concat (map arrived evs)) = {} \<Longrightarrow> distinct (concat (map arrived evs)) \<Longrightarrow>
   distinct (settled_of (fst (push_run st evs))) \<and> set (settled_of (fst (push_run st evs))) \<subseteq> held st \<union> set (concat (map arrived evs))"
proof (induction evs arbitrary: st)
  case (Cons ev evs)
  let ?st = "snd (push_step st ev)"
  have fresh: "held st \<inter> set (arrived ev) = {}" using Cons.prems(2) by auto
  note step = push_step_settles [OF Cons.prems(1) fresh]
  have "held ?st \<inter> set (concat (map arrived evs)) = {}" "distinct (concat (map arrived evs))"
    using step(2) Cons.prems(2,3) by auto
  then have IH: "distinct (settled_of (fst (push_run ?st evs)))
      \<and> set (settled_of (fst (push_run ?st evs))) \<subseteq> held ?st \<union> set (concat (map arrived evs))"
    by (rule Cons.IH [OF step(1)])
  then have "set (settled_of (fst (push_step st ev))) \<inter> set (settled_of (fst (push_run ?st evs))) = {}"
    using step(2,4) Cons.prems(2,3) by fastforce
  then show ?case
    using IH step(2,3,4) unfolding push_run_Cons by fastforce
qed simp

section \<open>Bounds\<close>

definition push_bounded :: "nat \<Rightarrow> push_dispatcher \<Rightarrow> bool" where
  "push_bounded cap st \<longleftrightarrow>
     l_capacity (pending st) = cap \<and> d_capacity (delivered st) = cap
     \<and> length (l_order (pending st)) \<le> cap \<and> length (d_order (delivered st)) \<le> cap
     \<and> dom (l_pending (pending st)) \<subseteq> set (l_order (pending st)) \<and> d_seen (delivered st) = set (d_order (delivered st))
     \<and> distinct (d_order (delivered st))"

lemma evict_pending_bounds:
  assumes "0 < cap" "dom pend \<subseteq> set ds"
  shows "length (fst (evict_pending cap ds pend)) < cap
    \<and> dom (snd (evict_pending cap ds pend)) \<subseteq> set (fst (evict_pending cap ds pend))"
  using assms(2)
proof (induction ds arbitrary: pend)
  case (Cons d ds)
  then have sub: "dom (pend(d := None)) \<subseteq> set ds" by auto
  show ?case
  proof (cases "cap \<le> length (d # ds)")
    case True
    then have "evict_pending cap (d # ds) pend = evict_pending cap ds (pend(d := None))" by simp
    then show ?thesis using Cons.IH [OF sub] by metis
  next
    case False
    then have "evict_pending cap (d # ds) pend = (d # ds, pend)" by simp
    then show ?thesis using False Cons.prems by simp
  qed
qed (use assms(1) in simp)

lemma evict_seen_bounds:
  assumes "0 < cap" "seen = set ds" "distinct ds"
  shows "length (fst (evict_seen cap ds seen)) < cap \<and> snd (evict_seen cap ds seen) = set (fst (evict_seen cap ds seen))
    \<and> distinct (fst (evict_seen cap ds seen)) \<and> set (fst (evict_seen cap ds seen)) \<subseteq> set ds"
  using assms(2,3)
proof (induction ds arbitrary: seen)
  case (Cons d ds)
  then have "seen - {d} = set ds" by auto
  then show ?case using Cons.IH [of "seen - {d}"] Cons.prems by auto
qed (use assms(1) in simp)

lemma ledger_remember_bounded:
  assumes "0 < cap" "l_capacity l = cap" "length (l_order l) \<le> cap" "dom (l_pending l) \<subseteq> set (l_order l)"
  shows "l_capacity (ledger_remember l d p) = cap \<and> length (l_order (ledger_remember l d p)) \<le> cap
    \<and> dom (l_pending (ledger_remember l d p)) \<subseteq> set (l_order (ledger_remember l d p))"
  using assms evict_pending_bounds [OF assms(1,4)]
  by (auto simp: ledger_remember_def split_def Let_def)

lemma delivered_remember_bounded:
  assumes "0 < cap" "d_capacity r = cap" "length (d_order r) \<le> cap" "d_seen r = set (d_order r)" "distinct (d_order r)"
  shows "d_capacity (delivered_remember r d) = cap \<and> length (d_order (delivered_remember r d)) \<le> cap
    \<and> d_seen (delivered_remember r d) = set (d_order (delivered_remember r d)) \<and> distinct (d_order (delivered_remember r d))"
  using assms evict_seen_bounds [OF assms(1,4,5)]
  by (auto simp: delivered_remember_def delivered_contains_def split_def Let_def)

lemma push_step_bounded:
  assumes "0 < cap" "push_bounded cap st"
  shows "push_bounded cap (snd (push_step st ev))"
proof (cases ev)
  case (Delivery now sent del s)
  have "push_bounded cap (st\<lparr>pending := ledger_remember (pending st) d p\<rparr>)" for d p
    using ledger_remember_bounded [OF assms(1), of "pending st" d p] assms(2) by (auto simp: push_bounded_def)
  then show ?thesis
    using assms(2) by (auto simp: Delivery push_dispatch_def Let_def push_bounded_def replaceSettlement_def dom_def split: option.splits)
next
  case (Result published x)
  have "push_bounded cap (st\<lparr>delivered := delivered_remember (delivered st) d\<rparr>)" for d
    using delivered_remember_bounded [OF assms(1), of "delivered st" d] assms(2) by (auto simp: push_bounded_def)
  then show ?thesis
    using assms(2) by (auto simp: Result push_result_step_def ledger_take_def Let_def push_bounded_def dom_def split: option.splits)
qed

lemma push_run_bounded: "0 < cap \<Longrightarrow> push_bounded cap st \<Longrightarrow> push_bounded cap (snd (push_run st evs))"
  by (induction evs arbitrary: st) (simp_all add: push_run_Cons push_step_bounded del: push_run.simps(2))

lemma new_bounded: "push_bounded cap (new_dispatcher cap)"
  by (simp add: push_bounded_def new_dispatcher_def)

lemma replaceSettlement_frame [simp]:
  "dom (l_pending (replaceSettlement l d s)) = dom (l_pending l)" "l_order (replaceSettlement l d s) = l_order l"
  "l_capacity (replaceSettlement l d s) = l_capacity l"
  by (auto simp: replaceSettlement_def split: option.splits)

section \<open>No second send\<close>

definition sends_of :: "bytes \<Rightarrow> push_effect list \<Rightarrow> nat" where
  "sends_of d es = length (filter (\<lambda>e. case e of SendPush env True \<Rightarrow> deliveryId env = d | _ \<Rightarrow> False) es)"

lemma sends_of_simps [simp]:
  "sends_of d [] = 0" "sends_of d (xs @ ys) = sends_of d xs + sends_of d ys"
  "sends_of d (SendPush e b # xs) = (if b \<and> deliveryId e = d then Suc (sends_of d xs) else sends_of d xs)"
  "sends_of d (PublishResult x t # xs) = sends_of d xs" "sends_of d (AckMessage s # xs) = sends_of d xs"
  "sends_of d (NakMessage s # xs) = sends_of d xs"
  by (auto simp: sends_of_def split: bool.split)

fun is_delivery :: "push_event \<Rightarrow> bool" where
  "is_delivery (Delivery now sent del s) = True"
| "is_delivery (Result published r) = False"

text \<open>While nothing is evicted: the pending pushes and the delivered ones are among the sent ones.\<close>

definition roomy :: "nat \<Rightarrow> push_dispatcher \<Rightarrow> bool" where
  "roomy n st \<longleftrightarrow> length (l_order (pending st)) + n \<le> l_capacity (pending st) \<and> d_capacity (delivered st) = l_capacity (pending st)
     \<and> finite (dom (l_pending (pending st)))
     \<and> length (d_order (delivered st)) + card (dom (l_pending (pending st))) \<le> length (l_order (pending st))"

lemma evict_pending_none: "length ds < cap \<Longrightarrow> evict_pending cap ds pend = (ds, pend)"
  by (cases ds) auto

lemma evict_seen_none: "length ds < cap \<Longrightarrow> evict_seen cap ds seen = (ds, seen)"
  by (cases ds) auto

definition known_push :: "push_dispatcher \<Rightarrow> bytes \<Rightarrow> bool" where
  "known_push st d \<longleftrightarrow> d \<in> d_seen (delivered st) \<or> d \<in> dom (l_pending (pending st))"

fun never_unpublished :: "bytes \<Rightarrow> push_event \<Rightarrow> bool" where
  "never_unpublished d (Delivery now sent del s) = True"
| "never_unpublished d (Result published r) = (published \<or> r_deliveryId r \<noteq> d)"

lemma push_step_roomy:
  assumes "roomy (if is_delivery ev then Suc n else n) st" "never_unpublished d ev"
  shows "roomy n (snd (push_step st ev))"
    and "known_push st d \<Longrightarrow> known_push (snd (push_step st ev)) d \<and> sends_of d (fst (push_step st ev)) = 0"
    and "sends_of d (fst (push_step st ev)) = 0 \<or> (sends_of d (fst (push_step st ev)) = 1 \<and> known_push (snd (push_step st ev)) d)"
proof -
  have "roomy n (snd (push_step st ev))
    \<and> (known_push st d \<longrightarrow> known_push (snd (push_step st ev)) d \<and> sends_of d (fst (push_step st ev)) = 0)
    \<and> (sends_of d (fst (push_step st ev)) = 0 \<or> (sends_of d (fst (push_step st ev)) = 1 \<and> known_push (snd (push_step st ev)) d))"
  proof (cases ev)
    case (Delivery now sent del s)
    let ?d = "deliveryId (envelope del)" and ?l = "pending st"
    have room: "length (l_order ?l) < l_capacity ?l" "roomy n st" using assms(1) by (auto simp: Delivery roomy_def)
    have rem: "ledger_remember ?l ?d p = ?l\<lparr>l_order := l_order ?l @ [?d], l_pending := (l_pending ?l)(?d \<mapsto> p)\<rparr>"
      if "\<not> ledger_contains ?l ?d" for p
      using that room(1) by (simp add: ledger_remember_def evict_pending_none)
    have "roomy n (st\<lparr>pending := ?l\<lparr>l_order := l_order ?l @ [?d], l_pending := (l_pending ?l)(?d \<mapsto> p)\<rparr>, attempts := a\<rparr>)"
      if "\<not> ledger_contains ?l ?d" for p a
      using that assms(1) by (simp add: Delivery roomy_def ledger_contains_def card_insert_if domIff)
    note fresh_room = this
    consider "expiresAtMs del \<le> now \<or> delivered_contains (delivered st) ?d"
      | "\<not> expiresAtMs del \<le> now" "\<not> delivered_contains (delivered st) ?d" "ledger_contains ?l ?d"
      | "\<not> expiresAtMs del \<le> now" "\<not> delivered_contains (delivered st) ?d" "\<not> ledger_contains ?l ?d" "\<not> sent"
      | "\<not> expiresAtMs del \<le> now" "\<not> delivered_contains (delivered st) ?d" "\<not> ledger_contains ?l ?d" "sent"
      by blast
    then show ?thesis
    proof cases
      case 1
      then show ?thesis using room(2) by (auto simp: Delivery push_dispatch_def Let_def known_push_def roomy_def)
    next
      case 2
      then have "push_step st ev = ([], st\<lparr>pending := replaceSettlement ?l ?d s\<rparr>)" by (simp add: Delivery push_dispatch_def Let_def)
      then show ?thesis using room(2) by (simp add: known_push_def roomy_def)
    next
      case 3
      then show ?thesis using room(2) by (auto simp: Delivery push_dispatch_def Let_def known_push_def roomy_def)
    next
      case 4
      have "push_step st ev = ([SendPush (envelope del) True], st\<lparr>pending := ?l\<lparr>l_order := l_order ?l @ [?d],
          l_pending := (l_pending ?l)(?d \<mapsto> \<lparr>p_token = token (envelope del), p_settlement = s\<rparr>)\<rparr>,
          attempts := (attempts st)(?d \<mapsto> attempt_count st ?d + 1)\<rparr>)"
        using 4 rem [OF 4(3)] by (simp add: Delivery push_dispatch_def Let_def)
      then show ?thesis
        using fresh_room [OF 4(3)] 4 by (auto simp: known_push_def delivered_contains_def ledger_contains_def)
    qed
  next
    case (Result published x)
    let ?l = "pending st" and ?r = "r_deliveryId x"
    have room: "roomy n st" using assms(1) by (simp add: Result)
    show ?thesis
    proof (cases "l_pending ?l ?r")
      case None
      then show ?thesis
        using room by (auto simp: Result push_result_step_def ledger_take_def Let_def known_push_def roomy_def)
    next
      case (Some p)
      let ?pend = "(l_pending ?l)(?r := None)"
      have card: "Suc (card (dom ?pend)) = card (dom (l_pending ?l))"
        using Some room by (simp add: roomy_def) (metis card_Suc_Diff1 domI)
      then have few: "length (d_order (delivered st)) < d_capacity (delivered st)" using room by (auto simp: roomy_def)
      have rem: "delivered_remember (delivered st) ?r = (if delivered_contains (delivered st) ?r then delivered st
          else (delivered st)\<lparr>d_order := d_order (delivered st) @ [?r], d_seen := insert ?r (d_seen (delivered st))\<rparr>)"
        using few by (simp add: delivered_remember_def evict_seen_none)
      have st': "snd (push_step st ev) = st\<lparr>pending := ?l\<lparr>l_pending := ?pend\<rparr>, attempts := (attempts st)(?r := None),
          delivered := (if published then delivered_remember (delivered st) ?r else delivered st)\<rparr>"
        and eff: "sends_of d (fst (push_step st ev)) = 0"
        using Some by (simp_all add: Result push_result_step_def ledger_take_def Let_def)
      have "finite (dom ?pend)" using room by (simp add: roomy_def)
      then have "roomy n (snd (push_step st ev))"
        using room card unfolding st' rem by (auto simp: roomy_def simp del: dom_fun_upd)
      moreover have "known_push st d \<longrightarrow> known_push (snd (push_step st ev)) d"
        using assms(2) unfolding st' rem known_push_def by (auto simp: Result delivered_contains_def)
      ultimately show ?thesis using eff by simp
    qed
  qed
  then show "roomy n (snd (push_step st ev))"
    "known_push st d \<Longrightarrow> known_push (snd (push_step st ev)) d \<and> sends_of d (fst (push_step st ev)) = 0"
    "sends_of d (fst (push_step st ev)) = 0 \<or> (sends_of d (fst (push_step st ev)) = 1 \<and> known_push (snd (push_step st ev)) d)"
    by blast+
qed

lemma sends_once:
  "roomy (length (filter is_delivery evs)) st \<Longrightarrow> list_all (never_unpublished d) evs \<Longrightarrow>
   sends_of d (fst (push_run st evs)) \<le> (if known_push st d then 0 else 1)"
proof (induction evs arbitrary: st)
  case (Cons ev evs)
  have room: "roomy (if is_delivery ev then Suc (length (filter is_delivery evs)) else length (filter is_delivery evs)) st"
    using Cons.prems(1) by (auto split: if_splits)
  have ev: "never_unpublished d ev" "list_all (never_unpublished d) evs" using Cons.prems(2) by auto
  note step = push_step_roomy [OF room ev(1)]
  show ?case
    using Cons.IH [OF step(1) ev(2)] step(2,3) unfolding push_run_Cons by (auto split: if_splits)
qed simp

lemma new_roomy: "n \<le> cap \<Longrightarrow> roomy n (new_dispatcher cap)"
  by (simp add: roomy_def new_dispatcher_def)

section \<open>A push that waits is forgotten\<close>

text \<open>A push that is delivered at once: sent, and its result comes.\<close>

definition delivered_at_once :: "int \<Rightarrow> durable_delivery \<times> settlement \<Rightarrow> push_event list" where
  "delivered_at_once now x = [Delivery now True (fst x) (snd x), Result True \<lparr>r_deliveryId = deliveryId (envelope (fst x)), outcome = Delivered\<rparr>]"

definition push_id :: "durable_delivery \<times> settlement \<Rightarrow> bytes" where
  "push_id x = deliveryId (envelope (fst x))"

text \<open>The state while pushes come and go and the first one waits.\<close>

definition waiting_state :: "nat \<Rightarrow> bytes \<Rightarrow> pending_push \<Rightarrow> bytes list \<Rightarrow> push_dispatcher \<Rightarrow> bool" where
  "waiting_state cap d p ids st \<longleftrightarrow>
     pending st = \<lparr>l_capacity = cap, l_order = d # ids, l_pending = [d \<mapsto> p]\<rparr>
     \<and> delivered st = \<lparr>d_capacity = cap, d_order = ids, d_seen = set ids\<rparr>"

lemma at_once_step:
  assumes "waiting_state cap d p ids st" "Suc (length ids) < cap" "push_id x \<notin> insert d (set ids)" "now < expiresAtMs (fst x)"
  shows "waiting_state cap d p (ids @ [push_id x]) (snd (push_run st (delivered_at_once now x)))"
  using assms
  by (simp add: waiting_state_def delivered_at_once_def push_id_def push_dispatch_def push_result_step_def ledger_remember_def
      ledger_contains_def ledger_take_def delivered_contains_def delivered_remember_def evict_pending_none evict_seen_none Let_def
      fun_upd_twist)

lemma at_once_run:
  "waiting_state cap d p ids st \<Longrightarrow> length ids + length xs < cap \<Longrightarrow> distinct (ids @ map push_id xs) \<Longrightarrow> d \<notin> set (map push_id xs) \<Longrightarrow>
   list_all (\<lambda>x. now < expiresAtMs (fst x)) xs \<Longrightarrow>
   waiting_state cap d p (ids @ map push_id xs) (snd (push_run st (concat (map (delivered_at_once now) xs))))"
proof (induction xs arbitrary: ids st)
  case (Cons x xs)
  have "waiting_state cap d p (ids @ [push_id x]) (snd (push_run st (delivered_at_once now x)))"
    using Cons.prems by (intro at_once_step) auto
  then have "waiting_state cap d p ((ids @ [push_id x]) @ map push_id xs)
      (snd (push_run (snd (push_run st (delivered_at_once now x))) (concat (map (delivered_at_once now) xs))))"
    using Cons.prems by (intro Cons.IH) auto
  then show ?case by (simp add: push_run_append del: push_run.simps(2))
qed simp

text \<open>The one push more that fills the queue of the ledger.\<close>

lemma at_once_evicts:
  assumes "waiting_state cap d p ids st" "Suc (length ids) = cap" "push_id x \<notin> insert d (set ids)" "now < expiresAtMs (fst x)"
  shows "l_pending (pending (snd (push_run st (delivered_at_once now x)))) = Map.empty
    \<and> d_seen (delivered (snd (push_run st (delivered_at_once now x)))) = insert (push_id x) (set ids)"
proof -
  have evict: "evict_pending cap (d # ids) [d \<mapsto> p] = (ids, Map.empty)"
    using assms(2) by (simp add: evict_pending_none)
  show ?thesis
    using assms evict
    by (simp add: waiting_state_def delivered_at_once_def push_id_def push_dispatch_def push_result_step_def ledger_remember_def
        ledger_contains_def ledger_take_def delivered_contains_def delivered_remember_def evict_seen_none Let_def)
qed

section \<open>One message at a time\<close>

text \<open>The bus delivers a message only while none is outstanding.\<close>

fun one_at_a_time :: "push_dispatcher \<Rightarrow> push_event list \<Rightarrow> bool" where
  "one_at_a_time st [] = True"
| "one_at_a_time st (ev # evs) =
     ((is_delivery ev \<longrightarrow> dom (l_pending (pending st)) = {}) \<and> one_at_a_time (snd (push_step st ev)) evs)"

lemma evict_pending_empty: "snd (evict_pending cap ds Map.empty) = Map.empty"
  by (induction ds) auto

lemma push_step_keeps:
  assumes "is_delivery ev \<longrightarrow> dom (l_pending (pending st)) = {}"
  shows "held st \<union> set (arrived ev) \<subseteq> held (snd (push_step st ev)) \<union> set (settled_of (fst (push_step st ev)))"
proof (cases ev)
  case (Delivery now sent del s)
  then have none: "l_pending (pending st) = Map.empty" using assms by simp
  have "l_pending (ledger_remember (pending st) d p) = [d \<mapsto> p]" for d p
    using evict_pending_empty [of "l_capacity (pending st)" "l_order (pending st)"] none
    by (simp add: ledger_remember_def ledger_contains_def split_def)
  then show ?thesis
    using none by (auto simp: Delivery push_dispatch_def Let_def held_def ledger_contains_def)
next
  case (Result published x)
  show ?thesis
    by (cases "l_pending (pending st) (r_deliveryId x)")
      (auto simp: Result push_result_step_def ledger_take_def Let_def held_def, (metis option.inject)+)
qed

lemma push_run_keeps:
  "one_at_a_time st evs \<Longrightarrow>
   held st \<union> set (concat (map arrived evs)) \<subseteq> held (snd (push_run st evs)) \<union> set (settled_of (fst (push_run st evs)))"
proof (induction evs arbitrary: st)
  case (Cons ev evs)
  then have "held st \<union> set (arrived ev) \<subseteq> held (snd (push_step st ev)) \<union> set (settled_of (fst (push_step st ev)))"
    by (intro push_step_keeps) simp
  moreover have "held (snd (push_step st ev)) \<union> set (concat (map arrived evs))
      \<subseteq> held (snd (push_run (snd (push_step st ev)) evs)) \<union> set (settled_of (fst (push_run (snd (push_step st ev)) evs)))"
    using Cons by simp
  ultimately show ?case unfolding push_run_Cons by fastforce
qed simp

section \<open>Reading deliveries\<close>

lemma deliveryFromJson_ok:
  assumes "deliveryFromJson api text = Some (Some del)"
  shows "wellFormed (envelope del) \<and> 0 \<le> expiresAtMs del"
  using assms
  by (auto simp: deliveryFromJson_def expiresAtField_def Let_def split: if_splits option.splits bind_splits)

lemma attempts_kept:
  "d \<in> dom (attempts st) \<Longrightarrow> list_all (\<lambda>ev. case ev of Result published r \<Rightarrow> r_deliveryId r \<noteq> d | _ \<Rightarrow> True) evs \<Longrightarrow>
   d \<in> dom (attempts (snd (push_run st evs)))"
proof (induction evs arbitrary: st)
  case (Cons ev evs)
  have "d \<in> dom (attempts (snd (push_step st ev)))"
    using Cons.prems
    by (cases ev) (auto simp: push_dispatch_def push_result_step_def Let_def split_def split: option.split)
  then show ?case using Cons by (simp add: push_run_Cons del: push_run.simps(2))
qed simp

lemma link_down_attempts:
  assumes "list_all (\<lambda>x. now < expiresAtMs (fst x)) xs" "d_seen (delivered st) = {}" "l_pending (pending st) = Map.empty"
  shows "dom (attempts (snd (push_run st (map (\<lambda>x. Delivery now False (fst x) (snd x)) xs)))) = dom (attempts st) \<union> set (map push_id xs)"
  using assms
proof (induction xs arbitrary: st)
  case (Cons x xs)
  let ?st = "snd (push_step st (Delivery now False (fst x) (snd x)))"
  have st: "?st = st\<lparr>attempts := (attempts st)(push_id x \<mapsto> attempt_count st (push_id x) + 1)\<rparr>"
    using Cons.prems by (simp add: push_dispatch_def Let_def push_id_def delivered_contains_def ledger_contains_def)
  then have "d_seen (delivered ?st) = {}" "l_pending (pending ?st) = Map.empty" using Cons.prems by simp_all
  moreover have "dom (attempts ?st) = insert (push_id x) (dom (attempts st))" unfolding st by simp
  ultimately show ?case using Cons.IH [of ?st] Cons.prems(1) by (simp add: push_run_Cons del: push_run.simps(2) push_step.simps)
qed simp

text \<open>A delivery for the examples.\<close>

definition sample_push :: "bytes \<Rightarrow> durable_delivery" where
  "sample_push d = \<lparr>envelope = \<lparr>deliveryId = d, provider = Fcm, kind = Alert, priority = HighPriority, ttlSeconds = 60, collapseId = [],
     token = [1], enc = replicate 32 0, ciphertext = replicate 64 0\<rparr>, expiresAtMs = 100\<rparr>"

lemma sample_push_simps [simp]: "expiresAtMs (sample_push d) = 100" "deliveryId (envelope (sample_push d)) = d"
  by (simp_all add: sample_push_def)

section \<open>Properties\<close>

text \<open>Every message is settled at most once: whatever deliveries and results arrive, no message of the bus is acknowledged
  or refused twice, and none that did not arrive.\<close>

theorem push_settled_once:
  assumes "distinct (concat (map arrived evs))"
  shows "distinct (settled_of (fst (push_run (new_dispatcher cap) evs)))
    \<and> set (settled_of (fst (push_run (new_dispatcher cap) evs))) \<subseteq> set (concat (map arrived evs))"
proof -
  have "held_once (new_dispatcher cap)" "held (new_dispatcher cap) = {}"
    by (simp_all add: held_once_def held_def new_dispatcher_def)
  then show ?thesis using push_run_settles [of "new_dispatcher cap" evs] assms by simp
qed

theorem push_settled_once_witness:
  "distinct (settled_of (fst (push_run (new_dispatcher 2)
     [Delivery 0 True (sample_push [1]) 10, Delivery 0 False (sample_push [2]) 11, Result True \<lparr>r_deliveryId = [1], outcome = Delivered\<rparr>,
      Delivery 0 True (sample_push [1]) 12])))"
  using push_settled_once [of "[Delivery 0 True (sample_push [1]) 10, Delivery 0 False (sample_push [2]) 11,
      Result True \<lparr>r_deliveryId = [1], outcome = Delivered\<rparr>, Delivery 0 True (sample_push [1]) 12]" 2]
  by simp

text \<open>No push is sent twice while the ledger has room: among as many deliveries as the ledger holds, redeliveries
  included, a push goes out at most once, as long as every result for it is published.\<close>

theorem push_sent_once:
  assumes "length (filter is_delivery evs) \<le> cap" "list_all (never_unpublished d) evs"
  shows "sends_of d (fst (push_run (new_dispatcher cap) evs)) \<le> 1"
  using sends_once [OF new_roomy [OF assms(1)] assms(2)] by (auto split: if_splits)

theorem push_sent_once_witness:
  "sends_of [1] (fst (push_run (new_dispatcher 3)
     [Delivery 0 True (sample_push [1]) 10, Delivery 0 True (sample_push [1]) 11, Result True \<lparr>r_deliveryId = [1], outcome = Delivered\<rparr>,
      Delivery 0 True (sample_push [1]) 12])) \<le> 1"
  by (rule push_sent_once) simp_all

text \<open>Nothing is lost: while the bus delivers one message at a time, every message that arrived is settled or still waits
  for its result in the ledger.\<close>

theorem push_nothing_lost:
  assumes "one_at_a_time (new_dispatcher cap) evs"
  shows "set (concat (map arrived evs)) \<subseteq> held (snd (push_run (new_dispatcher cap) evs)) \<union> set (settled_of (fst (push_run (new_dispatcher cap) evs)))"
  using push_run_keeps [OF assms] by blast

theorem push_nothing_lost_witness:
  "{10, 11} \<subseteq> held (snd (push_run (new_dispatcher 1) [Delivery 0 True (sample_push [1]) 10,
       Result True \<lparr>r_deliveryId = [1], outcome = Delivered\<rparr>, Delivery 0 True (sample_push [2]) 11]))
     \<union> set (settled_of (fst (push_run (new_dispatcher 1) [Delivery 0 True (sample_push [1]) 10,
       Result True \<lparr>r_deliveryId = [1], outcome = Delivered\<rparr>, Delivery 0 True (sample_push [2]) 11])))"
proof -
  let ?evs = "[Delivery 0 True (sample_push [1]) 10, Result True \<lparr>r_deliveryId = [1], outcome = Delivered\<rparr>, Delivery 0 True (sample_push [2]) 11]"
  have "one_at_a_time (new_dispatcher 1) ?evs"
    by (simp add: push_dispatch_def push_result_step_def new_dispatcher_def ledger_remember_def ledger_contains_def ledger_take_def
        delivered_contains_def Let_def)
  then have "set (concat (map arrived ?evs)) \<subseteq> held (snd (push_run (new_dispatcher 1) ?evs)) \<union> set (settled_of (fst (push_run (new_dispatcher 1) ?evs)))"
    by (rule push_nothing_lost)
  then show ?thesis by (simp del: push_run.simps)
qed

text \<open>Why the bus must deliver one push at a time, as the consumer asks it to (\<open>kOrderedMaxAckPending\<close>): with several
  outstanding, a push that waits for its result would be forgotten by the traffic around it. The queue of the ledger keeps the ids of
  settled pushes, so after as many other pushes as the ledger holds, each delivered at once, the one push that waits is
  no longer known although the ledger is otherwise empty, and its redelivery is sent a second time.\<close>

theorem waiting_push_sent_twice:
  assumes "0 < cap" "length xs = cap" "distinct (deliveryId (envelope del) # map push_id xs)" "now < expiresAtMs del"
    "list_all (\<lambda>x. now < expiresAtMs (fst x)) xs"
  shows "l_pending (pending (snd (push_run (new_dispatcher cap) (Delivery now True del s # concat (map (delivered_at_once now) xs))))) = Map.empty
    \<and> sends_of (deliveryId (envelope del)) (fst (push_run (new_dispatcher cap)
        (Delivery now True del s # concat (map (delivered_at_once now) xs) @ [Delivery now True del s']))) = 2"
proof -
  let ?d = "deliveryId (envelope del)" and ?p = "\<lparr>p_token = token (envelope del), p_settlement = s\<rparr>"
  let ?first = "push_step (new_dispatcher cap) (Delivery now True del s)"
  obtain ys y where xs: "xs = ys @ [y]" using assms(1,2) by (cases xs rule: rev_cases) auto
  have start: "waiting_state cap ?d ?p [] (snd ?first)" "fst ?first = [SendPush (envelope del) True]"
    using assms(4) by (simp_all add: waiting_state_def new_dispatcher_def push_dispatch_def ledger_remember_def ledger_contains_def
        delivered_contains_def Let_def)
  let ?ys = "push_run (snd ?first) (concat (map (delivered_at_once now) ys))"
  have mid: "waiting_state cap ?d ?p (map push_id ys) (snd ?ys)"
    using at_once_run [OF start(1), of ys now] assms xs by simp
  let ?last = "push_run (snd ?ys) (delivered_at_once now y)"
  have gone: "l_pending (pending (snd ?last)) = Map.empty" "d_seen (delivered (snd ?last)) = insert (push_id y) (set (map push_id ys))"
    using at_once_evicts [OF mid, of y now] assms xs by auto
  have run: "snd (push_run (new_dispatcher cap) (Delivery now True del s # concat (map (delivered_at_once now) xs))) = snd ?last"
    by (simp add: push_run_Cons push_run_append xs del: push_run.simps(2) push_step.simps)
  have others: "sends_of ?d (fst (push_run st (delivered_at_once now x))) = 0" if "push_id x \<noteq> ?d" for st x
    using that by (auto simp: delivered_at_once_def push_id_def push_dispatch_def push_result_step_def Let_def split_def split: option.split)
  have "sends_of ?d (fst (push_run st (concat (map (delivered_at_once now) zs)))) = 0" if "?d \<notin> set (map push_id zs)" for st zs
    using that
  proof (induction zs arbitrary: st)
    case (Cons z zs)
    moreover from this have "push_id z \<noteq> ?d" by auto
    ultimately show ?case using others [of z st] by (simp add: push_run_append del: push_run.simps(2))
  qed simp
  then have zero: "sends_of ?d (fst (push_run (snd ?first) (concat (map (delivered_at_once now) xs)))) = 0"
    using assms(3) by simp
  have again: "fst (push_step (snd ?last) (Delivery now True del s')) = [SendPush (envelope del) True]"
    using gone assms(3,4) xs by (auto simp: push_dispatch_def Let_def delivered_contains_def ledger_contains_def)
  have "snd (push_run (snd ?first) (concat (map (delivered_at_once now) xs))) = snd ?last"
    by (simp add: push_run_append xs del: push_run.simps(2) push_step.simps)
  then have "fst (push_run (new_dispatcher cap) (Delivery now True del s # concat (map (delivered_at_once now) xs) @ [Delivery now True del s']))
      = fst ?first @ fst (push_run (snd ?first) (concat (map (delivered_at_once now) xs))) @ [SendPush (envelope del) True]"
    using again by (simp add: push_run_Cons push_run_append del: push_run.simps(2) push_step.simps)
  then show ?thesis using run gone(1) zero start(2) by simp
qed

theorem waiting_push_sent_twice_witness:
  "sends_of [0] (fst (push_run (new_dispatcher 2)
     (Delivery 0 True (sample_push [0]) 0
       # concat (map (delivered_at_once 0) [(sample_push [1], 1), (sample_push [2], 2)]) @ [Delivery 0 True (sample_push [0]) 3]))) = 2"
  using waiting_push_sent_twice [of 2 "[(sample_push [1], 1), (sample_push [2], 2)]" "sample_push [0]" 0 0 3]
  by (simp add: push_id_def del: push_run.simps push_step.simps)

text \<open>Both memories stay bounded: whatever arrives, the ledger and the memory of delivered pushes hold at most their
  capacity, every pending push has its place in the queue, and the delivered ones are those of theirs.\<close>

theorem push_memory_bounded:
  assumes "0 < cap"
  shows "card (dom (l_pending (pending (snd (push_run (new_dispatcher cap) evs))))) \<le> cap
    \<and> card (d_seen (delivered (snd (push_run (new_dispatcher cap) evs)))) \<le> cap"
proof -
  let ?st = "snd (push_run (new_dispatcher cap) evs)"
  have b: "push_bounded cap ?st" by (rule push_run_bounded [OF assms new_bounded])
  have "card (dom (l_pending (pending ?st))) \<le> card (set (l_order (pending ?st)))"
    using b by (intro card_mono) (auto simp: push_bounded_def)
  also have "\<dots> \<le> cap" using b card_length [of "l_order (pending ?st)"] by (simp add: push_bounded_def)
  finally show ?thesis using b card_length [of "d_order (delivered ?st)"] by (simp add: push_bounded_def)
qed

theorem push_memory_bounded_witness:
  "card (d_seen (delivered (snd (push_run (new_dispatcher 1) (concat (map (delivered_at_once 0) [(sample_push [1], 1), (sample_push [2], 2)])))))) \<le> 1"
  using push_memory_bounded [of 1] by simp

text \<open>The count of attempts is not bounded: of pushes that find the link down and never get a result, every one keeps its
  entry, whatever else arrives.\<close>

theorem attempts_never_forgotten:
  assumes "list_all (\<lambda>x. now < expiresAtMs (fst x)) xs"
    "list_all (\<lambda>ev. case ev of Result published r \<Rightarrow> r_deliveryId r \<notin> set (map push_id xs) | _ \<Rightarrow> True) evs"
  shows "set (map push_id xs) \<subseteq> dom (attempts (snd (push_run (new_dispatcher cap) (map (\<lambda>x. Delivery now False (fst x) (snd x)) xs @ evs))))"
proof
  fix d assume d: "d \<in> set (map push_id xs)"
  let ?st = "snd (push_run (new_dispatcher cap) (map (\<lambda>x. Delivery now False (fst x) (snd x)) xs))"
  have "d \<in> dom (attempts ?st)" using link_down_attempts [OF assms(1), of "new_dispatcher cap"] d by (simp add: new_dispatcher_def)
  moreover have "list_all (\<lambda>ev. case ev of Result published r \<Rightarrow> r_deliveryId r \<noteq> d | _ \<Rightarrow> True) evs"
    using assms(2) d by (auto simp: list_all_iff split: push_event.splits)
  ultimately show "d \<in> dom (attempts (snd (push_run (new_dispatcher cap) (map (\<lambda>x. Delivery now False (fst x) (snd x)) xs @ evs))))"
    by (simp add: push_run_append attempts_kept)
qed

theorem attempts_never_forgotten_witness:
  "set (map push_id [(sample_push [1], 1), (sample_push [2], 2)]) \<subseteq> dom (attempts (snd (push_run (new_dispatcher 1)
     (map (\<lambda>x. Delivery 0 False (fst x) (snd x)) [(sample_push [1], 1), (sample_push [2], 2)] @ [Delivery 200 True (sample_push [1]) 3]))))"
  by (rule attempts_never_forgotten) simp_all

text \<open>What the bridge sends can be read: every envelope it sends is well formed and not past its end, and the push service
  parses its payload back to the same envelope; a message that is no well-formed delivery is dropped for good.\<close>

theorem bridge_sends_readable:
  assumes "onDelivery api text s now sent st = Some (effects, st')" "SendPush e b \<in> set effects"
  shows "\<exists>p. sealedPayload e = Some p \<and> parseSealedPayload p = Some e"
proof -
  obtain del where del: "deliveryFromJson api text = Some (Some del)" "e = envelope del"
    using assms by (auto simp: onDelivery_def push_dispatch_def Let_def split_def split: option.splits if_splits)
  have "wellFormed e" using deliveryFromJson_ok [OF del(1)] del(2) by simp
  then obtain p where "sealedPayload e = Some p" by (auto simp: sealedPayload_def Let_def)
  then show ?thesis using parse_sealedPayload by blast
qed

text \<open>An instance of the JSON library for the example: a document is the list of its fields.\<close>

definition sample_json :: "(string \<times> string) list push_json" where
  "sample_json = \<lparr>fromString = \<lambda>_. [(''provider'', ''fcm''), (''kind'', ''alert''), (''priority'', ''high''), (''deliveryId'', base64_encode (replicate 16 7)),
       (''token'', ''t''), (''collapseId'', []), (''enc'', base64_encode (replicate 32 0)), (''ciphertext'', base64_encode (replicate 48 0))],
     isObject = \<lambda>_. True, isMember = \<lambda>j k. True, isString = \<lambda>j k. True,
     asString = \<lambda>j k. (case map_of j k of Some v \<Rightarrow> v | None \<Rightarrow> []), isIntegral = \<lambda>j k. True, asInt64 = \<lambda>j k. Some 60\<rparr>"

theorem bridge_sends_readable_witness:
  "\<exists>e p. onDelivery sample_json [] 1 0 True (new_dispatcher 1) \<noteq> None \<and> sealedPayload e = Some p \<and> parseSealedPayload p = Some e"
proof -
  have "case deliveryFromJson sample_json [] of Some (Some del) \<Rightarrow> expiresAtMs del = 60 | _ \<Rightarrow> False" by code_simp
  then obtain del where del: "deliveryFromJson sample_json [] = Some (Some del)" "expiresAtMs del = 60" by (auto split: option.splits)
  then obtain st where run: "onDelivery sample_json [] 1 0 True (new_dispatcher 1) = Some ([SendPush (envelope del) True], st)"
    by (simp add: onDelivery_def push_dispatch_def new_dispatcher_def delivered_contains_def ledger_contains_def Let_def)
  then have "\<exists>p. sealedPayload (envelope del) = Some p \<and> parseSealedPayload p = Some (envelope del)"
    by (rule bridge_sends_readable) simp
  then show ?thesis using run by auto
qed

lemma edges_alternate:
  "filter (\<lambda>e. e \<noteq> NoEdge) (observe_all ready as)
     = map (\<lambda>i. if even i = ready then LostEdge else ReadyEdge) [0..<length (filter (\<lambda>e. e \<noteq> NoEdge) (observe_all ready as))]"
proof (induction as arbitrary: ready)
  case (Cons a as)
  have "map f [0..<Suc n] = f 0 # map (\<lambda>i. f (Suc i)) [0..<n]" for f :: "nat \<Rightarrow> consumer_edge" and n
    by (simp add: upt_conv_Cons map_Suc_upt [symmetric] comp_def del: upt_Suc)
  then show ?case
    using Cons.IH [of True] Cons.IH [of False] by (cases ready; cases a) (simp_all add: observe_def del: upt_Suc)
qed simp

end
