(* ===== verification/Call_Policy.thy ===== *)
theory Call_Policy
  imports Decimal "HOL-Library.AList"
begin

text \<open>
  Whether somebody is called, told later or left alone, \<open>services/notification/src/feature/call/\<close>: the
  vocabulary of a call (\<open>vocabulary/call-trigger.hxx\<close>, \<open>call-mode.hxx\<close>, \<open>call-state.hxx\<close>), the preferences of a
  user (\<open>schemas/call-preference\<close>), the decision (\<open>services/call-policy.cc\<close>), the candidate that a notification
  makes (\<open>services/call-trigger-classifier.cc\<close>) and the identifier of a call (\<open>schemas/call\<close>). A JSON document
  is a value of \<open>json\<close>: integral numbers are those that fit into an \<open>int64_t\<close>, on which \<open>asInt64\<close> is defined; a number that
  is not integral is known by its integer part, which is all that \<open>asInt\<close> reads of it.
\<close>

section \<open>Vocabulary\<close>

datatype call_state = Ringing | Queued | Answered | Completed | Missed | Declined | Injected
datatype call_trigger = GuardCritical | GuardIntruder | GuardEscalation | GuardArrival | AgendaTrigger | AssistantTrigger
datatype call_mode = CallByVoice | CallNotify | CallOff
datatype call_decision = DecideRing | DecideFollowup | DecideNotify | DecideDrop | DecideSupersede

definition callStateToString :: "call_state \<Rightarrow> string" where
  "callStateToString s =
     (case s of Ringing \<Rightarrow> ''ringing'' | Queued \<Rightarrow> ''queued'' | Answered \<Rightarrow> ''answered'' | Completed \<Rightarrow> ''completed''
      | Missed \<Rightarrow> ''missed'' | Declined \<Rightarrow> ''declined'' | Injected \<Rightarrow> ''injected'')"

definition callStateFromString :: "string \<Rightarrow> call_state option" where
  "callStateFromString v =
     (if v = ''ringing'' then Some Ringing else if v = ''queued'' then Some Queued
      else if v = ''answered'' then Some Answered else if v = ''completed'' then Some Completed
      else if v = ''missed'' then Some Missed else if v = ''declined'' then Some Declined
      else if v = ''injected'' then Some Injected else None)"

definition callTriggerToString :: "call_trigger \<Rightarrow> string" where
  "callTriggerToString t =
     (case t of GuardCritical \<Rightarrow> ''guard_critical'' | GuardIntruder \<Rightarrow> ''guard_intruder''
      | GuardEscalation \<Rightarrow> ''guard_escalation'' | GuardArrival \<Rightarrow> ''guard_arrival''
      | AgendaTrigger \<Rightarrow> ''agenda'' | AssistantTrigger \<Rightarrow> ''assistant'')"

definition kCallTriggers :: "call_trigger list" where
  "kCallTriggers = [GuardCritical, GuardIntruder, GuardEscalation, GuardArrival, AgendaTrigger, AssistantTrigger]"

definition callTriggerFromString :: "string \<Rightarrow> call_trigger option" where
  "callTriggerFromString v = find (\<lambda>t. callTriggerToString t = v) kCallTriggers"

definition isGuardTrigger :: "call_trigger \<Rightarrow> bool" where
  "isGuardTrigger t \<longleftrightarrow> t = GuardCritical \<or> t = GuardIntruder \<or> t = GuardEscalation \<or> t = GuardArrival"

definition callKindOf :: "call_trigger \<Rightarrow> string" where
  "callKindOf t =
     (case t of GuardCritical \<Rightarrow> ''guard_episode'' | GuardIntruder \<Rightarrow> ''guard_episode'' | GuardEscalation \<Rightarrow> ''guard_episode''
      | GuardArrival \<Rightarrow> ''guard_arrival'' | AgendaTrigger \<Rightarrow> ''agenda'' | AssistantTrigger \<Rightarrow> ''assistant'')"

definition callModeToString :: "call_mode \<Rightarrow> string" where
  "callModeToString m = (case m of CallByVoice \<Rightarrow> ''call'' | CallNotify \<Rightarrow> ''notify'' | CallOff \<Rightarrow> ''off'')"

definition callModeFromString :: "string \<Rightarrow> call_mode option" where
  "callModeFromString v =
     (if v = ''call'' then Some CallByVoice else if v = ''notify'' then Some CallNotify
      else if v = ''off'' then Some CallOff else None)"

definition callDecisionToString :: "call_decision \<Rightarrow> string" where
  "callDecisionToString d =
     (case d of DecideRing \<Rightarrow> ''ring'' | DecideFollowup \<Rightarrow> ''followup'' | DecideNotify \<Rightarrow> ''notify''
      | DecideDrop \<Rightarrow> ''drop'' | DecideSupersede \<Rightarrow> ''supersede'')"

section \<open>Preferences of a user\<close>

record call_preference =
  cp_userId :: int
  cp_enabled :: bool
  cp_guardCritical :: call_mode
  cp_guardIntruder :: call_mode
  cp_guardEscalation :: call_mode
  cp_guardArrival :: call_mode
  cp_agenda :: call_mode
  cp_assistant :: call_mode
  cp_quietStartHour :: int
  cp_quietEndHour :: int
  cp_dndUntil :: int
  cp_criticalBypass :: bool
  cp_mutedEnvironmentIds :: "int list"
  cp_updatedAt :: int
  cp_agendaLeadMinutes :: int
  cp_quietDays :: int
  cp_ringSeconds :: int
  cp_pushDelaySeconds :: int
  cp_liveAnnounce :: bool
  cp_lang :: string

definition defaultsFor :: "int \<Rightarrow> call_preference" where
  "defaultsFor userId =
     \<lparr>cp_userId = userId, cp_enabled = True, cp_guardCritical = CallByVoice, cp_guardIntruder = CallByVoice,
      cp_guardEscalation = CallByVoice, cp_guardArrival = CallOff, cp_agenda = CallByVoice, cp_assistant = CallByVoice,
      cp_quietStartHour = - 1, cp_quietEndHour = - 1, cp_dndUntil = 0, cp_criticalBypass = True,
      cp_mutedEnvironmentIds = [], cp_updatedAt = 0, cp_agendaLeadMinutes = 10, cp_quietDays = 127,
      cp_ringSeconds = 45, cp_pushDelaySeconds = 4, cp_liveAnnounce = True, cp_lang = []\<rparr>"

definition modeFor :: "call_preference \<Rightarrow> call_trigger \<Rightarrow> call_mode" where
  "modeFor p t =
     (case t of GuardCritical \<Rightarrow> cp_guardCritical p | GuardIntruder \<Rightarrow> cp_guardIntruder p
      | GuardEscalation \<Rightarrow> cp_guardEscalation p | GuardArrival \<Rightarrow> cp_guardArrival p
      | AgendaTrigger \<Rightarrow> cp_agenda p | AssistantTrigger \<Rightarrow> cp_assistant p)"

definition mutes :: "call_preference \<Rightarrow> int \<Rightarrow> bool" where
  "mutes p environmentId \<longleftrightarrow> environmentId > 0 \<and> environmentId \<in> set (cp_mutedEnvironmentIds p)"

definition kMinRingSeconds :: int where "kMinRingSeconds = 20"
definition kMaxRingSeconds :: int where "kMaxRingSeconds = 90"
definition kMaxPushDelaySeconds :: int where "kMaxPushDelaySeconds = 30"

definition call_clamp :: "int \<Rightarrow> int \<Rightarrow> int \<Rightarrow> int" where
  "call_clamp v lo hi = (if v < lo then lo else if hi < v then hi else v)"

definition ringSecondsClamped :: "call_preference \<Rightarrow> int" where
  "ringSecondsClamped p = call_clamp (cp_ringSeconds p) kMinRingSeconds kMaxRingSeconds"

definition pushDelayClamped :: "call_preference \<Rightarrow> int" where
  "pushDelayClamped p = call_clamp (cp_pushDelaySeconds p) 0 kMaxPushDelaySeconds"

section \<open>The decision\<close>

record call_quiet_window =
  qw_hour :: int
  qw_weekday :: int
  qw_startHour :: int
  qw_endHour :: int
  qw_days :: int

text \<open>The days are the bits of an \<open>unsigned\<close>; \<open>weekday\<close> is the \<open>tm_wday\<close> of a local time, 0 to 6.\<close>

definition call_inQuietHours :: "call_quiet_window \<Rightarrow> bool" where
  "call_inQuietHours i =
     (let start = qw_startHour i; end_hour = qw_endHour i
      in if start < 0 \<or> end_hour < 0 \<or> start > 23 \<or> end_hour > 23 \<or> start = end_hour then False
         else let (inside, windowDay) =
                (if start < end_hour then (qw_hour i \<ge> start \<and> qw_hour i < end_hour, qw_weekday i)
                 else if qw_hour i \<ge> start then (True, qw_weekday i)
                 else if qw_hour i < end_hour then (True, (qw_weekday i + 6) mod 7)
                 else (False, qw_weekday i))
              in inside \<and> drop_bit (nat windowDay) (word_of_int (qw_days i) :: u32) AND 1 \<noteq> 0)"

record call_limits =
  cl_enabled :: bool
  cl_callGapS :: int
  cl_maxCallsPerHour :: int

record call_policy_input =
  pi_trigger :: call_trigger
  pi_critical :: bool
  pi_preference :: call_preference
  pi_localHour :: int
  pi_localWeekday :: int
  pi_now :: int
  pi_environmentId :: int
  pi_alreadyCalled :: bool
  pi_ringing :: bool
  pi_lastCallAt :: int
  pi_callsLastHour :: int
  pi_limits :: call_limits
  pi_planNotify :: bool
  pi_mandatory :: bool

record call_verdict =
  cv_decision :: call_decision
  cv_reason :: string
  cv_injectable :: bool

definition call_limited :: "call_policy_input \<Rightarrow> string \<Rightarrow> call_verdict" where
  "call_limited i ringReason =
     (let live = cp_liveAnnounce (pi_preference i)
      in if pi_ringing i \<and> pi_critical i
         then \<lparr>cv_decision = DecideSupersede, cv_reason = ringReason, cv_injectable = False\<rparr>
         else if pi_ringing i
         then \<lparr>cv_decision = DecideFollowup, cv_reason = ''ringing'', cv_injectable = live\<rparr>
         else if \<not> pi_critical i \<and> pi_lastCallAt i > 0 \<and> pi_now i - pi_lastCallAt i < cl_callGapS (pi_limits i)
         then \<lparr>cv_decision = DecideNotify, cv_reason = ''cooldown'', cv_injectable = live\<rparr>
         else if \<not> pi_critical i \<and> pi_callsLastHour i \<ge> cl_maxCallsPerHour (pi_limits i)
         then \<lparr>cv_decision = DecideNotify, cv_reason = ''hourly_cap'', cv_injectable = live\<rparr>
         else \<lparr>cv_decision = DecideRing, cv_reason = ringReason, cv_injectable = live\<rparr>)"

definition call_decide :: "call_policy_input \<Rightarrow> call_verdict" where
  "call_decide i =
     (let preference = pi_preference i;
          fixed = (\<lambda>d r. \<lparr>cv_decision = d, cv_reason = r, cv_injectable = False\<rparr>);
          mode = modeFor preference (pi_trigger i);
          bypass = (pi_critical i \<and> cp_criticalBypass preference)
      in if pi_alreadyCalled i then fixed DecideDrop ''already_called''
         else if pi_mandatory i
         then (if \<not> cl_enabled (pi_limits i) then fixed DecideNotify ''calls_disabled'' else call_limited i ''on_duty'')
         else if mode = CallOff then fixed DecideDrop ''trigger_off''
         else if mode = CallNotify then fixed DecideNotify ''trigger_notify''
         else if pi_planNotify i then fixed DecideNotify ''plan_notify''
         else if \<not> cl_enabled (pi_limits i) then fixed DecideNotify ''calls_disabled''
         else if \<not> cp_enabled preference then fixed DecideNotify ''calls_off''
         else if isGuardTrigger (pi_trigger i) \<and> mutes preference (pi_environmentId i)
         then fixed DecideNotify ''environment_muted''
         else if cp_dndUntil preference > pi_now i \<and> \<not> bypass
         then \<lparr>cv_decision = DecideNotify, cv_reason = ''do_not_disturb'', cv_injectable = cp_liveAnnounce preference\<rparr>
         else if call_inQuietHours \<lparr>qw_hour = pi_localHour i, qw_weekday = pi_localWeekday i,
                  qw_startHour = cp_quietStartHour preference, qw_endHour = cp_quietEndHour preference,
                  qw_days = cp_quietDays preference\<rparr> \<and> \<not> bypass
         then \<lparr>cv_decision = DecideNotify, cv_reason = ''quiet_hours'', cv_injectable = cp_liveAnnounce preference\<rparr>
         else call_limited i ''ring'')"

section \<open>What a notification asks for\<close>

datatype json =
  JNull | JBool bool | JInt int | JReal int | JText string | JArray "json list" | JObject "(string \<times> json) list"

definition json_field :: "json \<Rightarrow> string \<Rightarrow> json" where
  "json_field d key = (case d of JObject ms \<Rightarrow> (case map_of ms key of Some v \<Rightarrow> v | None \<Rightarrow> JNull) | _ \<Rightarrow> JNull)"

definition json_set :: "json \<Rightarrow> string \<Rightarrow> json \<Rightarrow> json" where
  "json_set d key v = (case d of JObject ms \<Rightarrow> JObject (AList.update key v ms) | _ \<Rightarrow> JObject [(key, v)])"

definition json_text :: "json \<Rightarrow> string \<Rightarrow> string" where
  "json_text d key = (case json_field d key of JText s \<Rightarrow> s | _ \<Rightarrow> [])"

definition json_number :: "json \<Rightarrow> string \<Rightarrow> int" where
  "json_number d key = (case json_field d key of JInt i \<Rightarrow> i | _ \<Rightarrow> 0)"

definition json_isObject :: "json \<Rightarrow> bool" where
  "json_isObject d = (case d of JObject _ \<Rightarrow> True | _ \<Rightarrow> False)"

record call_candidate =
  cc_trigger :: call_trigger
  cc_critical :: bool
  cc_dedupeKey :: string
  cc_urgency :: string
  cc_environmentId :: int
  cc_lang :: string
  cc_data :: json

definition guardCandidate :: "json \<Rightarrow> call_candidate option" where
  "guardCandidate d =
     (let urgency = json_text d ''urgency''; critical = (urgency = ''critical'')
      in if \<not> critical \<and> urgency \<noteq> ''time_sensitive'' then None
         else let threadKey = json_text d ''threadKey''; episodeId = json_number d ''episodeId''
              in if threadKey = [] \<and> episodeId \<le> 0 then None
                 else Some \<lparr>cc_trigger = (if json_text d ''phase'' = ''escalated'' then GuardEscalation
                                        else if critical then GuardCritical else GuardIntruder),
                            cc_critical = critical,
                            cc_dedupeKey = (if threadKey = [] then ''guard:episode:'' @ to_string episodeId else threadKey),
                            cc_urgency = urgency, cc_environmentId = json_number d ''environmentId'',
                            cc_lang = json_text d ''lang'', cc_data = d\<rparr>)"

definition agendaCandidate :: "json \<Rightarrow> call_candidate option" where
  "agendaCandidate d =
     (let dedupeKey = json_text d ''threadKey''
      in if dedupeKey = [] then None
         else Some \<lparr>cc_trigger = AgendaTrigger, cc_critical = False, cc_dedupeKey = dedupeKey,
                    cc_urgency = ''time_sensitive'', cc_environmentId = 0, cc_lang = json_text d ''lang'', cc_data = d\<rparr>)"

definition fromNotification :: "json \<Rightarrow> call_candidate option" where
  "fromNotification d =
     (if \<not> json_isObject d then None
      else let kind = json_text d ''kind''
           in if kind = ''guard_episode'' then guardCandidate d
              else if (kind = ''guard_panic'' \<or> kind = ''guard_duress'' \<or> kind = ''guard_tamper'')
                   \<and> json_text d ''urgency'' = ''critical'' then guardCandidate d
              else if kind = ''agenda_event'' \<or> kind = ''agenda_reminder'' then agendaCandidate d
              else None)"

section \<open>The identifier of a call\<close>

definition from_chars64 :: "string \<Rightarrow> (int \<times> string) option" where
  "from_chars64 s =
     (let negative = (s \<noteq> [] \<and> hd s = CHR ''-'');
          body = (if negative then tl s else s);
          ds = takeWhile is_cdigit body;
          n = (if negative then - digits_value ds else digits_value ds)
      in if ds = [] then None
         else if n < - 9223372036854775808 \<or> n > 9223372036854775807 then None
         else Some (n, dropWhile is_cdigit body))"

definition format_call_id :: "int \<Rightarrow> string" where
  "format_call_id i = ''call-'' @ to_string i"

definition parse_call_id :: "string \<Rightarrow> int" where
  "parse_call_id s =
     (if length s \<le> 5 \<or> length s > 5 + 19 \<or> take 5 s \<noteq> ''call-'' then 0
      else case from_chars64 (drop 5 s) of
             None \<Rightarrow> 0
           | Some (i, rest) \<Rightarrow> if rest \<noteq> [] \<or> i \<le> 0 then 0 else i)"


section \<open>Reading and writing the vocabulary\<close>

lemma call_vocabulary_roundtrip:
  "callStateFromString (callStateToString s) = Some s"
  "callTriggerFromString (callTriggerToString t) = Some t"
  "callModeFromString (callModeToString m) = Some m"
proof -
  show "callStateFromString (callStateToString s) = Some s"
    by (cases s) (simp_all add: callStateFromString_def callStateToString_def)
  show "callTriggerFromString (callTriggerToString t) = Some t"
    by (cases t) (simp_all add: callTriggerFromString_def callTriggerToString_def kCallTriggers_def)
  show "callModeFromString (callModeToString m) = Some m"
    by (cases m) (simp_all add: callModeFromString_def callModeToString_def)
qed

lemma from_chars64_to_string:
  assumes "0 < i" "i \<le> 9223372036854775807"
  shows "from_chars64 (to_string i) = Some (i, [])"
proof -
  have all: "takeWhile is_cdigit (decimal n) = decimal n" "dropWhile is_cdigit (decimal n) = []" for n
    by (auto intro: is_cdigit_decimal)
  have "hd (decimal n) \<noteq> CHR ''-''" for n
    using no_minus_decimal [of n] hd_in_set [OF decimal_nonempty [of n]] by metis
  then show ?thesis
    using assms by (simp add: from_chars64_def to_string_def Let_def all digits_value_decimal)
qed

lemma decimal_size: "n < 10 ^ Suc k \<Longrightarrow> length (decimal n) \<le> Suc k"
proof (induction k arbitrary: n)
  case 0
  then show ?case by (simp add: decimal.simps [of n])
next
  case (Suc k)
  show ?case
  proof (cases "n < 10")
    case True
    then show ?thesis by (simp add: decimal.simps [of n])
  next
    case False
    have "n div 10 < 10 ^ Suc k" using Suc.prems by (simp add: less_mult_imp_div_less mult.commute)
    from Suc.IH [OF this] False show ?thesis by (simp add: decimal.simps [of n])
  qed
qed

text \<open>Every identifier a row can have is read back from its text, and the text is never empty.\<close>

lemma call_id_roundtrip:
  assumes "0 < i" "i \<le> 9223372036854775807"
  shows "parse_call_id (format_call_id i) = i"
proof -
  have "nat i < 10 ^ Suc 18" using assms by (simp add: nat_less_iff)
  then have "length (to_string i) \<le> 19" "to_string i \<noteq> []"
    using decimal_size [of "nat i" 18] assms by (simp_all add: to_string_def)
  then show ?thesis
    using from_chars64_to_string [OF assms] assms by (simp add: parse_call_id_def format_call_id_def)
qed

lemma parse_call_id_nonneg: "0 \<le> parse_call_id s"
  by (simp add: parse_call_id_def split: option.split)

section \<open>Quiet hours are a set of hours of the week\<close>

text \<open>The hours of the week that a window covers: it starts on each of its days and runs past midnight when it ends before it starts.\<close>

definition window_hours :: "int \<Rightarrow> int \<Rightarrow> int" where
  "window_hours start end_hour = (if start < end_hour then end_hour - start else end_hour + 24 - start)"

definition quiet_week :: "int \<Rightarrow> int \<Rightarrow> int \<Rightarrow> int set" where
  "quiet_week start end_hour days =
     {x. \<exists>d k. 0 \<le> d \<and> d \<le> 6 \<and> bit (word_of_int days :: u32) (nat d) \<and>
        0 \<le> k \<and> k < window_hours start end_hour \<and> x = (24 * d + start + k) mod 168}"

lemma drop_bit_and_one: "drop_bit n (w :: u32) AND 1 \<noteq> 0 \<longleftrightarrow> bit w n"
  by (simp add: and_one_eq bit_iff_odd_drop_bit mod2_eq_if)

lemma day_and_hour_eq:
  fixes d w j h :: int
  assumes "24 * d + j = 24 * w + h" "0 \<le> j" "j < 47" "0 \<le> h" "h \<le> 23"
  shows "(d = w \<and> j = h) \<or> (d = w - 1 \<and> j = h + 24)"
proof -
  have "w - d = 0 \<or> w - d = 1" using assms by linarith
  then show ?thesis using assms by auto
qed

lemma week_hour_eq:
  fixes d k :: int
  assumes "0 \<le> d" "d \<le> 6" "0 \<le> w" "w \<le> 6" "0 \<le> h" "h \<le> 23" "0 \<le> s" "s \<le> 23" "0 \<le> k" "k < 24"
  shows "(24 * d + s + k) mod 168 = 24 * w + h \<longleftrightarrow> (d = w \<and> s + k = h) \<or> (d = (w + 6) mod 7 \<and> s + k = h + 24)"
proof -
  have before: "(w + 6) mod 7 = (if w = 0 then 6 else w - 1)" using assms(3,4) by presburger
  have j: "0 \<le> s + k" "s + k < 47" using assms by simp_all
  consider "24 * d + (s + k) < 168" | "168 \<le> 24 * d + (s + k)" "24 * d + (s + k) < 336" using assms by linarith
  then show ?thesis
  proof cases
    case 1
    then have "(24 * d + s + k) mod 168 = 24 * d + (s + k)" using assms by simp
    then show ?thesis
      using day_and_hour_eq [of d "s + k" w h] j assms 1 before by auto
  next
    case 2
    have "(24 * d + s + k) mod 168 = (24 * d + s + k - 168) mod 168" by simp
    also have "\<dots> = 24 * d + s + k - 168" using 2 by (intro mod_pos_pos_trivial) simp_all
    finally have m: "(24 * d + s + k) mod 168 = 24 * (d - 7) + (s + k)" by simp
    show ?thesis
      using day_and_hour_eq [of "d - 7" "s + k" w h] j assms 2 before unfolding m by auto
  qed
qed

lemma previous_weekday: "(0 :: int) \<le> (w + 6) mod 7" "(w + 6 :: int) mod 7 \<le> 6"
  by presburger+

lemma in_quiet_week:
  assumes "0 \<le> w" "w \<le> 6" "0 \<le> h" "h \<le> 23" "0 \<le> s" "s \<le> 23" "0 \<le> e" "e \<le> 23" "s \<noteq> e"
  shows "24 * w + h \<in> quiet_week s e days \<longleftrightarrow>
    (s \<le> h \<and> (h < e \<or> e < s) \<and> bit (word_of_int days :: u32) (nat w)) \<or>
    (e < s \<and> h < e \<and> bit (word_of_int days :: u32) (nat ((w + 6) mod 7)))"
    (is "?lhs \<longleftrightarrow> ?today \<or> ?before")
proof -
  let ?day = "\<lambda>d. 0 \<le> d \<and> d \<le> 6 \<and> bit (word_of_int days :: u32) (nat d)"
  let ?len = "if s < e then e - s else e + 24 - s"
  have "?lhs \<longleftrightarrow> (\<exists>d k. ?day d \<and> 0 \<le> k \<and> k < ?len \<and> (24 * d + s + k) mod 168 = 24 * w + h)"
    unfolding quiet_week_def window_hours_def mem_Collect_eq eq_commute [of "24 * w + h"] by blast
  also have "\<dots> \<longleftrightarrow> (\<exists>d k. ?day d \<and> 0 \<le> k \<and> k < ?len \<and> ((d = w \<and> s + k = h) \<or> (d = (w + 6) mod 7 \<and> s + k = h + 24)))"
  proof (intro arg_cong [where f = Ex] ext)
    fix d k
    show "(?day d \<and> 0 \<le> k \<and> k < ?len \<and> (24 * d + s + k) mod 168 = 24 * w + h) =
      (?day d \<and> 0 \<le> k \<and> k < ?len \<and> ((d = w \<and> s + k = h) \<or> (d = (w + 6) mod 7 \<and> s + k = h + 24)))"
      using week_hour_eq [of d w h s k] assms by (cases "?day d \<and> 0 \<le> k \<and> k < ?len") (auto split: if_splits)
  qed
  also have "\<dots> \<longleftrightarrow> ?today \<or> ?before"
  proof -
    have "(\<exists>k. 0 \<le> k \<and> k < ?len \<and> s + k = h) \<longleftrightarrow> s \<le> h \<and> (h < e \<or> e < s)"
      using assms by (auto intro!: exI [of _ "h - s"])
    moreover have "(\<exists>k. 0 \<le> k \<and> k < ?len \<and> s + k = h + 24) \<longleftrightarrow> e < s \<and> h < e"
      using assms by (auto intro!: exI [of _ "h + 24 - s"])
    ultimately show ?thesis
      using assms previous_weekday [of w] by blast
  qed
  finally show ?thesis .
qed

text \<open>
  Quiet hours. An hour of the week is quiet exactly when a window that starts on one of the chosen days covers it,
  windows that run past midnight counted for the day they start on; a window with an hour out of range or of no
  length is never quiet.
\<close>

theorem quiet_hours_exact:
  assumes "0 \<le> w" "w \<le> 6" "0 \<le> h" "h \<le> 23"
  shows "call_inQuietHours \<lparr>qw_hour = h, qw_weekday = w, qw_startHour = s, qw_endHour = e, qw_days = days\<rparr> \<longleftrightarrow>
    0 \<le> s \<and> s \<le> 23 \<and> 0 \<le> e \<and> e \<le> 23 \<and> s \<noteq> e \<and> 24 * w + h \<in> quiet_week s e days"
proof (cases "0 \<le> s \<and> s \<le> 23 \<and> 0 \<le> e \<and> e \<le> 23 \<and> s \<noteq> e")
  case True
  then have "24 * w + h \<in> quiet_week s e days \<longleftrightarrow>
    (s \<le> h \<and> (h < e \<or> e < s) \<and> bit (word_of_int days :: u32) (nat w)) \<or>
    (e < s \<and> h < e \<and> bit (word_of_int days :: u32) (nat ((w + 6) mod 7)))"
    using assms in_quiet_week [of w h s e days] by simp
  with True show ?thesis
    by (auto simp: call_inQuietHours_def Let_def drop_bit_and_one split: if_splits)
qed (auto simp: call_inQuietHours_def Let_def)

lemma quiet_hours_exact_witness:
  "call_inQuietHours \<lparr>qw_hour = 3, qw_weekday = 0, qw_startHour = 23, qw_endHour = 7, qw_days = 64\<rparr>"
proof -
  have "bit (64 :: u32) 6" by (simp add: bit_iff_odd)
  then have "24 * 0 + 3 \<in> quiet_week 23 7 64"
    using in_quiet_week [of 0 3 23 7 64] by simp
  then show ?thesis
    by (subst quiet_hours_exact [of 0 3 23 7 64]) simp_all
qed

section \<open>What the decision depends on\<close>

text \<open>Whether the user's own settings let a call through, when the candidate is not mandatory.\<close>

definition wants_call :: "call_policy_input \<Rightarrow> bool" where
  "wants_call i \<longleftrightarrow>
     modeFor (pi_preference i) (pi_trigger i) = CallByVoice \<and> \<not> pi_planNotify i \<and> cp_enabled (pi_preference i) \<and>
     \<not> (isGuardTrigger (pi_trigger i) \<and> mutes (pi_preference i) (pi_environmentId i)) \<and>
     (pi_critical i \<and> cp_criticalBypass (pi_preference i) \<or>
      cp_dndUntil (pi_preference i) \<le> pi_now i \<and>
      \<not> call_inQuietHours \<lparr>qw_hour = pi_localHour i, qw_weekday = pi_localWeekday i,
          qw_startHour = cp_quietStartHour (pi_preference i), qw_endHour = cp_quietEndHour (pi_preference i),
          qw_days = cp_quietDays (pi_preference i)\<rparr>)"

definition unhurried :: "call_policy_input \<Rightarrow> bool" where
  "unhurried i \<longleftrightarrow> \<not> pi_ringing i \<and> (pi_lastCallAt i \<le> 0 \<or> cl_callGapS (pi_limits i) \<le> pi_now i - pi_lastCallAt i) \<and>
     pi_callsLastHour i < cl_maxCallsPerHour (pi_limits i)"

lemma limited_rings:
  "cv_decision (call_limited i r) \<in> {DecideRing, DecideSupersede} \<longleftrightarrow> pi_critical i \<or> unhurried i"
  by (auto simp: call_limited_def unhurried_def Let_def)

lemma limited_drop: "cv_decision (call_limited i r) \<noteq> DecideDrop"
  by (simp add: call_limited_def Let_def)

definition verdict_rank :: "call_decision \<Rightarrow> nat" where
  "verdict_rank d =
     (case d of DecideDrop \<Rightarrow> 0 | DecideNotify \<Rightarrow> 1 | DecideFollowup \<Rightarrow> 2 | DecideRing \<Rightarrow> 3 | DecideSupersede \<Rightarrow> 3)"

lemma decide_cases:
  "call_decide i =
     (if pi_alreadyCalled i then \<lparr>cv_decision = DecideDrop, cv_reason = ''already_called'', cv_injectable = False\<rparr>
      else if cl_enabled (pi_limits i) \<and> (pi_mandatory i \<or> wants_call i)
      then call_limited i (if pi_mandatory i then ''on_duty'' else ''ring'') else call_decide i)"
  by (auto simp: call_decide_def wants_call_def Let_def)

lemma decide_refuses:
  assumes "\<not> (\<not> pi_alreadyCalled i \<and> cl_enabled (pi_limits i) \<and> (pi_mandatory i \<or> wants_call i))"
  shows "cv_decision (call_decide i) = (if pi_alreadyCalled i \<or> \<not> pi_mandatory i \<and> modeFor (pi_preference i) (pi_trigger i) = CallOff
    then DecideDrop else DecideNotify)"
  using assms by (auto simp: call_decide_def wants_call_def Let_def call_mode.exhaust intro: call_mode.exhaust)


lemma decide_calls:
  assumes "\<not> pi_alreadyCalled i" "cl_enabled (pi_limits i)" "pi_mandatory i \<or> wants_call i"
  shows "call_decide i = call_limited i (if pi_mandatory i then ''on_duty'' else ''ring'')"
  using assms decide_cases [of i] by simp

text \<open>
  Who is called. Somebody's phone rings exactly when the event was not announced to them before, calls are on,
  the user is on duty or wants this call now, and the event is critical or no call is near: none ringing, the gap to
  the last one kept, fewer than the cap in the last hour. A call that rings is replaced only by a critical one.
  Nothing is dropped but what was announced before or is switched off by somebody who is not on duty.
\<close>

theorem call_rings_exactly:
  shows "(cv_decision (call_decide i) \<in> {DecideRing, DecideSupersede} \<longleftrightarrow>
      \<not> pi_alreadyCalled i \<and> cl_enabled (pi_limits i) \<and> (pi_mandatory i \<or> wants_call i) \<and> (pi_critical i \<or> unhurried i)) \<and>
    (cv_decision (call_decide i) = DecideSupersede \<longleftrightarrow>
      \<not> pi_alreadyCalled i \<and> cl_enabled (pi_limits i) \<and> (pi_mandatory i \<or> wants_call i) \<and> pi_critical i \<and> pi_ringing i) \<and>
    (cv_decision (call_decide i) = DecideDrop \<longleftrightarrow>
      pi_alreadyCalled i \<or> \<not> pi_mandatory i \<and> modeFor (pi_preference i) (pi_trigger i) = CallOff)"
proof (cases "\<not> pi_alreadyCalled i \<and> cl_enabled (pi_limits i) \<and> (pi_mandatory i \<or> wants_call i)")
  case True
  then have "call_decide i = call_limited i (if pi_mandatory i then ''on_duty'' else ''ring'')"
    by (intro decide_calls) simp_all
  moreover have "cv_decision (call_limited i r) = DecideSupersede \<longleftrightarrow> pi_critical i \<and> pi_ringing i" for r
    by (auto simp: call_limited_def Let_def)
  moreover have "\<not> (\<not> pi_mandatory i \<and> modeFor (pi_preference i) (pi_trigger i) = CallOff)"
    using True by (auto simp: wants_call_def)
  ultimately show ?thesis
    using True limited_rings [of i] limited_drop [of i] by simp
next
  case False
  show ?thesis using decide_refuses [OF False] False by (auto split: if_splits)
qed

lemma limited_rank:
  "2 \<le> verdict_rank (cv_decision (call_limited i r)) \<longleftrightarrow> pi_ringing i \<or> pi_critical i \<or> unhurried i"
  by (auto simp: call_limited_def Let_def unhurried_def verdict_rank_def)

lemma rank_of_ring: "d \<in> {DecideRing, DecideSupersede} \<longleftrightarrow> 3 \<le> verdict_rank d"
  by (cases d) (simp_all add: verdict_rank_def)

lemma rank_bounds: "verdict_rank d \<le> 3" "verdict_rank d = 0 \<longleftrightarrow> d = DecideDrop"
  by (cases d; simp add: verdict_rank_def)+

lemma decide_rank:
  "verdict_rank (cv_decision (call_decide i)) =
     (if pi_alreadyCalled i \<or> \<not> pi_mandatory i \<and> modeFor (pi_preference i) (pi_trigger i) = CallOff then 0
      else if \<not> (cl_enabled (pi_limits i) \<and> (pi_mandatory i \<or> wants_call i)) then 1
      else if pi_critical i \<or> unhurried i then 3 else if pi_ringing i then 2 else 1)"
proof (cases "\<not> pi_alreadyCalled i \<and> cl_enabled (pi_limits i) \<and> (pi_mandatory i \<or> wants_call i)")
  case True
  then have "call_decide i = call_limited i (if pi_mandatory i then ''on_duty'' else ''ring'')"
    by (intro decide_calls) simp_all
  then show ?thesis
    using True by (auto simp: call_limited_def Let_def unhurried_def wants_call_def verdict_rank_def)
next
  case False
  show ?thesis using decide_refuses [OF False] False by (auto simp: verdict_rank_def)
qed

text \<open>
  Urgency never silences. With everything else equal, an event that is critical, or a user who is on duty, is
  answered at least as strongly: dropped, written, told after the call in progress, called.
\<close>

theorem urgency_never_silences:
  "verdict_rank (cv_decision (call_decide i)) \<le> verdict_rank (cv_decision (call_decide (i\<lparr>pi_critical := True\<rparr>))) \<and>
   verdict_rank (cv_decision (call_decide i)) \<le> verdict_rank (cv_decision (call_decide (i\<lparr>pi_mandatory := True\<rparr>)))"
proof (intro conjI)
  have "wants_call i \<Longrightarrow> wants_call (i\<lparr>pi_critical := True\<rparr>)" by (auto simp: wants_call_def)
  then show "verdict_rank (cv_decision (call_decide i)) \<le> verdict_rank (cv_decision (call_decide (i\<lparr>pi_critical := True\<rparr>)))"
    by (auto simp: decide_rank)
  have "unhurried (i\<lparr>pi_mandatory := True\<rparr>) = unhurried i" by (simp add: unhurried_def)
  then show "verdict_rank (cv_decision (call_decide i)) \<le> verdict_rank (cv_decision (call_decide (i\<lparr>pi_mandatory := True\<rparr>)))"
    by (auto simp: decide_rank)
qed

section \<open>Candidates\<close>

lemma decimal_inj: "decimal m = decimal n \<Longrightarrow> m = n"
  using digits_value_decimal by (metis of_nat_eq_iff)

lemma if_chain_Some:
  "(if P then None else if Q then g else if R then g else if S then h else None) = Some c \<Longrightarrow> g = Some c \<or> h = Some c"
  by (simp split: if_split_asm)

lemma fromNotification_cases:
  assumes "fromNotification d = Some c"
  shows "guardCandidate d = Some c \<or> agendaCandidate d = Some c"
  using assms unfolding fromNotification_def Let_def by (rule if_chain_Some)

lemma guardCandidate_shape:
  assumes "guardCandidate d = Some c"
  shows "cc_dedupeKey c \<noteq> [] \<and> cc_data c = d \<and> (cc_critical c \<longleftrightarrow> cc_urgency c = ''critical'') \<and>
    (cc_urgency c = ''critical'' \<or> cc_urgency c = ''time_sensitive'') \<and> isGuardTrigger (cc_trigger c)"
  using assms unfolding guardCandidate_def Let_def isGuardTrigger_def
  by (auto split: if_split_asm)

lemma agendaCandidate_shape:
  assumes "agendaCandidate d = Some c"
  shows "cc_dedupeKey c \<noteq> [] \<and> cc_data c = d \<and> \<not> cc_critical c \<and> cc_urgency c = ''time_sensitive'' \<and>
    cc_trigger c = AgendaTrigger"
  using assms by (auto simp: agendaCandidate_def Let_def split: if_split_asm)

lemma fromNotification_shape:
  assumes "fromNotification d = Some c"
  shows "cc_dedupeKey c \<noteq> []" "cc_data c = d" "cc_critical c \<Longrightarrow> isGuardTrigger (cc_trigger c)"
    "cc_trigger c \<noteq> AssistantTrigger"
  using fromNotification_cases [OF assms] guardCandidate_shape [of d c] agendaCandidate_shape [of d c]
  by (auto simp: isGuardTrigger_def)

text \<open>A guard event without a thread is known by its episode, and two episodes never share a key.\<close>

lemma episode_key:
  assumes "fromNotification e = Some x" "json_text e ''threadKey'' = []"
  shows "cc_dedupeKey x = ''guard:episode:'' @ decimal (nat (json_number e ''episodeId'')) \<and> 0 < json_number e ''episodeId''"
proof -
  have "agendaCandidate e = None" using assms(2) by (simp add: agendaCandidate_def)
  then have "guardCandidate e = Some x" using fromNotification_cases [OF assms(1)] by simp
  then show ?thesis using assms(2)
    unfolding guardCandidate_def Let_def to_string_def by (simp split: if_split_asm) auto
qed

lemma episode_keys_distinct:
  assumes "fromNotification d = Some c" "fromNotification d' = Some c'"
    "json_text d ''threadKey'' = []" "json_text d' ''threadKey'' = []"
  shows "cc_dedupeKey c = cc_dedupeKey c' \<longleftrightarrow> json_number d ''episodeId'' = json_number d' ''episodeId''"
proof -
  have "nat (json_number d ''episodeId'') = nat (json_number d' ''episodeId'') \<longleftrightarrow>
      json_number d ''episodeId'' = json_number d' ''episodeId''"
    using episode_key [OF assms(1,3)] episode_key [OF assms(2,4)] by auto
  then show ?thesis
    using episode_key [OF assms(1,3)] episode_key [OF assms(2,4)] decimal_inj
    by (metis append_same_eq same_append_eq)
qed

end
