(* ===== verification/Row_Store.thy ===== *)
theory Row_Store
  imports Main
begin

text \<open>
  What the tables of the call engine have in common, stated once: steps that run one after another on a table whose rows
  have identifiers that are never given twice, and an order in which a row may change. The contract is the locale
  \<open>row_store\<close>; its lemmas follow a row through any run of steps. The table of calls and the table of responses
  interpret it.
\<close>

text \<open>The steps of a run that hit, with the table as it is when their turn comes.\<close>

fun hits :: "('op \<Rightarrow> 't \<Rightarrow> bool) \<Rightarrow> ('op \<Rightarrow> 't \<Rightarrow> 't) \<Rightarrow> 'op list \<Rightarrow> 't \<Rightarrow> 'op list" where
  "hits hit step [] t = []"
| "hits hit step (op # ops) t = (if hit op t then [op] else []) @ hits hit step ops (step op t)"

locale row_store =
  fixes step :: "'op \<Rightarrow> 't \<Rightarrow> 't" and ok :: "'op \<Rightarrow> bool" and wf :: "'t \<Rightarrow> bool"
    and row :: "int \<Rightarrow> 't \<Rightarrow> 'r option" and next_id :: "'t \<Rightarrow> int" and evo :: "'r \<Rightarrow> 'r \<Rightarrow> bool"
  assumes wf_step: "wf t \<Longrightarrow> ok op \<Longrightarrow> wf (step op t)"
    and evo_refl: "evo r r"
    and evo_trans: "evo r r' \<Longrightarrow> evo r' r'' \<Longrightarrow> evo r r''"
    and row_some: "wf t \<Longrightarrow> ok op \<Longrightarrow> row i t = Some r \<Longrightarrow> row i (step op t) = Some r' \<Longrightarrow> evo r r'"
    and row_none: "wf t \<Longrightarrow> ok op \<Longrightarrow> row i t = None \<Longrightarrow> i < next_id t \<Longrightarrow> row i (step op t) = None"
    and next_le: "wf t \<Longrightarrow> ok op \<Longrightarrow> next_id t \<le> next_id (step op t)"
    and row_below: "wf t \<Longrightarrow> row i t = Some r \<Longrightarrow> i < next_id t"
begin

lemma run_wf: "wf t \<Longrightarrow> list_all ok ops \<Longrightarrow> wf (fold step ops t)"
  by (induction ops arbitrary: t) (simp_all add: wf_step)

lemma run_next: "wf t \<Longrightarrow> list_all ok ops \<Longrightarrow> next_id t \<le> next_id (fold step ops t)"
proof (induction ops arbitrary: t)
  case (Cons op ops)
  then show ?case using next_le [of t op] wf_step [of t op] by (simp add: order_trans)
qed simp

lemma run_gone:
  "wf t \<Longrightarrow> list_all ok ops \<Longrightarrow> row i t = None \<Longrightarrow> i < next_id t \<Longrightarrow> row i (fold step ops t) = None"
proof (induction ops arbitrary: t)
  case (Cons op ops)
  have "i < next_id (step op t)" using next_le [of t op] Cons.prems by simp
  then show ?case using Cons row_none [of t op i] wf_step [of t op] by simp
qed simp

lemma run_evolves:
  "wf t \<Longrightarrow> list_all ok ops \<Longrightarrow> row i t = Some r \<Longrightarrow> row i (fold step ops t) = Some r' \<Longrightarrow> evo r r'"
proof (induction ops arbitrary: t r)
  case Nil
  then show ?case by (simp add: evo_refl)
next
  case (Cons op ops)
  have w: "wf (step op t)" "ok op" "list_all ok ops" using Cons.prems wf_step by auto
  show ?case
  proof (cases "row i (step op t)")
    case None
    have "i < next_id (step op t)"
      using row_below [OF Cons.prems(1,3)] next_le [OF Cons.prems(1) w(2)] by simp
    then show ?thesis using run_gone [OF w(1,3) None] Cons.prems(4) by simp
  next
    case (Some q)
    have "evo r q" by (rule row_some [OF Cons.prems(1) w(2) Cons.prems(3) Some])
    then show ?thesis using Cons.IH [OF w(1,3) Some] Cons.prems(4) evo_trans by simp
  qed
qed

text \<open>A property of a row that changes keep holds for good, for a row that is gone as well.\<close>

definition always :: "('r \<Rightarrow> bool) \<Rightarrow> int \<Rightarrow> 't \<Rightarrow> bool" where
  "always Q i t \<longleftrightarrow> i < next_id t \<and> (\<forall>r. row i t = Some r \<longrightarrow> Q r)"

lemma always_run:
  assumes "\<And>r r'. Q r \<Longrightarrow> evo r r' \<Longrightarrow> Q r'" "wf t" "list_all ok ops" "always Q i t"
  shows "always Q i (fold step ops t)"
proof -
  have "i < next_id (fold step ops t)" using run_next [OF assms(2,3)] assms(4) by (simp add: always_def)
  moreover have "Q r'" if "row i (fold step ops t) = Some r'" for r'
  proof (cases "row i t")
    case None
    then show ?thesis using run_gone [OF assms(2,3) None] assms(4) that by (simp add: always_def)
  next
    case (Some r)
    then show ?thesis using run_evolves [OF assms(2,3) Some that] assms(1,4) by (auto simp: always_def)
  qed
  ultimately show ?thesis by (simp add: always_def)
qed

lemma no_hit_run:
  assumes "\<And>r r'. Q r \<Longrightarrow> evo r r' \<Longrightarrow> Q r'" "\<And>op t. wf t \<Longrightarrow> hit op t \<Longrightarrow> \<not> always Q i t"
    "wf t" "list_all ok ops" "always Q i t"
  shows "hits hit step ops t = []"
  using assms(3-5)
proof (induction ops arbitrary: t)
  case (Cons op ops)
  have "always Q i (step op t)" using always_run [of Q t "[op]" i] assms(1) Cons.prems by simp
  then show ?case using Cons assms(2) [of t op] wf_step [of t op] by auto
qed simp

text \<open>What needs a row without the property, and leaves it with it, happens once at most.\<close>

lemma hit_once:
  assumes "\<And>r r'. Q r \<Longrightarrow> evo r r' \<Longrightarrow> Q r'" "\<And>op t. wf t \<Longrightarrow> hit op t \<Longrightarrow> \<not> always Q i t"
    "\<And>op t. wf t \<Longrightarrow> ok op \<Longrightarrow> hit op t \<Longrightarrow> always Q i (step op t)"
    "wf t" "list_all ok ops"
  shows "length (hits hit step ops t) \<le> 1"
  using assms(4,5)
proof (induction ops arbitrary: t)
  case (Cons op ops)
  have w: "wf (step op t)" "ok op" "list_all ok ops" using Cons.prems wf_step by auto
  show ?case
  proof (cases "hit op t")
    case True
    have "hits hit step ops (step op t) = []"
    proof (rule no_hit_run [where Q = Q and i = i])
      show "always Q i (step op t)" by (rule assms(3) [OF Cons.prems(1) w(2) True])
    qed (use assms(1,2) w in auto)
    with True show ?thesis by simp
  next
    case False
    then show ?thesis using Cons.IH [OF w(1,3)] by simp
  qed
qed simp

text \<open>What a step that hits leaves on the row stays there.\<close>

lemma hit_marks:
  assumes "\<And>op r r'. M op r \<Longrightarrow> evo r r' \<Longrightarrow> M op r'" "\<And>op t. wf t \<Longrightarrow> ok op \<Longrightarrow> hit op t \<Longrightarrow> always (M op) i (step op t)"
    "wf t" "list_all ok ops" "op \<in> set (hits hit step ops t)"
  shows "always (M op) i (fold step ops t)"
  using assms(3-5)
proof (induction ops arbitrary: t)
  case (Cons a ops)
  have w: "wf (step a t)" "ok a" "list_all ok ops" using Cons.prems wf_step by auto
  show ?case
  proof (cases "op \<in> set (hits hit step ops (step a t))")
    case True
    then show ?thesis using Cons.IH [OF w(1,3)] by simp
  next
    case False
    then have "hit a t" "op = a" using Cons.prems(3) by (auto split: if_splits)
    then have "always (M op) i (step a t)" using assms(2) [OF Cons.prems(1) w(2)] by simp
    then show ?thesis using always_run [where Q = "M op", OF assms(1) w(1,3)] by simp
  qed
qed simp

end

end
