(* ===== verification/Call_Store.thy ===== *)
theory Call_Store
  imports Call_Policy Row_Store
begin

text \<open>
  The table of calls, \<open>services/notification/src/feature/call/repositories/call\<close>: its rows, every statement of
  \<open>call-query.hxx\<close> as an operation on the table, and the transactions of \<open>services/call-engine.cc\<close> that change it, each
  an atomic step (SQLite runs one writer at a time, and a transaction that does not commit leaves the table as it was).
  Everything the engine does to calls, however its requests interleave, is a sequence of these steps.

  The table holds its rows in the order of their identifiers, which \<open>AUTOINCREMENT\<close> never gives twice. The column
  \<open>data\<close> is the document itself; its text form is the JSON library's.
\<close>

section \<open>Rows and table\<close>

record call_row =
  r_id :: int
  r_userId :: int
  r_dedupeKey :: string
  r_trigger :: call_trigger
  r_state :: call_state
  r_reason :: string
  r_parentCallId :: int
  r_urgency :: string
  r_lang :: string
  r_title :: string
  r_summary :: string
  r_openingLine :: string
  r_missedLine :: string
  r_data :: json
  r_answeredSession :: string
  r_createdAt :: int
  r_expiresAt :: int
  r_pushedAt :: int
  r_answeredAt :: int
  r_endedAt :: int
  r_pushAfter :: int

record call_create =
  n_userId :: int
  n_dedupeKey :: string
  n_trigger :: call_trigger
  n_state :: call_state
  n_reason :: string
  n_parentCallId :: int
  n_urgency :: string
  n_lang :: string
  n_title :: string
  n_summary :: string
  n_openingLine :: string
  n_missedLine :: string
  n_data :: json
  n_createdAt :: int
  n_expiresAt :: int
  n_pushAfter :: int

record call_table =
  t_rows :: "call_row list"
  t_next :: int

definition empty_table :: call_table where
  "empty_table = \<lparr>t_rows = [], t_next = 1\<rparr>"

text \<open>The row an \<open>INSERT\<close> writes; the columns it does not name have the defaults of \<open>schema.sql\<close>.\<close>

definition row_of :: "int \<Rightarrow> call_state \<Rightarrow> int \<Rightarrow> call_create \<Rightarrow> call_row" where
  "row_of i s parent n =
     \<lparr>r_id = i, r_userId = n_userId n, r_dedupeKey = n_dedupeKey n, r_trigger = n_trigger n, r_state = s,
      r_reason = n_reason n, r_parentCallId = parent, r_urgency = n_urgency n, r_lang = n_lang n, r_title = n_title n,
      r_summary = n_summary n, r_openingLine = n_openingLine n, r_missedLine = n_missedLine n, r_data = n_data n,
      r_answeredSession = [], r_createdAt = n_createdAt n, r_expiresAt = n_expiresAt n, r_pushedAt = 0,
      r_answeredAt = 0, r_endedAt = 0, r_pushAfter = n_pushAfter n\<rparr>"

definition insert_row :: "call_state \<Rightarrow> int \<Rightarrow> call_create \<Rightarrow> call_table \<Rightarrow> int option \<times> call_table" where
  "insert_row s parent n t =
     (if \<exists>r \<in> set (t_rows t). r_dedupeKey r = n_dedupeKey n \<and> r_userId r = n_userId n then (None, t)
      else (Some (t_next t), \<lparr>t_rows = t_rows t @ [row_of (t_next t) s parent n], t_next = t_next t + 1\<rparr>))"

definition update_where :: "(call_row \<Rightarrow> bool) \<Rightarrow> (call_row \<Rightarrow> call_row) \<Rightarrow> call_table \<Rightarrow> nat \<times> call_table" where
  "update_where P f t =
     (length (filter P (t_rows t)), t\<lparr>t_rows := map (\<lambda>r. if P r then f r else r) (t_rows t)\<rparr>)"

section \<open>The statements\<close>

definition call_create_stmt :: "call_create \<Rightarrow> call_table \<Rightarrow> int option \<times> call_table" where
  "call_create_stmt n = insert_row (n_state n) (n_parentCallId n) n"

definition rings_at :: "int \<Rightarrow> int \<Rightarrow> call_row \<Rightarrow> bool" where
  "rings_at userId now r \<longleftrightarrow> r_userId r = userId \<and> r_state r = Ringing \<and> r_expiresAt r > now"

definition createRinging :: "call_create \<Rightarrow> call_table \<Rightarrow> int option \<times> call_table" where
  "createRinging n t =
     (if \<exists>r \<in> set (t_rows t). rings_at (n_userId n) (n_createdAt n) r then (None, t) else insert_row Ringing 0 n t)"

definition call_exists :: "string \<Rightarrow> int \<Rightarrow> call_table \<Rightarrow> bool" where
  "call_exists key userId t \<longleftrightarrow> (\<exists>r \<in> set (t_rows t). r_dedupeKey r = key \<and> r_userId r = userId)"

definition call_findById :: "int \<Rightarrow> call_table \<Rightarrow> call_row option" where
  "call_findById i t = find (\<lambda>r. r_id r = i) (t_rows t)"

definition findRingingFor :: "int \<Rightarrow> int \<Rightarrow> call_table \<Rightarrow> call_row option" where
  "findRingingFor userId now t =
     (let found = filter (rings_at userId now) (t_rows t) in if found = [] then None else Some (last found))"

definition ringStats :: "int \<Rightarrow> int \<Rightarrow> call_table \<Rightarrow> int \<times> nat" where
  "ringStats userId since t =
     (let rows = filter (\<lambda>r. r_userId r = userId \<and> r_parentCallId r = 0 \<and>
            r_state r \<in> {Ringing, Answered, Completed, Missed, Declined}) (t_rows t)
      in (case rows of [] \<Rightarrow> 0 | r # rs \<Rightarrow> foldl max (r_createdAt r) (map r_createdAt rs),
          length (filter (\<lambda>r. r_createdAt r \<ge> since) rows)))"

definition claim_stmt :: "int \<Rightarrow> int \<Rightarrow> string \<Rightarrow> int \<Rightarrow> call_table \<Rightarrow> nat \<times> call_table" where
  "claim_stmt i userId session now =
     update_where (\<lambda>r. r_id r = i \<and> r_userId r = userId \<and> r_state r = Ringing \<and> r_expiresAt r > now)
       (\<lambda>r. r\<lparr>r_state := Answered, r_answeredAt := now, r_answeredSession := session\<rparr>)"

definition markMissed :: "int \<Rightarrow> int \<Rightarrow> call_table \<Rightarrow> nat \<times> call_table" where
  "markMissed i now = update_where (\<lambda>r. r_id r = i \<and> r_state r = Ringing) (\<lambda>r. r\<lparr>r_state := Missed, r_endedAt := now\<rparr>)"

definition end_stmt :: "int \<Rightarrow> int \<Rightarrow> call_state \<Rightarrow> int \<Rightarrow> call_table \<Rightarrow> nat \<times> call_table" where
  "end_stmt i userId s now =
     update_where (\<lambda>r. r_id r = i \<and> r_userId r = userId \<and> r_state r = Answered) (\<lambda>r. r\<lparr>r_state := s, r_endedAt := now\<rparr>)"

definition declineRinging :: "int \<Rightarrow> int \<Rightarrow> int \<Rightarrow> call_table \<Rightarrow> nat \<times> call_table" where
  "declineRinging i userId now =
     update_where (\<lambda>r. r_id r = i \<and> r_userId r = userId \<and> r_state r = Ringing \<and> r_expiresAt r > now)
       (\<lambda>r. r\<lparr>r_state := Declined, r_endedAt := now\<rparr>)"

definition markPushed :: "int \<Rightarrow> int \<Rightarrow> call_table \<Rightarrow> nat \<times> call_table" where
  "markPushed i now = update_where (\<lambda>r. r_id r = i \<and> r_state r = Ringing) (\<lambda>r. r\<lparr>r_pushedAt := now\<rparr>)"

definition findFollowups :: "int \<Rightarrow> call_table \<Rightarrow> call_row list" where
  "findFollowups parent t = filter (\<lambda>r. r_parentCallId r = parent \<and> r_state r = Queued) (t_rows t)"

definition settleFollowups :: "int \<Rightarrow> call_state \<Rightarrow> int \<Rightarrow> call_table \<Rightarrow> nat \<times> call_table" where
  "settleFollowups parent s now =
     update_where (\<lambda>r. r_parentCallId r = parent \<and> r_state r = Queued) (\<lambda>r. r\<lparr>r_state := s, r_endedAt := now\<rparr>)"

definition findRinging :: "call_table \<Rightarrow> call_row list" where
  "findRinging t = filter (\<lambda>r. r_state r = Ringing) (t_rows t)"

definition cancels :: "string \<Rightarrow> int \<Rightarrow> int \<Rightarrow> call_row \<Rightarrow> bool" where
  "cancels key exceptUserId onlyUserId r \<longleftrightarrow>
     r_dedupeKey r = key \<and> r_state r = Ringing \<and> r_userId r \<noteq> exceptUserId \<and> (onlyUserId = 0 \<or> r_userId r = onlyUserId)"

text \<open>\<open>RETURNING id, user_id\<close> gives the rows that were changed.\<close>

definition cancelRingingForKey :: "string \<Rightarrow> int \<Rightarrow> int \<Rightarrow> string \<Rightarrow> int \<Rightarrow> call_table \<Rightarrow> (int \<times> int) list \<times> call_table" where
  "cancelRingingForKey key exceptUserId onlyUserId reason now t =
     (map (\<lambda>r. (r_id r, r_userId r)) (filter (cancels key exceptUserId onlyUserId) (t_rows t)),
      snd (update_where (cancels key exceptUserId onlyUserId)
        (\<lambda>r. r\<lparr>r_state := Missed, r_reason := reason, r_endedAt := now\<rparr>) t))"

definition call_purgeSettled :: "int \<Rightarrow> call_table \<Rightarrow> nat \<times> call_table" where
  "call_purgeSettled createdBefore t =
     (let gone = (\<lambda>r. r_createdAt r < createdBefore \<and> r_state r \<notin> {Ringing, Queued, Answered})
      in (length (filter gone (t_rows t)), t\<lparr>t_rows := filter (\<lambda>r. \<not> gone r) (t_rows t)\<rparr>))"

definition findStale :: "int \<Rightarrow> int \<Rightarrow> call_table \<Rightarrow> call_row list" where
  "findStale answeredBefore createdBefore t =
     filter (\<lambda>r. r_state r = Answered \<and> r_answeredAt r < answeredBefore \<or>
                 r_state r = Injected \<and> r_createdAt r < createdBefore) (t_rows t)"

definition closeStaleByIds :: "int list \<Rightarrow> int \<Rightarrow> call_table \<Rightarrow> int list \<times> call_table" where
  "closeStaleByIds ids now t =
     (if ids = [] then ([], t)
      else let P = (\<lambda>r. r_state r \<in> {Answered, Injected} \<and> r_id r \<in> set ids)
           in (map r_id (filter P (t_rows t)), snd (update_where P (\<lambda>r. r\<lparr>r_state := Completed, r_endedAt := now\<rparr>) t)))"

section \<open>The transactions\<close>

text \<open>\<open>openRinging\<close>: the row, marked as pushed at once when no delay is asked for.\<close>

definition openRinging_tx :: "call_create \<Rightarrow> int \<Rightarrow> call_table \<Rightarrow> int option \<times> call_table" where
  "openRinging_tx n at t =
     (case createRinging n t of
        (None, _) \<Rightarrow> (None, t)
      | (Some i, t') \<Rightarrow> (Some i, if n_pushAfter n \<le> at then snd (markPushed i at t') else t'))"

definition pushRing_tx :: "int \<Rightarrow> int \<Rightarrow> call_table \<Rightarrow> bool \<times> call_table" where
  "pushRing_tx i at t = (let (n, t') = markPushed i at t in if n = 0 then (False, t) else (True, t'))"

definition decline_tx :: "int \<Rightarrow> int \<Rightarrow> int \<Rightarrow> call_table \<Rightarrow> bool \<times> call_table" where
  "decline_tx i userId at t = (let (n, t') = declineRinging i userId at t in if n = 0 then (False, t) else (True, t'))"

definition miss_tx :: "int \<Rightarrow> int \<Rightarrow> call_table \<Rightarrow> bool \<times> call_table" where
  "miss_tx i at t =
     (let (n, t') = markMissed i at t in if n = 0 then (False, t) else (True, snd (settleFollowups i Missed at t')))"

text \<open>\<open>claim\<close>: what was queued behind the call is told during it.\<close>

definition claim_tx :: "int \<Rightarrow> int \<Rightarrow> string \<Rightarrow> int \<Rightarrow> call_table \<Rightarrow> call_row list option \<times> call_table" where
  "claim_tx i userId session at t =
     (let (n, t') = claim_stmt i userId session at t
      in if n = 0 then (None, t)
         else let followups = findFollowups i t'
              in (Some followups, if followups = [] then t' else snd (settleFollowups i Injected at t')))"

definition cancel_tx :: "string \<Rightarrow> int \<Rightarrow> int \<Rightarrow> string \<Rightarrow> int \<Rightarrow> call_table \<Rightarrow> (int \<times> int) list \<times> call_table" where
  "cancel_tx key exceptUserId onlyUserId reason now t =
     (let (cancelled, t') = cancelRingingForKey key exceptUserId onlyUserId reason now t
      in (cancelled, foldl (\<lambda>u (i, _). snd (settleFollowups i Missed now u)) t' cancelled))"

datatype store_op =
  OpCreate call_create
| OpOpenRinging call_create int
| OpPushRing int int
| OpDecline int int int
| OpMiss int int
| OpClaim int int string int
| OpEnd int int int
| OpCancel string int int string int
| OpCloseStale "int list" int
| OpPurge int

fun store_step :: "store_op \<Rightarrow> call_table \<Rightarrow> call_table" where
  "store_step (OpCreate n) t = snd (call_create_stmt n t)"
| "store_step (OpOpenRinging n at) t = snd (openRinging_tx n at t)"
| "store_step (OpPushRing i at) t = snd (pushRing_tx i at t)"
| "store_step (OpDecline i u at) t = snd (decline_tx i u at t)"
| "store_step (OpMiss i at) t = snd (miss_tx i at t)"
| "store_step (OpClaim i u session at) t = snd (claim_tx i u session at t)"
| "store_step (OpEnd i u at) t = snd (end_stmt i u Completed at t)"
| "store_step (OpCancel key e only reason at) t = snd (cancel_tx key e only reason at t)"
| "store_step (OpCloseStale ids at) t = snd (closeStaleByIds ids at t)"
| "store_step (OpPurge before) t = snd (call_purgeSettled before t)"

definition store_run :: "store_op list \<Rightarrow> call_table \<Rightarrow> call_table" where
  "store_run ops t = fold store_step ops t"

text \<open>The engine creates rows outside \<open>openRinging\<close> only for what it announced in a call or queues behind one.\<close>

fun engine_op :: "store_op \<Rightarrow> bool" where
  "engine_op (OpCreate n) \<longleftrightarrow> n_state n = Injected \<or> n_state n = Queued"
| "engine_op _ \<longleftrightarrow> True"


section \<open>How a row may change\<close>

definition later_states :: "call_state \<Rightarrow> call_state set" where
  "later_states s =
     (case s of Ringing \<Rightarrow> {Ringing, Answered, Completed, Missed, Declined} | Queued \<Rightarrow> {Queued, Injected, Completed, Missed}
      | Answered \<Rightarrow> {Answered, Completed} | Injected \<Rightarrow> {Injected, Completed} | Completed \<Rightarrow> {Completed}
      | Missed \<Rightarrow> {Missed} | Declined \<Rightarrow> {Declined})"

text \<open>What an update never touches.\<close>

definition frozen where
  "frozen r = ((r_id r, r_userId r, r_dedupeKey r, r_trigger r, r_parentCallId r, r_createdAt r, r_expiresAt r, r_pushAfter r),
     (r_urgency r, r_lang r, r_title r, r_summary r, r_openingLine r, r_missedLine r, r_data r))"

definition same_call :: "call_row \<Rightarrow> call_row \<Rightarrow> bool" where
  "same_call r r' \<longleftrightarrow> frozen r' = frozen r"

definition call_over :: "call_state \<Rightarrow> bool" where
  "call_over s \<longleftrightarrow> s \<in> {Completed, Missed, Declined}"

text \<open>The session that answered is written when the call is taken, and a call that is over is never written again.\<close>

definition evolves :: "call_row \<Rightarrow> call_row \<Rightarrow> bool" where
  "evolves r r' \<longleftrightarrow>
     same_call r r' \<and> r_state r' \<in> later_states (r_state r) \<and> (call_over (r_state r) \<longrightarrow> r' = r) \<and>
     (r_state r = Ringing \<and> r_state r' \<in> {Answered, Completed} \<or> r_answeredSession r' = r_answeredSession r)"

lemma same_callD:
  assumes "same_call r r'"
  shows "r_id r' = r_id r" "r_userId r' = r_userId r" "r_dedupeKey r' = r_dedupeKey r" "r_trigger r' = r_trigger r"
    "r_parentCallId r' = r_parentCallId r" "r_createdAt r' = r_createdAt r" "r_expiresAt r' = r_expiresAt r"
    "r_data r' = r_data r" "r_lang r' = r_lang r" "r_pushAfter r' = r_pushAfter r"
  using assms by (simp_all add: same_call_def frozen_def)

lemma evolves_refl: "evolves r r"
  by (simp add: evolves_def same_call_def later_states_def split: call_state.split)

lemma later_trans: "s' \<in> later_states s \<Longrightarrow> s'' \<in> later_states s' \<Longrightarrow> s'' \<in> later_states s"
  by (cases s; cases s'; cases s'') (simp_all add: later_states_def)

lemma evolves_trans:
  assumes "evolves r r'" "evolves r' r''"
  shows "evolves r r''"
proof -
  have "same_call r r''" using assms by (simp add: evolves_def same_call_def)
  moreover have "r_state r'' \<in> later_states (r_state r)"
    using assms later_trans by (auto simp: evolves_def)
  moreover have "call_over (r_state r) \<longrightarrow> r'' = r" using assms by (auto simp: evolves_def)
  moreover have "r_state r = Ringing \<and> r_state r'' \<in> {Answered, Completed} \<or> r_answeredSession r'' = r_answeredSession r"
    using assms unfolding evolves_def
    by (cases "r_state r"; cases "r_state r'"; cases "r_state r''") (auto simp: later_states_def call_over_def)
  ultimately show ?thesis by (simp add: evolves_def)
qed

text \<open>A statement that updates rows, or several of them in a row.\<close>

definition table_evolves :: "call_table \<Rightarrow> call_table \<Rightarrow> bool" where
  "table_evolves t t' \<longleftrightarrow> (\<exists>f. t' = t\<lparr>t_rows := map f (t_rows t)\<rparr> \<and> (\<forall>r. evolves r (f r)))"

lemma table_evolves_refl: "table_evolves t t"
  unfolding table_evolves_def by (rule exI [of _ id]) (simp add: evolves_refl)

lemma table_evolves_trans:
  assumes "table_evolves t t'" "table_evolves t' t''"
  shows "table_evolves t t''"
proof -
  obtain f where f: "t' = t\<lparr>t_rows := map f (t_rows t)\<rparr>" "\<And>r. evolves r (f r)"
    using assms(1) by (auto simp: table_evolves_def)
  obtain g where g: "t'' = t'\<lparr>t_rows := map g (t_rows t')\<rparr>" "\<And>r. evolves r (g r)"
    using assms(2) by (auto simp: table_evolves_def)
  have "t'' = t\<lparr>t_rows := map (g \<circ> f) (t_rows t)\<rparr>" by (simp add: f(1) g(1))
  moreover have "evolves r ((g \<circ> f) r)" for r using evolves_trans [OF f(2) g(2)] by simp
  ultimately show ?thesis unfolding table_evolves_def by blast
qed

lemma update_where_evolves:
  "(\<And>r. P r \<Longrightarrow> evolves r (f r)) \<Longrightarrow> table_evolves t (snd (update_where P f t))"
  unfolding table_evolves_def update_where_def
  by (rule exI [of _ "\<lambda>r. if P r then f r else r"]) (simp add: evolves_refl)

lemmas evolve_defs = evolves_def same_call_def frozen_def later_states_def call_over_def

lemma claim_evolves: "table_evolves t (snd (claim_stmt i u session now t))"
  unfolding claim_stmt_def by (rule update_where_evolves) (simp add: evolve_defs)

lemma markMissed_evolves: "table_evolves t (snd (markMissed i now t))"
  unfolding markMissed_def by (rule update_where_evolves) (simp add: evolve_defs)

lemma end_evolves: "table_evolves t (snd (end_stmt i u Completed now t))"
  unfolding end_stmt_def by (rule update_where_evolves) (simp add: evolve_defs)

lemma decline_evolves: "table_evolves t (snd (declineRinging i u now t))"
  unfolding declineRinging_def by (rule update_where_evolves) (simp add: evolve_defs)

lemma markPushed_evolves: "table_evolves t (snd (markPushed i now t))"
  unfolding markPushed_def by (rule update_where_evolves) (simp add: evolve_defs)

lemma settle_evolves: "s = Missed \<or> s = Injected \<Longrightarrow> table_evolves t (snd (settleFollowups i s now t))"
  unfolding settleFollowups_def by (rule update_where_evolves) (auto simp: evolve_defs)

lemma cancelKey_evolves: "table_evolves t (snd (cancelRingingForKey key e only reason now t))"
  unfolding cancelRingingForKey_def snd_conv by (rule update_where_evolves) (simp add: evolve_defs cancels_def)

lemma closeStale_evolves: "table_evolves t (snd (closeStaleByIds ids now t))"
proof -
  have "table_evolves t (snd (update_where (\<lambda>r. r_state r \<in> {Answered, Injected} \<and> r_id r \<in> set ids)
      (\<lambda>r. r\<lparr>r_state := Completed, r_endedAt := now\<rparr>) t))"
    by (rule update_where_evolves) (auto simp: evolve_defs)
  then show ?thesis by (simp add: closeStaleByIds_def Let_def table_evolves_refl)
qed

lemmas statements_evolve = claim_evolves markMissed_evolves end_evolves decline_evolves markPushed_evolves
  settle_evolves cancelKey_evolves closeStale_evolves

lemma settle_all_evolves:
  "table_evolves t (foldl (\<lambda>u (i, _). snd (settleFollowups i Missed now u)) t cancelled)"
proof (induction cancelled arbitrary: t)
  case (Cons c cs)
  show ?case
    using table_evolves_trans [OF settle_evolves [of Missed t "fst c" now] Cons.IH]
    by (simp add: split_def)
qed (simp add: table_evolves_refl)

lemma pushRing_evolves: "table_evolves t (snd (pushRing_tx i at t))"
  using markPushed_evolves [of t i at] by (simp add: pushRing_tx_def split_def Let_def table_evolves_refl)

lemma decline_tx_evolves: "table_evolves t (snd (decline_tx i u at t))"
  using decline_evolves [of t i u at] by (simp add: decline_tx_def split_def Let_def table_evolves_refl)

lemma miss_evolves: "table_evolves t (snd (miss_tx i at t))"
  using table_evolves_trans [OF markMissed_evolves [of t i at] settle_evolves [of Missed _ i at]]
  by (simp add: miss_tx_def split_def Let_def table_evolves_refl)

lemma claim_tx_evolves: "table_evolves t (snd (claim_tx i u session at t))"
  using claim_evolves [of t i u session at]
    table_evolves_trans [OF claim_evolves [of t i u session at] settle_evolves [of Injected _ i at]]
  by (simp add: claim_tx_def split_def Let_def table_evolves_refl)

lemma cancel_evolves: "table_evolves t (snd (cancel_tx key e only reason at t))"
  using table_evolves_trans [OF cancelKey_evolves [of t key e only reason at] settle_all_evolves]
  by (simp add: cancel_tx_def split_def Let_def)

lemmas transactions_evolve = pushRing_evolves decline_tx_evolves miss_evolves claim_tx_evolves cancel_evolves

section \<open>The table stays well formed\<close>

definition ring_order :: "call_row \<Rightarrow> call_row \<Rightarrow> bool" where
  "ring_order r r' \<longleftrightarrow>
     (r_userId r = r_userId r' \<and> r_state r = Ringing \<and> r_state r' = Ringing \<longrightarrow> r_expiresAt r \<le> r_createdAt r')"

definition store_wf :: "call_table \<Rightarrow> bool" where
  "store_wf t \<longleftrightarrow>
     sorted_wrt (<) (map r_id (t_rows t)) \<and> (\<forall>r \<in> set (t_rows t). 0 < r_id r \<and> r_id r < t_next t) \<and> 0 < t_next t \<and>
     distinct (map (\<lambda>r. (r_dedupeKey r, r_userId r)) (t_rows t)) \<and> sorted_wrt ring_order (t_rows t)"

lemma empty_wf: "store_wf empty_table"
  by (simp add: store_wf_def empty_table_def)

lemma evolves_wf:
  assumes "table_evolves t t'" "store_wf t"
  shows "store_wf t'"
proof -
  obtain f where f: "t' = t\<lparr>t_rows := map f (t_rows t)\<rparr>" "\<And>r. evolves r (f r)"
    using assms(1) by (auto simp: table_evolves_def)
  have keep: "same_call r (f r)" "r_state (f r) = Ringing \<Longrightarrow> r_state r = Ringing" for r
    using f(2) [of r] by (auto simp: evolves_def later_states_def split: call_state.splits)
  have fields: "r_id (f r) = r_id r" "r_userId (f r) = r_userId r" "r_dedupeKey (f r) = r_dedupeKey r"
    "r_createdAt (f r) = r_createdAt r" "r_expiresAt (f r) = r_expiresAt r" for r
    by (rule same_callD [OF keep(1)])+
  have ids: "map r_id (map f (t_rows t)) = map r_id (t_rows t)"
    "map (\<lambda>r. (r_dedupeKey r, r_userId r)) (map f (t_rows t)) = map (\<lambda>r. (r_dedupeKey r, r_userId r)) (t_rows t)"
    by (simp_all add: fields comp_def)
  have order: "sorted_wrt ring_order (map f (t_rows t))"
    unfolding sorted_wrt_map
    by (rule sorted_wrt_mono_rel [of _ ring_order])
      (use assms(2) keep(2) in \<open>auto simp: store_wf_def ring_order_def fields\<close>)
  show ?thesis
    unfolding store_wf_def
    using assms(2) order ids f(1) by (auto simp: store_wf_def comp_def fields)
qed

lemma insert_wf:
  assumes "store_wf t" "s = Ringing \<Longrightarrow> \<forall>r \<in> set (t_rows t). \<not> rings_at (n_userId n) (n_createdAt n) r"
  shows "store_wf (snd (insert_row s parent n t))"
proof -
  have "ring_order r (row_of (t_next t) s parent n)" if "r \<in> set (t_rows t)" for r
    using assms(2) that by (fastforce simp: ring_order_def row_of_def rings_at_def)
  then show ?thesis
    using assms(1) by (auto simp: insert_row_def store_wf_def sorted_wrt_append row_of_def)
qed

lemma purge_wf:
  assumes "store_wf t"
  shows "store_wf (snd (call_purgeSettled before t))"
proof -
  have "distinct (map g (filter P xs))" if "distinct (map g xs)" for g P and xs :: "call_row list"
    using that by (rule distinct_map_filter)
  moreover have "sorted_wrt (<) (map r_id (filter P xs))" if "sorted_wrt (<) (map r_id xs)" for P and xs :: "call_row list"
    using that by (simp add: sorted_wrt_map sorted_wrt_filter)
  ultimately show ?thesis
    using assms by (auto simp: call_purgeSettled_def store_wf_def Let_def sorted_wrt_filter)
qed

lemma createRinging_wf:
  assumes "store_wf t"
  shows "store_wf (snd (createRinging n t))"
  using insert_wf [OF assms, of Ringing n 0] assms by (auto simp: createRinging_def)

lemma openRinging_wf:
  assumes "store_wf t"
  shows "store_wf (snd (openRinging_tx n at t))"
  using assms createRinging_wf [OF assms, of n] evolves_wf [OF statements_evolve(5)]
  by (auto simp: openRinging_tx_def split: prod.splits option.splits)

lemma create_wf:
  assumes "store_wf t" "n_state n = Injected \<or> n_state n = Queued"
  shows "store_wf (snd (call_create_stmt n t))"
  unfolding call_create_stmt_def by (rule insert_wf) (use assms in auto)

lemma store_step_wf:
  assumes "store_wf t" "engine_op op"
  shows "store_wf (store_step op t)"
  using assms evolves_wf [OF _ assms(1)]
  by (cases op) (simp_all add: create_wf openRinging_wf purge_wf statements_evolve transactions_evolve)

lemma store_run_Cons [simp]: "store_run (op # ops) t = store_run ops (store_step op t)"
  by (simp add: store_run_def)

lemma store_run_Nil [simp]: "store_run [] t = t"
  by (simp add: store_run_def)

lemma store_run_append: "store_run (xs @ ys) t = store_run ys (store_run xs t)"
  by (simp add: store_run_def)

section \<open>Following one call\<close>

lemma distinct_ids: "store_wf t \<Longrightarrow> distinct (map r_id (t_rows t))"
  by (simp add: store_wf_def strict_sorted_iff)

lemma find_by_id_iff:
  assumes "store_wf t"
  shows "call_findById i t = Some r \<longleftrightarrow> r \<in> set (t_rows t) \<and> r_id r = i"
proof
  assume "call_findById i t = Some r"
  then show "r \<in> set (t_rows t) \<and> r_id r = i" by (auto simp: call_findById_def find_Some_iff)
next
  assume r: "r \<in> set (t_rows t) \<and> r_id r = i"
  then obtain q where q: "call_findById i t = Some q"
    by (cases "call_findById i t") (auto simp: call_findById_def find_None_iff)
  then have "q \<in> set (t_rows t)" "r_id q = i" by (auto simp: call_findById_def find_Some_iff)
  then have "q = r" using r distinct_ids [OF assms] by (metis distinct_map inj_onD)
  then show "call_findById i t = Some r" using q by simp
qed

lemma find_by_id_None: "call_findById i t = None \<longleftrightarrow> (\<forall>r \<in> set (t_rows t). r_id r \<noteq> i)"
  by (auto simp: call_findById_def find_None_iff)

lemma find_below_next: "store_wf t \<Longrightarrow> call_findById i t = Some r \<Longrightarrow> 0 < i \<and> i < t_next t"
  by (auto simp: find_by_id_iff) (auto simp: store_wf_def)

lemma find_map_ids: "(\<And>r. r_id (f r) = r_id r) \<Longrightarrow> find (\<lambda>r. r_id r = i) (map f rs) = map_option f (find (\<lambda>r. r_id r = i) rs)"
  by (induction rs) simp_all

lemma find_evolves:
  assumes "table_evolves t t'"
  obtains f where "\<And>i. call_findById i t' = map_option f (call_findById i t)" "\<And>r. evolves r (f r)" "t_next t' = t_next t"
proof -
  obtain f where f: "t' = t\<lparr>t_rows := map f (t_rows t)\<rparr>" "\<And>r. evolves r (f r)"
    using assms by (auto simp: table_evolves_def)
  have "call_findById i t' = map_option f (call_findById i t)" for i
    unfolding call_findById_def f(1) using f(2) same_callD(1)
    by (simp add: find_map_ids evolves_def)
  then show thesis using that f by simp
qed

lemma find_append_row: "find P (xs @ ys) = (case find P xs of None \<Rightarrow> find P ys | Some x \<Rightarrow> Some x)"
  by (induction xs) simp_all

lemma find_insert:
  assumes "store_wf t"
  shows "call_findById i (snd (insert_row s parent n t)) =
    (if i = t_next t \<and> fst (insert_row s parent n t) \<noteq> None then Some (row_of i s parent n) else call_findById i t)"
proof -
  have "call_findById (t_next t) t = None"
    using assms by (auto simp: find_by_id_None store_wf_def)
  then show ?thesis
    by (auto simp: insert_row_def call_findById_def find_append_row row_of_def split: option.split)
qed

lemma insert_next: "t_next t \<le> t_next (snd (insert_row s parent n t))"
  by (simp add: insert_row_def)

lemma insert_result: "fst (insert_row s parent n t) = None \<or> fst (insert_row s parent n t) = Some (t_next t)"
  by (simp add: insert_row_def)

lemma find_purge:
  assumes "store_wf t"
  shows "call_findById i (snd (call_purgeSettled before t)) =
    (case call_findById i t of None \<Rightarrow> None
     | Some r \<Rightarrow> if r_createdAt r < before \<and> r_state r \<notin> {Ringing, Queued, Answered} then None else Some r)"
proof -
  have w: "store_wf (snd (call_purgeSettled before t))" by (rule purge_wf [OF assms])
  have mem: "r \<in> set (t_rows (snd (call_purgeSettled before t))) \<longleftrightarrow>
      r \<in> set (t_rows t) \<and> \<not> (r_createdAt r < before \<and> r_state r \<notin> {Ringing, Queued, Answered})" for r
    by (simp add: call_purgeSettled_def Let_def)
  show ?thesis
  proof (cases "call_findById i t")
    case None
    then have "call_findById i (snd (call_purgeSettled before t)) = None"
      unfolding find_by_id_None using mem by blast
    with None show ?thesis by simp
  next
    case (Some r)
    then have r: "r \<in> set (t_rows t)" "r_id r = i" using find_by_id_iff [OF assms] by auto
    show ?thesis
    proof (cases "r_createdAt r < before \<and> r_state r \<notin> {Ringing, Queued, Answered}")
      case True
      then have "call_findById i (snd (call_purgeSettled before t)) = None"
        unfolding find_by_id_None using mem r distinct_ids [OF assms] by (metis distinct_map inj_onD)
      with True Some show ?thesis by simp
    next
      case False
      then have "call_findById i (snd (call_purgeSettled before t)) = Some r"
        unfolding find_by_id_iff [OF w] mem using r by simp
      moreover have "(if r_createdAt r < before \<and> r_state r \<notin> {Ringing, Queued, Answered} then None else Some r) = Some r"
        using False by (rule if_not_P)
      ultimately show ?thesis unfolding Some option.case by simp
    qed
  qed
qed

text \<open>What one step does to one row: it is gone only after a purge, it is new only with a new identifier.\<close>

definition purges :: "store_op \<Rightarrow> bool" where
  "purges op \<longleftrightarrow> (\<exists>before. op = OpPurge before)"

definition row_steps :: "call_table \<Rightarrow> call_table \<Rightarrow> int \<Rightarrow> bool" where
  "row_steps t t' i \<longleftrightarrow>
     (case call_findById i t of
        Some r \<Rightarrow> (\<exists>r'. call_findById i t' = Some r' \<and> evolves r r')
      | None \<Rightarrow> i < t_next t \<longrightarrow> call_findById i t' = None) \<and> t_next t \<le> t_next t'"

lemma row_steps_evolves: "table_evolves t t' \<Longrightarrow> row_steps t t' i"
  by (erule find_evolves) (auto simp: row_steps_def split: option.split)

lemma row_steps_trans:
  assumes "row_steps t t' i" "row_steps t' t'' i"
  shows "row_steps t t'' i"
  using assms by (force simp: row_steps_def intro: evolves_trans split: option.splits)

lemma row_steps_insert:
  assumes "store_wf t"
  shows "row_steps t (snd (insert_row s parent n t)) i"
  using find_insert [OF assms, of i s parent n] insert_next [of t s parent n] find_below_next [OF assms, of i]
  by (auto simp: row_steps_def evolves_refl split: option.split)

lemma row_steps_createRinging: "store_wf t \<Longrightarrow> row_steps t (snd (createRinging n t)) i"
  using row_steps_insert [of t Ringing 0 n i] by (auto simp: createRinging_def row_steps_def evolves_refl split: option.splits)

lemma row_steps_openRinging:
  assumes "store_wf t"
  shows "row_steps t (snd (openRinging_tx n at t)) i"
proof (cases "createRinging n t")
  case (Pair o_id t')
  have "row_steps t t' i" using row_steps_createRinging [OF assms, of n i] Pair by simp
  moreover have "row_steps t t i" by (rule row_steps_evolves [OF table_evolves_refl])
  ultimately show ?thesis
    using Pair row_steps_trans [OF _ row_steps_evolves [OF markPushed_evolves]]
    by (auto simp: openRinging_tx_def split: option.split)
qed

lemma row_steps_step:
  assumes "store_wf t" "engine_op op" "\<not> purges op"
  shows "row_steps t (store_step op t) i"
proof (cases op)
  case (OpCreate n)
  then show ?thesis using row_steps_insert [OF assms(1)] by (simp add: call_create_stmt_def)
next
  case (OpPurge b)
  then show ?thesis using assms(3) by (simp add: purges_def)
qed (use assms row_steps_openRinging row_steps_evolves statements_evolve transactions_evolve in \<open>auto\<close>)


lemma purge_step:
  assumes "store_wf t" "purges op"
  shows "t_next (store_step op t) = t_next t"
    "call_findById i (store_step op t) = call_findById i t \<or>
     (call_findById i (store_step op t) = None \<and>
      (\<forall>r. call_findById i t = Some r \<longrightarrow> r_state r \<notin> {Ringing, Queued, Answered}))"
  using assms find_purge [OF assms(1), of i]
  by (auto simp: purges_def call_purgeSettled_def Let_def split: option.splits)

lemma step_row:
  assumes "store_wf t" "engine_op op"
  obtains "call_findById i (store_step op t) = None" "i < t_next t"
  | r r' where "call_findById i t = Some r" "call_findById i (store_step op t) = Some r'" "evolves r r'"
  | "call_findById i t = None" "t_next t \<le> i"
proof (cases "purges op")
  case True
  show thesis
  proof (cases "call_findById i t")
    case None
    then show thesis
      using that(1,3) purge_step(2) [OF assms(1) True, of i] by (cases "i < t_next t") auto
  next
    case (Some r)
    then show thesis
      using that(1,2) purge_step(2) [OF assms(1) True, of i] find_below_next [OF assms(1), of i r] evolves_refl [of r] by auto
  qed
next
  case False
  show thesis
  proof (cases "call_findById i t")
    case None
    then show thesis
      using that(1,3) row_steps_step [OF assms False, of i] by (cases "i < t_next t") (auto simp: row_steps_def)
  next
    case (Some r)
    then show thesis
      using that(2) row_steps_step [OF assms False, of i] by (auto simp: row_steps_def)
  qed
qed

lemma next_step: "store_wf t \<Longrightarrow> engine_op op \<Longrightarrow> t_next t \<le> t_next (store_step op t)"
  using row_steps_step [of t op 0] purge_step(1) [of t op] by (cases "purges op") (auto simp: row_steps_def)

text \<open>The table of calls keeps the contract of a row store.\<close>

interpretation calls: row_store store_step engine_op store_wf call_findById t_next evolves
proof
  fix t :: call_table and op :: store_op and i :: int and r r' r'' :: call_row
  show "store_wf t \<Longrightarrow> engine_op op \<Longrightarrow> store_wf (store_step op t)" by (rule store_step_wf)
  show "evolves r r" by (rule evolves_refl)
  show "evolves r r' \<Longrightarrow> evolves r' r'' \<Longrightarrow> evolves r r''" by (rule evolves_trans)
  show "evolves r r'" if "store_wf t" "engine_op op" "call_findById i t = Some r" "call_findById i (store_step op t) = Some r'"
    by (rule step_row [OF that(1,2), of i]) (use that(3,4) in auto)
  show "call_findById i (store_step op t) = None" if "store_wf t" "engine_op op" "call_findById i t = None" "i < t_next t"
    by (rule step_row [OF that(1,2), of i]) (use that(3,4) in auto)
  show "store_wf t \<Longrightarrow> engine_op op \<Longrightarrow> t_next t \<le> t_next (store_step op t)" by (rule next_step)
  show "store_wf t \<Longrightarrow> call_findById i t = Some r \<Longrightarrow> i < t_next t" using find_below_next by blast
qed

lemma store_run_wf: "store_wf t \<Longrightarrow> list_all engine_op ops \<Longrightarrow> store_wf (store_run ops t)"
  unfolding store_run_def by (rule calls.run_wf)

lemma next_run: "store_wf t \<Longrightarrow> list_all engine_op ops \<Longrightarrow> t_next t \<le> t_next (store_run ops t)"
  unfolding store_run_def by (rule calls.run_next)

lemma gone_stays_gone:
  "store_wf t \<Longrightarrow> list_all engine_op ops \<Longrightarrow> call_findById i t = None \<Longrightarrow> i < t_next t \<Longrightarrow> call_findById i (store_run ops t) = None"
  unfolding store_run_def by (rule calls.run_gone)

lemma call_evolves:
  "store_wf t \<Longrightarrow> list_all engine_op ops \<Longrightarrow> call_findById i t = Some r \<Longrightarrow> call_findById i (store_run ops t) = Some r' \<Longrightarrow> evolves r r'"
  unfolding store_run_def by (rule calls.run_evolves)

section \<open>Properties\<close>

lemma ringing_pair:
  assumes "sorted_wrt ring_order rows" "i < j" "j < length rows" "rings_at u now (rows ! i)" "rings_at u now (rows ! j)"
  shows "now < r_createdAt (rows ! j)"
  using sorted_wrt_nth_less [OF assms(1-3)] assms(4,5) by (auto simp: ring_order_def rings_at_def)

text \<open>A row to create: an event with a key for a user, created at a time, for 45 seconds.\<close>

definition sample_create :: "string \<Rightarrow> int \<Rightarrow> call_state \<Rightarrow> int \<Rightarrow> int \<Rightarrow> call_create" where
  "sample_create key u s parent at =
     \<lparr>n_userId = u, n_dedupeKey = key, n_trigger = GuardIntruder, n_state = s, n_reason = ''ring'', n_parentCallId = parent,
      n_urgency = ''time_sensitive'', n_lang = ''en'', n_title = [], n_summary = [], n_openingLine = [], n_missedLine = [],
      n_data = JObject [], n_createdAt = at, n_expiresAt = at + 45, n_pushAfter = at\<rparr>"

text \<open>A call rings, a second one is refused meanwhile, and a third event is queued behind the first.\<close>

definition sample_ops :: "store_op list" where
  "sample_ops = [OpOpenRinging (sample_create ''a'' 7 Ringing 0 100) 100, OpOpenRinging (sample_create ''b'' 7 Ringing 0 110) 110,
     OpCreate (sample_create ''c'' 7 Queued 1 111)]"

lemma sample_wf: "store_wf (store_run sample_ops empty_table)"
  by (rule store_run_wf [OF empty_wf]) (simp add: sample_ops_def sample_create_def)

lemma sample_rows:
  "store_run sample_ops empty_table =
    \<lparr>t_rows = [(row_of 1 Ringing 0 (sample_create ''a'' 7 Ringing 0 100))\<lparr>r_pushedAt := 100\<rparr>,
               row_of 2 Queued 1 (sample_create ''c'' 7 Queued 1 111)], t_next = 3\<rparr>"
  by code_simp

text \<open>
  C28. One phone call at a time. Whatever the engine does and however its requests interleave, two calls of the same
  user never ring at the same moment: of two rows that ring and were created by then, one has expired.
\<close>

theorem one_call_rings:
  assumes "list_all engine_op ops" "r \<in> set (t_rows (store_run ops empty_table))" "q \<in> set (t_rows (store_run ops empty_table))"
    "rings_at u now r" "rings_at u now q" "r_createdAt r \<le> now" "r_createdAt q \<le> now"
  shows "r = q"
proof -
  let ?rows = "t_rows (store_run ops empty_table)"
  have "store_wf (store_run ops empty_table)" by (rule store_run_wf [OF empty_wf assms(1)])
  then have order: "sorted_wrt ring_order ?rows" by (simp add: store_wf_def)
  obtain i j where ij: "i < length ?rows" "?rows ! i = r" "j < length ?rows" "?rows ! j = q"
    using assms(2,3) by (metis in_set_conv_nth)
  have "\<not> i < j" using ringing_pair [OF order, of i j u now] ij assms(4-7) by auto
  moreover have "\<not> j < i" using ringing_pair [OF order, of j i u now] ij assms(4-7) by auto
  ultimately show ?thesis using ij by (metis linorder_neqE_nat)
qed

lemma one_call_rings_witness:
  "the (findRingingFor 7 120 (store_run sample_ops empty_table)) = hd (t_rows (store_run sample_ops empty_table))"
proof (rule one_call_rings [of sample_ops _ _ 7 120])
  show "list_all engine_op sample_ops" by code_simp
  show "the (findRingingFor 7 120 (store_run sample_ops empty_table)) \<in> set (t_rows (store_run sample_ops empty_table))"
    "hd (t_rows (store_run sample_ops empty_table)) \<in> set (t_rows (store_run sample_ops empty_table))"
    "rings_at 7 120 (the (findRingingFor 7 120 (store_run sample_ops empty_table)))"
    "rings_at 7 120 (hd (t_rows (store_run sample_ops empty_table)))"
    "r_createdAt (the (findRingingFor 7 120 (store_run sample_ops empty_table))) \<le> 120"
    "r_createdAt (hd (t_rows (store_run sample_ops empty_table))) \<le> 120"
    by (simp_all add: sample_rows findRingingFor_def rings_at_def row_of_def sample_create_def)
qed

text \<open>
  The life of a call. Under any sequence of steps a row keeps its identity, its user, its parent and its times;
  its state only moves forward (ringing to answered, missed or declined, answered to completed, queued to told or
  missed), a call that is over is never written again, and the session that answered never changes. A row leaves the
  table only by a purge, and never while it rings, waits or is answered.
\<close>

theorem call_lifecycle:
  assumes "store_wf t" "list_all engine_op ops" "call_findById i t = Some r"
  shows "(\<forall>r'. call_findById i (store_run ops t) = Some r' \<longrightarrow> evolves r r') \<and>
    (call_findById i (store_run ops t) = None \<longrightarrow>
      (\<exists>before op after r'. ops = before @ op # after \<and> purges op \<and> call_findById i (store_run before t) = Some r' \<and>
         evolves r r' \<and> r_state r' \<notin> {Ringing, Queued, Answered}))"
  using assms
proof (induction ops arbitrary: t r)
  case Nil
  then show ?case by (simp add: evolves_refl)
next
  case (Cons op ops)
  have w: "store_wf (store_step op t)" and ops: "engine_op op" "list_all engine_op ops"
    using Cons.prems store_step_wf by auto
  show ?case
  proof (cases "call_findById i (store_step op t)")
    case None
    have p: "purges op"
      using row_steps_step [OF Cons.prems(1) ops(1), of i] None Cons.prems(3) by (auto simp: row_steps_def)
    have settled: "r_state r \<notin> {Ringing, Queued, Answered}"
      using purge_step(2) [OF Cons.prems(1) p, of i] None Cons.prems(3) by auto
    have "i < t_next (store_step op t)"
      using find_below_next [OF Cons.prems(1,3)] purge_step(1) [OF Cons.prems(1) p] by simp
    then have "call_findById i (store_run (op # ops) t) = None"
      using gone_stays_gone [OF w ops(2) None] by simp
    moreover have "\<exists>before op' after r'. op # ops = before @ op' # after \<and> purges op' \<and>
        call_findById i (store_run before t) = Some r' \<and> evolves r r' \<and> r_state r' \<notin> {Ringing, Queued, Answered}"
      using p settled Cons.prems(3) evolves_refl
      by (intro exI [of _ "[]"] exI [of _ op] exI [of _ ops] exI [of _ r]) simp
    ultimately show ?thesis by simp
  next
    case (Some r1)
    have e: "evolves r r1" by (rule step_row [OF Cons.prems(1) ops(1), of i]) (use Cons.prems(3) Some in auto)
    from Cons.IH [OF w ops(2) Some] show ?thesis
      using e evolves_trans [OF e] by simp (metis append_Cons store_run_Cons)
  qed
qed

lemma sample_first: "call_findById 1 (store_run sample_ops empty_table) =
    Some ((row_of 1 Ringing 0 (sample_create ''a'' 7 Ringing 0 100))\<lparr>r_pushedAt := 100\<rparr>)"
  by (simp add: sample_rows call_findById_def row_of_def)

lemma sample_second: "call_findById 2 (store_run sample_ops empty_table) = Some (row_of 2 Queued 1 (sample_create ''c'' 7 Queued 1 111))"
  by (simp add: sample_rows call_findById_def row_of_def)

lemma call_lifecycle_witness:
  "evolves ((row_of 1 Ringing 0 (sample_create ''a'' 7 Ringing 0 100))\<lparr>r_pushedAt := 100\<rparr>)
    (the (call_findById 1 (store_run [OpClaim 1 7 ''phone'' 120, OpEnd 1 7 150] (store_run sample_ops empty_table))))"
proof -
  have "list_all engine_op [OpClaim 1 7 ''phone'' 120, OpEnd 1 7 150]" by simp
  note life = call_lifecycle [OF sample_wf this sample_first]
  have "call_findById 1 (store_run [OpClaim 1 7 ''phone'' 120, OpEnd 1 7 150] (store_run sample_ops empty_table)) \<noteq> None"
    by code_simp
  with life show ?thesis by auto
qed

text \<open>The attempts to take a call that went through, and the sessions that made them.\<close>

definition claim_hit :: "int \<Rightarrow> store_op \<Rightarrow> call_table \<Rightarrow> bool" where
  "claim_hit i op t = (case op of OpClaim j u session at \<Rightarrow> j = i \<and> fst (claim_tx j u session at t) \<noteq> None | _ \<Rightarrow> False)"

definition claim_session :: "store_op \<Rightarrow> string" where
  "claim_session op = (case op of OpClaim j u session at \<Rightarrow> session | _ \<Rightarrow> [])"

definition claims_won :: "int \<Rightarrow> store_op list \<Rightarrow> call_table \<Rightarrow> string list" where
  "claims_won i ops t = map claim_session (hits (claim_hit i) store_step ops t)"

lemma update_where_hits: "fst (update_where P f t) = 0 \<longleftrightarrow> (\<forall>r \<in> set (t_rows t). \<not> P r)"
  by (simp add: update_where_def filter_empty_conv)

lemma claim_tx_None:
  "fst (claim_tx i u session at t) = None \<longleftrightarrow>
    (\<forall>r \<in> set (t_rows t). \<not> (r_id r = i \<and> r_userId r = u \<and> r_state r = Ringing \<and> r_expiresAt r > at))"
proof -
  have "fst (claim_stmt i u session at t) = 0 \<longleftrightarrow>
    (\<forall>r \<in> set (t_rows t). \<not> (r_id r = i \<and> r_userId r = u \<and> r_state r = Ringing \<and> r_expiresAt r > at))"
    unfolding claim_stmt_def by (rule update_where_hits)
  then show ?thesis by (auto simp: claim_tx_def split_def Let_def)
qed

lemma claim_needs_ringing:
  assumes "store_wf t" "fst (claim_tx i u session at t) \<noteq> None"
  obtains r where "call_findById i t = Some r" "r_userId r = u" "r_state r = Ringing" "r_expiresAt r > at"
  using assms claim_tx_None [of i u session at t] by (auto simp: find_by_id_iff)

definition not_ringing :: "int \<Rightarrow> call_table \<Rightarrow> bool" where
  "not_ringing i t \<longleftrightarrow> i < t_next t \<and> (\<forall>r. call_findById i t = Some r \<longrightarrow> r_state r \<noteq> Ringing)"

lemma not_ringing_always: "not_ringing i t = calls.always (\<lambda>r. r_state r \<noteq> Ringing) i t"
  by (simp add: not_ringing_def calls.always_def)

lemma evolves_not_ringing: "r_state r \<noteq> Ringing \<Longrightarrow> evolves r r' \<Longrightarrow> r_state r' \<noteq> Ringing"
  by (auto simp: evolves_def later_states_def split: call_state.splits)

lemma not_ringing_run:
  "store_wf t \<Longrightarrow> list_all engine_op ops \<Longrightarrow> not_ringing i t \<Longrightarrow> not_ringing i (store_run ops t)"
  unfolding store_run_def not_ringing_always by (rule calls.always_run [OF evolves_not_ringing])

lemma not_ringing_step:
  "store_wf t \<Longrightarrow> engine_op op \<Longrightarrow> not_ringing i t \<Longrightarrow> not_ringing i (store_step op t)"
  using not_ringing_run [of t "[op]" i] by simp

lemma find_update:
  assumes "\<And>r. r_id (f r) = r_id r"
  shows "call_findById i (snd (update_where P f t)) = map_option (\<lambda>r. if P r then f r else r) (call_findById i t)"
  using find_map_ids [of "\<lambda>r. if P r then f r else r" i "t_rows t"] assms
  by (simp add: update_where_def call_findById_def)

lemma find_settle:
  "call_findById i (snd (settleFollowups p s now t)) =
    map_option (\<lambda>r. if r_parentCallId r = p \<and> r_state r = Queued then r\<lparr>r_state := s, r_endedAt := now\<rparr> else r) (call_findById i t)"
  unfolding settleFollowups_def by (rule find_update) simp

lemma find_claimed:
  assumes "store_wf t" "fst (claim_tx i u session at t) \<noteq> None"
  obtains r where "call_findById i t = Some r"
    "call_findById i (snd (claim_tx i u session at t)) = Some (r\<lparr>r_state := Answered, r_answeredAt := at, r_answeredSession := session\<rparr>)"
proof -
  obtain r where r: "call_findById i t = Some r" "r_userId r = u" "r_state r = Ringing" "r_expiresAt r > at"
    by (rule claim_needs_ringing [OF assms])
  have "r_id r = i" using r(1) find_by_id_iff [OF assms(1)] by auto
  then have "call_findById i (snd (claim_stmt i u session at t)) =
      Some (r\<lparr>r_state := Answered, r_answeredAt := at, r_answeredSession := session\<rparr>)"
    unfolding claim_stmt_def by (subst find_update) (simp_all add: r)
  then have "call_findById i (snd (claim_tx i u session at t)) =
      Some (r\<lparr>r_state := Answered, r_answeredAt := at, r_answeredSession := session\<rparr>)"
    using assms(2) by (auto simp: claim_tx_def split_def Let_def find_settle)
  then show thesis using that r(1) by blast
qed

text \<open>
  One answer. Of all the attempts to take a call, by any sessions in any order among any other steps, at most
  one goes through, and as long as the row exists it is the session that answered.
\<close>

theorem call_claimed_once:
  assumes "store_wf t" "list_all engine_op ops"
  shows "length (claims_won i ops t) \<le> 1 \<and>
    (\<forall>session \<in> set (claims_won i ops t). \<forall>r. call_findById i (store_run ops t) = Some r \<longrightarrow>
      r_answeredSession r = session \<and> r_state r \<in> {Answered, Completed})"
proof -
  let ?mark = "\<lambda>op r. r_answeredSession r = claim_session op \<and> r_state r \<in> {Answered, Completed}"
  have mark: "evolves r r' \<Longrightarrow> ?mark op r \<Longrightarrow> ?mark op r'" for op r r'
    by (auto simp: evolves_def later_states_def)
  have needs: "\<not> calls.always (\<lambda>r. r_state r \<noteq> Ringing) i t" if "store_wf t" "claim_hit i op t" for op t
    using that claim_needs_ringing [OF that(1)] unfolding claim_hit_def calls.always_def
    by (auto split: store_op.splits) blast
  have leaves: "calls.always (?mark op) i (store_step op t)" if "store_wf t" "engine_op op" "claim_hit i op t" for op t
  proof -
    from that(3) obtain u session at where op: "op = OpClaim i u session at" "fst (claim_tx i u session at t) \<noteq> None"
      by (auto simp: claim_hit_def split: store_op.splits)
    from find_claimed [OF that(1) op(2)] obtain r where r: "call_findById i t = Some r" "call_findById i (store_step op t) =
        Some (r\<lparr>r_state := Answered, r_answeredAt := at, r_answeredSession := session\<rparr>)"
      unfolding op(1) store_step.simps by blast
    have "i < t_next (store_step op t)"
      using find_below_next [OF that(1) r(1)] next_step [OF that(1,2)] by simp
    then show ?thesis using r(2) op(1) by (simp add: calls.always_def claim_session_def)
  qed
  have "length (hits (claim_hit i) store_step ops t) \<le> 1"
  proof (rule calls.hit_once [OF evolves_not_ringing needs _ assms])
    fix op t assume "store_wf t" "engine_op op" "claim_hit i op t"
    from leaves [OF this] show "calls.always (\<lambda>r. r_state r \<noteq> Ringing) i (store_step op t)"
      by (auto simp: calls.always_def)
  qed
  moreover have "calls.always (?mark op) i (store_run ops t)" if "op \<in> set (hits (claim_hit i) store_step ops t)" for op
    unfolding store_run_def by (rule calls.hit_marks [where M = ?mark, OF mark leaves assms that])
  ultimately show ?thesis by (auto simp: claims_won_def calls.always_def)
qed

lemma call_claimed_once_witness:
  "length (claims_won 1 [OpClaim 1 7 ''phone'' 120, OpClaim 1 7 ''laptop'' 121] (store_run sample_ops empty_table)) \<le> 1 \<and>
   claims_won 1 [OpClaim 1 7 ''phone'' 120, OpClaim 1 7 ''laptop'' 121] (store_run sample_ops empty_table) = [''phone'']"
proof
  show "length (claims_won 1 [OpClaim 1 7 ''phone'' 120, OpClaim 1 7 ''laptop'' 121] (store_run sample_ops empty_table)) \<le> 1"
    using call_claimed_once [OF sample_wf, of "[OpClaim 1 7 ''phone'' 120, OpClaim 1 7 ''laptop'' 121]" 1] by simp
qed code_simp

section \<open>What waits behind a call\<close>

lemma settle_subset:
  assumes "s \<noteq> Queued"
  shows "findFollowups p (snd (settleFollowups q s now t)) = filter (\<lambda>r. r_parentCallId r \<noteq> q) (findFollowups p t)"
proof -
  let ?g = "\<lambda>r. if r_parentCallId r = q \<and> r_state r = Queued then r\<lparr>r_state := s, r_endedAt := now\<rparr> else r"
  have "filter (\<lambda>r. r_parentCallId r = p \<and> r_state r = Queued) (map ?g rows) =
      filter (\<lambda>r. r_parentCallId r \<noteq> q) (filter (\<lambda>r. r_parentCallId r = p \<and> r_state r = Queued) rows)" for rows
  proof (induction rows)
    case (Cons r rows)
    then show ?case using assms by (cases "r_parentCallId r = q \<and> r_state r = Queued") auto
  qed simp
  then show ?thesis by (simp add: findFollowups_def settleFollowups_def update_where_def)
qed

lemma settled_none: "s \<noteq> Queued \<Longrightarrow> findFollowups p (snd (settleFollowups p s now t)) = []"
  by (simp add: settle_subset) (simp add: findFollowups_def)

lemma settle_keeps_none:
  "findFollowups p t = [] \<Longrightarrow> s \<noteq> Queued \<Longrightarrow> findFollowups p (snd (settleFollowups q s now t)) = []"
  by (simp add: settle_subset)

lemma settle_all_none:
  "p \<in> fst ` set cs \<or> findFollowups p t = [] \<Longrightarrow>
    findFollowups p (foldl (\<lambda>u (i, _). snd (settleFollowups i Missed now u)) t cs) = []"
proof (induction cs arbitrary: t)
  case (Cons c cs)
  have "findFollowups p (snd (settleFollowups (fst c) Missed now t)) = []" if "p = fst c \<or> findFollowups p t = []"
    using that settled_none settle_keeps_none by auto
  then show ?case using Cons by (auto simp: split_def)
qed simp

text \<open>
  Nothing waits behind a call that was taken, missed or cancelled: the transaction that ends the ringing settles
  every follow-up that is queued behind it.
\<close>

theorem followups_settled:
  "(fst (claim_tx i u session at t) \<noteq> None \<longrightarrow> findFollowups i (snd (claim_tx i u session at t)) = []) \<and>
   (fst (miss_tx i at t) \<longrightarrow> findFollowups i (snd (miss_tx i at t)) = []) \<and>
   ((i, u) \<in> set (fst (cancel_tx key e only reason at t)) \<longrightarrow> findFollowups i (snd (cancel_tx key e only reason at t)) = [])"
proof (intro conjI)
  show "fst (claim_tx i u session at t) \<noteq> None \<longrightarrow> findFollowups i (snd (claim_tx i u session at t)) = []"
    by (auto simp: claim_tx_def split_def Let_def settled_none)
  show "fst (miss_tx i at t) \<longrightarrow> findFollowups i (snd (miss_tx i at t)) = []"
    by (auto simp: miss_tx_def split_def Let_def settled_none)
  show "(i, u) \<in> set (fst (cancel_tx key e only reason at t)) \<longrightarrow> findFollowups i (snd (cancel_tx key e only reason at t)) = []"
    using settle_all_none [of i "fst (cancelRingingForKey key e only reason at t)"]
    by (force simp: cancel_tx_def split_def Let_def)
qed

lemma find_settle_other:
  "call_findById f t = Some q \<Longrightarrow> r_parentCallId q \<noteq> p \<or> r_state q \<noteq> Queued \<Longrightarrow>
    call_findById f (snd (settleFollowups p s now t)) = Some q"
  by (auto simp: find_settle)

lemma find_settle_all_other:
  "call_findById f t = Some q \<Longrightarrow> r_parentCallId q \<notin> fst ` set cs \<Longrightarrow>
    call_findById f (foldl (\<lambda>u (i, _). snd (settleFollowups i Missed now u)) t cs) = Some q"
  by (induction cs arbitrary: t) (auto simp: split_def find_settle_other)

lemma update_misses:
  assumes "call_findById f t = Some q" "\<not> P q" "\<And>r. r_id (g r) = r_id r"
  shows "call_findById f (snd (update_where P g t)) = Some q"
  using find_update [of g f P t] assms by simp

lemma queued_untouched:
  assumes "call_findById f t = Some q" "r_state q = Queued"
  shows "call_findById f (snd (claim_stmt i u session now t)) = Some q"
    "call_findById f (snd (markMissed i now t)) = Some q"
    "call_findById f (snd (end_stmt i u s now t)) = Some q"
    "call_findById f (snd (declineRinging i u now t)) = Some q"
    "call_findById f (snd (markPushed i now t)) = Some q"
    "call_findById f (snd (cancelRingingForKey key e only reason now t)) = Some q"
    "call_findById f (snd (closeStaleByIds ids now t)) = Some q"
proof -
  note miss = update_misses [OF assms(1)]
  show "call_findById f (snd (claim_stmt i u session now t)) = Some q"
    unfolding claim_stmt_def by (rule miss) (simp_all add: assms(2))
  show "call_findById f (snd (markMissed i now t)) = Some q"
    unfolding markMissed_def by (rule miss) (simp_all add: assms(2))
  show "call_findById f (snd (end_stmt i u s now t)) = Some q"
    unfolding end_stmt_def by (rule miss) (simp_all add: assms(2))
  show "call_findById f (snd (declineRinging i u now t)) = Some q"
    unfolding declineRinging_def by (rule miss) (simp_all add: assms(2))
  show "call_findById f (snd (markPushed i now t)) = Some q"
    unfolding markPushed_def by (rule miss) (simp_all add: assms(2))
  show "call_findById f (snd (cancelRingingForKey key e only reason now t)) = Some q"
    unfolding cancelRingingForKey_def snd_conv by (rule miss) (simp_all add: assms(2) cancels_def)
  have "call_findById f (snd (update_where (\<lambda>r. r_state r \<in> {Answered, Injected} \<and> r_id r \<in> set ids)
      (\<lambda>r. r\<lparr>r_state := Completed, r_endedAt := now\<rparr>) t)) = Some q"
    by (rule miss) (simp_all add: assms(2))
  then show "call_findById f (snd (closeStaleByIds ids now t)) = Some q"
    using assms(1) by (simp add: closeStaleByIds_def Let_def)
qed

lemma parent_not_hit:
  assumes "store_wf t" "not_ringing p t" "r \<in> set (t_rows t)" "r_state r = Ringing"
  shows "r_id r \<noteq> p"
  using assms by (auto simp: not_ringing_def find_by_id_iff)

lemma orphan_step:
  assumes "store_wf t" "engine_op op" "call_findById f t = Some q" "r_state q = Queued"
    "not_ringing (r_parentCallId q) t"
  shows "call_findById f (store_step op t) = Some q"
proof (cases op)
  case (OpCreate n)
  then show ?thesis
    using find_insert [OF assms(1), of f] find_below_next [OF assms(1,3)] assms(3) by (simp add: call_create_stmt_def)
next
  case (OpOpenRinging n at)
  have "call_findById f (snd (createRinging n t)) = Some q"
    using find_insert [OF assms(1), of f] find_below_next [OF assms(1,3)] assms(3) by (simp add: createRinging_def)
  then show ?thesis
    using OpOpenRinging assms(3) queued_untouched(5) [OF _ assms(4)]
    by (simp add: openRinging_tx_def split_def split: prod.split option.split)
next
  case (OpPushRing i at)
  then show ?thesis
    using queued_untouched(5) [OF assms(3,4)] assms(3) by (simp add: pushRing_tx_def split_def Let_def)
next
  case (OpDecline i u at)
  then show ?thesis
    using queued_untouched(4) [OF assms(3,4)] assms(3) by (simp add: decline_tx_def split_def Let_def)
next
  case (OpMiss i at)
  have "r_parentCallId q \<noteq> i" if "fst (markMissed i at t) \<noteq> 0"
    using that parent_not_hit [OF assms(1,5)] unfolding markMissed_def update_where_hits by blast
  then show ?thesis
    using OpMiss queued_untouched(2) [OF assms(3,4), of i at] assms(3)
    by (auto simp: miss_tx_def split_def Let_def find_settle_other)
next
  case (OpClaim i u session at)
  have "r_parentCallId q \<noteq> i" if "fst (claim_stmt i u session at t) \<noteq> 0"
    using that parent_not_hit [OF assms(1,5)] unfolding claim_stmt_def update_where_hits by blast
  then show ?thesis
    using OpClaim queued_untouched(1) [OF assms(3,4), of i u session at] assms(3)
    by (auto simp: claim_tx_def split_def Let_def find_settle_other)
next
  case (OpEnd i u at)
  then show ?thesis using queued_untouched(3) [OF assms(3,4)] by simp
next
  case (OpCancel key e only reason at)
  have "r_parentCallId q \<notin> fst ` set (fst (cancelRingingForKey key e only reason at t))"
    using parent_not_hit [OF assms(1,5)] by (force simp: cancelRingingForKey_def cancels_def)
  from find_settle_all_other [OF queued_untouched(6) [OF assms(3,4)] this, of at] show ?thesis
    using OpCancel by (simp add: cancel_tx_def split_def Let_def)
next
  case (OpCloseStale ids at)
  then show ?thesis using queued_untouched(7) [OF assms(3,4)] by simp
next
  case (OpPurge before)
  then show ?thesis using find_purge [OF assms(1), of f before] assms(3,4) by simp
qed

lemma orphan_stays:
  assumes "store_wf t" "list_all engine_op ops" "call_findById f t = Some q" "r_state q = Queued"
    "not_ringing (r_parentCallId q) t"
  shows "call_findById f (store_run ops t) = Some q"
  using assms
proof (induction ops arbitrary: t)
  case (Cons op ops)
  then show ?case
    using orphan_step [of t op f q] not_ringing_step [of t op "r_parentCallId q"] by (simp add: store_step_wf)
qed simp

text \<open>
  A declined call forgets what waits behind it. The transaction that declines a call does not settle its
  follow-ups, and nothing else ever does: after the decline a queued follow-up stays exactly as it is, through every
  later step of the engine, its purge included.
\<close>

theorem decline_strands_followups:
  assumes "store_wf t" "list_all engine_op ops" "fst (decline_tx i u at t)"
    "call_findById f t = Some q" "r_state q = Queued" "r_parentCallId q = i"
  shows "call_findById f (store_run (OpDecline i u at # ops) t) = Some q"
proof -
  let ?t = "store_step (OpDecline i u at) t"
  have hit: "fst (declineRinging i u at t) \<noteq> 0" using assms(3) by (auto simp: decline_tx_def split_def Let_def split: if_splits)
  then obtain r where r: "r \<in> set (t_rows t)" "r_id r = i" "r_userId r = u" "r_state r = Ringing" "r_expiresAt r > at"
    unfolding declineRinging_def update_where_hits by blast
  have "call_findById i t = Some r" using r find_by_id_iff [OF assms(1)] by simp
  then have i: "i < t_next ?t" "call_findById i (snd (declineRinging i u at t)) = Some (r\<lparr>r_state := Declined, r_endedAt := at\<rparr>)"
    using find_below_next [OF assms(1)] next_step [OF assms(1), of "OpDecline i u at"] r
    by (force, simp add: declineRinging_def find_update)
  then have "not_ringing i ?t" using hit by (simp add: not_ringing_def decline_tx_def split_def Let_def)
  moreover have "call_findById f ?t = Some q"
    using queued_untouched(4) [OF assms(4,5)] hit by (simp add: decline_tx_def split_def Let_def)
  ultimately show ?thesis
    using orphan_stays [OF store_step_wf [OF assms(1), of "OpDecline i u at"] assms(2) _ assms(5), of f] assms(6) by simp
qed


lemma decline_strands_followups_witness:
  "call_findById 2 (store_run (OpDecline 1 7 120 # [OpMiss 1 200, OpPurge 100000]) (store_run sample_ops empty_table)) =
    Some (row_of 2 Queued 1 (sample_create ''c'' 7 Queued 1 111))"
  by (rule decline_strands_followups [OF sample_wf _ _ sample_second])
    (simp_all add: sample_rows decline_tx_def declineRinging_def update_where_def row_of_def sample_create_def)

lemma followups_settled_witness:
  "findFollowups 1 (store_run sample_ops empty_table) \<noteq> [] \<and>
   findFollowups 1 (snd (claim_tx 1 7 ''phone'' 120 (store_run sample_ops empty_table))) = []"
proof
  have "fst (claim_tx 1 7 ''phone'' 120 (store_run sample_ops empty_table)) \<noteq> None"
    by (simp add: sample_rows claim_tx_def claim_stmt_def update_where_def Let_def row_of_def sample_create_def)
  then show "findFollowups 1 (snd (claim_tx 1 7 ''phone'' 120 (store_run sample_ops empty_table))) = []"
    using followups_settled [of 1 7 "''phone''" 120 "store_run sample_ops empty_table"] by simp
qed (simp add: sample_rows findFollowups_def row_of_def)

end
