(* ===== verification/Call_Engine.thy ===== *)
theory Call_Engine
  imports Call_Store
begin

text \<open>
  The requests of the call engine, \<open>services/notification/src/feature/call/services/call-engine.cc\<close>: considering an event
  for its recipients (\<open>prepareUser\<close>, \<open>finishUser\<close>, \<open>consider\<close>), taking a call (\<open>claim\<close>), ending it (\<open>end\<close>), missing it
  (\<open>settleMissed\<close>, \<open>supersedeRinging\<close>), the sweep over the ringing calls and the stale ones, and calls asked for in
  advance (\<open>schedule\<close> with \<open>repositories/scheduled-call\<close>, \<open>arrival\<close> with \<open>repositories/arrival-seen\<close>).

  A request suspends between its reads and its transactions; what other requests do meanwhile is an argument, a list of
  steps of the store that runs there. Signals, pushes, notices and closed rooms are a list of effects. Parameters are the
  texts of a call (\<open>call-copy.cc\<close>), the local time, the directory of users and the answers of the voice service; all ports
  are bound. The response to an alert is in the theory on responses.
\<close>

section \<open>Vocabulary\<close>

record engine_config =
  ec_enabled :: bool
  ec_callGapS :: int
  ec_maxCallsPerHour :: int
  ec_arrivalAbsenceS :: int
  ec_scheduledLateS :: int
  ec_scheduleHorizonS :: int
  ec_maxPendingScheduled :: int
  ec_answeredStaleS :: int
  ec_retentionDays :: int
  ec_fallbackLang :: string

record call_copy =
  copy_title :: string
  copy_summary :: string
  copy_openingLine :: string
  copy_missedTitle :: string
  copy_missedLine :: string
  copy_followupLine :: string

type_synonym copy_fn = "call_trigger \<Rightarrow> string \<Rightarrow> json \<Rightarrow> string \<Rightarrow> int \<Rightarrow> call_copy"

record call_recipient =
  cr_found :: bool
  cr_name :: string
  cr_lang :: string
  cr_active :: bool

datatype engine_effect =
  SignalIncoming int int
| SignalCancel int int string
| PushRing int
| PushCancel int
| PushCancelOthers int string
| NotifyUser int string string string
| CloseRoom int int string

datatype call_resolution = Rang | QueuedBehind | InjectedInto | Notified | Dropped

record user_outcome =
  uo_userId :: int
  uo_resolution :: call_resolution
  uo_reason :: string
  uo_callId :: int

datatype claim_status = ClaimClaimed | ClaimTaken | ClaimExpired | ClaimNotFound

record claim_outcome =
  co_status :: claim_status
  co_call :: "call_row option"
  co_openingLine :: string
  co_laterLines :: "string list"

datatype end_report = ReportCompleted | ReportDeclined | ReportFailed
datatype end_status = EndEnded | EndTaken | EndExpired | EndNotFound

definition kHourS :: int where "kHourS = 3600"
definition kTopicLimit :: nat where "kTopicLimit = 300"
definition kSchedulePastGraceS :: int where "kSchedulePastGraceS = 60"
definition kArrivalStaleS :: int where "kArrivalStaleS = 600"

definition call_normalizeLang :: "string \<Rightarrow> string" where
  "call_normalizeLang lang = (if lang = ''en'' then ''en'' else ''es'')"

definition langFor :: "engine_config \<Rightarrow> string \<Rightarrow> string" where
  "langFor c preferred = (if preferred = ''es'' \<or> preferred = ''en'' then preferred else call_normalizeLang (ec_fallbackLang c))"

fun joinFollowups :: "string \<Rightarrow> string list \<Rightarrow> string" where
  "joinFollowups line [] = line"
| "joinFollowups line (f # fs) =
     (if f = [] then joinFollowups line fs else joinFollowups ((if line \<noteq> [] then line @ '' '' else line) @ f) fs)"

section \<open>Taking a call\<close>

definition no_claim :: "claim_status \<Rightarrow> claim_outcome" where
  "no_claim s = \<lparr>co_status = s, co_call = None, co_openingLine = [], co_laterLines = []\<rparr>"

definition json_string :: "json \<Rightarrow> string" where
  "json_string v = (case v of JText s \<Rightarrow> s | _ \<Rightarrow> [])"

definition stored_lines :: "json \<Rightarrow> string list" where
  "stored_lines d = (case json_field d ''laterLines'' of JArray vs \<Rightarrow> map json_string vs | _ \<Rightarrow> [])"

text \<open>The stored lines are put in front of the others one by one.\<close>

definition claim_lines :: "copy_fn \<Rightarrow> call_row \<Rightarrow> call_row list \<Rightarrow> int \<Rightarrow> string list" where
  "claim_lines render existing followups at =
     fold (#) (stored_lines (r_data existing))
       (map (\<lambda>f. copy_followupLine (render (r_trigger f) (r_lang existing) (r_data f) [] at)) followups)"

definition call_claim ::
  "copy_fn \<Rightarrow> store_op list \<Rightarrow> store_op list \<Rightarrow> string \<Rightarrow> int \<Rightarrow> string \<Rightarrow> int \<Rightarrow> call_table \<Rightarrow>
   (claim_outcome \<times> engine_effect list) \<times> call_table" where
  "call_claim render others later callId userId session at t =
     (let i = parse_call_id callId
      in if i \<le> 0 \<or> userId \<le> 0 then ((no_claim ClaimNotFound, []), t)
         else case call_findById i t of
           None \<Rightarrow> ((no_claim ClaimNotFound, []), t)
         | Some existing \<Rightarrow>
             if r_userId existing \<noteq> userId \<or> r_parentCallId existing \<noteq> 0 \<or> r_state existing = Injected \<or> r_state existing = Queued
             then ((no_claim ClaimNotFound, []), t)
             else if r_state existing = Answered \<and> session \<noteq> [] \<and> r_answeredSession existing = session
             then ((\<lparr>co_status = ClaimClaimed, co_call = Some existing, co_openingLine = r_openingLine existing, co_laterLines = []\<rparr>, []), t)
             else if r_state existing \<noteq> Ringing
             then ((no_claim (if r_state existing = Missed then ClaimExpired else ClaimTaken), []), t)
             else if r_expiresAt existing \<le> at then ((no_claim ClaimExpired, []), t)
             else let t1 = store_run others t
                  in case claim_tx i userId session at t1 of
                       (None, t2) \<Rightarrow>
                         (let t3 = store_run later t2
                          in ((no_claim (case call_findById i t3 of Some raced \<Rightarrow> if r_state raced = Missed then ClaimExpired else ClaimTaken
                               | None \<Rightarrow> ClaimTaken), []), t3))
                     | (Some followups, t2) \<Rightarrow>
                         ((\<lparr>co_status = ClaimClaimed,
                            co_call = Some (existing\<lparr>r_state := Answered, r_answeredAt := at, r_answeredSession := session\<rparr>),
                            co_openingLine = r_openingLine existing, co_laterLines = claim_lines render existing followups at\<rparr>,
                           [PushCancelOthers i session, SignalCancel userId i ''answered_elsewhere'']), t2))"

section \<open>Ending a call\<close>

definition call_end ::
  "store_op list \<Rightarrow> string \<Rightarrow> int \<Rightarrow> end_report \<Rightarrow> string \<Rightarrow> int \<Rightarrow> call_table \<Rightarrow> (end_status \<times> engine_effect list) \<times> call_table" where
  "call_end others callId userId report session at t =
     (let i = parse_call_id callId
      in if i \<le> 0 \<or> userId \<le> 0 then ((EndNotFound, []), t)
         else case call_findById i t of
           None \<Rightarrow> ((EndNotFound, []), t)
         | Some existing \<Rightarrow>
             if r_userId existing \<noteq> userId then ((EndNotFound, []), t)
             else if r_state existing = Ringing
             then if r_expiresAt existing \<le> at then ((EndExpired, []), t)
                  else if report \<noteq> ReportDeclined then ((EndNotFound, []), t)
                  else (case decline_tx i (r_userId existing) at (store_run others t) of
                          (False, t2) \<Rightarrow> ((EndTaken, []), t2)
                        | (True, t2) \<Rightarrow> ((EndEnded, [PushCancel i, SignalCancel userId i ''declined'']), t2))
             else if r_state existing = Answered
             then if report = ReportDeclined \<and> session \<noteq> [] \<and> r_answeredSession existing \<noteq> session then ((EndTaken, []), t)
                  else (case end_stmt i userId Completed at (store_run others t) of
                          (n, t2) \<Rightarrow> if n = 0 then ((EndTaken, []), t2)
                            else ((EndEnded, [PushCancel i, CloseRoom userId i ''ended'', SignalCancel userId i ''ended'']), t2))
             else if r_state existing = Completed \<or> r_state existing = Declined then ((EndEnded, []), t)
             else if r_state existing = Missed then ((EndExpired, []), t)
             else ((EndNotFound, []), t))"

section \<open>Missing a call\<close>

definition settleMissed ::
  "copy_fn \<Rightarrow> store_op list \<Rightarrow> call_row \<Rightarrow> string \<Rightarrow> int \<Rightarrow> bool \<Rightarrow> call_table \<Rightarrow> engine_effect list \<times> call_table" where
  "settleMissed render others call cancelReason now notify t =
     (let followups = findFollowups (r_id call) t
      in case miss_tx (r_id call) now (store_run others t) of
           (False, t2) \<Rightarrow> ([], t2)
         | (True, t2) \<Rightarrow>
             ([PushCancel (r_id call), SignalCancel (r_userId call) (r_id call) cancelReason] @
              (if notify
               then [NotifyUser (r_userId call) ''call''
                 (joinFollowups (r_missedLine call)
                   (map (\<lambda>f. copy_followupLine (render (r_trigger f) (r_lang call) (r_data f) [] now)) followups))
                 (''call-missed:'' @ format_call_id (r_id call))]
               else []), t2))"

definition supersedeRinging ::
  "copy_fn \<Rightarrow> store_op list \<Rightarrow> call_row \<Rightarrow> int \<Rightarrow> call_table \<Rightarrow> (string list \<times> engine_effect list) \<times> call_table" where
  "supersedeRinging render others parent at t =
     (let line = (\<lambda>f. copy_followupLine (render (r_trigger f) (r_lang parent) (r_data f) [] at));
          (effects, t2) = settleMissed render others parent ''superseded'' at False t
      in ((line parent # map line (findFollowups (r_id parent) t), effects), t2))"

section \<open>Considering an event\<close>

record call_member =
  cm_notifyOnly :: bool
  cm_mandatory :: bool
  cm_discreet :: bool

record prepared_call =
  pc_outcome :: user_outcome
  pc_settled :: bool
  pc_verdict :: call_verdict
  pc_askedReminder :: bool
  pc_lang :: string
  pc_copy :: call_copy
  pc_stored :: json
  pc_row :: call_create
  pc_ringing :: "call_row option"

record user_context =
  uc_userId :: int
  uc_recipient :: call_recipient
  uc_preference :: call_preference

definition policy_input ::
  "engine_config \<Rightarrow> (int \<Rightarrow> int \<times> int) \<Rightarrow> call_candidate \<Rightarrow> call_member option \<Rightarrow> user_context \<Rightarrow> int \<Rightarrow> call_table \<Rightarrow> call_policy_input" where
  "policy_input c localAt cand m u now t =
     (let (lastAt, recent) = ringStats (uc_userId u) (now - kHourS) t
      in \<lparr>pi_trigger = cc_trigger cand, pi_critical = cc_critical cand, pi_preference = uc_preference u,
          pi_localHour = fst (localAt now), pi_localWeekday = snd (localAt now), pi_now = now,
          pi_environmentId = cc_environmentId cand, pi_alreadyCalled = call_exists (cc_dedupeKey cand) (uc_userId u) t,
          pi_ringing = (findRingingFor (uc_userId u) now t \<noteq> None), pi_lastCallAt = lastAt, pi_callsLastHour = int recent,
          pi_limits = \<lparr>cl_enabled = ec_enabled c, cl_callGapS = ec_callGapS c, cl_maxCallsPerHour = ec_maxCallsPerHour c\<rparr>,
          pi_planNotify = (case m of Some x \<Rightarrow> cm_notifyOnly x | None \<Rightarrow> False),
          pi_mandatory = (case m of Some x \<Rightarrow> cm_mandatory x | None \<Rightarrow> False)\<rparr>)"

text \<open>\<open>None\<close> is the recipient that is not active: the outcome is dropped and settled, with no verdict.\<close>

definition prepareUser ::
  "copy_fn \<Rightarrow> engine_config \<Rightarrow> (int \<Rightarrow> int \<times> int) \<Rightarrow> call_candidate \<Rightarrow> call_member option \<Rightarrow> user_context \<Rightarrow> int \<Rightarrow> call_table \<Rightarrow>
   prepared_call option" where
  "prepareUser render c localAt cand m u now t =
     (if cr_found (uc_recipient u) \<and> \<not> cr_active (uc_recipient u) then None
      else let verdict = call_decide (policy_input c localAt cand m u now t);
               preference = uc_preference u;
               lang = langFor c (if cp_lang preference \<noteq> [] then cp_lang preference
                                 else if cr_lang (uc_recipient u) \<noteq> [] then cr_lang (uc_recipient u) else cc_lang cand);
               stored0 = (if json_isObject (cc_data cand) then cc_data cand else JObject []);
               stored1 = (case m of Some x \<Rightarrow> if cm_discreet x then json_set stored0 ''discreet'' (JBool True) else stored0
                          | None \<Rightarrow> stored0);
               copy = render (cc_trigger cand) lang stored1 (cr_name (uc_recipient u)) now;
               stored = json_set stored1 ''callMissedTitle'' (JText (copy_missedTitle copy));
               askedReminder = (cc_trigger cand = AssistantTrigger \<and> cv_reason verdict = ''trigger_off'')
           in Some \<lparr>pc_outcome = \<lparr>uo_userId = uc_userId u, uo_resolution = Dropped, uo_reason = cv_reason verdict, uo_callId = 0\<rparr>,
                    pc_settled = (cv_decision verdict = DecideDrop \<and> \<not> askedReminder),
                    pc_verdict = verdict, pc_askedReminder = askedReminder, pc_lang = lang, pc_copy = copy, pc_stored = stored,
                    pc_row = \<lparr>n_userId = uc_userId u, n_dedupeKey = cc_dedupeKey cand, n_trigger = cc_trigger cand,
                       n_state = Ringing, n_reason = cv_reason verdict, n_parentCallId = 0,
                       n_urgency = (if cc_urgency cand = [] then ''active'' else cc_urgency cand), n_lang = lang,
                       n_title = copy_title copy, n_summary = copy_summary copy, n_openingLine = copy_openingLine copy,
                       n_missedLine = copy_missedLine copy, n_data = stored, n_createdAt = now,
                       n_expiresAt = now + ringSecondsClamped preference, n_pushAfter = now + pushDelayClamped preference\<rparr>,
                    pc_ringing = findRingingFor (uc_userId u) now t\<rparr>)"

definition queue_behind :: "call_create \<Rightarrow> call_row \<Rightarrow> call_create" where
  "queue_behind row parent =
     row\<lparr>n_state := Queued, n_parentCallId := r_id parent, n_reason := ''ringing'', n_expiresAt := r_expiresAt parent\<rparr>"

definition finish_queue ::
  "user_outcome \<Rightarrow> call_create \<Rightarrow> call_row option \<Rightarrow> int \<Rightarrow> call_table \<Rightarrow> (user_outcome \<times> engine_effect list) \<times> call_table" where
  "finish_queue outcome row ringing now t =
     (case (case ringing of Some p \<Rightarrow> Some p | None \<Rightarrow> findRingingFor (uo_userId outcome) now t) of
        None \<Rightarrow> ((outcome\<lparr>uo_resolution := Dropped, uo_reason := ''ring_race''\<rparr>, []), t)
      | Some parent \<Rightarrow>
          (case call_create_stmt (queue_behind row parent) t of
             (None, t2) \<Rightarrow> ((outcome\<lparr>uo_resolution := Dropped, uo_reason := ''already_called'', uo_callId := 0\<rparr>, []), t2)
           | (Some i, t2) \<Rightarrow> ((outcome\<lparr>uo_resolution := QueuedBehind, uo_reason := ''ringing'', uo_callId := i\<rparr>, []), t2)))"

text \<open>What a ringing verdict does before the row is opened.\<close>

definition ring_before ::
  "copy_fn \<Rightarrow> store_op list \<Rightarrow> prepared_call \<Rightarrow> int \<Rightarrow> call_table \<Rightarrow> (call_create \<times> engine_effect list) \<times> call_table" where
  "ring_before render others p now t =
     (case (cv_decision (pc_verdict p), pc_ringing p) of
        (DecideSupersede, Some parent) \<Rightarrow>
          (let ((lines, es), u) = supersedeRinging render others parent now t
           in (((pc_row p)\<lparr>n_data := json_set (pc_stored p) ''laterLines'' (JArray (map JText lines))\<rparr>, es), u))
      | _ \<Rightarrow> ((pc_row p, []), store_run others t))"

text \<open>A ringing verdict: the row is opened, or somebody was faster.\<close>

definition finish_ring ::
  "copy_fn \<Rightarrow> store_op list \<Rightarrow> call_candidate \<Rightarrow> prepared_call \<Rightarrow> int \<Rightarrow> call_table \<Rightarrow> (user_outcome \<times> engine_effect list) \<times> call_table" where
  "finish_ring render others cand p now t =
     (let outcome = pc_outcome p; b = ring_before render others p now t; row = fst (fst b); before = snd (fst b);
          r = openRinging_tx row now (snd b)
      in case fst r of
           Some i \<Rightarrow> ((outcome\<lparr>uo_resolution := Rang, uo_callId := i\<rparr>,
              before @ (if n_pushAfter row \<le> now then [PushRing i] else []) @ [SignalIncoming (uo_userId outcome) i]), snd r)
         | None \<Rightarrow>
             if call_exists (cc_dedupeKey cand) (uo_userId outcome) (snd r)
             then ((outcome\<lparr>uo_reason := ''already_called''\<rparr>, before), snd r)
             else let q = finish_queue outcome row (pc_ringing p) now (snd r)
                  in ((fst (fst q), before @ snd (fst q)), snd q))"

definition finishUser ::
  "copy_fn \<Rightarrow> store_op list \<Rightarrow> call_candidate \<Rightarrow> bool \<Rightarrow> prepared_call \<Rightarrow> bool option \<Rightarrow> int \<Rightarrow> call_table \<Rightarrow>
   (user_outcome \<times> engine_effect list) \<times> call_table" where
  "finishUser render others cand notificationExists p heard now t =
     (let outcome = pc_outcome p; userId = uo_userId outcome; row = pc_row p; decision = cv_decision (pc_verdict p)
      in if cv_injectable (pc_verdict p) \<and> heard = Some True
         then case call_create_stmt (row\<lparr>n_state := Injected, n_reason := ''live_call'', n_expiresAt := now\<rparr>) t of
                (i, t2) \<Rightarrow> ((outcome\<lparr>uo_resolution := InjectedInto, uo_reason := ''live_call'',
                              uo_callId := (case i of Some x \<Rightarrow> x | None \<Rightarrow> 0)\<rparr>, []), t2)
         else if decision = DecideNotify \<or> pc_askedReminder p
         then ((outcome\<lparr>uo_resolution := Notified\<rparr>,
                if notificationExists then []
                else [NotifyUser userId (if cc_trigger cand = GuardArrival then ''camera'' else ''reminder'') (copy_summary (pc_copy p))
                        (''call-notice:'' @ cc_dedupeKey cand @ '':'' @ to_string userId)]), t)
         else if decision = DecideRing \<or> decision = DecideSupersede then finish_ring render others cand p now t
         else finish_queue outcome row (pc_ringing p) now (store_run others t))"

text \<open>The recipients: positive, each once.\<close>

fun distinct_users :: "int list \<Rightarrow> int list \<Rightarrow> int list" where
  "distinct_users found [] = found"
| "distinct_users found (u # us) = distinct_users (if u > 0 \<and> u \<notin> set found then found @ [u] else found) us"

text \<open>The probes of the voice service lie between preparing everybody and finishing them one after another.\<close>

definition finish_one ::
  "copy_fn \<Rightarrow> call_candidate \<Rightarrow> bool \<Rightarrow> (int \<Rightarrow> bool option) \<Rightarrow> int \<Rightarrow>
   (user_outcome list \<times> engine_effect list) \<times> call_table \<Rightarrow> int \<times> prepared_call option \<Rightarrow>
   (user_outcome list \<times> engine_effect list) \<times> call_table" where
  "finish_one render cand notificationExists heard now = (\<lambda>((outs, es), t) (u, prepared).
     case prepared of
       None \<Rightarrow> ((outs @ [\<lparr>uo_userId = u, uo_resolution = Dropped, uo_reason = ''inactive'', uo_callId = 0\<rparr>], es), t)
     | Some p \<Rightarrow>
         if pc_settled p then ((outs @ [pc_outcome p], es), t)
         else case finishUser render [] cand notificationExists p (if cv_injectable (pc_verdict p) then heard u else None) now t of
                ((o1, e1), t1) \<Rightarrow> ((outs @ [o1], es @ e1), t1))"

definition consider_users ::
  "copy_fn \<Rightarrow> engine_config \<Rightarrow> (int \<Rightarrow> int \<times> int) \<Rightarrow> (int \<Rightarrow> call_preference option) \<Rightarrow> (int \<Rightarrow> call_recipient) \<Rightarrow> (int \<Rightarrow> call_member option) \<Rightarrow>
   (int \<Rightarrow> bool option) \<Rightarrow> store_op list \<Rightarrow> call_candidate \<Rightarrow> int list \<Rightarrow> bool \<Rightarrow> int \<Rightarrow> call_table \<Rightarrow>
   (user_outcome list \<times> engine_effect list) \<times> call_table" where
  "consider_users render c localAt prefs directory member_of heard others cand userIds notificationExists now t =
     (let users = distinct_users [] userIds
      in if users = [] \<or> cc_dedupeKey cand = [] then (([], []), t)
         else let context = (\<lambda>u. \<lparr>uc_userId = u, uc_recipient = directory u,
                    uc_preference = (case prefs u of Some p \<Rightarrow> p | None \<Rightarrow> defaultsFor u)\<rparr>);
                  prepared = map (\<lambda>u. (u, prepareUser render c localAt cand (member_of u) (context u) now t)) users
              in foldl (finish_one render cand notificationExists heard now) (([], []), store_run others t) prepared)"

section \<open>The sweep\<close>

definition sweep_call ::
  "copy_fn \<Rightarrow> (int \<Rightarrow> store_op list) \<Rightarrow> int \<Rightarrow> (int \<times> int) \<times> engine_effect list \<times> call_table \<Rightarrow> call_row \<Rightarrow>
   (int \<times> int) \<times> engine_effect list \<times> call_table" where
  "sweep_call render others at = (\<lambda>((pushed, missed), es, t) call.
     let t1 = store_run (others (r_id call)) t
     in if r_expiresAt call \<le> at
        then (case settleMissed render [] call ''expired'' at True t1 of (e, t2) \<Rightarrow> ((pushed, missed + 1), es @ e, t2))
        else if r_pushedAt call = 0 \<and> r_pushAfter call \<le> at
        then (case pushRing_tx (r_id call) at t1 of
                (True, t2) \<Rightarrow> ((pushed + 1, missed), es @ [PushRing (r_id call)], t2)
              | (False, t2) \<Rightarrow> ((pushed, missed), es, t2))
        else ((pushed, missed), es, t1))"

definition sweep_ringing ::
  "copy_fn \<Rightarrow> (int \<Rightarrow> store_op list) \<Rightarrow> int \<Rightarrow> call_table \<Rightarrow> (int \<times> int) \<times> engine_effect list \<times> call_table" where
  "sweep_ringing render others at t = foldl (sweep_call render others at) ((0, 0), [], t) (findRinging t)"

text \<open>The room of a stale call is asked whether it is empty; \<open>room\<close> answers \<open>(ok, closed)\<close>.\<close>

definition closeStaleCalls ::
  "engine_config \<Rightarrow> (int \<Rightarrow> bool \<times> bool) \<Rightarrow> store_op list \<Rightarrow> int \<Rightarrow> call_table \<Rightarrow> (nat \<times> engine_effect list) \<times> call_table" where
  "closeStaleCalls c room others at t =
     (let before = at - ec_answeredStaleS c;
          closable = filter (\<lambda>r. fst (room (r_id r)) \<and> snd (room (r_id r))) (findStale before before t)
      in if closable = [] then ((0, []), store_run others t)
         else case closeStaleByIds (map r_id closable) at (store_run others t) of
                (updated, t2) \<Rightarrow>
                  let closed = filter (\<lambda>r. r_id r \<in> set updated) closable
                  in ((length updated, map (\<lambda>r. PushCancel (r_id r)) closed @
                         map (\<lambda>r. SignalCancel (r_userId r) (r_id r) ''expired'') closed), t2))"

section \<open>Calls asked for in advance\<close>

datatype sched_state = SchedPending | SchedFired | SchedCanceled

record sched_row =
  sr_id :: int
  sr_userId :: int
  sr_commandId :: string
  sr_fireAt :: int
  sr_topic :: string
  sr_lang :: string
  sr_state :: sched_state
  sr_createdAt :: int
  sr_firedAt :: int

record sched_table =
  st_rows :: "sched_row list"
  st_next :: int

record sched_result =
  sx_id :: int
  sx_duplicate :: bool
  sx_conflict :: bool

definition sched_create :: "int \<Rightarrow> string \<Rightarrow> int \<Rightarrow> string \<Rightarrow> string \<Rightarrow> int \<Rightarrow> sched_table \<Rightarrow> sched_result \<times> sched_table" where
  "sched_create userId commandId fireAt topic lang createdAt t =
     (case find (\<lambda>r. sr_commandId r = commandId) (st_rows t) of
        None \<Rightarrow>
          (\<lparr>sx_id = st_next t, sx_duplicate = False, sx_conflict = False\<rparr>,
           \<lparr>st_rows = st_rows t @ [\<lparr>sr_id = st_next t, sr_userId = userId, sr_commandId = commandId, sr_fireAt = fireAt,
              sr_topic = topic, sr_lang = lang, sr_state = SchedPending, sr_createdAt = createdAt, sr_firedAt = 0\<rparr>],
            st_next = st_next t + 1\<rparr>)
      | Some row \<Rightarrow>
          (let same = (sr_userId row = userId \<and> sr_fireAt row = fireAt \<and> sr_topic row = topic)
           in (\<lparr>sx_id = sr_id row, sx_duplicate = same, sx_conflict = \<not> same\<rparr>, t)))"

definition pendingCount :: "int \<Rightarrow> sched_table \<Rightarrow> nat" where
  "pendingCount userId t = length (filter (\<lambda>r. sr_userId r = userId \<and> sr_state r = SchedPending) (st_rows t))"

definition sched_due :: "int \<Rightarrow> nat \<Rightarrow> sched_table \<Rightarrow> sched_row list" where
  "sched_due now limit t = take limit (sort_key sr_fireAt (filter (\<lambda>r. sr_state r = SchedPending \<and> sr_fireAt r \<le> now) (st_rows t)))"

definition markFired :: "int \<Rightarrow> int \<Rightarrow> sched_table \<Rightarrow> bool \<times> sched_table" where
  "markFired i now t =
     (let P = (\<lambda>r. sr_id r = i \<and> sr_state r = SchedPending)
      in (filter P (st_rows t) \<noteq> [],
          t\<lparr>st_rows := map (\<lambda>r. if P r then r\<lparr>sr_state := SchedFired, sr_firedAt := now\<rparr> else r) (st_rows t)\<rparr>))"

definition sched_purge :: "int \<Rightarrow> sched_table \<Rightarrow> nat \<times> sched_table" where
  "sched_purge createdBefore t =
     (let gone = (\<lambda>r. sr_state r \<noteq> SchedPending \<and> sr_createdAt r < createdBefore)
      in (length (filter gone (st_rows t)), t\<lparr>st_rows := filter (\<lambda>r. \<not> gone r) (st_rows t)\<rparr>))"

datatype schedule_status =
  Scheduled | ScheduleDuplicate | ScheduleConflict | ScheduleInvalid | ScheduleTooMany | ScheduleInPast | ScheduleTooFar

definition call_schedule ::
  "engine_config \<Rightarrow> int \<Rightarrow> string \<Rightarrow> int \<Rightarrow> string \<Rightarrow> string \<Rightarrow> int \<Rightarrow> sched_table \<Rightarrow> (schedule_status \<times> int) \<times> sched_table" where
  "call_schedule c userId commandId fireAt topic lang at t =
     (if userId \<le> 0 \<or> commandId = [] \<or> length commandId > 128 then ((ScheduleInvalid, 0), t)
      else if topic = [] \<or> length topic > kTopicLimit then ((ScheduleInvalid, 0), t)
      else if fireAt < at - kSchedulePastGraceS then ((ScheduleInPast, 0), t)
      else if fireAt > at + ec_scheduleHorizonS c then ((ScheduleTooFar, 0), t)
      else if int (pendingCount userId t) \<ge> ec_maxPendingScheduled c then ((ScheduleTooMany, 0), t)
      else case sched_create userId commandId (max fireAt at) topic (langFor c lang) at t of
             (x, t2) \<Rightarrow>
               ((if sx_conflict x then ScheduleConflict else if sx_duplicate x then ScheduleDuplicate
                 else if sx_id x > 0 then Scheduled else ScheduleInvalid, sx_id x), t2))"

text \<open>One due row of the sweep: nothing when another sweep fired it, a notice when it is late, a call otherwise.\<close>

datatype due_action = DueSkipped | DueLate sched_row | DueCall sched_row

definition fire_due :: "engine_config \<Rightarrow> int \<Rightarrow> sched_row \<Rightarrow> sched_table \<Rightarrow> due_action \<times> sched_table" where
  "fire_due c at due t =
     (case markFired (sr_id due) at t of
        (False, t2) \<Rightarrow> (DueSkipped, t2)
      | (True, t2) \<Rightarrow> (if at - sr_fireAt due > ec_scheduledLateS c then DueLate due else DueCall due, t2))"

section \<open>Arrivals\<close>

definition lastSeen :: "int \<Rightarrow> (int \<rightharpoonup> int) \<Rightarrow> int" where
  "lastSeen personId m = (case m personId of None \<Rightarrow> 0 | Some s \<Rightarrow> s)"

definition arrival_touch :: "int \<Rightarrow> int \<Rightarrow> (int \<rightharpoonup> int) \<Rightarrow> (int \<rightharpoonup> int)" where
  "arrival_touch personId seenAt m =
     (case m personId of None \<Rightarrow> m(personId \<mapsto> seenAt) | Some s \<Rightarrow> if seenAt > s then m(personId \<mapsto> seenAt) else m)"

text \<open>Whether an arrival is announced, and the memory of who was seen after it.\<close>

definition arrival :: "engine_config \<Rightarrow> int \<Rightarrow> int \<Rightarrow> int \<Rightarrow> (int \<rightharpoonup> int) \<Rightarrow> bool \<times> (int \<rightharpoonup> int)" where
  "arrival c personId at now m =
     (if personId \<le> 0 \<or> at \<le> 0 then (False, m)
      else let previous = lastSeen personId m;
               afterAbsence = (previous = 0 \<or> at - previous \<ge> ec_arrivalAbsenceS c);
               recent = (now - at \<le> kArrivalStaleS)
           in (afterAbsence \<and> recent, arrival_touch personId at m))"


section \<open>Every request is a sequence of the store's steps\<close>

definition engine_reaches :: "call_table \<Rightarrow> call_table \<Rightarrow> bool" where
  "engine_reaches t t' \<longleftrightarrow> (\<exists>ops. list_all engine_op ops \<and> t' = store_run ops t)"

lemma reaches_refl [simp]: "engine_reaches t t"
  unfolding engine_reaches_def by (rule exI [of _ "[]"]) simp

lemma reaches_trans: "engine_reaches t t' \<Longrightarrow> engine_reaches t' t'' \<Longrightarrow> engine_reaches t t''"
  unfolding engine_reaches_def by (metis list_all_append store_run_append)

lemma reaches_run: "list_all engine_op ops \<Longrightarrow> engine_reaches t (store_run ops t)"
  unfolding engine_reaches_def by blast

lemma reaches_step: "engine_op op \<Longrightarrow> engine_reaches t (store_step op t)"
  using reaches_run [of "[op]" t] by simp

lemmas reaches_txs =
  reaches_step [of "OpClaim i u s at" for i u s at, simplified]
  reaches_step [of "OpDecline i u at" for i u at, simplified]
  reaches_step [of "OpEnd i u at" for i u at, simplified]
  reaches_step [of "OpMiss i at" for i at, simplified]
  reaches_step [of "OpPushRing i at" for i at, simplified]
  reaches_step [of "OpOpenRinging n at" for n at, simplified]
  reaches_step [of "OpCloseStale ids at" for ids at, simplified]

lemma reaches_create: "n_state n = Injected \<or> n_state n = Queued \<Longrightarrow> engine_reaches t (snd (call_create_stmt n t))"
  using reaches_step [of "OpCreate n" t] by simp

lemma reaches_wf: "engine_reaches t t' \<Longrightarrow> store_wf t \<Longrightarrow> store_wf t'"
  unfolding engine_reaches_def using store_run_wf by blast

lemma call_claim_reaches:
  assumes "list_all engine_op others" "list_all engine_op later"
  shows "engine_reaches t (snd (call_claim render others later callId u session at t))"
proof -
  have "engine_reaches t (snd (claim_tx i u session at (store_run others t)))" for i
    by (rule reaches_trans [OF reaches_run [OF assms(1)] reaches_txs(1)])
  then show ?thesis
    using reaches_trans [OF _ reaches_run [OF assms(2)]]
    by (auto simp: call_claim_def Let_def split: option.split prod.split) (metis snd_conv)+
qed

lemma call_end_reaches:
  assumes "list_all engine_op others"
  shows "engine_reaches t (snd (call_end others callId u report session at t))"
proof -
  have "engine_reaches t (snd (decline_tx i v at (store_run others t)))"
    "engine_reaches t (snd (end_stmt i v Completed at (store_run others t)))" for i v
    by (rule reaches_trans [OF reaches_run [OF assms(1)]], rule reaches_txs)+
  then show ?thesis
    by (auto simp: call_end_def Let_def split: option.split prod.split bool.split) (metis snd_conv)+
qed

lemma settleMissed_reaches:
  assumes "list_all engine_op others"
  shows "engine_reaches t (snd (settleMissed render others call reason now notify t))"
proof -
  have "engine_reaches t (snd (miss_tx i now (store_run others t)))" for i
    by (rule reaches_trans [OF reaches_run [OF assms(1)]], rule reaches_txs)
  then show ?thesis
    by (auto simp: settleMissed_def Let_def split: prod.split bool.split) (metis snd_conv)+
qed

lemma supersede_reaches:
  "list_all engine_op others \<Longrightarrow> engine_reaches t (snd (supersedeRinging render others parent at t))"
  using settleMissed_reaches [of others t render parent "''superseded''" at False]
  by (simp add: supersedeRinging_def Let_def split_def)

lemma finish_queue_reaches: "engine_reaches t (snd (finish_queue outcome row ringing now t))"
proof -
  have "engine_reaches t (snd (call_create_stmt (queue_behind row parent) t))" for parent
    by (rule reaches_create) (simp add: queue_behind_def)
  then show ?thesis
    by (auto simp: finish_queue_def split: option.split prod.split) (metis snd_conv)+
qed

lemma sweep_call_reaches:
  assumes "\<And>i. list_all engine_op (others i)"
  shows "engine_reaches t (snd (snd (sweep_call render others at (counts, es, t) call)))"
proof -
  let ?t = "store_run (others (r_id call)) t"
  have r: "engine_reaches t ?t" by (rule reaches_run [OF assms])
  have m: "engine_reaches t (snd (settleMissed render [] call ''expired'' at True ?t))"
    by (rule reaches_trans [OF r]) (rule settleMissed_reaches, simp)
  have p: "engine_reaches t (snd (pushRing_tx (r_id call) at ?t))"
    by (rule reaches_trans [OF r]) (rule reaches_txs)
  show ?thesis
    using r m p by (auto simp: sweep_call_def Let_def split: prod.split bool.split)
qed


lemma ring_before_reaches: "list_all engine_op others \<Longrightarrow> engine_reaches t (snd (ring_before render others p now t))"
  using supersede_reaches [of others t render] reaches_run [of others t]
  by (auto simp: ring_before_def split_def Let_def split: call_decision.split option.split)

lemma ring_before_row:
  "n_userId (fst (fst (ring_before render others p now t))) = n_userId (pc_row p)"
  "n_dedupeKey (fst (fst (ring_before render others p now t))) = n_dedupeKey (pc_row p)"
  "n_createdAt (fst (fst (ring_before render others p now t))) = n_createdAt (pc_row p)"
  "n_expiresAt (fst (fst (ring_before render others p now t))) = n_expiresAt (pc_row p)"
  by (simp_all add: ring_before_def split_def Let_def split: call_decision.split option.split)

lemma finishUser_cases:
  obtains (injected) "cv_injectable (pc_verdict p)" "heard = Some True"
      "finishUser render others cand exists_already p heard now t =
        (let c = call_create_stmt ((pc_row p)\<lparr>n_state := Injected, n_reason := ''live_call'', n_expiresAt := now\<rparr>) t
         in (((pc_outcome p)\<lparr>uo_resolution := InjectedInto, uo_reason := ''live_call'',
               uo_callId := (case fst c of Some x \<Rightarrow> x | None \<Rightarrow> 0)\<rparr>, []), snd c))"
  | (notified) es where "finishUser render others cand exists_already p heard now t = (((pc_outcome p)\<lparr>uo_resolution := Notified\<rparr>, es), t)"
  | (rings) "cv_decision (pc_verdict p) = DecideRing \<or> cv_decision (pc_verdict p) = DecideSupersede"
      "finishUser render others cand exists_already p heard now t = finish_ring render others cand p now t"
  | (queues) "cv_decision (pc_verdict p) = DecideFollowup \<or> cv_decision (pc_verdict p) = DecideDrop"
      "finishUser render others cand exists_already p heard now t =
        finish_queue (pc_outcome p) (pc_row p) (pc_ringing p) now (store_run others t)"
proof -
  consider (1) "cv_injectable (pc_verdict p) \<and> heard = Some True"
    | (2) "\<not> (cv_injectable (pc_verdict p) \<and> heard = Some True)" "cv_decision (pc_verdict p) = DecideNotify \<or> pc_askedReminder p"
    | (3) "\<not> (cv_injectable (pc_verdict p) \<and> heard = Some True)" "\<not> (cv_decision (pc_verdict p) = DecideNotify \<or> pc_askedReminder p)"
        "cv_decision (pc_verdict p) = DecideRing \<or> cv_decision (pc_verdict p) = DecideSupersede"
    | (4) "\<not> (cv_injectable (pc_verdict p) \<and> heard = Some True)" "\<not> (cv_decision (pc_verdict p) = DecideNotify \<or> pc_askedReminder p)"
        "\<not> (cv_decision (pc_verdict p) = DecideRing \<or> cv_decision (pc_verdict p) = DecideSupersede)"
    by blast
  then show thesis
  proof cases
    case 1
    then show thesis by (intro injected) (simp_all add: finishUser_def Let_def split_def)
  next
    case 2
    show thesis by (rule notified) (simp only: finishUser_def Let_def 2 if_True if_False)
  next
    case 3
    then show thesis
      by (intro rings) (simp_all only: finishUser_def Let_def if_True if_False)
  next
    case 4
    moreover have "cv_decision (pc_verdict p) = DecideFollowup \<or> cv_decision (pc_verdict p) = DecideDrop"
      using 4 by (cases "cv_decision (pc_verdict p)") auto
    moreover have "finishUser render others cand exists_already p heard now t =
        finish_queue (pc_outcome p) (pc_row p) (pc_ringing p) now (store_run others t)"
      using 4 by (simp only: finishUser_def Let_def if_True if_False)
    ultimately show thesis by (intro queues)
  qed
qed

lemma finishUser_reaches:
  assumes "list_all engine_op others"
  shows "engine_reaches t (snd (finishUser render others cand e p heard now t))"
proof -
  have ring: "engine_reaches t (snd (finish_ring render others cand p now t))"
  proof -
    have o: "engine_reaches t (snd (openRinging_tx n now (snd (ring_before render others p now t))))" for n
      by (rule reaches_trans [OF ring_before_reaches [OF assms]], rule reaches_txs)
    show ?thesis
      using o reaches_trans [OF o finish_queue_reaches]
      by (simp add: finish_ring_def Let_def split: option.split)
  qed
  have queue: "engine_reaches t (snd (finish_queue outcome row ringing now (store_run others t)))" for outcome row ringing
    by (rule reaches_trans [OF reaches_run [OF assms] finish_queue_reaches])
  have inject: "engine_reaches t (snd (call_create_stmt ((pc_row p)\<lparr>n_state := Injected, n_reason := ''live_call'', n_expiresAt := now\<rparr>) t))"
    by (rule reaches_create) simp
  show ?thesis
    by (rule finishUser_cases [of p heard render others cand e now t]) (simp_all add: ring queue inject Let_def)
qed

lemma consider_reaches:
  assumes "list_all engine_op others"
  shows "engine_reaches t (snd (consider_users render c localAt prefs directory member_of heard others cand users e now t))"
proof -
  have "engine_reaches (snd s) (snd (foldl (finish_one render cand e heard now) s xs))" for s xs
  proof (induction xs arbitrary: s)
    case (Cons x xs)
    have "engine_reaches (snd s) (snd (finish_one render cand e heard now s x))"
      using finishUser_reaches [of "[]" "snd s" render cand e]
      by (cases s; cases x) (simp add: finish_one_def split_def split: option.split)
    then show ?case using Cons.IH reaches_trans by simp
  qed simp
  from this [of "(([], []), store_run others t)"] show ?thesis
    using reaches_trans [OF reaches_run [OF assms]] by (simp add: consider_users_def Let_def)
qed

lemma sweep_ringing_reaches:
  assumes "\<And>i. list_all engine_op (others i)"
  shows "engine_reaches t (snd (snd (sweep_ringing render others at t)))"
proof -
  have "engine_reaches (snd (snd s)) (snd (snd (foldl (sweep_call render others at) s xs)))" for s xs
  proof (induction xs arbitrary: s)
    case (Cons x xs)
    have "engine_reaches (snd (snd s)) (snd (snd (sweep_call render others at s x)))"
      using sweep_call_reaches [where others = others, OF assms, of "snd (snd s)" render at "fst s" "fst (snd s)" x] by simp
    then show ?case using Cons.IH reaches_trans by simp
  qed simp
  from this [of "((0, 0), [], t)"] show ?thesis by (simp add: sweep_ringing_def)
qed

lemma closeStaleCalls_reaches:
  assumes "list_all engine_op others"
  shows "engine_reaches t (snd (closeStaleCalls c room others at t))"
  using reaches_run [OF assms] reaches_trans [OF reaches_run [OF assms] reaches_txs(7)]
  by (simp add: closeStaleCalls_def Let_def split_def)


text \<open>Whatever requests the engine serves, one after another or suspended inside each other.\<close>

inductive engine_step :: "call_table \<Rightarrow> call_table \<Rightarrow> bool" where
  claims: "list_all engine_op others \<Longrightarrow> list_all engine_op later \<Longrightarrow>
    engine_step t (snd (call_claim render others later callId u session at t))"
| ends: "list_all engine_op others \<Longrightarrow> engine_step t (snd (call_end others callId u report session at t))"
| considers: "list_all engine_op others \<Longrightarrow>
    engine_step t (snd (consider_users render c localAt prefs directory member_of heard others cand users e now t))"
| sweeps: "(\<And>i. list_all engine_op (others_of i)) \<Longrightarrow> engine_step t (snd (snd (sweep_ringing render others_of at t)))"
| closes: "list_all engine_op others \<Longrightarrow> engine_step t (snd (closeStaleCalls c room others at t))"
| cancels: "engine_step t (snd (cancel_tx key exceptUser onlyUser reason at t))"
| purge: "engine_step t (snd (call_purgeSettled before t))"

inductive_cases engine_stepE: "engine_step t t'"

lemma engine_step_reaches: "engine_step t t' \<Longrightarrow> engine_reaches t t'"
proof (induction rule: engine_step.induct)
  case (cancels t key exceptUser onlyUser reason at)
  show ?case using reaches_step [of "OpCancel key exceptUser onlyUser reason at" t] by simp
next
  case (purge t before)
  show ?case using reaches_step [of "OpPurge before" t] by simp
qed (simp_all add: call_claim_reaches call_end_reaches consider_reaches sweep_ringing_reaches closeStaleCalls_reaches)

text \<open>
  The engine only does what the store allows. Every table that requests to the engine lead to, from the empty one and
  with any steps of other requests at the points where they wait, is reached by a sequence of the store's transactions;
  so it is well formed, and everything proved of such sequences holds of the engine.
\<close>

theorem engine_refines_store:
  assumes "engine_step\<^sup>*\<^sup>* empty_table t"
  shows "store_wf t \<and> (\<exists>ops. list_all engine_op ops \<and> t = store_run ops empty_table)"
proof -
  have "engine_reaches empty_table t"
    using assms by (induction rule: rtranclp_induct) (auto intro: engine_step_reaches reaches_trans)
  then show ?thesis
    using reaches_wf [OF _ empty_wf] by (auto simp: engine_reaches_def)
qed

lemma engine_refines_store_witness:
  "store_wf (snd (call_end [] ''call-1'' 7 ReportDeclined ''phone'' 120 empty_table)) \<and>
   engine_step\<^sup>*\<^sup>* empty_table (snd (call_end [] ''call-1'' 7 ReportDeclined ''phone'' 120 empty_table))"
proof -
  have s: "engine_step\<^sup>*\<^sup>* empty_table (snd (call_end [] ''call-1'' 7 ReportDeclined ''phone'' 120 empty_table))"
    by (rule r_into_rtranclp, rule ends) simp
  with engine_refines_store [OF s] show ?thesis by blast
qed

section \<open>What a caller is told\<close>

text \<open>Texts of a call, for the examples.\<close>

definition sample_copy :: copy_fn where
  "sample_copy tr lang d name now =
     \<lparr>copy_title = ''Alert'', copy_summary = ''Somebody is here'', copy_openingLine = ''Hello'', copy_missedTitle = ''Missed'',
      copy_missedLine = ''I called'', copy_followupLine = ''Also''\<rparr>"

lemma claim_tx_refused:
  "fst (claim_tx i u session at t) = None \<Longrightarrow> snd (claim_tx i u session at t) = t"
  by (simp add: claim_tx_def split_def Let_def split: if_splits)

lemma never_rings_again:
  assumes "store_wf t" "list_all engine_op ops" "\<not> (\<exists>r. call_findById i t = Some r \<and> rings_at u at r)" "i < t_next t"
  shows "\<not> (\<exists>r. call_findById i (store_run ops t) = Some r \<and> rings_at u at r)"
proof (cases "call_findById i t")
  case None
  then show ?thesis using gone_stays_gone [OF assms(1,2) None assms(4)] by simp
next
  case (Some r)
  then have "\<not> rings_at u at r" using assms(3) by simp
  moreover have "rings_at u at r" if "evolves r r'" "rings_at u at r'" for r'
    using that same_callD(2,7) [of r r'] by (auto simp: rings_at_def evolves_def later_states_def split: call_state.splits)
  ultimately show ?thesis
    using conjunct1 [OF call_lifecycle [OF assms(1,2) Some]] by blast
qed

lemma call_claim_cases:
  assumes "call_claim render others later callId u session at t = ((outcome, effects), t')"
  defines "i \<equiv> parse_call_id callId"
  obtains (refused) "co_status outcome = ClaimNotFound" "t' = t" "effects = []"
    | (again) r where "call_findById i t = Some r" "r_userId r = u" "r_state r = Answered" "r_answeredSession r = session"
        "co_status outcome = ClaimClaimed" "t' = t"
    | (over) r where "call_findById i t = Some r" "\<not> rings_at u at r" "co_status outcome = ClaimTaken \<or> co_status outcome = ClaimExpired" "t' = t"
    | (raced) r where "call_findById i t = Some r" "fst (claim_tx i u session at (store_run others t)) = None"
        "co_status outcome = ClaimTaken \<or> co_status outcome = ClaimExpired"
        "t' = store_run later (snd (claim_tx i u session at (store_run others t)))"
    | (won) "fst (claim_tx i u session at (store_run others t)) \<noteq> None" "co_status outcome = ClaimClaimed"
        "t' = snd (claim_tx i u session at (store_run others t))"
proof (cases "i \<le> 0 \<or> u \<le> 0")
  case True
  then show thesis using assms(1) by (intro refused) (auto simp: call_claim_def i_def no_claim_def)
next
  case False
  note valid = this
  show thesis
  proof (cases "call_findById i t")
    case None
    then show thesis using assms(1) valid unfolding i_def by (intro refused) (auto simp: call_claim_def Let_def no_claim_def)
  next
    case (Some r)
    note eq = assms(1)[unfolded call_claim_def Let_def, folded i_def, unfolded Some option.case if_not_P [OF valid]]
    consider (a) "r_userId r \<noteq> u \<or> r_parentCallId r \<noteq> 0 \<or> r_state r = Injected \<or> r_state r = Queued"
      | (b) "\<not> (r_userId r \<noteq> u \<or> r_parentCallId r \<noteq> 0 \<or> r_state r = Injected \<or> r_state r = Queued)"
          "r_state r = Answered \<and> session \<noteq> [] \<and> r_answeredSession r = session"
      | (c) "\<not> (r_userId r \<noteq> u \<or> r_parentCallId r \<noteq> 0 \<or> r_state r = Injected \<or> r_state r = Queued)"
          "\<not> (r_state r = Answered \<and> session \<noteq> [] \<and> r_answeredSession r = session)" "r_state r \<noteq> Ringing"
      | (d) "\<not> (r_userId r \<noteq> u \<or> r_parentCallId r \<noteq> 0 \<or> r_state r = Injected \<or> r_state r = Queued)"
          "\<not> (r_state r = Answered \<and> session \<noteq> [] \<and> r_answeredSession r = session)" "\<not> r_state r \<noteq> Ringing" "r_expiresAt r \<le> at"
      | (e) "\<not> (r_userId r \<noteq> u \<or> r_parentCallId r \<noteq> 0 \<or> r_state r = Injected \<or> r_state r = Queued)"
          "\<not> (r_state r = Answered \<and> session \<noteq> [] \<and> r_answeredSession r = session)" "\<not> r_state r \<noteq> Ringing" "\<not> r_expiresAt r \<le> at"
      by argo
    then show thesis
    proof cases
      case a
      show thesis using eq[unfolded if_P [OF a]] by (intro refused) (auto simp: no_claim_def)
    next
      case b
      show thesis using eq[unfolded if_not_P [OF b(1)] if_P [OF b(2)]] b Some by (intro again) auto
    next
      case c
      show thesis using eq[unfolded if_not_P [OF c(1)] if_not_P [OF c(2)] if_P [OF c(3)]] c Some
        by (intro over) (auto simp: no_claim_def rings_at_def)
    next
      case d
      show thesis using eq[unfolded if_not_P [OF d(1)] if_not_P [OF d(2)] if_not_P [OF d(3)] if_P [OF d(4)]] d Some
        by (intro over) (auto simp: no_claim_def rings_at_def)
    next
      case e
      note eq' = eq[unfolded if_not_P [OF e(1)] if_not_P [OF e(2)] if_not_P [OF e(3)] if_not_P [OF e(4)]]
      obtain f t2 where tx: "claim_tx i u session at (store_run others t) = (f, t2)" by fastforce
      show thesis
      proof (cases f)
        case None
        then show thesis using eq' tx Some by (intro raced) (auto simp: no_claim_def split: option.splits if_splits)
      next
        case (Some fs)
        then show thesis using eq' tx by (intro won) auto
      qed
    qed
  qed
qed

text \<open>
  A claim tells the truth. Whatever other requests do while it waits: told that the call is theirs, the row is
  answered by this very session; told that it is taken or expired, the call does not ring for the user any more; told
  that there is no such call, nothing was changed. A session that has the call and asks again is told so again.
\<close>

theorem claim_outcome_sound:
  assumes "store_wf t" "list_all engine_op others" "list_all engine_op later"
    "call_claim render others later callId u session at t = ((outcome, effects), t')"
  shows "(co_status outcome = ClaimClaimed \<longrightarrow>
      (\<exists>r. call_findById (parse_call_id callId) t' = Some r \<and> r_userId r = u \<and> r_state r = Answered \<and> r_answeredSession r = session)) \<and>
    (co_status outcome = ClaimTaken \<or> co_status outcome = ClaimExpired \<longrightarrow>
      \<not> (\<exists>r. call_findById (parse_call_id callId) t' = Some r \<and> rings_at u at r)) \<and>
    (co_status outcome = ClaimNotFound \<longrightarrow> t' = t \<and> effects = [])"
proof -
  let ?i = "parse_call_id callId"
  from assms(4) show ?thesis
  proof (cases rule: call_claim_cases)
    case refused
    then show ?thesis by simp
  next
    case (again r)
    then show ?thesis by simp
  next
    case (over r)
    then show ?thesis by auto
  next
    case (raced r)
    let ?t1 = "store_run others t"
    have w: "store_wf ?t1" by (rule store_run_wf [OF assms(1,2)])
    have none: "\<not> (\<exists>r. call_findById ?i ?t1 = Some r \<and> rings_at u at r)"
      using raced(2) unfolding claim_tx_None find_by_id_iff [OF w] rings_at_def by blast
    have "?i < t_next ?t1"
      using conjunct2 [OF find_below_next [OF assms(1) raced(1)]] next_run [OF assms(1,2)] by simp
    from never_rings_again [OF w assms(3) none this]
    have "\<not> (\<exists>r. call_findById ?i t' = Some r \<and> rings_at u at r)"
      unfolding raced(4) claim_tx_refused [OF raced(2)] .
    then show ?thesis using raced(3) by (elim disjE) simp_all
  next
    case won
    have w: "store_wf (store_run others t)" by (rule store_run_wf [OF assms(1,2)])
    obtain r where r: "call_findById ?i (store_run others t) = Some r" "r_userId r = u"
      by (rule claim_needs_ringing [OF w won(1)])
    obtain r' where r': "call_findById ?i (store_run others t) = Some r'"
      "call_findById ?i t' = Some (r'\<lparr>r_state := Answered, r_answeredAt := at, r_answeredSession := session\<rparr>)"
      unfolding won(3) by (rule find_claimed [OF w won(1)])
    have "r' = r" using r(1) r'(1) by simp
    then show ?thesis using r(2) r'(2) won(2) by simp
  qed
qed


lemma claim_outcome_sound_witness:
  "co_status (fst (fst (call_claim sample_copy [OpClaim 1 7 ''laptop'' 119] [] ''call-1'' 7 ''phone'' 120 (store_run sample_ops empty_table)))) =
     ClaimTaken \<and>
   call_findById 1 (snd (call_claim sample_copy [OpClaim 1 7 ''laptop'' 119] [] ''call-1'' 7 ''phone'' 120 (store_run sample_ops empty_table))) \<noteq> None \<and>
   \<not> (\<exists>r. call_findById 1 (snd (call_claim sample_copy [OpClaim 1 7 ''laptop'' 119] [] ''call-1'' 7 ''phone'' 120 (store_run sample_ops empty_table))) =
       Some r \<and> rings_at 7 120 r)"
proof -
  let ?c = "call_claim sample_copy [OpClaim 1 7 ''laptop'' 119] [] ''call-1'' 7 ''phone'' 120 (store_run sample_ops empty_table)"
  have id: "parse_call_id ''call-1'' = 1" by code_simp
  have a: "co_status (fst (fst ?c)) = ClaimTaken" "call_findById 1 (snd ?c) \<noteq> None"
    by code_simp+
  have "?c = ((fst (fst ?c), snd (fst ?c)), snd ?c)" by simp
  from claim_outcome_sound [OF sample_wf _ _ this] a id show ?thesis by simp
qed

section \<open>The sweep\<close>

lemma not_ringing_reaches: "store_wf t \<Longrightarrow> engine_reaches t t' \<Longrightarrow> not_ringing i t \<Longrightarrow> not_ringing i t'"
  by (auto simp: engine_reaches_def not_ringing_run)

lemma miss_ends_ringing:
  assumes "store_wf t" "i < t_next t"
  shows "not_ringing i (snd (miss_tx i at t))"
proof (cases "fst (markMissed i at t) = 0")
  case True
  then have none: "\<forall>r \<in> set (t_rows t). \<not> (r_id r = i \<and> r_state r = Ringing)"
    unfolding markMissed_def update_where_hits .
  have "snd (miss_tx i at t) = t" using True by (simp add: miss_tx_def split_def Let_def)
  with none assms show ?thesis by (auto simp: not_ringing_def find_by_id_iff)
next
  case False
  have m: "call_findById i (snd (markMissed i at t)) =
      map_option (\<lambda>r. if r_id r = i \<and> r_state r = Ringing then r\<lparr>r_state := Missed, r_endedAt := at\<rparr> else r) (call_findById i t)"
    unfolding markMissed_def by (rule find_update) simp
  have "r_id r = i" if "call_findById i t = Some r" for r using that find_by_id_iff [OF assms(1)] by simp
  moreover have "t_next (snd (markMissed i at t)) = t_next t" by (simp add: markMissed_def update_where_def)
  ultimately have "not_ringing i (snd (markMissed i at t))"
    using assms(2) unfolding not_ringing_def m by (cases "call_findById i t") auto
  moreover have "store_wf (snd (markMissed i at t))" by (rule evolves_wf [OF markMissed_evolves assms(1)])
  moreover have "snd (miss_tx i at t) = snd (settleFollowups i Missed at (snd (markMissed i at t)))"
    using False by (simp add: miss_tx_def split_def Let_def)
  moreover have "not_ringing i (snd (settleFollowups i Missed at u))" if "not_ringing i u" for u
    using that by (auto simp: not_ringing_def find_settle) (simp add: settleFollowups_def update_where_def)
  ultimately show ?thesis by simp
qed

lemma settleMissed_table: "snd (settleMissed render others call reason now notify t) = snd (miss_tx (r_id call) now (store_run others t))"
  by (simp add: settleMissed_def Let_def split: prod.split bool.split)

definition swept :: "int \<Rightarrow> call_row \<Rightarrow> engine_effect list \<Rightarrow> call_table \<Rightarrow> bool" where
  "swept at r es t \<longleftrightarrow>
     (r_expiresAt r \<le> at \<longrightarrow> not_ringing (r_id r) t) \<and>
     (at < r_expiresAt r \<and> r_pushedAt r = 0 \<and> r_pushAfter r \<le> at \<longrightarrow> PushRing (r_id r) \<in> set es \<or> not_ringing (r_id r) t)"

lemma push_fails:
  assumes "store_wf t" "i < t_next t" "\<not> fst (pushRing_tx i at t)"
  shows "not_ringing i (snd (pushRing_tx i at t))"
proof -
  have z: "fst (markPushed i at t) = 0" using assms(3) by (simp add: pushRing_tx_def split_def Let_def split: if_splits)
  then have "\<forall>r \<in> set (t_rows t). \<not> (r_id r = i \<and> r_state r = Ringing)"
    unfolding markPushed_def update_where_hits .
  moreover have "snd (pushRing_tx i at t) = t" using z by (simp add: pushRing_tx_def split_def Let_def)
  ultimately show ?thesis using assms by (auto simp: not_ringing_def find_by_id_iff)
qed

lemma sweep_call_swept:
  assumes "store_wf t" "\<And>i. list_all engine_op (others i)" "r_id r < t_next t"
  shows "swept at r (fst (snd (sweep_call render others at (counts, es, t) r))) (snd (snd (sweep_call render others at (counts, es, t) r)))"
proof -
  let ?t1 = "store_run (others (r_id r)) t"
  have w: "store_wf ?t1" by (rule store_run_wf [OF assms(1,2)])
  have n: "r_id r < t_next ?t1" using next_run [OF assms(1,2)] assms(3) by (meson order_less_le_trans)
  have m: "not_ringing (r_id r) (snd (settleMissed render [] r ''expired'' at True ?t1))"
    unfolding settleMissed_table using miss_ends_ringing [OF w n] by simp
  show ?thesis
    using m push_fails [OF w n, of at]
    by (cases counts; cases "pushRing_tx (r_id r) at ?t1") (auto simp: sweep_call_def swept_def Let_def split_def split: bool.split)
qed

lemma sweep_call_keeps:
  assumes "store_wf t" "\<And>i. list_all engine_op (others i)" "swept at r es t"
  shows "swept at r (fst (snd (sweep_call render others at (counts, es, t) q))) (snd (snd (sweep_call render others at (counts, es, t) q)))"
proof -
  have "set es \<subseteq> set (fst (snd (sweep_call render others at (counts, es, t) q)))"
    by (cases counts) (auto simp: sweep_call_def Let_def split: prod.split bool.split)
  moreover have "not_ringing (r_id r) t \<Longrightarrow> not_ringing (r_id r) (snd (snd (sweep_call render others at (counts, es, t) q)))"
    using not_ringing_reaches [OF assms(1) sweep_call_reaches [where others = others, OF assms(2)]] by blast
  ultimately show ?thesis using assms(3) by (auto simp: swept_def)
qed

lemma sweep_fold:
  assumes "store_wf t" "\<And>i. list_all engine_op (others i)" "\<forall>r \<in> set calls. r_id r < t_next t"
    "\<forall>r \<in> set before. swept at r es t"
  shows "\<forall>r \<in> set before \<union> set calls. swept at r (fst (snd (foldl (sweep_call render others at) (counts, es, t) calls)))
    (snd (snd (foldl (sweep_call render others at) (counts, es, t) calls)))"
  using assms
proof (induction calls arbitrary: counts es t before)
  case (Cons c calls)
  obtain counts' es' t' where s: "sweep_call render others at (counts, es, t) c = (counts', es', t')" by (metis prod_cases3)
  have reach: "engine_reaches t t'" using sweep_call_reaches [where others = others, OF Cons.prems(2), of t render at counts es c] s by simp
  have w: "store_wf t'" by (rule reaches_wf [OF reach Cons.prems(1)])
  have n: "t_next t \<le> t_next t'" using reach next_run [OF Cons.prems(1)] by (auto simp: engine_reaches_def)
  have "\<forall>r \<in> set (before @ [c]). swept at r es' t'"
    using sweep_call_keeps [where others = others, OF Cons.prems(1,2), of at _ es render counts c]
      sweep_call_swept [where others = others, OF Cons.prems(1,2), of c at render counts es] Cons.prems(3,4) s by auto
  from Cons.IH [OF w Cons.prems(2) _ this, of counts'] show ?case using n Cons.prems(3) s by force
qed simp

text \<open>
  No call rings for ever. After a sweep, whatever other requests do between its steps, no call that had expired
  when it began rings any more, and every call that waited for its push and was due has been pushed or does not ring.
\<close>

theorem sweep_settles:
  assumes "store_wf t" "\<And>i. list_all engine_op (others i)" "r \<in> set (t_rows t)" "r_state r = Ringing"
  shows "swept at r (fst (snd (sweep_ringing render others at t))) (snd (snd (sweep_ringing render others at t)))"
proof -
  have "r \<in> set (findRinging t)" using assms(3,4) by (simp add: findRinging_def)
  moreover have "\<forall>q \<in> set (findRinging t). r_id q < t_next t" using assms(1) by (auto simp: findRinging_def store_wf_def)
  ultimately show ?thesis
    using sweep_fold [where others = others, OF assms(1,2), of "findRinging t" "[]" at "[]" render "(0, 0)"]
    by (simp add: sweep_ringing_def)
qed


lemma sweep_settles_witness:
  "swept 145 (hd (t_rows (store_run sample_ops empty_table)))
     (fst (snd (sweep_ringing sample_copy (\<lambda>_. []) 145 (store_run sample_ops empty_table))))
     (snd (snd (sweep_ringing sample_copy (\<lambda>_. []) 145 (store_run sample_ops empty_table)))) \<and>
   r_expiresAt (hd (t_rows (store_run sample_ops empty_table))) \<le> 145"
proof
  show "swept 145 (hd (t_rows (store_run sample_ops empty_table)))
     (fst (snd (sweep_ringing sample_copy (\<lambda>_. []) 145 (store_run sample_ops empty_table))))
     (snd (snd (sweep_ringing sample_copy (\<lambda>_. []) 145 (store_run sample_ops empty_table))))"
    by (rule sweep_settles [OF sample_wf]) (simp_all add: sample_rows row_of_def)
qed (simp add: sample_rows row_of_def sample_create_def)

section \<open>What considering an event stores\<close>

lemma insert_Some:
  assumes "fst (insert_row s parent n t) = Some i" "store_wf t"
  shows "call_findById i (snd (insert_row s parent n t)) = Some (row_of i s parent n)"
  using find_insert [OF assms(2), of i s parent n] insert_result [of s parent n t] assms(1) by auto

lemma openRinging_Some:
  assumes "fst (openRinging_tx n at t) = Some i" "store_wf t"
  obtains r where "call_findById i (snd (openRinging_tx n at t)) = Some r" "r_state r = Ringing" "same_call (row_of i Ringing 0 n) r"
proof -
  have c: "fst (createRinging n t) = Some i" using assms(1) by (auto simp: openRinging_tx_def split: prod.splits option.splits)
  then have "createRinging n t = insert_row Ringing 0 n t" by (auto simp: createRinging_def split: if_splits)
  then have f: "call_findById i (snd (createRinging n t)) = Some (row_of i Ringing 0 n)"
    using insert_Some [of Ringing 0 n t i] c assms(2) by simp
  have "call_findById i (snd (markPushed i at (snd (createRinging n t)))) =
      Some ((row_of i Ringing 0 n)\<lparr>r_pushedAt := at\<rparr>)"
    unfolding markPushed_def by (subst find_update) (simp_all add: f, simp add: row_of_def)
  then show thesis
    using that f c by (cases "n_pushAfter n \<le> at")
      (auto simp: openRinging_tx_def split_def same_call_def frozen_def row_of_def split: option.split)
qed

lemma find_createQueued:
  assumes "fst (call_create_stmt n t) = Some i" "store_wf t"
  shows "call_findById i (snd (call_create_stmt n t)) = Some (row_of i (n_state n) (n_parentCallId n) n)"
  using insert_Some assms unfolding call_create_stmt_def by blast

text \<open>What the outcome of a user says is in the table.\<close>

definition outcome_stored :: "user_outcome \<Rightarrow> string \<Rightarrow> call_table \<Rightarrow> bool" where
  "outcome_stored o1 key t \<longleftrightarrow>
     (case uo_resolution o1 of
        Rang \<Rightarrow> (\<exists>r. call_findById (uo_callId o1) t = Some r \<and> r_state r = Ringing \<and> r_userId r = uo_userId o1 \<and> r_dedupeKey r = key)
      | QueuedBehind \<Rightarrow> (\<exists>r. call_findById (uo_callId o1) t = Some r \<and> r_state r = Queued \<and> r_userId r = uo_userId o1 \<and>
          r_dedupeKey r = key \<and> r_parentCallId r \<noteq> 0)
      | InjectedInto \<Rightarrow> uo_callId o1 \<noteq> 0 \<longrightarrow>
          (\<exists>r. call_findById (uo_callId o1) t = Some r \<and> r_state r = Injected \<and> r_userId r = uo_userId o1 \<and> r_dedupeKey r = key)
      | _ \<Rightarrow> True)"

definition prepared_for :: "prepared_call \<Rightarrow> call_candidate \<Rightarrow> call_table \<Rightarrow> bool" where
  "prepared_for p cand t \<longleftrightarrow>
     uo_resolution (pc_outcome p) = Dropped \<and> n_userId (pc_row p) = uo_userId (pc_outcome p) \<and>
     n_dedupeKey (pc_row p) = cc_dedupeKey cand \<and> (\<forall>q. pc_ringing p = Some q \<longrightarrow> 0 < r_id q \<and> r_id q < t_next t)"

lemma findRingingFor_Some:
  assumes "findRingingFor u now t = Some q"
  shows "q \<in> set (t_rows t)" "rings_at u now q"
  using assms last_in_set [of "filter (rings_at u now) (t_rows t)"] by (auto simp: findRingingFor_def Let_def split: if_splits)

lemma prepareUser_for:
  assumes "store_wf t" "prepareUser render c localAt cand m u now t = Some p"
  shows "prepared_for p cand t"
proof -
  have "0 < r_id q \<and> r_id q < t_next t" if "findRingingFor (uc_userId u) now t = Some q" for q
    using findRingingFor_Some(1) [OF that] assms(1) by (auto simp: store_wf_def)
  then show ?thesis
    using assms(2) by (auto simp: prepareUser_def prepared_for_def Let_def split: if_splits)
qed


lemma prepared_for_later:
  "prepared_for p cand t \<Longrightarrow> t_next t \<le> t_next t' \<Longrightarrow> prepared_for p cand t'"
  by (force simp: prepared_for_def)

lemma next_reaches: "store_wf t \<Longrightarrow> engine_reaches t t' \<Longrightarrow> t_next t \<le> t_next t'"
  by (auto simp: engine_reaches_def next_run)

text \<open>The outcome of \<open>finish_queue\<close>, and the row it leaves.\<close>

lemma finish_queue_cases:
  assumes "store_wf t" "n_userId row = uo_userId outcome" "\<And>q. ringing = Some q \<Longrightarrow> 0 < r_id q"
  obtains (queued) i parent where "0 < r_id parent" "\<And>q. ringing = Some q \<Longrightarrow> parent = q"
      "uo_resolution (fst (fst (finish_queue outcome row ringing now t))) = QueuedBehind"
      "uo_callId (fst (fst (finish_queue outcome row ringing now t))) = i"
      "uo_userId (fst (fst (finish_queue outcome row ringing now t))) = uo_userId outcome"
      "call_findById i (snd (finish_queue outcome row ringing now t)) =
        Some (row_of i Queued (r_id parent) (queue_behind row parent))"
  | (dropped) "uo_resolution (fst (fst (finish_queue outcome row ringing now t))) = Dropped"
proof -
  define parent where "parent = (case ringing of Some p \<Rightarrow> Some p | None \<Rightarrow> findRingingFor (uo_userId outcome) now t)"
  show thesis
  proof (cases parent)
    case None
    then show thesis using dropped by (simp add: finish_queue_def parent_def)
  next
    case (Some p)
    have pos: "0 < r_id p"
      using Some assms(1,3) findRingingFor_Some(1) [of "uo_userId outcome" now t p]
      by (auto simp: parent_def store_wf_def split: option.splits)
    have eq: "finish_queue outcome row ringing now t =
      (case call_create_stmt (queue_behind row p) t of
         (None, t2) \<Rightarrow> ((outcome\<lparr>uo_resolution := Dropped, uo_reason := ''already_called'', uo_callId := 0\<rparr>, []), t2)
       | (Some i, t2) \<Rightarrow> ((outcome\<lparr>uo_resolution := QueuedBehind, uo_reason := ''ringing'', uo_callId := i\<rparr>, []), t2))"
      using Some by (simp add: finish_queue_def parent_def)
    obtain x t2 where c: "call_create_stmt (queue_behind row p) t = (x, t2)" by fastforce
    show thesis
    proof (cases x)
      case None
      then show thesis using dropped eq c by simp
    next
      case (Some i)
      have "call_findById i t2 = Some (row_of i Queued (r_id p) (queue_behind row p))"
        using find_createQueued [of "queue_behind row p" t i] c Some assms(1) by (simp add: queue_behind_def)
      moreover have "p = q" if "ringing = Some q" for q using that \<open>parent = Some p\<close> by (simp add: parent_def)
      ultimately show thesis using queued [of p i] eq c Some pos by simp
    qed
  qed
qed

lemma finish_queue_stored:
  assumes "store_wf t" "prepared_for p cand t" "n_userId row = n_userId (pc_row p)" "n_dedupeKey row = n_dedupeKey (pc_row p)"
  shows "outcome_stored (fst (fst (finish_queue (pc_outcome p) row (pc_ringing p) now t))) (cc_dedupeKey cand)
    (snd (finish_queue (pc_outcome p) row (pc_ringing p) now t))"
proof (rule finish_queue_cases [of t row "pc_outcome p" "pc_ringing p" now])
  show "n_userId row = uo_userId (pc_outcome p)" using assms(2,3) by (simp add: prepared_for_def)
  show "0 < r_id q" if "pc_ringing p = Some q" for q using assms(2) that by (simp add: prepared_for_def)
qed (use assms in \<open>simp_all add: outcome_stored_def row_of_def queue_behind_def prepared_for_def\<close>)

lemma finish_ring_stored:
  assumes "store_wf t" "list_all engine_op others" "prepared_for p cand t"
  shows "outcome_stored (fst (fst (finish_ring render others cand p now t))) (cc_dedupeKey cand) (snd (finish_ring render others cand p now t))"
proof -
  define b where "b = ring_before render others p now t"
  define r where "r = openRinging_tx (fst (fst b)) now (snd b)"
  have wb: "store_wf (snd b)" "engine_reaches t (snd b)"
    using ring_before_reaches [OF assms(2)] reaches_wf assms(1) unfolding b_def by blast+
  have rr: "engine_reaches (snd b) (snd r)" unfolding r_def by (rule reaches_txs)
  have wr: "store_wf (snd r)" using reaches_wf [OF rr wb(1)] .
  have row: "n_userId (fst (fst b)) = n_userId (pc_row p)" "n_dedupeKey (fst (fst b)) = n_dedupeKey (pc_row p)"
    unfolding b_def by (simp_all add: ring_before_row)
  show ?thesis
  proof (cases "fst r")
    case (Some i)
    have o1: "fst (openRinging_tx (fst (fst b)) now (snd b)) = Some i" using Some by (simp add: r_def)
    obtain q where q: "call_findById i (snd (openRinging_tx (fst (fst b)) now (snd b))) = Some q" "r_state q = Ringing"
      "same_call (row_of i Ringing 0 (fst (fst b))) q"
      by (rule openRinging_Some [OF o1 wb(1)])
    have "r_userId q = uo_userId (pc_outcome p)" "r_dedupeKey q = cc_dedupeKey cand"
      using same_callD(2,3) [OF q(3)] row assms(3) by (simp_all add: row_of_def prepared_for_def)
    then show ?thesis using Some q(1,2)
      by (simp add: finish_ring_def Let_def b_def [symmetric] r_def [symmetric] outcome_stored_def)
  next
    case None
    have p: "prepared_for p cand (snd r)"
      using prepared_for_later [OF assms(3)] next_reaches [OF assms(1)] reaches_trans [OF wb(2) rr] by blast
    have d: "outcome_stored ((pc_outcome p)\<lparr>uo_reason := reason\<rparr>) key u" for reason key u
      using assms(3) by (simp add: prepared_for_def outcome_stored_def)
    show ?thesis
      using None finish_queue_stored [OF wr p row, of now] d
      by (simp add: finish_ring_def Let_def b_def [symmetric] r_def [symmetric])
  qed
qed

text \<open>A recipient, an event and the preparation of it while the first sample call rings.\<close>

definition sample_config :: engine_config where
  "sample_config = \<lparr>ec_enabled = True, ec_callGapS = 300, ec_maxCallsPerHour = 4, ec_arrivalAbsenceS = 10800, ec_scheduledLateS = 900,
     ec_scheduleHorizonS = 31622400, ec_maxPendingScheduled = 20, ec_answeredStaleS = 7200, ec_retentionDays = 30,
     ec_fallbackLang = ''es''\<rparr>"

definition sample_candidate :: call_candidate where
  "sample_candidate = \<lparr>cc_trigger = GuardIntruder, cc_critical = False, cc_dedupeKey = ''d'', cc_urgency = ''time_sensitive'',
     cc_environmentId = 3, cc_lang = ''en'', cc_data = JObject []\<rparr>"

definition sample_user :: user_context where
  "sample_user = \<lparr>uc_userId = 7, uc_recipient = \<lparr>cr_found = True, cr_name = ''Ana'', cr_lang = ''es'', cr_active = True\<rparr>,
     uc_preference = defaultsFor 7\<rparr>"

definition sample_prepared :: prepared_call where
  "sample_prepared = the (prepareUser sample_copy sample_config (\<lambda>_. (12, 1)) sample_candidate None sample_user 120 (store_run sample_ops empty_table))"

lemma sample_decides:
  "call_decide (policy_input sample_config (\<lambda>_. (12, 1)) sample_candidate None sample_user 120 (store_run sample_ops empty_table)) =
    \<lparr>cv_decision = DecideFollowup, cv_reason = ''ringing'', cv_injectable = True\<rparr>"
  by (simp add: sample_rows policy_input_def sample_config_def sample_candidate_def sample_user_def defaultsFor_def
      ringStats_def findRingingFor_def call_exists_def rings_at_def row_of_def sample_create_def kHourS_def
      call_decide_def modeFor_def mutes_def isGuardTrigger_def call_inQuietHours_def call_limited_def Let_def)

lemma sample_ringing:
  "findRingingFor 7 120 (store_run sample_ops empty_table) = Some ((row_of 1 Ringing 0 (sample_create ''a'' 7 Ringing 0 100))\<lparr>r_pushedAt := 100\<rparr>)"
  by (simp add: sample_rows findRingingFor_def rings_at_def row_of_def sample_create_def)

lemma sample_prepares:
  "prepareUser sample_copy sample_config (\<lambda>_. (12, 1)) sample_candidate None sample_user 120 (store_run sample_ops empty_table) = Some sample_prepared"
  "pc_verdict sample_prepared = \<lparr>cv_decision = DecideFollowup, cv_reason = ''ringing'', cv_injectable = True\<rparr>"
  "pc_ringing sample_prepared = Some ((row_of 1 Ringing 0 (sample_create ''a'' 7 Ringing 0 100))\<lparr>r_pushedAt := 100\<rparr>)"
proof -
  show a: "prepareUser sample_copy sample_config (\<lambda>_. (12, 1)) sample_candidate None sample_user 120 (store_run sample_ops empty_table) = Some sample_prepared"
    unfolding sample_prepared_def by (simp add: prepareUser_def Let_def sample_user_def)
  show "pc_verdict sample_prepared = \<lparr>cv_decision = DecideFollowup, cv_reason = ''ringing'', cv_injectable = True\<rparr>"
    unfolding sample_prepared_def prepareUser_def Let_def sample_decides by (simp add: sample_user_def)
  show "pc_ringing sample_prepared = Some ((row_of 1 Ringing 0 (sample_create ''a'' 7 Ringing 0 100))\<lparr>r_pushedAt := 100\<rparr>)"
    unfolding sample_prepared_def prepareUser_def Let_def sample_ringing by (simp add: sample_user_def sample_ringing)
qed

lemma sample_claimed_meanwhile:
  "store_run [OpClaim 1 7 ''phone'' 121] (store_run sample_ops empty_table) =
    \<lparr>t_rows = [(row_of 1 Ringing 0 (sample_create ''a'' 7 Ringing 0 100))\<lparr>r_pushedAt := 100, r_state := Answered, r_answeredAt := 121,
        r_answeredSession := ''phone''\<rparr>,
      (row_of 2 Queued 1 (sample_create ''c'' 7 Queued 1 111))\<lparr>r_state := Injected, r_endedAt := 121\<rparr>], t_next = 3\<rparr>"
  unfolding sample_rows by code_simp

text \<open>
  The outcome of a recipient is what the table holds. Said to ring, the row rings for that user under the event's
  key; said to be queued, it is queued behind a call; said to be told in a call, it is recorded as told. Other requests
  may run between the preparation and the end of it.
\<close>

theorem considered_as_stored:
  assumes "store_wf t0" "prepareUser render c localAt cand m u now t0 = Some p"
    "list_all engine_op between" "t = store_run between t0" "list_all engine_op others"
  shows "outcome_stored (fst (fst (finishUser render others cand e p heard now t))) (cc_dedupeKey cand)
    (snd (finishUser render others cand e p heard now t))"
proof -
  have w: "store_wf t" using store_run_wf [OF assms(1,3)] assms(4) by simp
  have p: "prepared_for p cand t"
    using prepared_for_later [OF prepareUser_for [OF assms(1,2)]] next_run [OF assms(1,3)] assms(4) by simp
  have ro: "engine_reaches t (store_run others t)" by (rule reaches_run [OF assms(5)])
  have po: "prepared_for p cand (store_run others t)" "store_wf (store_run others t)"
    using prepared_for_later [OF p next_reaches [OF w ro]] reaches_wf [OF ro w] by simp_all
  show ?thesis
  proof (rule finishUser_cases [of p heard render others cand e now t])
    assume a: "finishUser render others cand e p heard now t =
        (let x = call_create_stmt ((pc_row p)\<lparr>n_state := Injected, n_reason := ''live_call'', n_expiresAt := now\<rparr>) t
         in (((pc_outcome p)\<lparr>uo_resolution := InjectedInto, uo_reason := ''live_call'',
               uo_callId := (case fst x of Some x \<Rightarrow> x | None \<Rightarrow> 0)\<rparr>, []), snd x))"
    show ?thesis
    proof (cases "fst (call_create_stmt ((pc_row p)\<lparr>n_state := Injected, n_reason := ''live_call'', n_expiresAt := now\<rparr>) t)")
      case (Some i)
      from find_createQueued [OF Some w] Some show ?thesis
        using p unfolding a Let_def by (simp add: outcome_stored_def row_of_def prepared_for_def)
    qed (use a in \<open>simp add: outcome_stored_def Let_def\<close>)
  next
    fix es assume "finishUser render others cand e p heard now t = (((pc_outcome p)\<lparr>uo_resolution := Notified\<rparr>, es), t)"
    then show ?thesis by (simp add: outcome_stored_def)
  next
    assume "finishUser render others cand e p heard now t = finish_ring render others cand p now t"
    then show ?thesis using finish_ring_stored [OF w assms(5) p] by simp
  next
    assume "finishUser render others cand e p heard now t = finish_queue (pc_outcome p) (pc_row p) (pc_ringing p) now (store_run others t)"
    then show ?thesis using finish_queue_stored [OF po(2,1)] by simp
  qed
qed


lemma considered_as_stored_witness:
  "outcome_stored (fst (fst (finishUser sample_copy [] sample_candidate True sample_prepared None 120 (store_run sample_ops empty_table)))) ''d''
    (snd (finishUser sample_copy [] sample_candidate True sample_prepared None 120 (store_run sample_ops empty_table)))"
  using considered_as_stored [OF sample_wf sample_prepares(1), of "[]" "store_run sample_ops empty_table" "[]" True None]
  by (simp add: sample_candidate_def)

lemma queued_orphan:
  assumes "store_wf t" "not_ringing (r_id parent) t" "0 < r_id parent" "n_userId row = uo_userId outcome"
    "uo_resolution (fst (fst (finish_queue outcome row (Some parent) now t))) = QueuedBehind"
    "list_all engine_op ops"
  shows "\<exists>q. call_findById (uo_callId (fst (fst (finish_queue outcome row (Some parent) now t)))) (snd (finish_queue outcome row (Some parent) now t)) = Some q \<and>
    r_state q = Queued \<and> r_parentCallId q = r_id parent \<and>
    call_findById (uo_callId (fst (fst (finish_queue outcome row (Some parent) now t)))) (store_run ops (snd (finish_queue outcome row (Some parent) now t))) = Some q"
proof (rule finish_queue_cases [of t row outcome "Some parent" now])
  let ?f = "finish_queue outcome row (Some parent) now t"
  show "store_wf t" "n_userId row = uo_userId outcome" by (rule assms)+
  show "0 < r_id q" if "Some parent = Some q" for q using that assms(3) by simp
  fix i parent'
  assume i: "uo_callId (fst (fst ?f)) = i" "call_findById i (snd ?f) = Some (row_of i Queued (r_id parent') (queue_behind row parent'))"
    and "\<And>q. Some parent = Some q \<Longrightarrow> parent' = q"
  then have pp: "parent' = parent" by simp
  have w: "store_wf (snd ?f)" "not_ringing (r_id parent) (snd ?f)"
    using reaches_wf [OF finish_queue_reaches assms(1)] not_ringing_reaches [OF assms(1) finish_queue_reaches assms(2)] by blast+
  let ?q = "row_of i Queued (r_id parent) (queue_behind row parent)"
  have q: "r_state ?q = Queued" "r_parentCallId ?q = r_id parent" by (simp_all add: row_of_def)
  have f: "call_findById i (snd ?f) = Some ?q" using i(2) pp by simp
  have "call_findById i (store_run ops (snd ?f)) = Some ?q"
    by (rule orphan_stays [OF w(1) assms(6) f q(1)]) (simp only: q(2) w(2))
  then show ?thesis unfolding i(1) using f q by blast
next
  assume "uo_resolution (fst (fst (finish_queue outcome row (Some parent) now t))) = Dropped"
  then show ?thesis using assms(5) by simp
qed

text \<open>
  Queued behind a call that is over. A follow-up is prepared while a call rings; when that call is answered, missed
  or declined before the follow-up is written (the voice service is asked in between), the follow-up is still queued
  behind it, the caller is told so, and no later step of the engine ever tells the user or clears the row.
\<close>

theorem late_followup_never_told:
  assumes "store_wf t0" "prepareUser render c localAt cand m u now t0 = Some p" "pc_ringing p = Some parent"
    "cv_decision (pc_verdict p) = DecideFollowup"
    "list_all engine_op between" "t = store_run between t0" "not_ringing (r_id parent) t"
    "finishUser render [] cand e p heard now t = ((o1, effects), t')" "uo_resolution o1 = QueuedBehind"
    "list_all engine_op ops"
  shows "\<exists>q. call_findById (uo_callId o1) t' = Some q \<and> r_state q = Queued \<and> r_parentCallId q = r_id parent \<and>
    call_findById (uo_callId o1) (store_run ops t') = Some q"
proof -
  have w: "store_wf t" using store_run_wf [OF assms(1,5)] assms(6) by simp
  have p: "prepared_for p cand t0" by (rule prepareUser_for [OF assms(1,2)])
  have d: "uo_resolution (pc_outcome p) = Dropped" using p by (simp add: prepared_for_def)
  have eq: "finishUser render [] cand e p heard now t = finish_queue (pc_outcome p) (pc_row p) (Some parent) now t"
  proof (rule finishUser_cases [of p heard render "[]" cand e now t])
    assume "finishUser render [] cand e p heard now t =
        (let x = call_create_stmt ((pc_row p)\<lparr>n_state := Injected, n_reason := ''live_call'', n_expiresAt := now\<rparr>) t
         in (((pc_outcome p)\<lparr>uo_resolution := InjectedInto, uo_reason := ''live_call'',
               uo_callId := (case fst x of Some x \<Rightarrow> x | None \<Rightarrow> 0)\<rparr>, []), snd x))"
    then show ?thesis using assms(8,9) by (auto simp: Let_def)
  next
    fix es assume "finishUser render [] cand e p heard now t = (((pc_outcome p)\<lparr>uo_resolution := Notified\<rparr>, es), t)"
    then show ?thesis using assms(8,9) by auto
  next
    assume "cv_decision (pc_verdict p) = DecideRing \<or> cv_decision (pc_verdict p) = DecideSupersede"
    then show ?thesis using assms(4) by simp
  next
    assume "finishUser render [] cand e p heard now t =
        finish_queue (pc_outcome p) (pc_row p) (pc_ringing p) now (store_run [] t)"
    then show ?thesis using assms(3) by simp
  qed
  have f: "o1 = fst (fst (finish_queue (pc_outcome p) (pc_row p) (Some parent) now t))"
    "t' = snd (finish_queue (pc_outcome p) (pc_row p) (Some parent) now t)"
    using assms(8) unfolding eq by (simp_all add: prod_eq_iff)
  show ?thesis
    unfolding f
  proof (rule queued_orphan [OF w assms(7) _ _ _ assms(10)])
    show "0 < r_id parent" using p assms(3) by (simp add: prepared_for_def)
    show "n_userId (pc_row p) = uo_userId (pc_outcome p)" using p by (simp add: prepared_for_def)
    show "uo_resolution (fst (fst (finish_queue (pc_outcome p) (pc_row p) (Some parent) now t))) = QueuedBehind"
      using assms(9) unfolding f .
  qed
qed


lemma late_followup_never_told_witness:
  "\<exists>q. call_findById 3 (snd (finishUser sample_copy [] sample_candidate True sample_prepared None 120
        (store_run [OpClaim 1 7 ''phone'' 121] (store_run sample_ops empty_table)))) = Some q \<and> r_state q = Queued \<and>
      call_findById 3 (store_run [OpEnd 1 7 200, OpPurge 100000] (snd (finishUser sample_copy [] sample_candidate True sample_prepared None 120
        (store_run [OpClaim 1 7 ''phone'' 121] (store_run sample_ops empty_table))))) = Some q"
proof -
  let ?t = "store_run [OpClaim 1 7 ''phone'' 121] (store_run sample_ops empty_table)"
  let ?f = "finishUser sample_copy [] sample_candidate True sample_prepared None 120 ?t"
  have n: "not_ringing (r_id ((row_of 1 Ringing 0 (sample_create ''a'' 7 Ringing 0 100))\<lparr>r_pushedAt := 100\<rparr>)) ?t"
    unfolding sample_claimed_meanwhile by (simp add: not_ringing_def call_findById_def row_of_def)
  have row: "n_dedupeKey (pc_row sample_prepared) = ''d'' \<and> n_userId (pc_row sample_prepared) = 7 \<and> \<not> pc_askedReminder sample_prepared"
    unfolding sample_prepared_def prepareUser_def Let_def by (simp add: sample_user_def sample_candidate_def)
  have q: "uo_resolution (fst (fst ?f)) = QueuedBehind \<and> uo_callId (fst (fst ?f)) = 3"
    unfolding sample_claimed_meanwhile
    by (simp add: finishUser_def sample_prepares row finish_queue_def call_create_stmt_def insert_row_def queue_behind_def row_of_def sample_create_def Let_def)
  from late_followup_never_told [OF sample_wf sample_prepares(1,3), of "[OpClaim 1 7 ''phone'' 121]" ?t True None
      "fst (fst ?f)" "snd (fst ?f)" "snd ?f" "[OpEnd 1 7 200, OpPurge 100000]"] n q
  show ?thesis by (auto simp: sample_prepares)
qed


section \<open>Calls asked for in advance\<close>

lemma sched_find_append: "find P (xs @ [x]) = (case find P xs of None \<Rightarrow> if P x then Some x else None | Some y \<Rightarrow> Some y)"
  by (induction xs) simp_all

text \<open>
  Asking twice. A call that was accepted and is asked for again, word for word, with room for another one, is
  recognised exactly when both requests round to the same moment: the moment asked for, or the time of the request when
  that has passed. So a repeated request for a moment that lies a few seconds back, which the first one was granted,
  is refused as a conflict.
\<close>

theorem schedule_repeated:
  assumes "call_schedule c u command fireAt topic lang at t = ((Scheduled, i), t1)"
    "at \<le> at'" "at' - kSchedulePastGraceS \<le> fireAt" "int (pendingCount u t1) < ec_maxPendingScheduled c"
  shows "call_schedule c u command fireAt topic lang at' t1 =
    ((if at' \<le> fireAt \<or> at' = at then ScheduleDuplicate else ScheduleConflict, i), t1)"
proof -
  have ok: "\<not> (u \<le> 0 \<or> command = [] \<or> length command > 128)" "\<not> (topic = [] \<or> length topic > kTopicLimit)"
    "\<not> fireAt > at + ec_scheduleHorizonS c"
    using assms(1) by (auto simp: call_schedule_def split: if_splits)
  have created: "sched_create u command (max fireAt at) topic (langFor c lang) at t = (\<lparr>sx_id = i, sx_duplicate = False, sx_conflict = False\<rparr>, t1)"
    using assms(1) by (auto simp: call_schedule_def split: if_splits prod.splits)
  then have new: "find (\<lambda>r. sr_commandId r = command) (st_rows t) = None"
    by (auto simp: sched_create_def Let_def split: option.splits)
  then have "find (\<lambda>r. sr_commandId r = command) (st_rows t1) =
      Some \<lparr>sr_id = i, sr_userId = u, sr_commandId = command, sr_fireAt = max fireAt at, sr_topic = topic,
        sr_lang = langFor c lang, sr_state = SchedPending, sr_createdAt = at, sr_firedAt = 0\<rparr>"
    using created by (auto simp: sched_create_def sched_find_append)
  then have "sched_create u command (max fireAt at') topic (langFor c lang) at' t1 =
      (\<lparr>sx_id = i, sx_duplicate = (max fireAt at = max fireAt at'), sx_conflict = (max fireAt at \<noteq> max fireAt at')\<rparr>, t1)"
    by (simp add: sched_create_def Let_def)
  moreover have "max fireAt at = max fireAt at' \<longleftrightarrow> at' \<le> fireAt \<or> at' = at" using assms(2) by (auto simp: max_def)
  ultimately show ?thesis
    using ok assms(2-4) by (simp add: call_schedule_def)
qed

lemma schedule_repeated_witness:
  "fst (call_schedule sample_config 1 ''remind-1'' 95 ''dentist'' ''en'' 100 \<lparr>st_rows = [], st_next = 1\<rparr>) = (Scheduled, 1) \<and>
   fst (call_schedule sample_config 1 ''remind-1'' 95 ''dentist'' ''en'' 101
     (snd (call_schedule sample_config 1 ''remind-1'' 95 ''dentist'' ''en'' 100 \<lparr>st_rows = [], st_next = 1\<rparr>))) = (ScheduleConflict, 1)"
proof -
  let ?r = "call_schedule sample_config 1 ''remind-1'' 95 ''dentist'' ''en'' 100 \<lparr>st_rows = [], st_next = 1\<rparr>"
  have f: "fst ?r = (Scheduled, 1)"
    by (simp add: call_schedule_def sample_config_def kTopicLimit_def kSchedulePastGraceS_def pendingCount_def sched_create_def)
  have "int (pendingCount 1 (snd ?r)) < ec_maxPendingScheduled sample_config"
    by (simp add: call_schedule_def sample_config_def kTopicLimit_def kSchedulePastGraceS_def pendingCount_def sched_create_def)
  with schedule_repeated [of sample_config 1 "''remind-1''" 95 "''dentist''" "''en''" 100 "\<lparr>st_rows = [], st_next = 1\<rparr>" 1 "snd ?r" 101] f
  show ?thesis by (simp add: kSchedulePastGraceS_def prod_eq_iff)
qed

text \<open>A due row fires once: after one sweep marked it no other finds it pending.\<close>

lemma fired_once:
  assumes "fire_due c at due t = (a, t1)" "a \<noteq> DueSkipped"
  shows "fst (fire_due c at' due t1) = DueSkipped"
  using assms by (auto simp: fire_due_def markFired_def Let_def filter_empty_conv split: prod.splits bool.splits if_splits)

section \<open>Arrivals\<close>

text \<open>A sequence of sightings of one person with the times they are handled; those that are announced.\<close>

fun announced :: "engine_config \<Rightarrow> int \<Rightarrow> (int \<times> int) list \<Rightarrow> (int \<rightharpoonup> int) \<Rightarrow> int list" where
  "announced c personId [] m = []"
| "announced c personId ((at, now) # xs) m =
     (let (yes, m') = arrival c personId at now m in (if yes then [at] else []) @ announced c personId xs m')"

lemma arrival_seen:
  "lastSeen personId m \<le> lastSeen personId (snd (arrival c personId at now m))"
  "0 < personId \<Longrightarrow> 0 < at \<Longrightarrow> at \<le> lastSeen personId (snd (arrival c personId at now m))"
  "0 \<le> lastSeen personId m \<Longrightarrow> 0 \<le> lastSeen personId (snd (arrival c personId at now m))"
  by (auto simp: arrival_def lastSeen_def arrival_touch_def Let_def split: option.splits)

lemma announced_after:
  assumes "0 < lastSeen personId m" "a \<in> set (announced c personId xs m)"
  shows "lastSeen personId m + ec_arrivalAbsenceS c \<le> a"
  using assms
proof (induction xs arbitrary: m)
  case (Cons x xs)
  obtain at now where x: "x = (at, now)" by (cases x)
  let ?m = "snd (arrival c personId at now m)"
  have l: "lastSeen personId m \<le> lastSeen personId ?m" by (rule arrival_seen)
  consider "a \<in> set (announced c personId xs ?m)" | "fst (arrival c personId at now m)" "a = at"
    using Cons.prems(2) x by (auto simp: split_def Let_def split: if_splits)
  then show ?case
  proof cases
    case 1
    then show ?thesis using Cons.IH [of ?m] Cons.prems(1) l by simp
  next
    case 2
    then show ?thesis using Cons.prems(1) by (auto simp: arrival_def Let_def split: if_splits)
  qed
qed simp

text \<open>
  One announcement per absence. However often and in whatever order the sightings of a person are delivered, two
  that are announced lie at least the absence apart, the later one announced later.
\<close>

theorem arrivals_announced_once:
  assumes "0 \<le> lastSeen personId m"
  shows "sorted_wrt (\<lambda>a b. a + ec_arrivalAbsenceS c \<le> b) (announced c personId xs m)"
  using assms
proof (induction xs arbitrary: m)
  case (Cons x xs)
  obtain at now where x: "x = (at, now)" by (cases x)
  let ?m = "snd (arrival c personId at now m)"
  have "sorted_wrt (\<lambda>a b. a + ec_arrivalAbsenceS c \<le> b) (announced c personId xs ?m)"
    by (rule Cons.IH) (rule arrival_seen(3) [OF Cons.prems])
  moreover have "at + ec_arrivalAbsenceS c \<le> b" if "fst (arrival c personId at now m)" "b \<in> set (announced c personId xs ?m)" for b
  proof -
    have "0 < personId" "0 < at" using that(1) by (auto simp: arrival_def split: if_splits)
    then have "at \<le> lastSeen personId ?m" by (rule arrival_seen(2))
    with announced_after [OF _ that(2)] \<open>0 < at\<close> show ?thesis by force
  qed
  ultimately show ?case using x by (simp add: split_def Let_def)
qed simp

lemma arrivals_announced_once_witness:
  "announced sample_config 5 [(100000, 100001), (100500, 100501), (100000, 100600), (120000, 120000)] (\<lambda>_. None) = [100000, 120000] \<and>
   sorted_wrt (\<lambda>a b. a + ec_arrivalAbsenceS sample_config \<le> b)
     (announced sample_config 5 [(100000, 100001), (100500, 100501), (100000, 100600), (120000, 120000)] (\<lambda>_. None))"
  using arrivals_announced_once [of 5 "\<lambda>_. None" sample_config "[(100000, 100001), (100500, 100501), (100000, 100600), (120000, 120000)]"]
  by (simp add: arrival_def lastSeen_def arrival_touch_def sample_config_def kArrivalStaleS_def)

end
