(* ===== verification/Spec2Isabelle.thy ===== *)
theory Spec2Isabelle
  imports Tunnel_Frames Link_Frames Credit_Window Client_Hello Base64 Push_Envelope Link_Properties Series_Window Guard_Belief Guard_Events
    Guard_Policy Guard_Risk Guard_Schedule Guard_Tamper Guard_Response Auth_Gate Sealed_Push Call_Engine
begin

text \<open>
  Verification of the Argus backend, a set of C++ services for a home: a tunnel that carries
  the traffic of the house to the cloud, a guard that judges what the cameras see, reminders and
  calendars, and the services around them.

  \<^bold>\<open>Parts and theories.\<close>
  \<^item> \<open>Prelude\<close>, \<open>Decimal\<close>, \<open>Text_Norm\<close>, \<open>Base64\<close>: bytes, machine integers, truncating division, numbers in
    text (\<open>std::from_chars\<close>, \<open>std::to_string\<close>), \<open>packages/lib/text\<close>.
  \<^item> \<open>Stream_Parser\<close>, \<open>Tunnel_Frames\<close>, \<open>Link_Frames\<close>: the two wire protocols of \<open>services/tunnel\<close>
    (\<open>protocol/frames.cc\<close>, \<open>link/protocol/frames.cc\<close>). \<open>Stream_Parser\<close> is a locale: from a
    description of one frame it proves that parsing is independent of how the bytes arrive, and
    both parsers interpret it.
  \<^item> \<open>Credit_Window\<close>: the flow control of a stream (\<open>link/protocol/credit-window.cc\<close>) and a
    step relation of its two ends.
  \<^item> \<open>Client_Hello\<close>: the routing of a TLS connection by its server name
    (\<open>link/protocol/client-hello.cc\<close>).
  \<^item> \<open>Push_Envelope\<close>: the sealed push of \<open>packages/contracts/push\<close>.
  \<^item> \<open>Link_State\<close>, \<open>Link_Channel\<close>, \<open>Link_Peer\<close>, \<open>Link_Client\<close>: the client that carries the streams of the
    house over one TLS link (\<open>link/client/link-client.cc\<close>) with the channel and the sockets it
    drives (\<open>link/tls/tls-channel.cc\<close>, \<open>net/tcp-peer.cc\<close>). The state is one record; channels and peers live in
    stores and are named by index. A callback may re-enter the client, so every operation takes the meaning of
    the calls that cross objects as an argument \<open>run\<close>; \<open>exec_call\<close> ties the knot and \<open>run_link\<close> bounds the nesting.
    What the system answers (\<open>send\<close>, \<open>SSL_write\<close>, the clock, random numbers) is part of the state.
  \<^item> \<open>Link_Safety\<close>, \<open>Link_Client_Safety\<close>, \<open>Link_Runs\<close>: the locale \<open>link_callbacks\<close> assumes that the calls keep the invariants and
    shows that every operation then does; \<open>run_link\<close> interprets it, so every reachable state of the client
    satisfies them. \<open>Link_Flush\<close>, \<open>Link_Properties\<close>: flushing, and what the client promises.
  \<^item> \<open>Calendar\<close>, \<open>Recurrence\<close>, \<open>Recurrence_Series\<close>, \<open>Occurrences\<close>, \<open>Series_Window\<close>: repeating
    events of \<open>services/productivity\<close> (\<open>recurrence.cc\<close>, \<open>occurrence-exceptions.cc\<close>,
    \<open>series-window.cc\<close>, \<open>reminder-series.cc\<close>). \<open>calendar_series\<close> is the locale of a series with a
    position on the calendar, which \<open>host_zone\<close>, the documented behaviour of \<open>localtime_r\<close> and \<open>mktime\<close>, makes of every series;
    \<open>offset_zone\<close> and \<open>eastern_zone\<close>, with the daylight saving of New York, are zones that keep it. \<open>change_map\<close>
    is the abstract map the exceptions implement.
  \<^item> \<open>Guard_Vocabulary\<close>, \<open>Guard_Policy\<close>, \<open>Guard_Risk\<close>, \<open>Guard_Belief\<close>, \<open>Guard_Tamper\<close>, \<open>Guard_Schedule\<close>,
    \<open>Guard_Events\<close>, \<open>Guard_Response\<close>: the decision modules of \<open>services/guard/src/feature/guard\<close>, the last one the plan
    of whom to call in which order (\<open>response-plan.cc\<close>).
  \<^item> \<open>Proxy_Allowlist\<close>, \<open>Rate_Limit\<close>, \<open>Auth_Gate\<close>: who a request comes from (\<open>packages/lib/auth\<close>) and how often it may
    come (the limiters of \<open>services/identity\<close> and \<open>services/auth\<close>).
  \<^item> \<open>Sealed_Push\<close>: the bridge from the message bus to the tunnel (\<open>services/tunnel/src/link/push\<close>), its ledger and its dispatcher.
  \<^item> \<open>Call_Policy\<close>, \<open>Row_Store\<close>, \<open>Call_Store\<close>, \<open>Call_Engine\<close>: the calls of \<open>services/notification/src/feature/call\<close>. \<open>Call_Policy\<close>
    decides whether somebody is called; \<open>Call_Store\<close> is the table of calls with one operation per SQL statement and one per
    transaction; \<open>Call_Engine\<close> is what \<open>call-engine.cc\<close> does over them. Requests of the engine interleave where they wait: an
    operation takes the steps of other requests at those points as an argument, and \<open>engine_step\<close> is the relation of all of
    them. \<open>row_store\<close> is the locale of a table whose rows are found by identifier and only move forward; it gives the life of a
    row under any sequence of steps, and \<open>Call_Store\<close> interprets it on the table of calls.

  \<^bold>\<open>What the lemmas show.\<close> Codecs: reading inverts writing, in both directions where the format
  is canonical, and nothing else is accepted. Parsers: chunking does not matter, buffers are
  bounded, a refusal is final. Flow control: a sender that keeps to its window is never refused and
  never stalls for lost credit. Link client: only a node with the pinned key is ever spoken to, streams and
  buffers stay within their limits, a client that is not stopped always has a sweep armed and a way back to
  the cloud, a dead link is dropped, and a flush over a channel that takes its bytes and carries no stale
  congestion mark sends every byte once and in order. Calendar: day numbers count days; in every zone of
  \<open>host_zone\<close>, daylight saving included, every search ends and returns the least occurrence after a moment.
  Exceptions: a refinement of a map, stored and read back.
  Guard: the danger grows with the risk, voice and alarm sound exactly when nobody is there who
  silences them, schedules are consistent, a plan reaches everybody. Requests: a forwarded address cannot be forged past the trusted
  proxies, a locked key stays locked, no window admits too much. Pushes: each settled once, none lost. Calls: one rings at a
  time, one session answers it, its state only moves forward, the engine only does what the transactions allow, and every
  answer it gives agrees with the table.

  \<^bold>\<open>Bounds and fuel.\<close> Loops are total functions, except in the link client, where a call that does not return within
  the nesting \<open>n\<close> of \<open>run_link n\<close> is \<open>None\<close>: the invariants hold for every \<open>n\<close>, and the theorems on sweeps, on the first
  frame and on flushing say which \<open>n\<close> is enough. The searches of a series are bounded by
  \<open>kMaxSearch\<close> and the theorems show that the bound is never reached; the loop of \<open>nextFiring\<close>
  makes one step more than there are exceptions, which is shown to be enough; a window lists at
  most \<open>kMaxSeriesOccurrences\<close>. Time stamps are bounded by \<open>10 ^ 12\<close> seconds, some thirty
  thousand years, where a theorem needs a bound to exclude overflow of the calendar.

  \<^bold>\<open>Parameters.\<close> Code that is not in the repository is an argument: the time zone of the host
  (\<open>localtime_r\<close>, \<open>mktime\<close>), jsoncpp (\<open>json_lib\<close> with \<open>json_laws\<close>), \<open>inet_pton\<close> and \<open>inet_ntop\<close>, SHA-256, the composition of
  characters by utf8proc, the repository of reminders, and the answers of sockets and OpenSSL to the link client,
  the directory of users, the texts of a call and the voice service for the call engine. SQLite is a list of rows; its
  transactions are single steps.

  \<^bold>\<open>Not modelled.\<close> Services that are input and output around libraries (camera, speech, vision,
  voice, language model), storage and request handling of the remaining services, the texts and the announcing
  threads of the call engine, the responses to alerts, the processes of the first tunnel and their sockets, the
  clients and the third-party code.
\<close>

section \<open>Properties that span components\<close>

text \<open>
  C30. The posture of the schedule, the judgement and the deterrence agree: while the house is armed
  by hand, whatever the schedule says, an unknown person who is not a passer-by, in an area that is not in
  use, is judged critical, and if besides the area is not quiet and the family not inside, voice and alarm
  answer.
\<close>

theorem armed_house_answers:
  fixes c :: guard_context and i :: guard_deterrence_input and s :: guard_schedule and t :: local_time
  assumes "hasUnknown c" "\<not> areaInUse c" "\<not> passerby c" "\<not> d_quietArea i" "\<not> d_familyInside i"
  defines "p \<equiv> resolve s Armed t"
  defines "c' \<equiv> c\<lparr>mode := p_mode p, publicPresent := p_publicPresent p, staffOnly := p_staffOnly p\<rparr>"
  shows "evaluate c' = Critical
    \<and> deterrence (i\<lparr>d_mode := mode c', d_danger := evaluate c', d_publicPresent := publicPresent c', d_staffOnly := staffOnly c'\<rparr>)
        = \<lparr>voice = True, alarm = True\<rparr>"
proof -
  have p: "p_mode p = Armed" "\<not> p_publicPresent p" "\<not> p_staffOnly p"
    by (simp_all add: p_def resolve_def posture_def)
  have "hardFloor c' = Critical"
    using p by (simp add: hardFloor_def c'_def Let_def max_def danger_order)
  then have "evaluate c' = Critical"
    using assms(1-3) p
    by (simp add: evaluate_def c'_def Let_def max_def min_def danger_order)
  then show ?thesis
    using assms(4,5) p by (simp add: deterrence_def c'_def Let_def dangerRank_def)
qed

definition example_context :: guard_context where
  "example_context =
     \<lparr>mode = Armed, rule = [], severity = [], hasKnown = False, hasUnknown = True, strangerCount = 1,
      accompaniedByResident = False, accompaniedByGuest = False, expectedGuest = True, inAlertZone = False,
      atNight = False, escalated = False, visitCount = 0, publicPresent = False, staffOnly = False,
      areaInUse = False, passerby = False, afterHours = False, watchlist = False\<rparr>"

theorem armed_house_answers_witness: "evaluate example_context = Critical"
  using armed_house_answers [of example_context
      "\<lparr>d_mode = Home, d_danger = Low, d_publicPresent = False, d_staffOnly = False, d_weapon = False,
       d_inAlertZone = False, d_encounterChecks = 0, d_quietArea = False, d_familyInside = False\<rparr>"
      "\<lparr>enabled = False, asleep = [], open_windows = [], staffed = [], closedMode = Home\<rparr>"
      "local_time.make 0 0 0"]
  by (simp add: resolve_def posture_def example_context_def)

end
